(* ===== verification/Prelude.thy ===== *)
theory Prelude
  imports Main "HOL-Library.Word"
begin

text \<open>
  Shared vocabulary of the development: the machine types of the modelled platform
  (LP64, two's complement, little differences between \<open>ngx_int_t\<close>, \<open>ssize_t\<close>,
  \<open>off_t\<close> and \<open>time_t\<close>, which all have 64 bits there), the return codes of
  \<^verbatim>\<open>src/core/ngx_core.h\<close>, the simplification collections and the lemmas on
  bytes, words and lists that several components use.

  A buffer given in C by a pointer and a length is a \<open>byte list\<close> of that length. A
  pointer into it is an offset. A function that may read outside the memory it is given
  returns an option, and \<open>None\<close> stands for such a read, so that absence of overreads is
  a statement of the form \<open>f x = Some y\<close>.
\<close>

unbundle bit_operations_syntax

section \<open>Machine types and return codes\<close>

type_synonym byte = "8 word"
type_synonym u32 = "32 word"
type_synonym ngx_uint_t = "64 word"
type_synonym ngx_int_t = "64 word"
type_synonym bytes = "byte list"
type_synonym ptr = nat

datatype ngx_rc = NGX_OK | NGX_ERROR | NGX_AGAIN | NGX_BUSY | NGX_DONE | NGX_DECLINED | NGX_ABORT

abbreviation (input) NULL :: ptr where
  "NULL \<equiv> 0"

text \<open>The code \<open>-1\<close> that the number readers return for \<open>NGX_ERROR\<close>.\<close>

abbreviation (input) int_error :: ngx_int_t where
  "int_error \<equiv> - 1"

text \<open>Text literals as bytes; \<open>''GET''\<close> becomes \<open>[0x47, 0x45, 0x54]\<close> by \<open>simp\<close>.\<close>

definition s2b :: "string \<Rightarrow> bytes" where
  "s2b s = map of_char s"

named_theorems s2b_simps
named_theorems byte_facts
named_theorems heap_simps

lemma s2b_Nil [simp]: "s2b [] = []"
  by (simp add: s2b_def)

lemma s2b_Cons [simp]: "s2b (c # cs) = of_char c # s2b cs"
  by (simp add: s2b_def)

lemma length_s2b [simp]: "length (s2b s) = length s"
  by (simp add: s2b_def)

section \<open>Bytes\<close>

lemma unat_byte_less [simp]: "unat (c :: byte) < 256"
  using unsigned_less [of c] by simp

lemma all_byte_iff: "(\<forall>c :: byte. P c) \<longleftrightarrow> (\<forall>i \<in> set [0..<256]. P (of_nat i))"
proof
  assume *: "\<forall>i \<in> set [0..<256]. P (of_nat i)"
  show "\<forall>c. P c"
  proof
    fix c :: byte
    have "unat c \<in> set [0..<256]" by simp
    with * have "P (of_nat (unat c))" by blast
    then show "P c" by simp
  qed
qed simp

text \<open>Character constants of the source, as numerals (input abbreviations only).\<close>

abbreviation (input) ch_NUL :: byte where "ch_NUL \<equiv> 0x00"
abbreviation (input) ch_LF :: byte where "ch_LF \<equiv> 0x0A"
abbreviation (input) ch_CR :: byte where "ch_CR \<equiv> 0x0D"
abbreviation (input) ch_SP :: byte where "ch_SP \<equiv> 0x20"
abbreviation (input) ch_hash :: byte where "ch_hash \<equiv> 0x23"
abbreviation (input) ch_percent :: byte where "ch_percent \<equiv> 0x25"
abbreviation (input) ch_amp :: byte where "ch_amp \<equiv> 0x26"
abbreviation (input) ch_plus :: byte where "ch_plus \<equiv> 0x2B"
abbreviation (input) ch_comma :: byte where "ch_comma \<equiv> 0x2C"
abbreviation (input) ch_minus :: byte where "ch_minus \<equiv> 0x2D"
abbreviation (input) ch_dot :: byte where "ch_dot \<equiv> 0x2E"
abbreviation (input) ch_slash :: byte where "ch_slash \<equiv> 0x2F"
abbreviation (input) ch_0 :: byte where "ch_0 \<equiv> 0x30"
abbreviation (input) ch_1 :: byte where "ch_1 \<equiv> 0x31"
abbreviation (input) ch_9 :: byte where "ch_9 \<equiv> 0x39"
abbreviation (input) ch_colon :: byte where "ch_colon \<equiv> 0x3A"
abbreviation (input) ch_semicolon :: byte where "ch_semicolon \<equiv> 0x3B"
abbreviation (input) ch_equals :: byte where "ch_equals \<equiv> 0x3D"
abbreviation (input) ch_qmark :: byte where "ch_qmark \<equiv> 0x3F"
abbreviation (input) ch_A :: byte where "ch_A \<equiv> 0x41"
abbreviation (input) ch_H :: byte where "ch_H \<equiv> 0x48"
abbreviation (input) ch_P :: byte where "ch_P \<equiv> 0x50"
abbreviation (input) ch_T :: byte where "ch_T \<equiv> 0x54"
abbreviation (input) ch_Z :: byte where "ch_Z \<equiv> 0x5A"
abbreviation (input) ch_lbracket :: byte where "ch_lbracket \<equiv> 0x5B"
abbreviation (input) ch_rbracket :: byte where "ch_rbracket \<equiv> 0x5D"
abbreviation (input) ch_underscore :: byte where "ch_underscore \<equiv> 0x5F"
abbreviation (input) ch_a :: byte where "ch_a \<equiv> 0x61"
abbreviation (input) ch_f :: byte where "ch_f \<equiv> 0x66"
abbreviation (input) ch_z :: byte where "ch_z \<equiv> 0x7A"

section \<open>Lists\<close>

text \<open>The bytes from offset \<open>a\<close> up to, not including, offset \<open>b\<close>.\<close>

definition subarray :: "'a list \<Rightarrow> nat \<Rightarrow> nat \<Rightarrow> 'a list" where
  "subarray xs a b = take (b - a) (drop a xs)"

lemma length_subarray [simp]: "length (subarray xs a b) = min (b - a) (length xs - a)"
  by (simp add: subarray_def min.commute)

lemma nth_subarray [simp]: "i < b - a \<Longrightarrow> b \<le> length xs \<Longrightarrow> subarray xs a b ! i = xs ! (a + i)"
  by (simp add: subarray_def)

lemma subarray_append_right [simp]: "b \<le> length xs \<Longrightarrow> subarray (xs @ ys) a b = subarray xs a b"
  by (cases "a \<le> length xs") (simp_all add: subarray_def)

lemma set_subarray: "b \<le> length xs \<Longrightarrow> set (subarray xs a b) = (\<lambda>i. xs ! i) ` {a..<b}"
proof -
  assume b: "b \<le> length xs"
  have "set (subarray xs a b) = {subarray xs a b ! i |i. i < length (subarray xs a b)}"
    by (rule set_conv_nth)
  also have "\<dots> = (\<lambda>i. xs ! i) ` {a..<b}"
  proof (intro set_eqI iffI)
    fix x assume "x \<in> (\<lambda>i. xs ! i) ` {a..<b}"
    then obtain i where i: "a \<le> i" "i < b" "x = xs ! i" by auto
    then have "x = subarray xs a b ! (i - a)" and "i - a < length (subarray xs a b)"
      using b by auto
    then show "x \<in> {subarray xs a b ! i |i. i < length (subarray xs a b)}" by blast
  qed (use b in auto)
  finally show ?thesis .
qed

section \<open>Words\<close>

lemma unat_word_less: "unat (w :: 'a::len word) < 2 ^ LENGTH('a)"
  by (rule unsigned_less)

lemma of_nat_unat_id: "of_nat (unat w) = (w :: 'a::len word)"
  by simp

lemma unat_div_shrink:
  fixes w :: "'a::len word"
  assumes "w div 10 \<noteq> 0" and "unat (10 :: 'a word) = 10"
  shows "unat w div 10 < unat w"
proof -
  have "unat w div 10 \<noteq> 0"
    using assms by (metis unat_div unat_eq_0)
  then show ?thesis by simp
qed

lemma unat_drop_bit_shrink:
  fixes w :: "'a::len word"
  assumes "drop_bit 4 w \<noteq> 0"
  shows "unat (drop_bit 4 w) < unat w"
proof -
  have *: "unat (drop_bit 4 w) = unat w div 16"
    by (subst unat_drop_bit_eq) (simp add: drop_bit_eq_div)
  moreover have "unat (drop_bit 4 w) \<noteq> 0"
    using assms by (simp only: unat_eq_0 not_False_eq_True)
  ultimately show ?thesis
    using div_less_dividend [of 16 "unat w"] by linarith
qed

lemma unat_ucast_widen:
  fixes w :: "'a::len word"
  assumes "LENGTH('a) \<le> LENGTH('b::len)"
  shows "unat (ucast w :: 'b word) = unat w"
proof -
  have "unat w < 2 ^ LENGTH('b)"
    using unat_word_less [of w] assms by (meson less_le_trans one_le_numeral power_increasing)
  then show ?thesis by (simp only: unsigned_ucast_eq take_bit_nat_eq_self)
qed

lemma unat_ucast_byte [simp]:
  "unat (ucast (c :: byte) :: 64 word) = unat c" "unat (ucast (c :: byte) :: 32 word) = unat c"
  "unat (ucast (c :: byte) :: 16 word) = unat c" "unat (ucast (h :: 16 word) :: 64 word) = unat h"
  "unat (ucast (v :: 32 word) :: 64 word) = unat v"
  by (rule unat_ucast_widen, simp)+

lemma sless_zero_iff: "(w :: 64 word) <s 0 \<longleftrightarrow> 2 ^ 63 \<le> unat w"
proof -
  have "w <s 0 \<longleftrightarrow> bit w 63"
    using bit_last_iff [of w] by (simp add: word_sless_alt)
  also have "\<dots> \<longleftrightarrow> odd (unat w div 2 ^ 63)"
    by (metis bit_iff_odd bit_unsigned_iff possible_bit_nat)
  also have "\<dots> \<longleftrightarrow> 2 ^ 63 \<le> unat w"
  proof -
    have "unat w div 2 ^ 63 < 2"
      using unat_word_less [of w] by (simp add: less_mult_imp_div_less)
    then show ?thesis
      by (cases "unat w div 2 ^ 63") (auto simp: div_eq_0_iff)
  qed
  finally show ?thesis .
qed

lemma sless_unat:
  assumes "unat (a :: 64 word) < 2 ^ 63" and "unat (b :: 64 word) < 2 ^ 63"
  shows "a <s b \<longleftrightarrow> unat a < unat b"
proof -
  have st: "signed_take_bit 63 (int n) = int n" if "n < 2 ^ 63" for n
    using that by (intro signed_take_bit_int_eq_self) simp_all
  have s: "sint w = int (unat w)" if "unat w < 2 ^ 63" for w :: "64 word"
    using st [OF that] unfolding sint_uint uint_nat by simp
  show ?thesis unfolding word_sless_alt s [OF assms(1)] s [OF assms(2)] by (rule of_nat_less_iff)
qed

lemma unat_of_nat64: "n < 2 ^ 64 \<Longrightarrow> unat (of_nat n :: 64 word) = n"
  by (simp add: unat_of_nat)

section \<open>Bitmaps over bytes\<close>

text \<open>
  The test \<^verbatim>\<open>map[ch >> 5] & (1 << (ch & 0x1f))\<close> on a table of eight 32-bit words,
  used by the URI parsers and the escaping functions.
\<close>

definition bitmap_test :: "u32 list \<Rightarrow> byte \<Rightarrow> bool" where
  "bitmap_test tab ch \<longleftrightarrow> tab ! unat (drop_bit 5 ch) AND push_bit (unat (ch AND 0x1f)) 1 \<noteq> 0"

lemma unat_and_31: "unat ((c :: byte) AND 0x1f) = unat c mod 32"
proof -
  have "c AND 0x1f = take_bit 5 c" by (simp add: take_bit_eq_mask mask_eq_exp_minus_1)
  then show ?thesis by (simp add: unsigned_take_bit_eq take_bit_eq_mod unat_mod)
qed

lemma bitmap_test_bit: "bitmap_test tab ch \<longleftrightarrow> bit (tab ! (unat ch div 32)) (unat ch mod 32)"
proof -
  have "unat (drop_bit 5 ch) = unat ch div 32"
    by (subst unat_drop_bit_eq) (simp add: drop_bit_eq_div)
  then show ?thesis
    by (simp add: bitmap_test_def unat_and_31 bit_iff_and_push_bit_not_eq_0)
qed

text \<open>The set of bytes below which a table entry is decided, entry by entry.\<close>

lemma list_all_upt: "list_all P [0..<n] \<Longrightarrow> k < n \<Longrightarrow> P k"
  by (simp add: list_all_iff)

lemma bitmap_row:
  assumes "list_all (\<lambda>n. bit (tab ! i) n \<longleftrightarrow> P (32 * i + n)) [0..<32]" and "unat ch div 32 = i"
  shows "bitmap_test tab ch \<longleftrightarrow> P (unat ch)"
proof -
  have "bit (tab ! i) (unat ch mod 32) \<longleftrightarrow> P (32 * i + unat ch mod 32)"
    by (rule list_all_upt [OF assms(1)]) simp
  moreover have "32 * i + unat ch mod 32 = unat ch"
    using assms(2) by (metis mult.commute div_mult_mod_eq)
  ultimately show ?thesis by (simp add: bitmap_test_bit assms(2))
qed

lemma bitmap_ones: "list_all (\<lambda>n. bit (0xffffffff :: u32) n) [0..<32]"
  by (simp add: upt_conv_Cons)

lemma bitmap_zeros: "list_all (\<lambda>n. \<not> bit (0 :: u32) n) [0..<32]"
  by (simp add: upt_conv_Cons)

lemma byte_div_32: "unat (ch :: byte) div 32 < 8"
  using unat_byte_less [of ch] by (simp add: less_mult_imp_div_less)

end
