(* ===== verification/NgxNumber.thy ===== *)
theory NgxNumber
  imports Prelude
begin

text \<open>
  The number readers and the number printer of \<^verbatim>\<open>src/core/ngx_string.c\<close>:
  \<open>ngx_atoi\<close>, \<open>ngx_atosz\<close>, \<open>ngx_atoof\<close>, \<open>ngx_atotm\<close>, \<open>ngx_atofp\<close>,
  \<open>ngx_hextoi\<close> and \<open>ngx_sprintf_num\<close>. The accumulator \<open>value\<close> keeps its 64 bits
  and wraps around, as the compiled code does; \<open>value < 0\<close> is the sign of the word.
\<close>

section \<open>Definitions\<close>

definition is_digit :: "byte \<Rightarrow> bool" where
  "is_digit c \<longleftrightarrow> 0x30 \<le> c \<and> c \<le> 0x39"

text \<open>The loop shared by the decimal readers; \<open>None\<close> is the early \<open>return NGX_ERROR\<close>.\<close>

fun ngx_ato_loop :: "bytes \<Rightarrow> ngx_int_t \<Rightarrow> ngx_int_t option" where
  "ngx_ato_loop [] value = Some value"
| "ngx_ato_loop (c # line) value =
     (if c < 0x30 \<or> c > 0x39 then None
      else ngx_ato_loop line (value * 10 + ucast (c - 0x30)))"

definition ngx_atoi :: "bytes \<Rightarrow> ngx_int_t" where
  "ngx_atoi line =
     (if line = [] then int_error
      else case ngx_ato_loop line 0 of
             None \<Rightarrow> int_error
           | Some value \<Rightarrow> if value <s 0 then int_error else value)"

definition ngx_atosz :: "bytes \<Rightarrow> ngx_int_t" where
  "ngx_atosz line =
     (if line = [] then int_error
      else case ngx_ato_loop line 0 of
             None \<Rightarrow> int_error
           | Some value \<Rightarrow> if value <s 0 then int_error else value)"

definition ngx_atoof :: "bytes \<Rightarrow> ngx_int_t" where
  "ngx_atoof line =
     (if line = [] then int_error
      else case ngx_ato_loop line 0 of
             None \<Rightarrow> int_error
           | Some value \<Rightarrow> if value <s 0 then int_error else value)"

definition ngx_atotm :: "bytes \<Rightarrow> ngx_int_t" where
  "ngx_atotm line =
     (if line = [] then int_error
      else case ngx_ato_loop line 0 of
             None \<Rightarrow> int_error
           | Some value \<Rightarrow> if value <s 0 then int_error else value)"

text \<open>
  \<open>ngx_atofp\<close>: the loop carries \<open>value\<close>, \<open>point\<close> and \<open>dot\<close>. \<open>point\<close> is
  decremented only where it has just been checked to be positive, so \<open>nat\<close> does not
  truncate.
\<close>

fun ngx_atofp_loop ::
  "bytes \<Rightarrow> ngx_int_t \<Rightarrow> nat \<Rightarrow> nat \<Rightarrow> (ngx_int_t \<times> nat) option" where
  "ngx_atofp_loop [] value point dot = Some (value, point)"
| "ngx_atofp_loop (c # line) value point dot =
     (if point = 0 then None
      else if c = 0x2E then (if dot \<noteq> 0 then None else ngx_atofp_loop line value point 1)
      else if c < 0x30 \<or> c > 0x39 then None
      else ngx_atofp_loop line (value * 10 + ucast (c - 0x30)) (point - dot) dot)"

primrec ngx_atofp_scale :: "nat \<Rightarrow> ngx_int_t \<Rightarrow> ngx_int_t" where
  "ngx_atofp_scale 0 value = value"
| "ngx_atofp_scale (Suc point) value = ngx_atofp_scale point (value * 10)"

definition ngx_atofp :: "bytes \<Rightarrow> nat \<Rightarrow> ngx_int_t" where
  "ngx_atofp line point =
     (if line = [] then int_error
      else case ngx_atofp_loop line 0 point 0 of
             None \<Rightarrow> int_error
           | Some (value, point') \<Rightarrow>
               (let value' = ngx_atofp_scale point' value
                in if value' <s 0 then int_error else value'))"

fun ngx_hextoi_loop :: "bytes \<Rightarrow> ngx_int_t \<Rightarrow> ngx_int_t option" where
  "ngx_hextoi_loop [] value = Some value"
| "ngx_hextoi_loop (ch # line) value =
     (if ch \<ge> 0x30 \<and> ch \<le> 0x39 then ngx_hextoi_loop line (value * 16 + ucast (ch - 0x30))
      else let c = ch OR 0x20 in
        if c \<ge> 0x61 \<and> c \<le> 0x66 then ngx_hextoi_loop line (value * 16 + ucast (c - 0x61 + 10))
        else None)"

definition ngx_hextoi :: "bytes \<Rightarrow> ngx_int_t" where
  "ngx_hextoi line =
     (if line = [] then int_error
      else case ngx_hextoi_loop line 0 of
             None \<Rightarrow> int_error
           | Some value \<Rightarrow> if value <s 0 then int_error else value)"

text \<open>
  The printer. \<open>temp\<close> is filled backwards, so the loop conses; \<open>hexadecimal\<close> selects
  decimal (0), lower-case (1) or upper-case (2) hexadecimal digits. \<open>room\<close> is
  \<open>last - buf\<close>: the result is the bytes written from \<open>buf\<close> on.
\<close>

definition NGX_INT64_LEN :: nat where
  "NGX_INT64_LEN = 20"

definition hex_lower :: bytes where
  "hex_lower = s2b ''0123456789abcdef''"

definition hex_upper :: bytes where
  "hex_upper = s2b ''0123456789ABCDEF''"

function dec_loop32 :: "u32 \<Rightarrow> bytes \<Rightarrow> bytes" where
  "dec_loop32 ui32 p =
     (let p' = ucast (ui32 mod 10 + 0x30) # p
      in if ui32 div 10 = 0 then p' else dec_loop32 (ui32 div 10) p')"
  by pat_completeness auto
termination
  by (relation "measure (\<lambda>(ui, p). unat ui)") (auto simp: unat_div unat_div_shrink)

function dec_loop64 :: "64 word \<Rightarrow> bytes \<Rightarrow> bytes" where
  "dec_loop64 ui64 p =
     (let p' = ucast (ui64 mod 10 + 0x30) # p
      in if ui64 div 10 = 0 then p' else dec_loop64 (ui64 div 10) p')"
  by pat_completeness auto
termination
  by (relation "measure (\<lambda>(ui, p). unat ui)") (auto simp: unat_div unat_div_shrink)

function hex_loop :: "bytes \<Rightarrow> 64 word \<Rightarrow> bytes \<Rightarrow> bytes" where
  "hex_loop hex ui64 p =
     (let p' = hex ! unat (ui64 AND 0xf) # p
      in if drop_bit 4 ui64 = 0 then p' else hex_loop hex (drop_bit 4 ui64) p')"
  by pat_completeness auto
termination
  by (relation "measure (\<lambda>(hex, ui, p). unat ui)") (auto simp: unat_drop_bit_shrink)

declare dec_loop32.simps [simp del] dec_loop64.simps [simp del] hex_loop.simps [simp del]

definition sprintf_digits :: "64 word \<Rightarrow> nat \<Rightarrow> bytes" where
  "sprintf_digits ui64 hexadecimal =
     (if hexadecimal = 0
      then if ui64 \<le> 0xffffffff then dec_loop32 (ucast ui64) [] else dec_loop64 ui64 []
      else if hexadecimal = 1 then hex_loop hex_lower ui64 []
      else hex_loop hex_upper ui64 [])"

definition ngx_sprintf_num :: "nat \<Rightarrow> 64 word \<Rightarrow> byte \<Rightarrow> nat \<Rightarrow> nat \<Rightarrow> bytes" where
  "ngx_sprintf_num room ui64 zero hexadecimal width =
     (let p = sprintf_digits ui64 hexadecimal;
          len = length p;
          pad = min (width - len) room;
          len' = (if pad + len > room then room - pad else len)
      in replicate pad zero @ take len' p)"

section \<open>Decimal values\<close>

definition dec_val :: "bytes \<Rightarrow> nat" where
  "dec_val cs = foldl (\<lambda>a c. a * 10 + unat (c - 0x30)) 0 cs"

lemma dec_val_Nil [simp]: "dec_val [] = 0"
  by (simp add: dec_val_def)

lemma dec_val_snoc [simp]: "dec_val (cs @ [c]) = dec_val cs * 10 + unat (c - 0x30)"
  by (simp add: dec_val_def)

lemma foldl_dec: "foldl (\<lambda>a c. a * 10 + f c) a cs = a * 10 ^ length cs + foldl (\<lambda>a c. a * 10 + f c) (0 :: nat) cs"
  by (induction cs rule: rev_induct) (simp_all add: algebra_simps)

lemma dec_val_append: "dec_val (xs @ ys) = dec_val xs * 10 ^ length ys + dec_val ys"
  unfolding dec_val_def foldl_append by (rule foldl_dec)

lemma dec_val_zeros [simp]: "dec_val (replicate n 0x30) = 0"
  by (induction n) (simp_all add: replicate_append_same [symmetric] del: replicate_append_same)

lemma is_digit_iff: "is_digit c \<longleftrightarrow> \<not> (c < 0x30 \<or> c > 0x39)"
  by (auto simp: is_digit_def not_less)

lemma ngx_ato_loop_digits:
  "list_all is_digit cs \<Longrightarrow>
   ngx_ato_loop cs (of_nat a) = Some (of_nat (foldl (\<lambda>a c. a * 10 + unat (c - 0x30)) a cs))"
proof (induction cs arbitrary: a)
  case (Cons c cs)
  have "of_nat a * 10 + ucast (c - 0x30) = (of_nat (a * 10 + unat (c - 0x30)) :: ngx_int_t)"
    by simp
  with Cons show ?case
    by (simp add: is_digit_iff del: of_nat_add of_nat_mult)
qed simp

lemma ngx_ato_loop_error: "\<not> list_all is_digit cs \<Longrightarrow> ngx_ato_loop cs v = None"
  by (induction cs arbitrary: v) (auto simp: is_digit_iff)

lemma ngx_ato_loop_eq:
  "ngx_ato_loop cs 0 = (if list_all is_digit cs then Some (of_nat (dec_val cs)) else None)"
  using ngx_ato_loop_digits [of cs 0] ngx_ato_loop_error [of cs 0] by (simp add: dec_val_def)

lemma ngx_atoi_eq:
  "ngx_atoi line =
     (if line = [] \<or> \<not> list_all is_digit line \<or> 2 ^ 63 \<le> dec_val line mod 2 ^ 64
      then int_error else of_nat (dec_val line))"
  by (simp add: ngx_atoi_def ngx_ato_loop_eq sless_zero_iff unat_of_nat)

lemma ngx_atosz_eq: "ngx_atosz = ngx_atoi"
  by (simp add: fun_eq_iff ngx_atoi_def ngx_atosz_def)

lemma ngx_atoof_eq: "ngx_atoof = ngx_atoi"
  by (simp add: fun_eq_iff ngx_atoi_def ngx_atoof_def)

lemma ngx_atotm_eq: "ngx_atotm = ngx_atoi"
  by (simp add: fun_eq_iff ngx_atoi_def ngx_atotm_def)

lemma ngx_atoi_exact:
  assumes "line \<noteq> []" and "list_all is_digit line" and "dec_val line < 2 ^ 63"
  shows "ngx_atoi line = of_nat (dec_val line)" and "unat (ngx_atoi line) = dec_val line"
proof -
  have "dec_val line mod 2 ^ 64 = dec_val line"
    using assms(3) by (intro mod_less) simp
  with assms show *: "ngx_atoi line = of_nat (dec_val line)"
    by (simp add: ngx_atoi_eq)
  show "unat (ngx_atoi line) = dec_val line"
    unfolding * using assms(3) by (intro unat_of_nat64) simp
qed

section \<open>Printing and reading back\<close>

text \<open>The decimal loops as one specification on natural numbers.\<close>

fun dec_spec :: "nat \<Rightarrow> bytes" where
  "dec_spec n = (if n < 10 then [of_nat n + 0x30] else dec_spec (n div 10) @ [of_nat (n mod 10) + 0x30])"

declare dec_spec.simps [simp del]

lemma ucast_digit:
  fixes w :: "'a::len word"
  assumes "unat (10 :: 'a word) = 10" and "8 \<le> LENGTH('a)"
  shows "(ucast (w mod 10 + 0x30) :: byte) = of_nat (unat w mod 10) + 0x30"
proof -
  have "w mod 10 = of_nat (unat w mod 10)"
    using assms(1) by (metis unat_mod of_nat_unat_id)
  then have "(ucast (w mod 10 + 0x30) :: byte) = ucast (of_nat (unat w mod 10 + 0x30) :: 'a word)"
    by simp
  also have "\<dots> = of_nat (take_bit LENGTH('a) (unat w mod 10 + 0x30))"
    by (simp only: unsigned_of_nat)
  also have "take_bit LENGTH('a) (unat w mod 10 + 0x30) = unat w mod 10 + 0x30"
  proof (rule take_bit_nat_eq_self)
    have "unat w mod 10 + 0x30 < (2 :: nat) ^ 8" by simp
    also have "\<dots> \<le> 2 ^ LENGTH('a)" using assms(2) by (rule power_increasing) simp
    finally show "unat w mod 10 + 0x30 < 2 ^ LENGTH('a)" .
  qed
  finally show ?thesis by simp
qed

lemma dec_loop32_eq: "dec_loop32 w p = dec_spec (unat w) @ p"
proof (induction w p rule: dec_loop32.induct)
  case (1 w p)
  show ?case
    using "1.IH"
    by (subst dec_loop32.simps, subst dec_spec.simps)
      (auto simp: Let_def ucast_digit unat_div unat_eq_0 [symmetric] div_eq_0_iff simp del: unat_eq_0)
qed

lemma dec_loop64_eq: "dec_loop64 w p = dec_spec (unat w) @ p"
proof (induction w p rule: dec_loop64.induct)
  case (1 w p)
  show ?case
    using "1.IH"
    by (subst dec_loop64.simps, subst dec_spec.simps)
      (auto simp: Let_def ucast_digit unat_div unat_eq_0 [symmetric] div_eq_0_iff simp del: unat_eq_0)
qed

lemma sprintf_digits_dec: "sprintf_digits v 0 = dec_spec (unat v)"
proof (cases "v \<le> 0xffffffff")
  case True
  then have "unat v < 2 ^ 32"
    by (simp add: word_le_nat_alt)
  then have "unat (ucast v :: u32) = unat v"
    by (simp add: unsigned_ucast_eq take_bit_nat_eq_self)
  with True show ?thesis by (simp add: sprintf_digits_def dec_loop32_eq)
qed (simp add: sprintf_digits_def dec_loop64_eq)

lemma digit_byte:
  assumes "n < 10"
  shows "is_digit (of_nat n + 0x30)" and "unat ((of_nat n + 0x30 :: byte) - 0x30) = n"
proof -
  have "unat (of_nat n + 0x30 :: byte) = n + 48"
    using assms by (simp add: unat_word_ariths unat_of_nat)
  then show "is_digit (of_nat n + 0x30)"
    using assms by (simp add: is_digit_def word_le_nat_alt)
  show "unat ((of_nat n + 0x30 :: byte) - 0x30) = n"
    using assms by (simp add: unat_of_nat)
qed

lemma dec_spec_digits: "list_all is_digit (dec_spec n)"
proof (induction n rule: dec_spec.induct)
  case (1 n)
  then show ?case by (subst dec_spec.simps) (auto simp: digit_byte)
qed

lemma dec_val_spec [simp]: "dec_val (dec_spec n) = n"
proof (induction n rule: dec_spec.induct)
  case (1 n)
  have one: "dec_val [c] = unat (c - 0x30)" for c
    by (simp add: dec_val_def)
  from 1 show ?case by (subst dec_spec.simps) (auto simp: one unat_of_nat)
qed

lemma dec_spec_nonempty [simp]: "dec_spec n \<noteq> []"
  by (subst dec_spec.simps) simp

lemma length_dec_spec: "n < 10 ^ Suc k \<Longrightarrow> length (dec_spec n) \<le> Suc k"
proof (induction k arbitrary: n)
  case 0
  then show ?case by (subst dec_spec.simps) simp
next
  case (Suc k)
  then have "n div 10 < 10 ^ Suc k" by (simp add: less_mult_imp_div_less)
  then have "length (dec_spec (n div 10)) \<le> Suc k" by (rule Suc.IH)
  then show ?case by (subst dec_spec.simps) simp
qed

lemma length_dec_spec64: "length (dec_spec (unat (v :: 64 word))) \<le> NGX_INT64_LEN"
proof -
  have "unat v < 10 ^ Suc 19" using unat_word_less [of v] by simp
  then show ?thesis using length_dec_spec [of "unat v" 19] by (simp add: NGX_INT64_LEN_def)
qed

lemma ngx_sprintf_num_fits:
  assumes "max width (length (sprintf_digits v hexadecimal)) \<le> room"
  shows "ngx_sprintf_num room v zero hexadecimal width =
    replicate (width - length (sprintf_digits v hexadecimal)) zero @ sprintf_digits v hexadecimal"
proof -
  have "min (width - length (sprintf_digits v hexadecimal)) room
      = width - length (sprintf_digits v hexadecimal)"
    using assms by linarith
  moreover have "\<not> width - length (sprintf_digits v hexadecimal)
      + length (sprintf_digits v hexadecimal) > room"
    using assms by linarith
  ultimately show ?thesis by (simp add: ngx_sprintf_num_def Let_def)
qed

subsection \<open>Hexadecimal\<close>

text \<open>Value of one hexadecimal digit as \<open>ngx_hextoi\<close> reads it.\<close>

definition hex_digit :: "byte \<Rightarrow> nat option" where
  "hex_digit ch =
     (if ch \<ge> 0x30 \<and> ch \<le> 0x39 then Some (unat (ch - 0x30))
      else let c = ch OR 0x20 in if c \<ge> 0x61 \<and> c \<le> 0x66 then Some (unat (c - 0x61 + 10)) else None)"

definition hex_val :: "bytes \<Rightarrow> nat" where
  "hex_val cs = foldl (\<lambda>a c. a * 16 + the (hex_digit c)) 0 cs"

lemma ngx_hextoi_loop_digits:
  "list_all (\<lambda>c. hex_digit c \<noteq> None) cs \<Longrightarrow>
   ngx_hextoi_loop cs (of_nat a) = Some (of_nat (foldl (\<lambda>a c. a * 16 + the (hex_digit c)) a cs))"
proof (induction cs arbitrary: a)
  case (Cons c cs)
  then obtain d where d: "hex_digit c = Some d" by auto
  have "ngx_hextoi_loop (c # cs) (of_nat a) = ngx_hextoi_loop cs (of_nat (a * 16 + d))"
    using d by (auto simp: hex_digit_def Let_def split: if_splits)
  with Cons d show ?case by (simp del: of_nat_add of_nat_mult)
qed simp

lemma ngx_hextoi_loop_error:
  "\<not> list_all (\<lambda>c. hex_digit c \<noteq> None) cs \<Longrightarrow> ngx_hextoi_loop cs v = None"
  by (induction cs arbitrary: v) (auto simp: hex_digit_def Let_def)

lemma ngx_hextoi_eq:
  "ngx_hextoi line =
     (if line = [] \<or> \<not> list_all (\<lambda>c. hex_digit c \<noteq> None) line \<or> 2 ^ 63 \<le> hex_val line mod 2 ^ 64
      then int_error else of_nat (hex_val line))"
proof (cases "list_all (\<lambda>c. hex_digit c \<noteq> None) line")
  case True
  then show ?thesis
    using ngx_hextoi_loop_digits [of line 0]
    by (simp add: ngx_hextoi_def sless_zero_iff unat_of_nat hex_val_def)
next
  case False
  then show ?thesis by (simp add: ngx_hextoi_def ngx_hextoi_loop_error)
qed

definition hex_table_ok :: "bytes \<Rightarrow> bool" where
  "hex_table_ok hex \<longleftrightarrow> length hex = 16 \<and> (\<forall>i < 16. hex_digit (hex ! i) = Some i)"

lemma hex_table_check:
  "length hex = 16 \<Longrightarrow> map hex_digit hex = map Some [0..<16] \<Longrightarrow> hex_table_ok hex"
  unfolding hex_table_ok_def by (metis add_0 diff_zero length_upt nth_map nth_upt)

lemma hex_lower_ok: "hex_table_ok hex_lower"
  by (rule hex_table_check) (simp_all add: hex_lower_def hex_digit_def upt_conv_Cons)

lemma hex_upper_ok: "hex_table_ok hex_upper"
  by (rule hex_table_check) (simp_all add: hex_upper_def hex_digit_def upt_conv_Cons)

fun hex_spec :: "bytes \<Rightarrow> nat \<Rightarrow> bytes" where
  "hex_spec hex n = (if n < 16 then [hex ! n] else hex_spec hex (n div 16) @ [hex ! (n mod 16)])"

declare hex_spec.simps [simp del]

lemma unat_and_15: "unat ((w :: 64 word) AND 0xf) = unat w mod 16"
proof -
  have "w AND 0xf = take_bit 4 w" by (simp add: take_bit_eq_mask mask_eq_exp_minus_1)
  then show ?thesis by (simp add: unsigned_take_bit_eq take_bit_eq_mod unat_mod)
qed

lemma hex_loop_eq: "hex_loop hex w p = hex_spec hex (unat w) @ p"
proof (induction hex w p rule: hex_loop.induct)
  case (1 hex w p)
  have d: "unat (drop_bit 4 w) = unat w div 16"
    by (subst unat_drop_bit_eq) (simp add: drop_bit_eq_div)
  have z: "drop_bit 4 w = 0 \<longleftrightarrow> unat w < 16"
    using d by (metis div_eq_0_iff unat_eq_0 zero_neq_numeral)
  show ?case
    using "1.IH" d
    by (subst hex_loop.simps, subst hex_spec.simps)
      (simp add: Let_def unat_and_15 z [unfolded drop_bit_eq_div] z)
qed

lemma hex_spec_nonempty [simp]: "hex_spec hex n \<noteq> []"
  by (subst hex_spec.simps) simp

lemma hex_spec_digits:
  "hex_table_ok hex \<Longrightarrow> list_all (\<lambda>c. hex_digit c \<noteq> None) (hex_spec hex n)"
proof (induction hex n rule: hex_spec.induct)
  case (1 hex n)
  then show ?case by (subst hex_spec.simps) (auto simp: hex_table_ok_def)
qed

lemma hex_val_spec: "hex_table_ok hex \<Longrightarrow> hex_val (hex_spec hex n) = n"
proof (induction hex n rule: hex_spec.induct)
  case (1 hex n)
  then show ?case
    by (subst hex_spec.simps) (auto simp: hex_table_ok_def hex_val_def)
qed

lemma hex_val_zeros: "hex_val (replicate n 0x30 @ cs) = hex_val cs"
  by (induction n) (simp_all add: hex_val_def hex_digit_def)

lemma length_hex_spec: "n < 16 ^ Suc k \<Longrightarrow> length (hex_spec hex n) \<le> Suc k"
proof (induction k arbitrary: n)
  case 0
  then show ?case by (subst hex_spec.simps) simp
next
  case (Suc k)
  then have "n div 16 < 16 ^ Suc k" by (simp add: less_mult_imp_div_less)
  then have "length (hex_spec hex (n div 16)) \<le> Suc k" by (rule Suc.IH)
  then show ?case by (subst hex_spec.simps) simp
qed

lemma sprintf_digits_hex:
  "hexadecimal \<noteq> 0 \<Longrightarrow>
   sprintf_digits v hexadecimal = hex_spec (if hexadecimal = 1 then hex_lower else hex_upper) (unat v)"
  by (simp add: sprintf_digits_def hex_loop_eq)

lemma length_sprintf_digits: "length (sprintf_digits v hexadecimal) \<le> NGX_INT64_LEN"
proof (cases "hexadecimal = 0")
  case True
  then show ?thesis by (simp add: sprintf_digits_dec length_dec_spec64)
next
  case False
  have "unat v < 16 ^ Suc 15" using unat_word_less [of v] by simp
  from length_hex_spec [OF this, of hex_lower] length_hex_spec [OF this, of hex_upper]
  show ?thesis by (simp add: sprintf_digits_hex False NGX_INT64_LEN_def)
qed

subsection \<open>Fixed point\<close>

lemma ngx_atofp_loop_int:
  "list_all is_digit a \<Longrightarrow> 0 < point \<Longrightarrow>
   ngx_atofp_loop (a @ rest) (of_nat v) point 0 =
   ngx_atofp_loop rest (of_nat (foldl (\<lambda>a c. a * 10 + unat (c - 0x30)) v a)) point 0"
proof (induction a arbitrary: v)
  case (Cons c a)
  have "of_nat v * 10 + ucast (c - 0x30) = (of_nat (v * 10 + unat (c - 0x30)) :: ngx_int_t)"
    by simp
  moreover have "c \<noteq> 0x2E" and "\<not> (c < 0x30 \<or> c > 0x39)"
    using Cons.prems(1) by (auto simp: is_digit_iff)
  ultimately show ?case
    using Cons by (simp del: of_nat_add of_nat_mult)
qed simp

lemma ngx_atofp_loop_frac:
  "list_all is_digit b \<Longrightarrow> length b \<le> point \<Longrightarrow>
   ngx_atofp_loop b (of_nat v) point 1 =
   Some (of_nat (foldl (\<lambda>a c. a * 10 + unat (c - 0x30)) v b), point - length b)"
proof (induction b arbitrary: v point)
  case (Cons c b)
  have "of_nat v * 10 + ucast (c - 0x30) = (of_nat (v * 10 + unat (c - 0x30)) :: ngx_int_t)"
    by simp
  moreover have "c \<noteq> 0x2E" and "\<not> (c < 0x30 \<or> c > 0x39)"
    using Cons.prems(1) by (auto simp: is_digit_iff)
  ultimately show ?case
    using Cons by (simp del: of_nat_add of_nat_mult)
qed simp

lemma ngx_atofp_scale_eq: "ngx_atofp_scale n v = v * 10 ^ n"
  by (induction n arbitrary: v) (simp_all add: algebra_simps)

section \<open>Properties\<close>

text \<open>
  C32. \<open>ngx_atoi\<close> is exact: on a string whose decimal value fits in 63 bits it returns
  that value, and it returns \<open>NGX_ERROR\<close> exactly for the empty string and for a string
  with a byte that is not a digit.
\<close>

theorem ngx_atoi_correct:
  assumes "dec_val line < 2 ^ 63"
  shows "ngx_atoi line =
    (if line = [] \<or> \<not> list_all is_digit line then int_error else of_nat (dec_val line))"
proof -
  have "dec_val line mod 2 ^ 64 = dec_val line"
    using assms by (intro mod_less) simp
  with assms show ?thesis by (simp add: ngx_atoi_eq)
qed

theorem ngx_atoi_correct_witness:
  "dec_val (s2b ''8080'') < 2 ^ 63 \<and> ngx_atoi (s2b ''8080'') = 8080"
proof -
  have h: "dec_val (s2b ''8080'') < 2 ^ 63"
    by (simp add: dec_val_def)
  show ?thesis
    using h ngx_atoi_correct [OF h] by (simp add: dec_val_def is_digit_def)
qed

text \<open>
  The sign test \<open>value < 0\<close> does not catch every overflow: a twenty digit string
  beyond the 64-bit range is accepted and read as a small number.
\<close>

lemma ngx_atoi_overflow_accepted:
  "ngx_atoi (s2b ''18446744073709551617'') = 1"
  by (simp add: ngx_atoi_def sless_zero_iff)

text \<open>
  Printing and reading back: what \<open>ngx_sprintf_num\<close> prints in decimal with zero
  padding is read back by \<open>ngx_atoi\<close>, and what it prints in hexadecimal (either case) is
  read back by \<open>ngx_hextoi\<close>, for every value below \<open>2 ^ 63\<close> and every width, when the
  buffer has room for the width and for the longest number; and the digits never exceed the
  \<open>NGX_INT64_LEN\<close> bytes of the local array \<open>temp\<close>.
\<close>

lemma ngx_sprintf_num_roundtrip:
  assumes "unat v < 2 ^ 63" and "max width NGX_INT64_LEN \<le> room"
  shows "(if hexadecimal = 0 then ngx_atoi else ngx_hextoi)
      (ngx_sprintf_num room v 0x30 hexadecimal width) = v
    \<and> length (sprintf_digits v hexadecimal) \<le> NGX_INT64_LEN"
proof -
  let ?ds = "sprintf_digits v hexadecimal"
  have len: "length ?ds \<le> NGX_INT64_LEN" by (rule length_sprintf_digits)
  have p: "ngx_sprintf_num room v 0x30 hexadecimal width
      = replicate (width - length ?ds) 0x30 @ ?ds"
    using assms(2) len by (intro ngx_sprintf_num_fits) simp
  have small: "unat v mod 2 ^ 64 = unat v"
    using assms(1) by (intro mod_less) simp
  show ?thesis
  proof (cases "hexadecimal = 0")
    case True
    have zeros: "list_all is_digit (replicate n 0x30)" for n
      by (induction n) (simp_all add: is_digit_def)
    have "ngx_atoi (replicate (width - length ?ds) 0x30 @ dec_spec (unat v)) = v"
      using assms(1) small by (simp add: ngx_atoi_eq zeros dec_spec_digits dec_val_append)
    with True len p show ?thesis by (simp add: sprintf_digits_dec)
  next
    case False
    let ?hex = "if hexadecimal = 1 then hex_lower else hex_upper"
    have ok: "hex_table_ok ?hex" by (simp add: hex_lower_ok hex_upper_ok)
    have zeros: "list_all (\<lambda>c. hex_digit c \<noteq> None) (replicate n 0x30)" for n
      by (induction n) (simp_all add: hex_digit_def)
    have "ngx_hextoi (replicate (width - length ?ds) 0x30 @ hex_spec ?hex (unat v)) = v"
      using assms(1) small hex_spec_digits [OF ok] hex_val_spec [OF ok] zeros
      by (simp add: ngx_hextoi_eq hex_val_zeros)
    with False len show ?thesis by (simp add: p sprintf_digits_hex)
  qed
qed

lemma ngx_sprintf_num_roundtrip_example:
  "ngx_hextoi (ngx_sprintf_num 20 0x1f4 0x30 1 8) = 0x1f4"
proof -
  have h: "unat (0x1f4 :: 64 word) < 2 ^ 63" "max 8 NGX_INT64_LEN \<le> 20"
    by (simp_all add: NGX_INT64_LEN_def)
  show ?thesis using ngx_sprintf_num_roundtrip [OF h, of 1] by simp
qed

text \<open>
  \<open>ngx_atofp\<close> reads a fixed point number exactly: integer digits \<open>a\<close>, a dot, and
  at most \<open>point\<close> fraction digits \<open>b\<close> give the number scaled by \<open>10 ^ point\<close>,
  e.g. \<open>ngx_atofp("10.5", 4, 2)\<close> is 1050.
\<close>

lemma ngx_atofp_correct:
  assumes "list_all is_digit a" and "list_all is_digit b" and "length b \<le> point" and "0 < point"
    and "dec_val (a @ b) * 10 ^ (point - length b) < 2 ^ 63"
  shows "ngx_atofp (a @ [0x2E] @ b) point = of_nat (dec_val (a @ b) * 10 ^ (point - length b))"
proof -
  let ?v = "dec_val (a @ b)"
  have "ngx_atofp_loop (a @ [0x2E] @ b) (of_nat 0) point 0
      = ngx_atofp_loop ([0x2E] @ b) (of_nat (dec_val a)) point 0"
    using assms(1,4) by (simp only: ngx_atofp_loop_int dec_val_def)
  also have "\<dots> = ngx_atofp_loop b (of_nat (dec_val a)) point 1"
    using assms(4) by simp
  also have "\<dots> = Some (of_nat ?v, point - length b)"
    using ngx_atofp_loop_frac [OF assms(2,3), of "dec_val a"] by (simp add: dec_val_def)
  finally have loop: "ngx_atofp_loop (a @ [0x2E] @ b) 0 point 0 = Some (of_nat ?v, point - length b)"
    by simp
  have "unat (of_nat (?v * 10 ^ (point - length b)) :: 64 word) < 2 ^ 63"
    using assms(5) by (subst unat_of_nat64) simp_all
  then have "\<not> of_nat (?v * 10 ^ (point - length b)) <s (0 :: 64 word)"
    by (simp only: sless_zero_iff not_le)
  then show ?thesis
    unfolding ngx_atofp_def loop by (simp add: ngx_atofp_scale_eq)
qed

lemma ngx_atofp_correct_witness: "ngx_atofp (s2b ''10'' @ [0x2E] @ s2b ''5'') 2 = 1050"
proof -
  have h: "list_all is_digit (s2b ''10'')" "list_all is_digit (s2b ''5'')"
    "length (s2b ''5'') \<le> 2" "(0 :: nat) < 2"
    "dec_val (s2b ''10'' @ s2b ''5'') * 10 ^ (2 - length (s2b ''5'')) < 2 ^ 63"
    by (simp_all add: is_digit_def dec_val_def)
  show ?thesis using ngx_atofp_correct [OF h] by (simp add: dec_val_def)
qed

end
