(* ===== verification/NgxParse.thy ===== *)
theory NgxParse
  imports NgxNumber
begin

text \<open>
  The readers of sizes, offsets and times in configuration directives,
  \<^verbatim>\<open>src/core/ngx_parse.c\<close>. A string is the memory from \<open>line->data\<close> on together with
  \<open>line->len\<close>; \<open>None\<close> is a read before or behind that memory. Numbers are 64-bit words
  that wrap around.
\<close>

section \<open>Definitions\<close>

definition ngx_parse_size :: "bytes \<Rightarrow> ngx_int_t option" where
  "ngx_parse_size line =
     (if line = [] then None
      else let unit = List.last line;
               (data, scale) =
                 (if unit = 0x4B \<or> unit = 0x6B then (butlast line, 1024)
                  else if unit = 0x4D \<or> unit = 0x6D then (butlast line, 1024 * 1024)
                  else (line, 1));
               size = ngx_atosz data
           in Some (if size = int_error then int_error else size * scale))"

definition ngx_parse_offset :: "bytes \<Rightarrow> ngx_int_t option" where
  "ngx_parse_offset line =
     (if line = [] then None
      else let unit = List.last line;
               (data, scale) =
                 (if unit = 0x4B \<or> unit = 0x6B then (butlast line, 1024)
                  else if unit = 0x4D \<or> unit = 0x6D then (butlast line, 1024 * 1024)
                  else if unit = 0x47 \<or> unit = 0x67 then (butlast line, 1024 * 1024 * 1024)
                  else (line, 1));
               offset = ngx_atoof data
           in Some (if offset = int_error then int_error else offset * scale))"

text \<open>
  The steps of \<open>ngx_parse_time\<close>, in the order of the enumeration, and the outcome of its
  \<open>switch\<close>: the new step, \<open>max\<close>, \<open>scale\<close> and how far the pointer moves behind the letter.
\<close>

abbreviation (input) st_start :: nat where "st_start \<equiv> 0"
abbreviation (input) st_year :: nat where "st_year \<equiv> 1"
abbreviation (input) st_month :: nat where "st_month \<equiv> 2"
abbreviation (input) st_week :: nat where "st_week \<equiv> 3"
abbreviation (input) st_day :: nat where "st_day \<equiv> 4"
abbreviation (input) st_hour :: nat where "st_hour \<equiv> 5"
abbreviation (input) st_min :: nat where "st_min \<equiv> 6"
abbreviation (input) st_sec :: nat where "st_sec \<equiv> 7"
abbreviation (input) st_msec :: nat where "st_msec \<equiv> 8"
abbreviation (input) st_last :: nat where "st_last \<equiv> 9"

abbreviation (input) NGX_MAX_INT32_VALUE :: "64 word" where
  "NGX_MAX_INT32_VALUE \<equiv> 0x7fffffff"

datatype time_unit = Unit_overread | Unit_error | Unit nat ngx_uint_t ngx_int_t nat

definition parse_time_unit :: "bool \<Rightarrow> nat \<Rightarrow> byte \<Rightarrow> bytes \<Rightarrow> time_unit" where
  "parse_time_unit is_sec step c p =
     (if c = 0x79 then
        if step > st_start then Unit_error
        else Unit st_year (NGX_MAX_INT32_VALUE div (60 * 60 * 24 * 365)) (60 * 60 * 24 * 365) 0
      else if c = 0x4D then
        if step \<ge> st_month then Unit_error
        else Unit st_month (NGX_MAX_INT32_VALUE div (60 * 60 * 24 * 30)) (60 * 60 * 24 * 30) 0
      else if c = 0x77 then
        if step \<ge> st_week then Unit_error
        else Unit st_week (NGX_MAX_INT32_VALUE div (60 * 60 * 24 * 7)) (60 * 60 * 24 * 7) 0
      else if c = 0x64 then
        if step \<ge> st_day then Unit_error
        else Unit st_day (NGX_MAX_INT32_VALUE div (60 * 60 * 24)) (60 * 60 * 24) 0
      else if c = 0x68 then
        if step \<ge> st_hour then Unit_error
        else Unit st_hour (NGX_MAX_INT32_VALUE div (60 * 60)) (60 * 60) 0
      else if c = 0x6D then
        (case p of
           [] \<Rightarrow> Unit_overread
         | q # _ \<Rightarrow>
             if q = 0x73 then
               if is_sec \<or> step \<ge> st_msec then Unit_error
               else Unit st_msec NGX_MAX_INT32_VALUE 1 1
             else if step \<ge> st_min then Unit_error
             else Unit st_min (NGX_MAX_INT32_VALUE div 60) 60 0)
      else if c = 0x73 then
        if step \<ge> st_sec then Unit_error
        else Unit st_sec NGX_MAX_INT32_VALUE 1 0
      else if c = 0x20 then
        if step \<ge> st_sec then Unit_error
        else Unit st_last NGX_MAX_INT32_VALUE 1 0
      else Unit_error)"

text \<open>The loop at the end of a unit: the spaces that follow inside the string.\<close>

fun time_spaces :: "bytes \<Rightarrow> nat \<Rightarrow> bytes \<times> nat" where
  "time_spaces (c # p) (Suc n) = (if c = 0x20 then time_spaces p n else (c # p, Suc n))"
| "time_spaces p n = (p, n)"

lemma time_spaces_shorter: "snd (time_spaces p n) \<le> n"
  by (induction p n rule: time_spaces.induct) auto

function parse_time_loop ::
  "bool \<Rightarrow> bytes \<Rightarrow> nat \<Rightarrow> ngx_int_t \<Rightarrow> ngx_int_t \<Rightarrow> nat \<Rightarrow> ngx_int_t \<Rightarrow> bool \<Rightarrow> ngx_int_t option" where
  "parse_time_loop is_sec p 0 value tot step scale valid =
     Some (if valid then tot + value * scale else int_error)"
| "parse_time_loop is_sec [] (Suc n) value tot step scale valid = None"
| "parse_time_loop is_sec (c # p) (Suc n) value tot step scale valid =
     (if c \<ge> 0x30 \<and> c \<le> 0x39
      then parse_time_loop is_sec p n (value * 10 + ucast (c - 0x30)) tot step scale True
      else case parse_time_unit is_sec step c p of
             Unit_overread \<Rightarrow> None
           | Unit_error \<Rightarrow> Some int_error
           | Unit step' max0 scale0 k \<Rightarrow>
               let wide = (step' \<noteq> st_msec \<and> \<not> is_sec);
                   scale' = (if wide then scale0 * 1000 else scale0);
                   max' = (if wide then max0 div 1000 else max0);
                   tot1 = tot + value * scale'
               in if value > max' then Some int_error
                  else if tot1 > NGX_MAX_INT32_VALUE then Some int_error
                  else let rest = time_spaces (drop k p) (n - k)
                       in parse_time_loop is_sec (fst rest) (snd rest) 0 tot1 step'
                            (if is_sec then 1 else 1000) valid)"
  by pat_completeness auto
termination
  by (relation "measure (\<lambda>(is_sec, p, n, _). n)")
    (auto intro!: le_imp_less_Suc order_trans [OF time_spaces_shorter])

definition ngx_parse_time :: "bytes \<Rightarrow> nat \<Rightarrow> bool \<Rightarrow> ngx_int_t option" where
  "ngx_parse_time data len is_sec =
     parse_time_loop is_sec data len 0 0 (if is_sec then st_start else st_month)
       (if is_sec then 1 else 1000) False"

section \<open>Times\<close>

text \<open>
  The units a time may be written in: name, rank and length, the length in seconds when
  \<open>is_sec\<close> is set and in milliseconds otherwise.
\<close>

definition time_units :: "bool \<Rightarrow> (bytes \<times> nat \<times> nat) list" where
  "time_units is_sec =
     (if is_sec
      then [(s2b ''y'', st_year, 31536000), (s2b ''M'', st_month, 2592000), (s2b ''w'', st_week, 604800),
            (s2b ''d'', st_day, 86400), (s2b ''h'', st_hour, 3600), (s2b ''m'', st_min, 60), (s2b ''s'', st_sec, 1)]
      else [(s2b ''w'', st_week, 604800000), (s2b ''d'', st_day, 86400000), (s2b ''h'', st_hour, 3600000),
            (s2b ''m'', st_min, 60000), (s2b ''s'', st_sec, 1000), (s2b ''ms'', st_msec, 1)])"

text \<open>A group is a number, its unit and a count of spaces.\<close>

type_synonym time_group = "bytes \<times> (bytes \<times> nat \<times> nat) \<times> nat"

fun time_text :: "time_group list \<Rightarrow> bytes" where
  "time_text [] = []"
| "time_text ((ds, (u, rank, len), sp) # gs) = ds @ u @ replicate sp 0x20 @ time_text gs"

fun time_sum :: "time_group list \<Rightarrow> nat" where
  "time_sum [] = 0"
| "time_sum ((ds, (u, rank, len), sp) # gs) = dec_val ds * len + time_sum gs"

fun time_ordered :: "bool \<Rightarrow> nat \<Rightarrow> time_group list \<Rightarrow> bool" where
  "time_ordered is_sec step [] \<longleftrightarrow> True"
| "time_ordered is_sec step ((ds, (u, rank, len), sp) # gs) \<longleftrightarrow>
     ds \<noteq> [] \<and> list_all is_digit ds \<and> (u, rank, len) \<in> set (time_units is_sec) \<and> step < rank
     \<and> time_ordered is_sec rank gs"

lemma time_loop_digits:
  "list_all is_digit ds \<Longrightarrow>
   parse_time_loop is_sec (ds @ p) (length ds + n) (of_nat v) tot step scale valid =
   parse_time_loop is_sec p n (of_nat (foldl (\<lambda>a c. a * 10 + unat (c - 0x30)) v ds)) tot step scale (valid \<or> ds \<noteq> [])"
proof (induction ds arbitrary: v valid)
  case (Cons c ds)
  have "ucast (c - 0x30) = (of_nat (unat (c - 0x30)) :: 64 word)"
    by (metis of_nat_unat_id unat_ucast_byte(1))
  then have "of_nat v * 10 + ucast (c - 0x30) = (of_nat (v * 10 + unat (c - 0x30)) :: 64 word)" by simp
  then show ?case
    using Cons.IH [of "v * 10 + unat (c - 0x30)" True] Cons.prems
    by (simp add: is_digit_def del: of_nat_add of_nat_mult)
qed simp

lemma time_spaces_replicate:
  "(n = 0 \<or> p = [] \<or> hd p \<noteq> 0x20) \<Longrightarrow> time_spaces (replicate sp 0x20 @ p) (sp + n) = (p, n)"
proof (induction sp)
  case 0
  then show ?case by (cases p; cases n) auto
qed simp

text \<open>What a unit letter does to the loop's variables.\<close>

lemma time_unit_step:
  assumes "(u, rank, len) \<in> set (time_units is_sec)" and "step < rank" and "p \<noteq> []" and "hd p \<noteq> 0x73"
  shows "case parse_time_unit is_sec step (hd u) (tl u @ p) of
      Unit r max0 scale0 k \<Rightarrow> r = rank \<and> k = length (tl u)
        \<and> (if rank \<noteq> st_msec \<and> \<not> is_sec then scale0 * 1000 else scale0) = of_nat len
        \<and> (if rank \<noteq> st_msec \<and> \<not> is_sec then max0 div 1000 else max0) = of_nat (0x7fffffff div len)
    | _ \<Rightarrow> False"
proof (cases p)
  case (Cons a q)
  then show ?thesis
    using assms
    by (cases is_sec; simp add: time_units_def; elim disjE conjE; simp add: parse_time_unit_def)
qed (use assms in simp)

lemma time_unit_letter:
  "(u, rank, len) \<in> set (time_units is_sec) \<Longrightarrow> u = hd u # tl u \<and> \<not> is_digit (hd u) \<and> 0 < len"
  by (cases is_sec) (auto simp: time_units_def is_digit_def)

lemma time_loop_unit:
  assumes u: "(u, rank, len) \<in> set (time_units is_sec)" and step: "step < rank"
    and p: "p \<noteq> []" "hd p \<noteq> 0x73" and t: "t + v * len \<le> 0x7fffffff"
  shows "parse_time_loop is_sec (u @ p) (length u + n) (of_nat v) (of_nat t) step scale valid =
    parse_time_loop is_sec (fst (time_spaces p n)) (snd (time_spaces p n)) 0 (of_nat (t + v * len)) rank
      (if is_sec then 1 else 1000) valid"
proof -
  obtain c k where ck: "u = c # k" "\<not> is_digit c" and len: "0 < len"
    using time_unit_letter [OF u] by blast
  obtain max0 scale0 where unit: "parse_time_unit is_sec step c (k @ p) = Unit rank max0 scale0 (length k)"
      and scale: "(if rank \<noteq> st_msec \<and> \<not> is_sec then scale0 * 1000 else scale0) = of_nat len"
      and max: "(if rank \<noteq> st_msec \<and> \<not> is_sec then max0 div 1000 else max0) = of_nat (0x7fffffff div len)"
    using time_unit_step [OF u step p] unfolding ck(1) list.sel by (auto split: time_unit.splits)
  have "v * len \<le> 0x7fffffff" using t by simp
  then have le: "v \<le> 0x7fffffff div len" using len by (simp add: less_eq_div_iff_mult_less_eq)
  have max64: "0x7fffffff div len < (2 :: nat) ^ 64" by (rule le_less_trans [OF div_le_dividend]) simp
  have "v < 2 ^ 64" using le max64 by (rule le_less_trans)
  with max64 have "unat (of_nat v :: 64 word) = v" "unat (of_nat (0x7fffffff div len) :: 64 word) = 0x7fffffff div len"
    by (simp_all only: unat_of_nat64)
  with le have v: "\<not> of_nat (0x7fffffff div len) < (of_nat v :: 64 word)"
    by (simp only: word_less_nat_alt not_less)
  have t': "\<not> 0x7fffffff < (of_nat (t + v * len) :: 64 word)"
    using t by (simp only: word_less_nat_alt) (subst unat_of_nat64; simp)
  have tot: "of_nat t + of_nat v * of_nat len = (of_nat (t + v * len) :: 64 word)" by simp
  have "\<not> (0x30 \<le> c \<and> c \<le> 0x39)" using ck(2) by (simp add: is_digit_def)
  then show ?thesis
    using v t' unfolding ck(1) by (simp add: unit Let_def scale max tot del: of_nat_add of_nat_mult) blast
qed

lemma time_text_hd:
  "time_ordered is_sec step gs \<Longrightarrow> c \<noteq> 0x73 \<Longrightarrow> hd (replicate sp 0x20 @ time_text gs @ [c]) \<noteq> 0x73"
  by (cases sp; cases "(is_sec, step, gs)" rule: time_ordered.cases) (auto simp: list_all_iff is_digit_def neq_Nil_conv)

lemma time_text_spaces:
  "time_ordered is_sec step gs \<Longrightarrow>
   time_spaces (replicate sp 0x20 @ time_text gs @ [0]) (sp + length (time_text gs)) = (time_text gs @ [0], length (time_text gs))"
  by (rule time_spaces_replicate; cases "(is_sec, step, gs)" rule: time_ordered.cases)
    (auto simp: list_all_iff is_digit_def neq_Nil_conv)

lemma parse_time_loop_groups:
  "time_ordered is_sec step gs \<Longrightarrow> t + time_sum gs \<le> 0x7fffffff \<Longrightarrow> valid \<or> gs \<noteq> [] \<Longrightarrow>
   parse_time_loop is_sec (time_text gs @ [0]) (length (time_text gs)) 0 (of_nat t) step (if is_sec then 1 else 1000) valid
   = Some (of_nat (t + time_sum gs))"
proof (induction gs arbitrary: step t valid)
  case (Cons g gs)
  obtain ds u rank len sp where g: "g = (ds, (u, rank, len), sp)" by (metis prod_cases3)
  let ?sc = "if is_sec then 1 else 1000 :: 64 word"
  let ?p = "replicate sp 0x20 @ time_text gs @ [0]"
  have o: "ds \<noteq> []" "list_all is_digit ds" "(u, rank, len) \<in> set (time_units is_sec)" "step < rank" "time_ordered is_sec rank gs"
    using Cons.prems(1) by (simp_all add: g)
  have sum: "t + dec_val ds * len + time_sum gs \<le> 0x7fffffff" using Cons.prems(2) by (simp add: g)
  have "parse_time_loop is_sec (ds @ u @ ?p) (length ds + (length u + (sp + length (time_text gs)))) 0 (of_nat t) step ?sc valid
      = parse_time_loop is_sec (u @ ?p) (length u + (sp + length (time_text gs))) (of_nat (dec_val ds)) (of_nat t) step ?sc True"
    using time_loop_digits [OF o(2), of is_sec "u @ ?p" _ 0] o(1) by (simp add: dec_val_def)
  also have "\<dots> = parse_time_loop is_sec (time_text gs @ [0]) (length (time_text gs)) 0 (of_nat (t + dec_val ds * len)) rank ?sc True"
    using time_loop_unit [OF o(3,4), of ?p t "dec_val ds"] time_text_hd [OF o(5), of 0 sp] sum time_text_spaces [OF o(5)]
    by (simp del: of_nat_add of_nat_mult)
  also have "\<dots> = Some (of_nat (t + dec_val ds * len + time_sum gs))"
    by (rule Cons.IH [OF o(5) sum]) simp
  finally show ?case by (simp add: g add.assoc)
qed simp

text \<open>
  \<open>ngx_parse_time\<close> reads a time written as numbers with units of decreasing length, with
  spaces between the groups: the result is the sum in seconds, or in milliseconds when
  \<open>is_sec\<close> is not set, as long as the sum fits in 31 bits. The byte behind the string, the
  terminating zero, is the only one it reads outside.
\<close>

lemma parse_time_units:
  assumes "gs \<noteq> []" and "time_ordered is_sec (if is_sec then st_start else st_month) gs" and "time_sum gs \<le> 0x7fffffff"
  shows "ngx_parse_time (time_text gs @ [0]) (length (time_text gs)) is_sec = Some (of_nat (time_sum gs))"
  using parse_time_loop_groups [OF assms(2), of 0 False] assms(1,3) by (simp add: ngx_parse_time_def)

lemma parse_time_units_example:
  "ngx_parse_time (s2b ''1h 30m'' @ [0]) 6 True = Some 5400"
proof -
  let ?gs = "[(s2b ''1'', (s2b ''h'', st_hour, 3600), 1), (s2b ''30'', (s2b ''m'', st_min, 60), 0)]"
  have "time_ordered True st_start ?gs" by (simp add: time_units_def is_digit_def)
  moreover have "time_sum ?gs = 5400" "time_text ?gs = s2b ''1h 30m''" "length (s2b ''1h 30m'') = 6"
    by (simp_all add: dec_val_def)
  ultimately show ?thesis using parse_time_units [of ?gs True] by (simp del: s2b_Cons length_s2b)
qed

text \<open>
  A number behind the last unit is added without the check that the units get, so the
  result may exceed the 31 bits the function otherwise enforces; the letter \<open>m\<close> at the end
  makes it look at the byte behind the string.
\<close>

lemma parse_time_unchecked:
  "ngx_parse_time (s2b ''1h 99999999999'') 14 True = Some 100000003599
   \<and> ngx_parse_time (s2b ''99999999999s'') 12 True = Some int_error
   \<and> ngx_parse_time (s2b ''5m'') 2 True = None"
  by (intro conjI) code_simp+

section \<open>Sizes\<close>

lemma parse_offset_unit:
  "ngx_parse_offset (data @ [c]) = Some (if ngx_atoi data = int_error then int_error else ngx_atoi data * 2 ^ k)"
  if "(c, k) \<in> set [(0x4B, 10), (0x6B, 10), (0x4D, 20), (0x6D, 20), (0x47, 30), (0x67, 30 :: nat)]"
  using that by (auto simp: ngx_parse_offset_def Let_def ngx_atoof_eq)

end
