(* ===== verification/NgxString.thy ===== *)
theory NgxString
  imports Prelude "HOL-Library.Sublist"
begin

text \<open>
  Case mapping, comparison and substring search of \<^verbatim>\<open>src/core/ngx_string.c\<close>, and the
  string hashes of \<^verbatim>\<open>src/core/ngx_hash.c\<close>. A C pointer is the list of the bytes from it
  to the end of the readable memory, so that the result \<open>None\<close> stands for a read outside
  of it; a found position is an offset and \<open>Some None\<close> is the null pointer.
\<close>

section \<open>Case mapping and hashes\<close>

definition ngx_tolower :: "byte \<Rightarrow> byte" where
  "ngx_tolower c = (if c \<ge> ch_A \<and> c \<le> ch_Z then c OR 0x20 else c)"

definition ngx_toupper :: "byte \<Rightarrow> byte" where
  "ngx_toupper c = (if c \<ge> ch_a \<and> c \<le> ch_z then c AND NOT 0x20 else c)"

text \<open>The same mapping on the \<open>ngx_uint_t\<close> copies that the comparison functions use.\<close>

definition uint_lower :: "ngx_uint_t \<Rightarrow> ngx_uint_t" where
  "uint_lower c = (if c \<ge> 0x41 \<and> c \<le> 0x5A then c OR 0x20 else c)"

definition ngx_hash :: "ngx_uint_t \<Rightarrow> byte \<Rightarrow> ngx_uint_t" where
  "ngx_hash key c = key * 31 + ucast c"

definition ngx_hash_key :: "bytes \<Rightarrow> ngx_uint_t" where
  "ngx_hash_key data = fold (\<lambda>c key. ngx_hash key c) data 0"

definition ngx_hash_key_lc :: "bytes \<Rightarrow> ngx_uint_t" where
  "ngx_hash_key_lc data = fold (\<lambda>c key. ngx_hash key (ngx_tolower c)) data 0"

primrec hash_strlow_loop :: "bytes \<Rightarrow> bytes \<Rightarrow> ngx_uint_t \<Rightarrow> bytes \<times> ngx_uint_t" where
  "hash_strlow_loop [] dst key = (dst, key)"
| "hash_strlow_loop (c # src) dst key =
     (let d = ngx_tolower c in hash_strlow_loop src (dst @ [d]) (ngx_hash key d))"

definition ngx_hash_strlow :: "bytes \<Rightarrow> bytes \<times> ngx_uint_t" where
  "ngx_hash_strlow src = hash_strlow_loop src [] 0"

primrec ngx_strlow :: "nat \<Rightarrow> bytes \<Rightarrow> bytes option" where
  "ngx_strlow 0 src = Some []"
| "ngx_strlow (Suc n) src =
     (case src of [] \<Rightarrow> None | c # src' \<Rightarrow> map_option (Cons (ngx_tolower c)) (ngx_strlow n src'))"

text \<open>
  \<open>ngx_cpystrn\<close>: the bytes written, the terminator included; the returned pointer is the
  position of the terminator.
\<close>

fun cpystrn_loop :: "nat \<Rightarrow> bytes \<Rightarrow> bytes option" where
  "cpystrn_loop 0 src = Some [ch_NUL]"
| "cpystrn_loop (Suc n) [] = None"
| "cpystrn_loop (Suc n) (c # src) =
     (if c = ch_NUL then Some [c] else map_option (Cons c) (cpystrn_loop n src))"

definition ngx_cpystrn :: "bytes \<Rightarrow> nat \<Rightarrow> bytes option" where
  "ngx_cpystrn src n = (if n = 0 then Some [] else cpystrn_loop (n - 1) src)"

primrec ngx_strlchr :: "bytes \<Rightarrow> byte \<Rightarrow> nat option" where
  "ngx_strlchr [] c = None"
| "ngx_strlchr (x # xs) c = (if x = c then Some 0 else map_option Suc (ngx_strlchr xs c))"

section \<open>Comparison\<close>

fun ngx_strcasecmp :: "bytes \<Rightarrow> bytes \<Rightarrow> ngx_int_t option" where
  "ngx_strcasecmp (a # s1) (b # s2) =
     (let c1 = uint_lower (ucast a); c2 = uint_lower (ucast b) in
      if c1 = c2 then if c1 \<noteq> 0 then ngx_strcasecmp s1 s2 else Some 0
      else Some (c1 - c2))"
| "ngx_strcasecmp _ _ = None"

fun ngx_strncasecmp :: "bytes \<Rightarrow> bytes \<Rightarrow> nat \<Rightarrow> ngx_int_t option" where
  "ngx_strncasecmp s1 s2 0 = Some 0"
| "ngx_strncasecmp (a # s1) (b # s2) (Suc n) =
     (let c1 = uint_lower (ucast a); c2 = uint_lower (ucast b) in
      if c1 = c2 then if c1 \<noteq> 0 then ngx_strncasecmp s1 s2 n else Some 0
      else Some (c1 - c2))"
| "ngx_strncasecmp _ _ (Suc n) = None"

fun ngx_dns_strcmp :: "bytes \<Rightarrow> bytes \<Rightarrow> ngx_int_t option" where
  "ngx_dns_strcmp (a # s1) (b # s2) =
     (let c1 = uint_lower (ucast a); c2 = uint_lower (ucast b) in
      if c1 = c2 then if c1 \<noteq> 0 then ngx_dns_strcmp s1 s2 else Some 0
      else let c1 = (if c1 = 0x2E then 0x20 else c1); c2 = (if c2 = 0x2E then 0x20 else c2)
           in Some (c1 - c2))"
| "ngx_dns_strcmp _ _ = None"

text \<open>
  \<open>strncmp\<close>, \<open>strlen\<close> and \<open>memcmp\<close> of the C library, which the macros of
  \<^verbatim>\<open>ngx_string.h\<close> name. Only the sign of a comparison is specified there; the
  difference of the first bytes that differ is one such value.
\<close>

fun ngx_strncmp :: "bytes \<Rightarrow> bytes \<Rightarrow> nat \<Rightarrow> ngx_int_t option" where
  "ngx_strncmp s1 s2 0 = Some 0"
| "ngx_strncmp (a # s1) (b # s2) (Suc n) =
     (if a \<noteq> b then Some (ucast a - ucast b)
      else if a = 0 then Some 0 else ngx_strncmp s1 s2 n)"
| "ngx_strncmp _ _ (Suc n) = None"

fun ngx_strlen :: "bytes \<Rightarrow> nat option" where
  "ngx_strlen [] = None"
| "ngx_strlen (c # s) = (if c = 0 then Some 0 else map_option Suc (ngx_strlen s))"

fun ngx_memcmp :: "bytes \<Rightarrow> bytes \<Rightarrow> ngx_int_t" where
  "ngx_memcmp (a # s1) (b # s2) = (if a \<noteq> b then ucast a - ucast b else ngx_memcmp s1 s2)"
| "ngx_memcmp _ _ = 0"

definition ngx_memn2cmp :: "bytes \<Rightarrow> bytes \<Rightarrow> ngx_int_t" where
  "ngx_memn2cmp s1 s2 =
     (let n1 = length s1; n2 = length s2;
          (n, z) = (if n1 \<le> n2 then (n1, - 1) else (n2, 1));
          m = ngx_memcmp (take n s1) (take n s2)
      in if m \<noteq> 0 \<or> n1 = n2 then m else z)"

text \<open>The backward comparisons, on two arrays of at least \<open>n\<close> bytes.\<close>

primrec rstrncmp_from :: "bytes \<Rightarrow> bytes \<Rightarrow> nat \<Rightarrow> ngx_int_t" where
  "rstrncmp_from s1 s2 0 = (if s1 ! 0 \<noteq> s2 ! 0 then ucast (s1 ! 0) - ucast (s2 ! 0) else 0)"
| "rstrncmp_from s1 s2 (Suc n) =
     (if s1 ! Suc n \<noteq> s2 ! Suc n then ucast (s1 ! Suc n) - ucast (s2 ! Suc n)
      else rstrncmp_from s1 s2 n)"

definition ngx_rstrncmp :: "bytes \<Rightarrow> bytes \<Rightarrow> nat \<Rightarrow> ngx_int_t" where
  "ngx_rstrncmp s1 s2 n = (if n = 0 then 0 else rstrncmp_from s1 s2 (n - 1))"

definition byte_upper :: "byte \<Rightarrow> byte" where
  "byte_upper c = (if c \<ge> ch_a \<and> c \<le> ch_z then c - (ch_a - ch_A) else c)"

primrec rstrncasecmp_from :: "bytes \<Rightarrow> bytes \<Rightarrow> nat \<Rightarrow> ngx_int_t" where
  "rstrncasecmp_from s1 s2 0 =
     (let c1 = byte_upper (s1 ! 0); c2 = byte_upper (s2 ! 0) in
      if c1 \<noteq> c2 then ucast c1 - ucast c2 else 0)"
| "rstrncasecmp_from s1 s2 (Suc n) =
     (let c1 = byte_upper (s1 ! Suc n); c2 = byte_upper (s2 ! Suc n) in
      if c1 \<noteq> c2 then ucast c1 - ucast c2 else rstrncasecmp_from s1 s2 n)"

definition ngx_rstrncasecmp :: "bytes \<Rightarrow> bytes \<Rightarrow> nat \<Rightarrow> ngx_int_t" where
  "ngx_rstrncasecmp s1 s2 n = (if n = 0 then 0 else rstrncasecmp_from s1 s2 (n - 1))"

section \<open>Search\<close>

text \<open>
  The two nested loops of each search function are one recursion over the bytes of
  \<open>s1\<close>, \<open>i\<close> counting the bytes passed. A failing comparison goes on with the byte after
  the one that matched \<open>c2\<close>.
\<close>

primrec strnstr_loop :: "byte \<Rightarrow> bytes \<Rightarrow> nat \<Rightarrow> bytes \<Rightarrow> nat \<Rightarrow> nat \<Rightarrow> nat option option" where
  "strnstr_loop c2 s2 n [] i len = (if len = 0 then Some None else None)"
| "strnstr_loop c2 s2 n (c1 # s1) i len =
     (if len = 0 then Some None
      else if c1 = 0 then Some None
      else if c1 \<noteq> c2 then strnstr_loop c2 s2 n s1 (i + 1) (len - 1)
      else if n > len - 1 then Some None
      else case ngx_strncmp s1 s2 n of
             None \<Rightarrow> None
           | Some m \<Rightarrow> if m \<noteq> 0 then strnstr_loop c2 s2 n s1 (i + 1) (len - 1) else Some (Some i))"

definition ngx_strnstr :: "bytes \<Rightarrow> bytes \<Rightarrow> nat \<Rightarrow> nat option option" where
  "ngx_strnstr s1 s2 len =
     (case s2 of [] \<Rightarrow> None
      | c2 # s2' \<Rightarrow> (case ngx_strlen s2' of None \<Rightarrow> None | Some n \<Rightarrow> strnstr_loop c2 s2' n s1 0 len))"

primrec strstrn_loop :: "byte \<Rightarrow> bytes \<Rightarrow> nat \<Rightarrow> bytes \<Rightarrow> nat \<Rightarrow> nat option option" where
  "strstrn_loop c2 s2 n [] i = None"
| "strstrn_loop c2 s2 n (c1 # s1) i =
     (if c1 = 0 then Some None
      else if c1 \<noteq> c2 then strstrn_loop c2 s2 n s1 (i + 1)
      else case ngx_strncmp s1 s2 n of
             None \<Rightarrow> None
           | Some m \<Rightarrow> if m \<noteq> 0 then strstrn_loop c2 s2 n s1 (i + 1) else Some (Some i))"

definition ngx_strstrn :: "bytes \<Rightarrow> bytes \<Rightarrow> nat \<Rightarrow> nat option option" where
  "ngx_strstrn s1 s2 n = (case s2 of [] \<Rightarrow> None | c2 # s2' \<Rightarrow> strstrn_loop c2 s2' n s1 0)"

primrec strcasestrn_loop :: "ngx_uint_t \<Rightarrow> bytes \<Rightarrow> nat \<Rightarrow> bytes \<Rightarrow> nat \<Rightarrow> nat option option" where
  "strcasestrn_loop c2 s2 n [] i = None"
| "strcasestrn_loop c2 s2 n (c1 # s1) i =
     (if (ucast c1 :: ngx_uint_t) = 0 then Some None
      else if uint_lower (ucast c1) \<noteq> c2 then strcasestrn_loop c2 s2 n s1 (i + 1)
      else case ngx_strncasecmp s1 s2 n of
             None \<Rightarrow> None
           | Some m \<Rightarrow> if m \<noteq> 0 then strcasestrn_loop c2 s2 n s1 (i + 1) else Some (Some i))"

definition ngx_strcasestrn :: "bytes \<Rightarrow> bytes \<Rightarrow> nat \<Rightarrow> nat option option" where
  "ngx_strcasestrn s1 s2 n =
     (case s2 of [] \<Rightarrow> None | c2 # s2' \<Rightarrow> strcasestrn_loop (uint_lower (scast c2)) s2' n s1 0)"

text \<open>
  There \<open>s2\<close> is a \<^verbatim>\<open>char *\<close>, so its first byte is sign-extended (\<open>scast\<close>).
  \<open>ngx_strlcasestrn\<close> has a limit \<open>last\<close>, here the offset of it from \<open>s1\<close> as an integer,
  because \<^verbatim>\<open>last -= n\<close> may move it in front of \<open>s1\<close>.
\<close>

primrec strlcasestrn_loop :: "ngx_uint_t \<Rightarrow> bytes \<Rightarrow> nat \<Rightarrow> int \<Rightarrow> bytes \<Rightarrow> nat \<Rightarrow> nat option option" where
  "strlcasestrn_loop c2 s2 n lim [] i = (if int i \<ge> lim then Some None else None)"
| "strlcasestrn_loop c2 s2 n lim (c1 # s1) i =
     (if int i \<ge> lim then Some None
      else if uint_lower (ucast c1) \<noteq> c2 then strlcasestrn_loop c2 s2 n lim s1 (i + 1)
      else case ngx_strncasecmp s1 s2 n of
             None \<Rightarrow> None
           | Some m \<Rightarrow> if m \<noteq> 0 then strlcasestrn_loop c2 s2 n lim s1 (i + 1) else Some (Some i))"

definition ngx_strlcasestrn :: "bytes \<Rightarrow> int \<Rightarrow> bytes \<Rightarrow> nat \<Rightarrow> nat option option" where
  "ngx_strlcasestrn s1 lim s2 n =
     (case s2 of [] \<Rightarrow> None
      | c2 # s2' \<Rightarrow> strlcasestrn_loop (uint_lower (ucast c2)) s2' n (lim - int n) s1 0)"

section \<open>Facts about bytes\<close>

lemma ucast64_eq [simp]: "(ucast (a :: byte) :: 64 word) = ucast b \<longleftrightarrow> a = b"
  by (metis unat_ucast_byte(1) word_unat_eq_iff)

lemma ucast64_eq_0 [simp]: "(ucast (a :: byte) :: 64 word) = 0 \<longleftrightarrow> a = 0"
  using ucast64_eq [of a 0] by simp

lemma uint_lower_ucast [simp]: "uint_lower (ucast (a :: byte)) = ucast (ngx_tolower a)"
proof -
  have "(ucast a :: 64 word) OR 32 = ucast (a OR 32)"
    by (simp add: unsigned_or_eq)
  then show ?thesis
    by (simp add: uint_lower_def ngx_tolower_def word_le_nat_alt)
qed

lemma ngx_tolower_cases:
  "ngx_tolower c = (if 65 \<le> unat c \<and> unat c \<le> 90 then c + 32 else c)"
proof -
  have "\<forall>c :: byte. 65 \<le> unat c \<and> unat c \<le> 90 \<longrightarrow> c OR 32 = c + 32"
    unfolding all_byte_iff by code_simp
  then show ?thesis by (simp add: ngx_tolower_def word_le_nat_alt)
qed

lemma unat_tolower:
  "unat (ngx_tolower c) = (if 65 \<le> unat c \<and> unat c \<le> 90 then unat c + 32 else unat c)"
  by (simp add: ngx_tolower_cases unat_word_ariths)

lemma ngx_tolower_idem [simp]: "ngx_tolower (ngx_tolower c) = ngx_tolower c"
  by (simp add: word_unat_eq_iff unat_tolower)

lemma ngx_tolower_0 [simp]: "ngx_tolower c = 0 \<longleftrightarrow> c = 0"
  using unat_tolower [of c] by (auto simp: word_unat_eq_iff)

lemma ngx_tolower_zero [simp]: "ngx_tolower 0 = 0" "uint_lower 0 = 0"
  "0 = ngx_tolower c \<longleftrightarrow> c = 0" "0 = (ucast c :: 64 word) \<longleftrightarrow> c = (0 :: byte)"
  using ngx_tolower_0 [of 0] ngx_tolower_0 [of c] ucast64_eq_0 [of c] by (auto simp: uint_lower_def)

lemma diff_ucast_0 [simp]: "(ucast (a :: byte) - ucast (b :: byte) :: 64 word) = 0 \<longleftrightarrow> a = b"
  by simp

lemma ucast_diff_sless: "(ucast (a :: byte) - ucast (b :: byte) :: 64 word) <s 0 \<longleftrightarrow> unat a < unat b"
proof -
  have "unat (ucast a - ucast b :: 64 word) = (if unat a < unat b then 2 ^ 64 + unat a - unat b else unat a - unat b)"
    using unat_byte_less [of a] unat_byte_less [of b]
    by (auto simp: unat_sub_if' simp del: unat_byte_less)
  then show ?thesis
    using unat_byte_less [of a] unat_byte_less [of b] by (auto simp: sless_zero_iff simp del: unat_byte_less)
qed

lemma hash_strlow_loop_eq:
  "hash_strlow_loop src dst key = (dst @ map ngx_tolower src, fold (\<lambda>c key. ngx_hash key c) (map ngx_tolower src) key)"
  by (induction src arbitrary: dst key) (simp_all add: Let_def)

lemma ngx_hash_key_lc_eq: "ngx_hash_key_lc s = ngx_hash_key (map ngx_tolower s)"
  by (simp add: ngx_hash_key_lc_def ngx_hash_key_def fold_map comp_def)

text \<open>
  The three string hashes agree: hashing while lowering (\<open>ngx_hash_key_lc\<close>), lowering
  into a buffer and hashing what was written (\<open>ngx_hash_strlow\<close>) and hashing the lowered
  string (\<open>ngx_hash_key\<close>) give the same key, and names that differ only in the case of
  ASCII letters have the same key.
\<close>

lemma hash_lower_agree:
  "ngx_hash_strlow s = (map ngx_tolower s, ngx_hash_key_lc s)
   \<and> ngx_hash_key_lc s = ngx_hash_key (map ngx_tolower s)
   \<and> ngx_hash_key_lc (map ngx_tolower s) = ngx_hash_key_lc s"
  by (simp add: ngx_hash_strlow_def hash_strlow_loop_eq ngx_hash_key_lc_eq ngx_hash_key_def comp_def)

section \<open>Comparison of names\<close>

lemma ngx_strcasecmp_zero:
  "0 \<notin> set s \<Longrightarrow> 0 \<notin> set t \<Longrightarrow>
   \<exists>m. ngx_strcasecmp (s @ 0 # x) (t @ 0 # y) = Some m \<and> (m = 0 \<longleftrightarrow> map ngx_tolower s = map ngx_tolower t)"
proof (induction s arbitrary: t)
  case Nil
  then show ?case by (cases t) (simp_all add: Let_def)
next
  case (Cons a s)
  then show ?case by (cases t) (auto simp: Let_def)
qed

lemma ngx_strncasecmp_prefix:
  "0 \<notin> set pat \<Longrightarrow> length pat \<le> length s \<or> 0 \<in> set s \<Longrightarrow>
   \<exists>m. ngx_strncasecmp s (pat @ x) (length pat) = Some m
     \<and> (m = 0 \<longleftrightarrow> prefix (map ngx_tolower pat) (map ngx_tolower s))"
proof (induction pat arbitrary: s)
  case (Cons a pat)
  then show ?case by (cases s) (auto simp: Let_def)
qed simp

lemma ngx_strncmp_prefix:
  "0 \<notin> set pat \<Longrightarrow> length pat \<le> length s \<or> 0 \<in> set s \<Longrightarrow>
   \<exists>m. ngx_strncmp s (pat @ x) (length pat) = Some m \<and> (m = 0 \<longleftrightarrow> prefix pat s)"
proof (induction pat arbitrary: s)
  case (Cons a pat)
  then show ?case by (cases s) (auto simp: Let_def)
qed simp

lemma ngx_strlen_eq: "0 \<notin> set s \<Longrightarrow> ngx_strlen (s @ 0 # x) = Some (length s)"
  by (induction s) auto


section \<open>First occurrence\<close>

definition first_at :: "bytes \<Rightarrow> bytes \<Rightarrow> nat option \<Rightarrow> bool" where
  "first_at pat h r =
     (case r of
        None \<Rightarrow> \<not> sublist pat h
      | Some i \<Rightarrow> prefix pat (drop i h) \<and> (\<forall>j<i. \<not> prefix pat (drop j h)))"

lemma first_at_skip:
  "\<not> prefix pat (c # h) \<Longrightarrow> first_at pat h r \<Longrightarrow> first_at pat (c # h) (map_option Suc r)"
  by (auto simp: first_at_def sublist_Cons_right less_Suc_eq_0_disj split: option.splits)

lemma first_at_here: "prefix pat h \<Longrightarrow> first_at pat h (Some 0)"
  by (simp add: first_at_def)

lemma first_at_short: "length h < length pat \<Longrightarrow> first_at pat h None"
  by (auto simp: first_at_def dest: sublist_length_le)

definition cstr :: "bytes \<Rightarrow> bytes" where
  "cstr s = takeWhile (\<lambda>c. c \<noteq> ch_NUL) s"

lemma cstr_simps [simp]:
  "cstr [] = []" "cstr (0 # s) = []" "c \<noteq> 0 \<Longrightarrow> cstr (c # s) = c # cstr s"
  by (simp_all add: cstr_def)

lemma prefix_cstr: "0 \<notin> set pat \<Longrightarrow> prefix pat (cstr s) \<longleftrightarrow> prefix pat s"
proof (induction pat arbitrary: s)
  case (Cons a pat)
  then show ?case by (cases s; cases "hd s = 0") auto
qed simp

lemma prefix_map_cstr: "0 \<notin> set pat \<Longrightarrow> prefix pat (map ngx_tolower (cstr s)) \<longleftrightarrow> prefix pat (map ngx_tolower s)"
proof (induction pat arbitrary: s)
  case (Cons a pat)
  then show ?case by (cases s; cases "hd s = 0") auto
qed simp

lemma prefix_take: "length pat \<le> n \<Longrightarrow> prefix pat (take n s) \<longleftrightarrow> prefix pat s"
  by (metis append_take_drop_id prefix_append prefix_length_prefix take_is_prefix prefix_order.trans  length_take min_def prefix_length_le)

definition finds :: "nat option option \<Rightarrow> nat \<Rightarrow> bytes \<Rightarrow> bytes \<Rightarrow> bool" where
  "finds res i pat h \<longleftrightarrow> (\<exists>r. res = Some (map_option (\<lambda>k. i + k) r) \<and> first_at pat h r)"

lemma finds_step:
  assumes "finds res' (i + 1) pat h" and "hit \<longleftrightarrow> prefix pat (c # h)"
    and "res = (if hit then Some (Some i) else res')"
  shows "finds res i pat (c # h)"
proof (cases hit)
  case True
  then show ?thesis
    using assms unfolding finds_def by (intro exI [of _ "Some 0"]) (simp add: first_at_here)
next
  case False
  obtain r where r: "res' = Some (map_option (\<lambda>k. i + 1 + k) r)" "first_at pat h r"
    using assms(1) by (auto simp: finds_def)
  have "first_at pat (c # h) (map_option Suc r)"
    using assms(2) False r(2) by (intro first_at_skip) simp_all
  moreover have "res = Some (map_option (\<lambda>k. i + k) (map_option Suc r))"
    using assms(3) False r(1) by (cases r) simp_all
  ultimately show ?thesis unfolding finds_def by blast
qed

lemma finds_zero: "finds res 0 pat h \<longleftrightarrow> (\<exists>r. res = Some r \<and> first_at pat h r)"
  by (simp add: finds_def option.map_ident)

lemma scast_ascii: "(c :: byte) < 0x80 \<Longrightarrow> (scast c :: 64 word) = ucast c"
proof -
  have "\<forall>c :: byte. c < 0x80 \<longrightarrow> (scast c :: 64 word) = ucast c"
    unfolding all_byte_iff by code_simp
  then show "c < 0x80 \<Longrightarrow> (scast c :: 64 word) = ucast c" by simp
qed

lemma finds_none: "length h < length pat \<Longrightarrow> finds (Some None) i pat h"
  by (auto simp: finds_def first_at_short intro: exI [of _ None])

lemma strnstr_loop_finds:
  assumes "0 \<notin> set (c2 # p)"
  shows "len \<le> length s1 \<or> 0 \<in> set s1 \<Longrightarrow>
    finds (strnstr_loop c2 (p @ 0 # x) (length p) s1 i len) i (c2 # p) (cstr (take len s1))"
proof (induction s1 arbitrary: i len)
  case Nil
  then show ?case by (auto intro: finds_none)
next
  case (Cons c1 s1)
  consider "len = 0 \<or> c1 = 0" | l where "len = Suc l" "c1 \<noteq> 0" by (cases len) auto
  then show ?case
  proof cases
    case 1
    then show ?thesis by (cases len) (auto intro: finds_none)
  next
    case 2
    then have IH: "finds (strnstr_loop c2 (p @ 0 # x) (length p) s1 (i + 1) l) (i + 1) (c2 # p) (cstr (take l s1))"
      using Cons by fastforce
    show ?thesis
    proof (cases "c1 = c2 \<and> l < length p")
      case True
      have "length (cstr (take l s1)) \<le> l"
        using length_takeWhile_le [of "\<lambda>c. c \<noteq> 0" "take l s1"] by (simp add: cstr_def)
      then show ?thesis using 2 True by (auto intro: finds_none)
    next
      case False
      have "l \<le> length s1 \<or> 0 \<in> set s1" using Cons.prems 2 by simp
      then have "length p \<le> length s1 \<or> 0 \<in> set s1" if "c1 = c2"
        using False that by (elim disjE) simp_all
      moreover have "0 \<notin> set p" using assms by simp
      ultimately obtain m where "c1 = c2 \<longrightarrow> ngx_strncmp s1 (p @ 0 # x) (length p) = Some m \<and> (m = 0 \<longleftrightarrow> prefix p s1)"
        using ngx_strncmp_prefix [of p s1 "0 # x"] by metis
      then have "finds (strnstr_loop c2 (p @ 0 # x) (length p) (c1 # s1) i len) i (c2 # p) (c1 # cstr (take l s1))"
        using assms False 2
        by (intro finds_step [OF IH, where hit = "c1 = c2 \<and> prefix p s1"])
          (auto simp: prefix_cstr prefix_take)
      then show ?thesis using 2 by simp
    qed
  qed
qed

lemma strstrn_loop_finds:
  assumes "0 \<notin> set (c2 # p)"
  shows "0 \<in> set s1 \<Longrightarrow> finds (strstrn_loop c2 (p @ 0 # x) (length p) s1 i) i (c2 # p) (cstr s1)"
proof (induction s1 arbitrary: i)
  case (Cons c1 s1)
  show ?case
  proof (cases "c1 = 0")
    case False
    then have z: "0 \<in> set s1" using Cons.prems by auto
    then obtain m where "ngx_strncmp s1 (p @ 0 # x) (length p) = Some m" "m = 0 \<longleftrightarrow> prefix p s1"
      using ngx_strncmp_prefix [of p s1 "0 # x"] assms by auto
    then have "finds (strstrn_loop c2 (p @ 0 # x) (length p) (c1 # s1) i) i (c2 # p) (c1 # cstr s1)"
      using assms False
      by (intro finds_step [OF Cons.IH [OF z], where hit = "c1 = c2 \<and> prefix p s1"]) (auto simp: prefix_cstr)
    then show ?thesis using False by simp
  qed (simp add: finds_none)
qed simp

lemma strcasestrn_loop_finds:
  assumes "0 \<notin> set (c2 # p)"
  shows "0 \<in> set s1 \<Longrightarrow>
    finds (strcasestrn_loop (ucast (ngx_tolower c2)) (p @ x) (length p) s1 i) i
      (map ngx_tolower (c2 # p)) (map ngx_tolower (cstr s1))"
proof (induction s1 arbitrary: i)
  case (Cons c1 s1)
  show ?case
  proof (cases "c1 = 0")
    case False
    then have z: "0 \<in> set s1" using Cons.prems by auto
    then obtain m where "ngx_strncasecmp s1 (p @ x) (length p) = Some m"
        "m = 0 \<longleftrightarrow> prefix (map ngx_tolower p) (map ngx_tolower s1)"
      using ngx_strncasecmp_prefix [of p s1 x] assms by auto
    then have "finds (strcasestrn_loop (ucast (ngx_tolower c2)) (p @ x) (length p) (c1 # s1) i) i
        (map ngx_tolower (c2 # p)) (ngx_tolower c1 # map ngx_tolower (cstr s1))"
      using assms False
      by (intro finds_step [OF Cons.IH [OF z], where hit = "ngx_tolower c1 = ngx_tolower c2 \<and> prefix (map ngx_tolower p) (map ngx_tolower s1)"])
        (auto simp: prefix_map_cstr image_iff)
    then show ?thesis using False by simp
  qed (simp add: finds_none)
qed simp

lemma strlcasestrn_loop_finds:
  assumes "0 \<notin> set (c2 # p)"
  shows "finds (strlcasestrn_loop (ucast (ngx_tolower c2)) (p @ x) (length p)
      (int i + int (length s1) - int (length p)) (s1 @ rest) i) i
      (map ngx_tolower (c2 # p)) (map ngx_tolower s1)"
proof (induction s1 arbitrary: i)
  case Nil
  then show ?case by (cases rest) (simp_all add: finds_none)
next
  case (Cons c1 s1)
  have IH: "finds (strlcasestrn_loop (ucast (ngx_tolower c2)) (p @ x) (length p)
      (int i + int (length (c1 # s1)) - int (length p)) (s1 @ rest) (i + 1)) (i + 1)
      (map ngx_tolower (c2 # p)) (map ngx_tolower s1)"
    using Cons [of "i + 1"] by (simp add: algebra_simps)
  show ?case
  proof (cases "length p \<le> length s1")
    case True
    then obtain m where "ngx_strncasecmp (s1 @ rest) (p @ x) (length p) = Some m"
        "m = 0 \<longleftrightarrow> prefix (map ngx_tolower p) (map ngx_tolower (s1 @ rest))"
      using ngx_strncasecmp_prefix [of p "s1 @ rest" x] assms by auto
    moreover have "prefix (map ngx_tolower p) (map ngx_tolower (s1 @ rest)) \<longleftrightarrow> prefix (map ngx_tolower p) (map ngx_tolower s1)"
      using True prefix_take [of "map ngx_tolower p" "length s1" "map ngx_tolower (s1 @ rest)"] by simp
    ultimately have "finds (strlcasestrn_loop (ucast (ngx_tolower c2)) (p @ x) (length p)
          (int i + int (length (c1 # s1)) - int (length p)) ((c1 # s1) @ rest) i) i
        (map ngx_tolower (c2 # p)) (ngx_tolower c1 # map ngx_tolower s1)"
      using True
      by (intro finds_step [OF IH, where hit = "ngx_tolower c1 = ngx_tolower c2 \<and> prefix (map ngx_tolower p) (map ngx_tolower s1)"])
        auto
    then show ?thesis by simp
  qed (simp add: finds_none)
qed

text \<open>
  C34. Substring search. On readable memory the four search functions return, without reading
  past it, the first occurrence of the pattern, or the null pointer when there is none:
  \<open>ngx_strnstr\<close> in the first \<open>len\<close> bytes up to a NUL, \<open>ngx_strstrn\<close> in a
  NUL-terminated string, \<open>ngx_strcasestrn\<close> the same up to the case of letters and
  \<open>ngx_strlcasestrn\<close> in the bytes before \<open>last\<close>, up to the case of letters. The callers pass
  the length of the pattern minus one, and an ASCII first byte.
\<close>

theorem substring_search_first:
  assumes "0 \<notin> set (c # p)" and "c < 0x80"
  shows "(len \<le> length s \<or> 0 \<in> set s \<longrightarrow>
      (\<exists>r. ngx_strnstr s (c # p @ [0]) len = Some r \<and> first_at (c # p) (cstr (take len s)) r))
    \<and> (0 \<in> set s \<longrightarrow>
        (\<exists>r. ngx_strstrn s (c # p @ [0]) (length p) = Some r \<and> first_at (c # p) (cstr s) r)
      \<and> (\<exists>r. ngx_strcasestrn s (c # p @ [0]) (length p) = Some r
           \<and> first_at (map ngx_tolower (c # p)) (map ngx_tolower (cstr s)) r))
    \<and> (\<exists>r. ngx_strlcasestrn (s @ rest) (int (length s)) (c # p) (length p) = Some r
         \<and> first_at (map ngx_tolower (c # p)) (map ngx_tolower s) r)"
proof (intro conjI impI)
  have 1: "ngx_strlen (p @ [0]) = Some (length p)" using assms(1) ngx_strlen_eq [of p "[]"] by simp
  show "\<exists>r. ngx_strnstr s (c # p @ [0]) len = Some r \<and> first_at (c # p) (cstr (take len s)) r"
    if "len \<le> length s \<or> 0 \<in> set s"
    using strnstr_loop_finds [OF assms(1) that, of "[]" 0] by (auto simp: finds_zero ngx_strnstr_def 1)
  show "\<exists>r. ngx_strstrn s (c # p @ [0]) (length p) = Some r \<and> first_at (c # p) (cstr s) r" if "0 \<in> set s"
    using strstrn_loop_finds [OF assms(1) that, of "[]" 0] by (auto simp: finds_zero ngx_strstrn_def)
  show "\<exists>r. ngx_strcasestrn s (c # p @ [0]) (length p) = Some r
       \<and> first_at (map ngx_tolower (c # p)) (map ngx_tolower (cstr s)) r" if "0 \<in> set s"
    using strcasestrn_loop_finds [OF assms(1) that, of "[0]" 0] scast_ascii [OF assms(2)]
    by (auto simp: finds_zero ngx_strcasestrn_def)
  show "\<exists>r. ngx_strlcasestrn (s @ rest) (int (length s)) (c # p) (length p) = Some r
       \<and> first_at (map ngx_tolower (c # p)) (map ngx_tolower s) r"
    using strlcasestrn_loop_finds [OF assms(1), of "[]" 0 s rest] by (auto simp: finds_zero ngx_strlcasestrn_def)
qed

theorem substring_search_first_witness:
  "\<exists>r. ngx_strnstr (s2b ''a;Qq=1'' @ [0]) (of_char (CHR ''q'') # s2b ''='' @ [0]) 7 = Some r \<and> r = Some 3
     \<and> first_at (of_char (CHR ''q'') # s2b ''='') (cstr (take 7 (s2b ''a;Qq=1'' @ [0]))) r"
proof -
  have pat: "0 \<notin> set (of_char (CHR ''q'') # s2b ''='')" "of_char (CHR ''q'') < (0x80 :: byte)"
    and len: "7 \<le> length (s2b ''a;Qq=1'' @ [0]) \<or> 0 \<in> set (s2b ''a;Qq=1'' @ [0])"
    by simp_all
  have run: "ngx_strnstr (s2b ''a;Qq=1'' @ [0]) (of_char (CHR ''q'') # s2b ''='' @ [0]) 7 = Some (Some 3)"
    by code_simp
  from mp [OF conjunct1 [OF substring_search_first [OF pat]] len] run show ?thesis
    by (metis option.inject)
qed


end
