(* ===== verification/NgxSort.thy ===== *)
theory NgxSort
  imports NgxString "HOL-Library.List_Lexorder" "HOL-Library.Multiset"
begin

text \<open>
  \<open>ngx_sort\<close> of \<^verbatim>\<open>src/core/ngx_string.c\<close>, the interface \<open>comparison\<close> between it and
  the comparison functions of its callers, the orders that \<open>ngx_memn2cmp\<close> and
  \<open>ngx_dns_strcmp\<close> define, and the sorting of the listening addresses.
\<close>

lemma zero_sless_iff: "0 <s (w :: 64 word) \<longleftrightarrow> w \<noteq> 0 \<and> \<not> w <s 0"
  by (metis signed.less_linear signed.less_asym signed.less_irrefl)

section \<open>ngx_sort\<close>

text \<open>
  \<open>ngx_sort\<close> on an array, with the inner loop moving the elements up one place. The element
  being placed is kept in a temporary; when it cannot be allocated, nothing is done.
\<close>

primrec sort_shift :: "('a \<Rightarrow> 'a \<Rightarrow> ngx_int_t) \<Rightarrow> 'a \<Rightarrow> nat \<Rightarrow> 'a list \<Rightarrow> 'a list" where
  "sort_shift cmp p 0 base = base[0 := p]"
| "sort_shift cmp p (Suc p2) base =
     (if 0 <s cmp (base ! p2) p then sort_shift cmp p p2 (base[Suc p2 := base ! p2])
      else base[Suc p2 := p])"

definition ngx_sort :: "bool \<Rightarrow> ('a \<Rightarrow> 'a \<Rightarrow> ngx_int_t) \<Rightarrow> 'a list \<Rightarrow> 'a list" where
  "ngx_sort allocated cmp base =
     (if \<not> allocated then base
      else fold (\<lambda>p1 base. sort_shift cmp (base ! p1) p1 base) [1..<length base] base)"

text \<open>
  What a caller must promise of its comparison function: for elements it may compare, the
  sign is that of a linear order of some key.
\<close>

locale comparison =
  fixes cmp :: "'a \<Rightarrow> 'a \<Rightarrow> ngx_int_t" and key :: "'a \<Rightarrow> 'k::linorder" and ok :: "'a \<Rightarrow> 'a \<Rightarrow> bool"
  assumes cmp_pos: "ok a b \<Longrightarrow> 0 <s cmp a b \<longleftrightarrow> key b < key a"
begin

definition place :: "'a \<Rightarrow> 'a list \<Rightarrow> 'a list" where
  "place p ys = [y \<leftarrow> ys. key y \<le> key p] @ p # [y \<leftarrow> ys. key p < key y]"

lemma sort_shift_place:
  "(\<forall>y\<in>set ys. ok y p) \<Longrightarrow> sorted (map key ys) \<Longrightarrow>
   sort_shift cmp p (length ys) (ys @ a # zs) = place p ys @ zs"
proof (induction ys arbitrary: a zs rule: rev_induct)
  case Nil
  then show ?case by (simp add: place_def)
next
  case (snoc b ys)
  show ?case
  proof (cases "key p < key b")
    case True
    then have "sort_shift cmp p (length (ys @ [b])) ((ys @ [b]) @ a # zs) = sort_shift cmp p (length ys) (ys @ b # b # zs)"
      using snoc.prems by (simp add: cmp_pos nth_append list_update_append)
    also have "\<dots> = place p ys @ b # zs"
      using snoc by (simp add: sorted_append)
    finally show ?thesis using True by (simp add: place_def)
  next
    case False
    moreover have "[y \<leftarrow> ys. key y \<le> key p] = ys"  "[y \<leftarrow> ys. key p < key y] = []"
      using snoc.prems False by (auto simp: sorted_append filter_id_conv filter_empty_conv)
    ultimately show ?thesis
      using snoc.prems by (simp add: cmp_pos nth_append list_update_append place_def)
  qed
qed

lemma place_sort_key: "place p (sort_key key xs) = sort_key key (xs @ [p])"
proof (rule sym, rule properties_for_sort_key)
  show "mset (place p (sort_key key xs)) = mset (xs @ [p])"
    using multiset_partition [of "mset xs" "\<lambda>y. key y \<le> key p"] by (simp add: place_def not_le)
  show "filter (\<lambda>x. key k = key x) (place p (sort_key key xs)) = filter (\<lambda>x. key k = key x) (xs @ [p])" for k
  proof -
    let ?ys = "sort_key key xs"
    have st: "filter (\<lambda>x. key k = key x) ?ys = filter (\<lambda>x. key k = key x) xs"
      using sort_key_stable [of key "key k" xs] by (simp only: eq_commute [of _ "key k"])
    have "filter (\<lambda>x. key k = key x) (filter (\<lambda>y. key y \<le> key p) ?ys) = (if key k \<le> key p then filter (\<lambda>x. key k = key x) ?ys else [])"
      and "filter (\<lambda>x. key k = key x) (filter (\<lambda>y. key p < key y) ?ys) = (if key p < key k then filter (\<lambda>x. key k = key x) ?ys else [])"
      by (auto simp: filter_empty_conv intro!: filter_cong)
    then show ?thesis by (simp add: place_def st [symmetric] del: filter_filter) auto
  qed
  show "sorted (map key (place p (sort_key key xs)))"
    by (force simp: place_def sorted_append sorted_filter)
qed

lemma ngx_sort_prefix:
  "sorted_wrt ok base \<Longrightarrow> n \<le> length base \<Longrightarrow>
   fold (\<lambda>p1 base. sort_shift cmp (base ! p1) p1 base) [1..<n] base
     = sort_key key (take n base) @ drop n base"
proof (induction n)
  case (Suc n)
  show ?case
  proof (cases "n = 0")
    case False
    let ?ys = "sort_key key (take n base)"
    have okn: "\<forall>y\<in>set ?ys. ok y (base ! n)"
      using Suc.prems by (auto simp: in_set_conv_nth sorted_wrt_iff_nth_less)
    have "fold (\<lambda>p1 base. sort_shift cmp (base ! p1) p1 base) [1..<Suc n] base
        = sort_shift cmp ((?ys @ drop n base) ! n) n (?ys @ drop n base)"
      using Suc False by simp
    also have "drop n base = base ! n # drop (Suc n) base" using Suc.prems by (simp add: Cons_nth_drop_Suc)
    also have "(?ys @ base ! n # drop (Suc n) base) ! n = base ! n" 
      using Suc.prems by (simp add: nth_append)
    also have "sort_shift cmp (base ! n) n (?ys @ base ! n # drop (Suc n) base) = place (base ! n) ?ys @ drop (Suc n) base"
      using sort_shift_place [of ?ys "base ! n" "base ! n" "drop (Suc n) base"] Suc.prems okn by simp
    also have "place (base ! n) ?ys = sort_key key (take (Suc n) base)"
      using Suc.prems by (simp add: place_sort_key take_Suc_conv_app_nth)
    finally show ?thesis .
  qed (use Suc in \<open>cases base; simp\<close>)
qed simp

lemma ngx_sort_sort_key: "sorted_wrt ok base \<Longrightarrow> ngx_sort True cmp base = sort_key key base"
  using ngx_sort_prefix [of base "length base"] by (simp add: ngx_sort_def)

end


section \<open>The comparison functions as orders\<close>

text \<open>Keys are compared as byte strings in dictionary order (the order of lists).\<close>

lemma ngx_memcmp_take: "n = min (length a) (length b) \<Longrightarrow> ngx_memcmp (take n a) (take n b) = ngx_memcmp a b"
  by (induction a b arbitrary: n rule: ngx_memcmp.induct) (auto simp: min_def split: if_splits)

lemma ngx_memcmp_less:
  "a < b \<longleftrightarrow> (if ngx_memcmp a b \<noteq> 0 then ngx_memcmp a b <s 0 else length a < length b)"
proof (induction a b rule: ngx_memcmp.induct, goal_cases)
  case (3 a)
  then show ?case by (cases a) simp_all
next
  case (2 b)
  then show ?case by (cases b) simp_all
qed (auto simp: ucast_diff_sless word_less_nat_alt)

lemma ngx_memcmp_eq: "length a = length b \<Longrightarrow> ngx_memcmp a b = 0 \<longleftrightarrow> a = b"
  by (induction a b rule: ngx_memcmp.induct) auto

text \<open>
  \<open>ngx_memn2cmp\<close> is a total order on byte strings: its sign is that of the dictionary
  order, it is zero only for equal strings, and swapping the arguments swaps the sign.
\<close>

lemma ngx_memn2cmp_order:
  "(ngx_memn2cmp a b <s 0 \<longleftrightarrow> a < b) \<and> (ngx_memn2cmp a b = 0 \<longleftrightarrow> a = b) \<and> (0 <s ngx_memn2cmp a b \<longleftrightarrow> b < a)"
proof -
  have m: "ngx_memn2cmp a b = (if ngx_memcmp a b \<noteq> 0 \<or> length a = length b then ngx_memcmp a b
      else if length a \<le> length b then - 1 else 1)"
    using ngx_memcmp_take [of "length a" a b] ngx_memcmp_take [of "length b" a b]
    by (auto simp: ngx_memn2cmp_def Let_def min_def)
  have less: "ngx_memn2cmp a b <s 0 \<longleftrightarrow> a < b"
    using ngx_memcmp_less [of a b] ngx_memcmp_eq [of a b] by (auto simp: m word_sless_alt)
  moreover have "ngx_memn2cmp a b = 0 \<longleftrightarrow> a = b"
    using ngx_memcmp_eq [of a b] by (auto simp: m)
  ultimately show ?thesis by (auto simp: zero_sless_iff)
qed


text \<open>Names in the order of \<open>ngx_dns_strcmp\<close>: letters lowered, the dot before every other byte.\<close>

definition dns_byte :: "byte \<Rightarrow> byte" where
  "dns_byte c = (if ngx_tolower c = ch_dot then ch_SP else ngx_tolower c)"

definition dns_key :: "bytes \<Rightarrow> bytes" where
  "dns_key s = map dns_byte (cstr s)"

definition dns_name :: "bytes \<Rightarrow> bool" where
  "dns_name s \<longleftrightarrow> ch_NUL \<in> set s \<and> ch_SP \<notin> set (cstr s)"

lemma dns_byte_eq: "a \<noteq> ch_SP \<Longrightarrow> b \<noteq> ch_SP \<Longrightarrow> dns_byte a = dns_byte b \<longleftrightarrow> ngx_tolower a = ngx_tolower b"
  using unat_tolower [of a] unat_tolower [of b]
  by (auto simp: dns_byte_def word_unat_eq_iff split: if_splits)

lemma map_dns_byte_eq:
  "ch_SP \<notin> set a \<Longrightarrow> ch_SP \<notin> set b \<Longrightarrow> map dns_byte a = map dns_byte b \<longleftrightarrow> map ngx_tolower a = map ngx_tolower b"
proof (induction a arbitrary: b)
  case (Cons x a)
  then show ?case by (cases b) (simp_all add: dns_byte_eq)
qed simp

lemma dns_byte_0 [simp]: "dns_byte a = 0 \<longleftrightarrow> a = 0"
  by (auto simp: dns_byte_def)

lemma dns_byte_zero [simp]: "dns_byte 0 = 0"
  by simp

lemma dns_ucast:
  "(if (ucast (ngx_tolower a) :: 64 word) = 0x2E then 0x20 else ucast (ngx_tolower a)) = (ucast (dns_byte a) :: 64 word)"
proof -
  have "(ucast (ngx_tolower a) :: 64 word) = 0x2E \<longleftrightarrow> ngx_tolower a = ch_dot"
    using ucast64_eq [of "ngx_tolower a" ch_dot] by simp
  then show ?thesis by (simp add: dns_byte_def)
qed

lemma ngx_dns_strcmp_order:
  "dns_name a \<Longrightarrow> dns_name b \<Longrightarrow>
   \<exists>m. ngx_dns_strcmp a b = Some m \<and> (m <s 0 \<longleftrightarrow> dns_key a < dns_key b) \<and> (m = 0 \<longleftrightarrow> dns_key a = dns_key b)"
proof (induction a b rule: ngx_dns_strcmp.induct)
  case (1 a s1 b s2)
  show ?case
  proof (cases "ngx_tolower a = ngx_tolower b")
    case True
    then have "a = 0 \<longleftrightarrow> b = 0" by (metis ngx_tolower_0)
    with True 1 show ?thesis
      by (cases "a = 0") (auto simp: dns_name_def dns_key_def dns_byte_def Let_def)
  next
    case False
    then have m: "ngx_dns_strcmp (a # s1) (b # s2) = Some (ucast (dns_byte a) - ucast (dns_byte b))"
      by (simp add: Let_def dns_ucast)
    consider "a = 0" "b \<noteq> 0" | "a \<noteq> 0" "b = 0" | "a \<noteq> 0" "b \<noteq> 0" "a \<noteq> ch_SP" "b \<noteq> ch_SP"
      using False 1(2,3) by (cases "a = 0"; cases "b = 0") (auto simp: dns_name_def)
    then show ?thesis
    proof cases
      case 3
      then have "dns_byte a \<noteq> dns_byte b" using False by (simp add: dns_byte_eq)
      with 3 m show ?thesis by (simp add: dns_key_def ucast_diff_sless word_less_nat_alt)
    next
      case 1
      then have "0 < unat (dns_byte b)" by (simp add: unat_eq_0 flip: neq0_conv)
      with 1 m show ?thesis using ucast_diff_sless [of 0 "dns_byte b"] by (simp add: dns_key_def)
    next
      case 2
      with m show ?thesis using ucast_diff_sless [of "dns_byte a" 0] by (simp add: dns_key_def)
    qed
  qed
qed (simp_all add: dns_name_def)


text \<open>
  \<open>ngx_dns_strcmp\<close> on NUL-terminated names without spaces stays inside the two strings
  and orders them by their lower-case letters with the dot as the lowest character, so that
  a domain comes right before its subdomains; zero means equality up to case.
\<close>

lemma dns_strcmp_order:
  assumes "dns_name a" and "dns_name b"
  shows "\<exists>m. ngx_dns_strcmp a b = Some m \<and> (m <s 0 \<longleftrightarrow> dns_key a < dns_key b)
    \<and> (0 <s m \<longleftrightarrow> dns_key b < dns_key a) \<and> (m = 0 \<longleftrightarrow> map ngx_tolower (cstr a) = map ngx_tolower (cstr b))"
proof -
  have "dns_key a = dns_key b \<longleftrightarrow> map ngx_tolower (cstr a) = map ngx_tolower (cstr b)"
    using assms by (simp add: dns_key_def dns_name_def map_dns_byte_eq)
  with ngx_dns_strcmp_order [OF assms] show ?thesis by (auto simp: zero_sless_iff)
qed


lemma dns_strcmp_order_example:
  "dns_name (s2b ''A.b'' @ [0]) \<and> dns_name (s2b ''a-b'' @ [0])
   \<and> (\<exists>m. ngx_dns_strcmp (s2b ''A.b'' @ [0]) (s2b ''a-b'' @ [0]) = Some m
        \<and> (m <s 0 \<longleftrightarrow> dns_key (s2b ''A.b'' @ [0]) < dns_key (s2b ''a-b'' @ [0])))"
proof -
  have "dns_name (s2b ''A.b'' @ [0])" "dns_name (s2b ''a-b'' @ [0])" by code_simp+
  with dns_strcmp_order [OF this] show ?thesis by blast
qed

section \<open>Listening addresses\<close>

text \<open>
  \<open>ngx_http_cmp_conf_addrs\<close> of \<^verbatim>\<open>src/http/ngx_http.c\<close>, by which
  \<open>ngx_http_optimize_servers\<close> sorts the addresses of a port: \<open>opt.wildcard\<close> and \<open>opt.bind\<close>
  of \<open>ngx_http_conf_addr_t\<close>, with the address itself as an identity.
\<close>

record http_conf_addr =
  opt_wildcard :: bool
  opt_bind :: bool
  opt_sockaddr :: bytes

definition ngx_http_cmp_conf_addrs :: "http_conf_addr \<Rightarrow> http_conf_addr \<Rightarrow> ngx_int_t" where
  "ngx_http_cmp_conf_addrs first second =
     (if opt_wildcard first then 1
      else if opt_wildcard second then - 1
      else if opt_bind first \<and> \<not> opt_bind second then - 1
      else if \<not> opt_bind first \<and> opt_bind second then 1
      else 0)"

definition addr_rank :: "http_conf_addr \<Rightarrow> nat" where
  "addr_rank a = (if opt_wildcard a then 2 else if opt_bind a then 0 else 1)"

interpretation conf_addrs: comparison ngx_http_cmp_conf_addrs addr_rank
  "\<lambda>a b. \<not> (opt_wildcard a \<and> opt_wildcard b)"
  by unfold_locales (auto simp: ngx_http_cmp_conf_addrs_def addr_rank_def word_sless_alt)

lemma sort_key_three:
  fixes f :: "'a \<Rightarrow> nat"
  assumes f: "\<And>x. f x \<le> 2"
  shows "sort_key f xs = [x \<leftarrow> xs. f x = 0] @ [x \<leftarrow> xs. f x = 1] @ [x \<leftarrow> xs. f x = 2]"
proof (rule properties_for_sort_key)
  have c: "f x = 0 \<or> f x = 1 \<or> f x = 2" for x using f [of x] by linarith
  show "mset ([x \<leftarrow> xs. f x = 0] @ [x \<leftarrow> xs. f x = 1] @ [x \<leftarrow> xs. f x = 2]) = mset xs"
  proof (induction xs)
    case (Cons x xs)
    then show ?case using c [of x] by auto
  qed simp
  show "filter (\<lambda>x. f k = f x) ([x \<leftarrow> xs. f x = 0] @ [x \<leftarrow> xs. f x = 1] @ [x \<leftarrow> xs. f x = 2])
      = filter (\<lambda>x. f k = f x) xs" for k
  proof -
    have "filter (\<lambda>x. f k = f x) [x \<leftarrow> xs. f x = i] = (if f k = i then filter (\<lambda>x. f k = f x) xs else [])" for i
      by (auto simp: filter_empty_conv intro: filter_cong)
    then show ?thesis using c [of k] by (auto simp del: filter_filter)
  qed
  show "sorted (map f ([x \<leftarrow> xs. f x = 0] @ [x \<leftarrow> xs. f x = 1] @ [x \<leftarrow> xs. f x = 2]))"
  proof -
    have "sorted (map f [x \<leftarrow> xs. f x = i])" for i by (induction xs) auto
    then show ?thesis by (auto simp: sorted_append)
  qed
qed

text \<open>
  Sorting the addresses of a port, which has at most one wildcard address: \<open>ngx_sort\<close>
  with \<open>ngx_http_cmp_conf_addrs\<close> is a stable sort. The explicitly bound addresses come
  first, the wildcard address last, and addresses of one group keep the order of the
  configuration.
\<close>

lemma conf_addrs_sorted:
  assumes "sorted_wrt (\<lambda>a b. \<not> (opt_wildcard a \<and> opt_wildcard b)) addrs"
  shows "ngx_sort True ngx_http_cmp_conf_addrs addrs =
    [a \<leftarrow> addrs. opt_bind a \<and> \<not> opt_wildcard a] @ [a \<leftarrow> addrs. \<not> opt_bind a \<and> \<not> opt_wildcard a]
      @ [a \<leftarrow> addrs. opt_wildcard a]"
proof -
  have "sort_key addr_rank addrs = [a \<leftarrow> addrs. addr_rank a = 0] @ [a \<leftarrow> addrs. addr_rank a = 1] @ [a \<leftarrow> addrs. addr_rank a = 2]"
    by (rule sort_key_three) (simp add: addr_rank_def)
  moreover have "addr_rank a = 0 \<longleftrightarrow> opt_bind a \<and> \<not> opt_wildcard a" "addr_rank a = 1 \<longleftrightarrow> \<not> opt_bind a \<and> \<not> opt_wildcard a"
      "addr_rank a = 2 \<longleftrightarrow> opt_wildcard a" for a
    by (simp_all add: addr_rank_def)
  ultimately show ?thesis
    using conf_addrs.ngx_sort_sort_key [OF assms] by simp
qed


lemma conf_addrs_sorted_example:
  "ngx_sort True ngx_http_cmp_conf_addrs
     [\<lparr>opt_wildcard = True, opt_bind = True, opt_sockaddr = [1]\<rparr>, \<lparr>opt_wildcard = False, opt_bind = False, opt_sockaddr = [2]\<rparr>,
      \<lparr>opt_wildcard = False, opt_bind = True, opt_sockaddr = [3]\<rparr>, \<lparr>opt_wildcard = False, opt_bind = False, opt_sockaddr = [4]\<rparr>]
   = [\<lparr>opt_wildcard = False, opt_bind = True, opt_sockaddr = [3]\<rparr>, \<lparr>opt_wildcard = False, opt_bind = False, opt_sockaddr = [2]\<rparr>,
      \<lparr>opt_wildcard = False, opt_bind = False, opt_sockaddr = [4]\<rparr>, \<lparr>opt_wildcard = True, opt_bind = True, opt_sockaddr = [1]\<rparr>]"
  by (subst conf_addrs_sorted) simp_all

end
