(* ===== verification/NgxRbtree.thy ===== *)
theory NgxRbtree
  imports NgxSort "HOL-Library.Product_Lexorder"
begin

text \<open>
  The red-black trees of \<^verbatim>\<open>src/core/ngx_rbtree.c\<close> and the string trees of
  \<^verbatim>\<open>src/core/ngx_string.c\<close>. A node has a \<open>parent\<close> pointer in C, so a pointer into a tree is a
  zipper here: the subtree below the node and the path from its parent up to the root. Moving
  along \<open>parent\<close>, testing \<open>node == node->parent->left\<close>, recolouring and rotating are steps on
  the zipper; \<open>None\<close> stands for the use of a null \<open>parent\<close> or of a field of the sentinel. The
  theorems show that insertion and deletion never get there, keep the red-black invariant and
  change the sequence of the nodes only by the one that is inserted or deleted.
\<close>

section \<open>Definitions\<close>

datatype 'a rbtree = Sentinel | Node (rb_red: bool) (rb_left: "'a rbtree") (rb_elem: 'a) (rb_right: "'a rbtree")
  where "rb_red Sentinel = False"

text \<open>A step of the path: the parent of a left child with its colour and right subtree, or of a right child.\<close>

datatype 'a crumb = InLeft bool 'a "'a rbtree" | InRight bool "'a rbtree" 'a

type_synonym 'a zipper = "'a rbtree \<times> 'a crumb list"

fun ngx_rbt_black :: "'a rbtree \<Rightarrow> 'a rbtree" where
  "ngx_rbt_black Sentinel = Sentinel"
| "ngx_rbt_black (Node c l x r) = Node False l x r"

fun ngx_rbt_red :: "'a rbtree \<Rightarrow> 'a rbtree" where
  "ngx_rbt_red Sentinel = Sentinel"
| "ngx_rbt_red (Node c l x r) = Node True l x r"

fun plug :: "'a rbtree \<Rightarrow> 'a crumb \<Rightarrow> 'a rbtree" where
  "plug t (InLeft c x r) = Node c t x r"
| "plug t (InRight c l x) = Node c l x t"

fun zip_up :: "'a rbtree \<Rightarrow> 'a crumb list \<Rightarrow> 'a rbtree" where
  "zip_up t [] = t"
| "zip_up t (c # path) = zip_up (plug t c) path"

text \<open>
  The rotations at the node of the zipper; the zipper stays at that node, which moves one level
  down below \<open>temp\<close>.
\<close>

fun ngx_rbtree_left_rotate :: "'a zipper \<Rightarrow> 'a zipper option" where
  "ngx_rbtree_left_rotate (Node c l x (Node c' l' x' r'), path) = Some (Node c l x l', InLeft c' x' r' # path)"
| "ngx_rbtree_left_rotate _ = None"

fun ngx_rbtree_right_rotate :: "'a zipper \<Rightarrow> 'a zipper option" where
  "ngx_rbtree_right_rotate (Node c (Node c' l' x' r') x r, path) = Some (Node c r' x r, InRight c' l' x' # path)"
| "ngx_rbtree_right_rotate _ = None"

text \<open>
  The insertion callbacks walk down to a free place. The test says that \<open>node\<close> belongs to the
  left of \<open>temp\<close>.
\<close>

fun rb_descend :: "('a \<Rightarrow> 'a \<Rightarrow> bool) \<Rightarrow> 'a \<Rightarrow> 'a rbtree \<Rightarrow> 'a crumb list \<Rightarrow> 'a zipper" where
  "rb_descend left node Sentinel path = (Node True Sentinel node Sentinel, path)"
| "rb_descend left node (Node c l temp r) path =
     (if left node temp then rb_descend left node l (InLeft c temp r # path)
      else rb_descend left node r (InRight c l temp # path))"

text \<open>The keys are 64-bit words; timer keys are compared by the sign of their difference.\<close>

definition ngx_rbtree_insert_value :: "('a \<Rightarrow> ngx_uint_t) \<Rightarrow> 'a \<Rightarrow> 'a rbtree \<Rightarrow> 'a crumb list \<Rightarrow> 'a zipper" where
  "ngx_rbtree_insert_value key = rb_descend (\<lambda>node temp. key node < key temp)"

definition ngx_rbtree_insert_timer_value :: "('a \<Rightarrow> ngx_uint_t) \<Rightarrow> 'a \<Rightarrow> 'a rbtree \<Rightarrow> 'a crumb list \<Rightarrow> 'a zipper" where
  "ngx_rbtree_insert_timer_value key = rb_descend (\<lambda>node temp. key node - key temp <s 0)"

text \<open>
  The loop that rebalances after an insertion, at a node that may have a red parent. Where the
  source rotates at the grandparent, the zipper moves up twice for the rotation and back.
\<close>

function rb_insert_fix :: "'a rbtree \<Rightarrow> 'a crumb list \<Rightarrow> 'a rbtree option" where
  "rb_insert_fix node [] = Some node"
| "rb_insert_fix node [InLeft pc p pr] = (if pc then None else Some (zip_up node [InLeft pc p pr]))"
| "rb_insert_fix node [InRight pc pl p] = (if pc then None else Some (zip_up node [InRight pc pl p]))"
| "rb_insert_fix node (InLeft pc p pr # InLeft gc g temp # path) =
     (if \<not> pc then Some (zip_up node (InLeft pc p pr # InLeft gc g temp # path))
      else if rb_red temp
      then rb_insert_fix (Node True (Node False node p pr) g (ngx_rbt_black temp)) path
      else case ngx_rbtree_right_rotate (Node True (Node False node p pr) g temp, path) of
             Some (gp, InRight pc' node' p' # path') \<Rightarrow> rb_insert_fix node' (InLeft pc' p' gp # path)
           | _ \<Rightarrow> None)"
| "rb_insert_fix node (InRight pc pl p # InLeft gc g temp # path) =
     (if \<not> pc then Some (zip_up node (InRight pc pl p # InLeft gc g temp # path))
      else if rb_red temp
      then rb_insert_fix (Node True (Node False pl p node) g (ngx_rbt_black temp)) path
      else case ngx_rbtree_left_rotate (Node pc pl p node, []) of
             Some (node', [InLeft nc n nr]) \<Rightarrow>
               (case ngx_rbtree_right_rotate (Node True (Node False node' n nr) g temp, path) of
                  Some (gp, InRight pc' node'' p' # path') \<Rightarrow> rb_insert_fix node'' (InLeft pc' p' gp # path)
                | _ \<Rightarrow> None)
           | _ \<Rightarrow> None)"
| "rb_insert_fix node (InLeft pc p pr # InRight gc temp g # path) =
     (if \<not> pc then Some (zip_up node (InLeft pc p pr # InRight gc temp g # path))
      else if rb_red temp
      then rb_insert_fix (Node True (ngx_rbt_black temp) g (Node False node p pr)) path
      else case ngx_rbtree_right_rotate (Node pc node p pr, []) of
             Some (node', [InRight nc nl n]) \<Rightarrow>
               (case ngx_rbtree_left_rotate (Node True temp g (Node False nl n node'), path) of
                  Some (gp, InLeft pc' p' node'' # path') \<Rightarrow> rb_insert_fix node'' (InRight pc' gp p' # path)
                | _ \<Rightarrow> None)
           | _ \<Rightarrow> None)"
| "rb_insert_fix node (InRight pc pl p # InRight gc temp g # path) =
     (if \<not> pc then Some (zip_up node (InRight pc pl p # InRight gc temp g # path))
      else if rb_red temp
      then rb_insert_fix (Node True (ngx_rbt_black temp) g (Node False pl p node)) path
      else case ngx_rbtree_left_rotate (Node True temp g (Node False pl p node), path) of
             Some (gp, InLeft pc' p' node' # path') \<Rightarrow> rb_insert_fix node' (InRight pc' gp p' # path)
           | _ \<Rightarrow> None)"
  by pat_completeness auto
termination by (relation "measure (\<lambda>(node, path). length path)") auto

definition ngx_rbtree_insert ::
  "('a \<Rightarrow> 'a rbtree \<Rightarrow> 'a crumb list \<Rightarrow> 'a zipper) \<Rightarrow> 'a rbtree \<Rightarrow> 'a \<Rightarrow> 'a rbtree option" where
  "ngx_rbtree_insert ins root node =
     (if root = Sentinel then Some (Node False Sentinel node Sentinel)
      else let (n, path) = ins node root []
           in map_option ngx_rbt_black (rb_insert_fix n path))"

subsection \<open>Deletion\<close>

fun ngx_rbtree_min :: "'a rbtree \<Rightarrow> 'a crumb list \<Rightarrow> 'a zipper" where
  "ngx_rbtree_min (Node c (Node lc ll lx lr) x r) path = ngx_rbtree_min (Node lc ll lx lr) (InLeft c x r # path)"
| "ngx_rbtree_min t path = (t, path)"

text \<open>
  One round of the fixup: \<open>w\<close> is the sibling of \<open>temp\<close>. The outcome is either the new \<open>temp\<close> or
  the tree, where the source sets \<open>temp\<close> to the root. The first two functions are the part
  behind the test for a red sibling.
\<close>

definition rb_sibling_right ::
  "'a rbtree \<Rightarrow> bool \<Rightarrow> 'a \<Rightarrow> 'a rbtree \<Rightarrow> 'a crumb list \<Rightarrow> ('a zipper + 'a rbtree) option" where
  "rb_sibling_right temp pc p w path =
     (case w of
        Sentinel \<Rightarrow> None
      | Node wc wl wx wr \<Rightarrow>
          if \<not> rb_red wl \<and> \<not> rb_red wr then Some (Inl (Node pc temp p (ngx_rbt_red w), path))
          else (let w' = (if \<not> rb_red wr
                          then case ngx_rbtree_right_rotate (Node True (ngx_rbt_black wl) wx wr, []) of
                                 Some (t, crumbs) \<Rightarrow> zip_up t crumbs
                               | None \<Rightarrow> Sentinel
                          else w)
                in case w' of
                     Sentinel \<Rightarrow> None
                   | Node wc' wl' wx' wr' \<Rightarrow>
                       (case ngx_rbtree_left_rotate (Node False temp p (Node pc wl' wx' (ngx_rbt_black wr')), path) of
                          None \<Rightarrow> None
                        | Some (t, path') \<Rightarrow> Some (Inr (zip_up t path')))))"

definition rb_sibling_left ::
  "'a rbtree \<Rightarrow> bool \<Rightarrow> 'a \<Rightarrow> 'a rbtree \<Rightarrow> 'a crumb list \<Rightarrow> ('a zipper + 'a rbtree) option" where
  "rb_sibling_left temp pc p w path =
     (case w of
        Sentinel \<Rightarrow> None
      | Node wc wl wx wr \<Rightarrow>
          if \<not> rb_red wl \<and> \<not> rb_red wr then Some (Inl (Node pc (ngx_rbt_red w) p temp, path))
          else (let w' = (if \<not> rb_red wl
                          then case ngx_rbtree_left_rotate (Node True wl wx (ngx_rbt_black wr), []) of
                                 Some (t, crumbs) \<Rightarrow> zip_up t crumbs
                               | None \<Rightarrow> Sentinel
                          else w)
                in case w' of
                     Sentinel \<Rightarrow> None
                   | Node wc' wl' wx' wr' \<Rightarrow>
                       (case ngx_rbtree_right_rotate (Node False (Node pc (ngx_rbt_black wl') wx' wr') p temp, path) of
                          None \<Rightarrow> None
                        | Some (t, path') \<Rightarrow> Some (Inr (zip_up t path')))))"

fun rb_delete_round :: "'a rbtree \<Rightarrow> 'a crumb \<Rightarrow> 'a crumb list \<Rightarrow> ('a zipper + 'a rbtree) option" where
  "rb_delete_round temp (InLeft pc p w) path =
     (if rb_red w
      then case ngx_rbtree_left_rotate (Node True temp p (ngx_rbt_black w), path) of
             Some (Node pc' temp' p' w', path') \<Rightarrow> rb_sibling_right temp pc' p' w' path'
           | _ \<Rightarrow> None
      else rb_sibling_right temp pc p w path)"
| "rb_delete_round temp (InRight pc w p) path =
     (if rb_red w
      then case ngx_rbtree_right_rotate (Node True (ngx_rbt_black w) p temp, path) of
             Some (Node pc' w' p' temp', path') \<Rightarrow> rb_sibling_left temp pc' p' w' path'
           | _ \<Rightarrow> None
      else rb_sibling_left temp pc p w path)"

text \<open>The measure of the loop: a round goes up, except that a red sibling first goes down to a red parent.\<close>

definition fix_measure :: "'a zipper \<Rightarrow> nat" where
  "fix_measure z = 2 * length (snd z) + (if rb_red (fst z) then 0 else 1)"

lemma rb_sibling_shorter:
  "rb_sibling_right temp pc p w path = Some (Inl z) \<Longrightarrow> snd z = path \<and> rb_red (fst z) = pc"
  "rb_sibling_left temp pc p w path = Some (Inl z) \<Longrightarrow> snd z = path \<and> rb_red (fst z) = pc"
  by (auto simp: rb_sibling_right_def rb_sibling_left_def Let_def split: rbtree.splits if_splits option.splits prod.splits)

lemma rb_delete_round_shorter:
  assumes "rb_delete_round temp c path = Some (Inl z)" and "\<not> rb_red temp"
  shows "fix_measure z < fix_measure (temp, c # path)"
proof (cases c)
  case (InLeft pc p w)
  then show ?thesis
    using assms by (cases w)
      (auto simp: fix_measure_def dest!: rb_sibling_shorter(1) split: if_splits)
next
  case (InRight pc w p)
  then show ?thesis
    using assms by (cases w)
      (auto simp: fix_measure_def dest!: rb_sibling_shorter(2) split: if_splits)
qed

function rb_delete_fix :: "'a rbtree \<Rightarrow> 'a crumb list \<Rightarrow> 'a rbtree option" where
  "rb_delete_fix temp [] = Some (ngx_rbt_black temp)"
| "rb_delete_fix temp (c # path) =
     (if rb_red temp then Some (zip_up (ngx_rbt_black temp) (c # path))
      else case rb_delete_round temp c path of
             None \<Rightarrow> None
           | Some (Inl (temp', path')) \<Rightarrow> rb_delete_fix temp' path'
           | Some (Inr root) \<Rightarrow> Some (ngx_rbt_black root))"
  by pat_completeness auto
termination
  by (relation "measure fix_measure") (auto dest: rb_delete_round_shorter)

text \<open>
  \<open>ngx_rbtree_delete\<close> of the node at a zipper. The successor \<open>subst\<close> takes the place, the colour
  and the children of the node.
\<close>

fun ngx_rbtree_delete :: "'a zipper \<Rightarrow> 'a rbtree option" where
  "ngx_rbtree_delete (Sentinel, path) = None"
| "ngx_rbtree_delete (Node c l x r, path) =
     (if l = Sentinel \<or> r = Sentinel
      then let temp = (if l = Sentinel then r else l)
           in if path = [] then Some (ngx_rbt_black temp)
              else if c then Some (zip_up temp path)
              else rb_delete_fix temp path
      else case ngx_rbtree_min r [] of
             (Sentinel, _) \<Rightarrow> None
           | (Node sc sl sx sr, spath) \<Rightarrow>
               let temp = (if sl \<noteq> Sentinel then sl else sr);
                   path' = spath @ InRight c l sx # path
               in if sc then Some (zip_up temp path') else rb_delete_fix temp path')"

subsection \<open>String trees\<close>

text \<open>
  \<open>ngx_str_node_t\<close>: a node with a hash as key and a string; \<open>ngx_memcmp\<close> compares strings of the
  same length.
\<close>

record str_node =
  sn_key :: ngx_uint_t
  sn_str :: bytes

definition str_node_left :: "str_node \<Rightarrow> str_node \<Rightarrow> bool" where
  "str_node_left n t \<longleftrightarrow>
     (if sn_key n \<noteq> sn_key t then sn_key n < sn_key t
      else if length (sn_str n) \<noteq> length (sn_str t) then length (sn_str n) < length (sn_str t)
      else ngx_memcmp (sn_str n) (sn_str t) <s 0)"

definition ngx_str_rbtree_insert_value :: "str_node \<Rightarrow> str_node rbtree \<Rightarrow> str_node crumb list \<Rightarrow> str_node zipper" where
  "ngx_str_rbtree_insert_value = rb_descend str_node_left"

fun ngx_str_rbtree_lookup :: "str_node rbtree \<Rightarrow> bytes \<Rightarrow> u32 \<Rightarrow> str_node option" where
  "ngx_str_rbtree_lookup Sentinel val hash = None"
| "ngx_str_rbtree_lookup (Node c left n right) val hash =
     (if ucast hash \<noteq> sn_key n
      then ngx_str_rbtree_lookup (if ucast hash < sn_key n then left else right) val hash
      else if length val \<noteq> length (sn_str n)
      then ngx_str_rbtree_lookup (if length val < length (sn_str n) then left else right) val hash
      else let rc = ngx_memcmp val (sn_str n)
           in if rc <s 0 then ngx_str_rbtree_lookup left val hash
              else if 0 <s rc then ngx_str_rbtree_lookup right val hash
              else Some n)"

section \<open>The sequence of the nodes\<close>

fun inorder :: "'a rbtree \<Rightarrow> 'a list" where
  "inorder Sentinel = []"
| "inorder (Node c l x r) = inorder l @ x # inorder r"

text \<open>The nodes before and behind the subtree at a path.\<close>

fun before :: "'a crumb list \<Rightarrow> 'a list" where
  "before [] = []"
| "before (InLeft c x r # path) = before path"
| "before (InRight c l x # path) = before path @ inorder l @ [x]"

fun behind :: "'a crumb list \<Rightarrow> 'a list" where
  "behind [] = []"
| "behind (InLeft c x r # path) = x # inorder r @ behind path"
| "behind (InRight c l x # path) = behind path"

lemma inorder_colour [simp]: "inorder (ngx_rbt_black t) = inorder t" "inorder (ngx_rbt_red t) = inorder t"
  by (cases t; simp)+

lemma inorder_zip_up [simp]: "inorder (zip_up t path) = before path @ inorder t @ behind path"
proof (induction path arbitrary: t)
  case (Cons c path)
  then show ?case by (cases c) simp_all
qed simp

lemma before_append [simp]: "before (p @ q) = before q @ before p"
  by (induction p rule: before.induct) simp_all

lemma behind_append [simp]: "behind (p @ q) = behind p @ behind q"
  by (induction p rule: behind.induct) simp_all

lemma rotate_inorder:
  "ngx_rbtree_left_rotate (t, path) = Some (t', path') \<Longrightarrow> before path' @ inorder t' @ behind path' = before path @ inorder t @ behind path"
  "ngx_rbtree_right_rotate (t, path) = Some (t', path') \<Longrightarrow> before path' @ inorder t' @ behind path' = before path @ inorder t @ behind path"
  by (cases "(t, path)" rule: ngx_rbtree_left_rotate.cases; auto)
    (cases "(t, path)" rule: ngx_rbtree_right_rotate.cases; auto)

lemma rb_insert_fix_inorder:
  "rb_insert_fix node path = Some t \<Longrightarrow> inorder t = before path @ inorder node @ behind path"
proof (induction node path rule: rb_insert_fix.induct)
  case (5 node pc pl p gc g temp path)
  then show ?case by (cases node) (auto split: if_splits)
next
  case (6 node pc p pr gc temp g path)
  then show ?case by (cases node) (auto split: if_splits)
qed (auto split: if_splits)

section \<open>The red-black invariant\<close>

fun bheight :: "'a rbtree \<Rightarrow> nat" where
  "bheight Sentinel = 0"
| "bheight (Node c l x r) = bheight l + (if c then 0 else 1)"

fun balanced :: "'a rbtree \<Rightarrow> bool" where
  "balanced Sentinel \<longleftrightarrow> True"
| "balanced (Node c l x r) \<longleftrightarrow> balanced l \<and> balanced r \<and> bheight l = bheight r \<and> (c \<longrightarrow> \<not> rb_red l \<and> \<not> rb_red r)"

definition rb_inv :: "'a rbtree \<Rightarrow> bool" where
  "rb_inv t \<longleftrightarrow> balanced t \<and> \<not> rb_red t"

text \<open>
  The context of a subtree with black height \<open>n\<close>: the siblings fit, a red node has a black
  parent, and in particular is not the root.
\<close>

fun crumb_red :: "'a crumb \<Rightarrow> bool" where
  "crumb_red (InLeft c x r) = c"
| "crumb_red (InRight c l x) = c"

abbreviation under_black :: "'a crumb list \<Rightarrow> bool" where
  "under_black path \<equiv> path \<noteq> [] \<and> \<not> crumb_red (hd path)"

fun path_ok :: "nat \<Rightarrow> 'a crumb list \<Rightarrow> bool" where
  "path_ok n [] \<longleftrightarrow> True"
| "path_ok n (InLeft c x r # path) \<longleftrightarrow>
     balanced r \<and> bheight r = n \<and> (c \<longrightarrow> \<not> rb_red r \<and> under_black path) \<and> path_ok (n + (if c then 0 else 1)) path"
| "path_ok n (InRight c l x # path) \<longleftrightarrow>
     balanced l \<and> bheight l = n \<and> (c \<longrightarrow> \<not> rb_red l \<and> under_black path) \<and> path_ok (n + (if c then 0 else 1)) path"

lemma rb_inv_zip_up:
  "rb_inv (zip_up t path) \<longleftrightarrow> balanced t \<and> path_ok (bheight t) path \<and> (rb_red t \<longrightarrow> under_black path)"
proof (induction path arbitrary: t)
  case Nil
  then show ?case by (auto simp: rb_inv_def)
next
  case (Cons c path)
  show ?case by (cases c) (auto simp: Cons.IH)
qed

lemma black_simps [simp]: "\<not> rb_red (ngx_rbt_black t)" "\<not> rb_red t \<Longrightarrow> ngx_rbt_black t = t"
  "balanced t \<Longrightarrow> balanced (ngx_rbt_black t)" "rb_red t \<Longrightarrow> bheight (ngx_rbt_black t) = Suc (bheight t)"
  by (cases t; simp)+

lemma rb_inv_black: "balanced t \<Longrightarrow> rb_inv (ngx_rbt_black t)"
  by (simp add: rb_inv_def)

lemma rb_insert_fix_balanced:
  "balanced node \<Longrightarrow> rb_red node \<Longrightarrow> path_ok (bheight node) path \<Longrightarrow>
   \<exists>t. rb_insert_fix node path = Some t \<and> balanced t"
proof (induction node path rule: rb_insert_fix.induct)
  case (4 node pc p pr gc g temp path)
  show ?case
  proof (cases pc)
    case False
    then show ?thesis
      using 4 rb_inv_zip_up [of node "InLeft pc p pr # InLeft gc g temp # path"] by (simp add: rb_inv_def)
  next
    case True
    then show ?thesis using 4 by (cases "rb_red temp") auto
  qed
next
  case (5 node pc pl p gc g temp path)
  show ?case
  proof (cases pc)
    case False
    then show ?thesis
      using 5 rb_inv_zip_up [of node "InRight pc pl p # InLeft gc g temp # path"] by (simp add: rb_inv_def)
  next
    case True
    then show ?thesis using 5 by (cases "rb_red temp"; cases node) auto
  qed
next
  case (6 node pc p pr gc temp g path)
  show ?case
  proof (cases pc)
    case False
    then show ?thesis
      using 6 rb_inv_zip_up [of node "InLeft pc p pr # InRight gc temp g # path"] by (simp add: rb_inv_def)
  next
    case True
    then show ?thesis using 6 by (cases "rb_red temp"; cases node) auto
  qed
next
  case (7 node pc pl p gc temp g path)
  show ?case
  proof (cases pc)
    case False
    then show ?thesis
      using 7 rb_inv_zip_up [of node "InRight pc pl p # InRight gc temp g # path"] by (simp add: rb_inv_def)
  next
    case True
    then show ?thesis using 7 by (cases "rb_red temp") auto
  qed
qed auto

lemma rb_descend_zip:
  "rb_descend left x t path = (n, path') \<Longrightarrow> balanced t \<Longrightarrow> path_ok (bheight t) path \<Longrightarrow> (rb_red t \<longrightarrow> under_black path) \<Longrightarrow>
   n = Node True Sentinel x Sentinel \<and> path_ok 0 path'"
  by (induction left x t path arbitrary: n path' rule: rb_descend.induct) (auto split: if_splits)

lemma rb_descend_inorder:
  "rb_descend left x t path = (n, path') \<Longrightarrow> sorted_wrt (\<lambda>a b. left x a \<longrightarrow> left x b) (inorder t) \<Longrightarrow>
   before path' @ inorder n @ behind path'
   = before path @ [y \<leftarrow> inorder t. \<not> left x y] @ x # [y \<leftarrow> inorder t. left x y] @ behind path"
proof (induction left x t path arbitrary: n path' rule: rb_descend.induct)
  case (2 left x c l temp r path)
  note sorted = 2(4) [unfolded inorder.simps sorted_wrt_append sorted_wrt.simps]
  then have s: "sorted_wrt (\<lambda>a b. left x a \<longrightarrow> left x b) (inorder l)" "sorted_wrt (\<lambda>a b. left x a \<longrightarrow> left x b) (inorder r)"
    by blast+
  have l: "\<forall>y\<in>set (inorder l). left x y \<longrightarrow> left x temp" using sorted by (meson list.set_intros(1))
  have r: "\<forall>y\<in>set (inorder r). left x temp \<longrightarrow> left x y" using sorted by blast
  show ?case
  proof (cases "left x temp")
    case True
    then have "[y \<leftarrow> inorder r. left x y] = inorder r" "[y \<leftarrow> inorder r. \<not> left x y] = []"
      using r by (auto simp: filter_id_conv filter_empty_conv)
    with True 2(1) [OF True _ s(1)] 2(3) show ?thesis by simp
  next
    case False
    then have "[y \<leftarrow> inorder l. left x y] = []" "[y \<leftarrow> inorder l. \<not> left x y] = inorder l"
      using l by (auto simp: filter_id_conv filter_empty_conv)
    with False 2(2) [OF False _ s(2)] 2(3) show ?thesis by simp
  qed
qed auto

lemma rb_insert_inv:
  assumes "rb_inv t"
  shows "\<exists>t'. ngx_rbtree_insert (rb_descend left) t x = Some t' \<and> rb_inv t'"
proof (cases "t = Sentinel")
  case True
  then show ?thesis by (simp add: ngx_rbtree_insert_def rb_inv_def)
next
  case False
  obtain n path where d: "rb_descend left x t [] = (n, path)" by fastforce
  then have "n = Node True Sentinel x Sentinel" "path_ok 0 path"
    using rb_descend_zip [OF d] assms by (simp_all add: rb_inv_def)
  then obtain t' where "rb_insert_fix n path = Some t'" "balanced t'"
    using rb_insert_fix_balanced [of n path] by auto
  then show ?thesis using False by (auto simp: ngx_rbtree_insert_def d rb_inv_black)
qed

lemma rb_insert_inorder:
  assumes "ngx_rbtree_insert (rb_descend left) t x = Some t'"
    and "sorted_wrt (\<lambda>a b. left x a \<longrightarrow> left x b) (inorder t)"
  shows "inorder t' = [y \<leftarrow> inorder t. \<not> left x y] @ x # [y \<leftarrow> inorder t. left x y]"
proof (cases "t = Sentinel")
  case True
  then show ?thesis using assms(1) by (auto simp: ngx_rbtree_insert_def)
next
  case False
  obtain n path where d: "rb_descend left x t [] = (n, path)" by fastforce
  then obtain t'' where "rb_insert_fix n path = Some t''" "t' = ngx_rbt_black t''"
    using assms(1) False by (auto simp: ngx_rbtree_insert_def)
  then show ?thesis
    using rb_insert_fix_inorder [of n path t''] rb_descend_inorder [OF d assms(2)] by simp
qed

section \<open>Deletion\<close>

lemma rb_min_zip: "t \<noteq> Sentinel \<Longrightarrow>
   \<exists>c x r spath. ngx_rbtree_min t path = (Node c Sentinel x r, spath @ path) \<and> zip_up (Node c Sentinel x r) spath = t
     \<and> before spath = []"
proof (induction t path rule: ngx_rbtree_min.induct)
  case (1 c lc ll lx lr x r path)
  then obtain c' x' r' spath where
    "ngx_rbtree_min (Node lc ll lx lr) (InLeft c x r # path) = (Node c' Sentinel x' r', spath @ InLeft c x r # path)"
    "zip_up (Node c' Sentinel x' r') spath = Node lc ll lx lr" "before spath = []" by auto
  moreover have "zip_up t (spath @ path) = zip_up (zip_up t spath) path" for t path
    by (induction spath arbitrary: t) simp_all
  ultimately show ?case by (intro exI [of _ c'] exI [of _ x'] exI [of _ r'] exI [of _ "spath @ [InLeft c x r]"]) simp
qed auto

lemma zip_up_append: "zip_up t (p @ q) = zip_up (zip_up t p) q"
  by (induction p arbitrary: t) simp_all

text \<open>
  The fixup works on a subtree that is one black node too low, and may be red with red children
  until it is blackened at the end.
\<close>

definition deficient :: "'a zipper \<Rightarrow> bool" where
  "deficient z \<longleftrightarrow> balanced (ngx_rbt_black (fst z)) \<and> path_ok (Suc (bheight (fst z))) (snd z)"

fun round_ok :: "('a zipper + 'a rbtree) option \<Rightarrow> bool" where
  "round_ok None \<longleftrightarrow> False"
| "round_ok (Some (Inl z)) \<longleftrightarrow> deficient z"
| "round_ok (Some (Inr t)) \<longleftrightarrow> balanced t"

lemma sibling_right_ok:
  assumes "balanced temp" and "\<not> rb_red temp" and "path_ok (Suc (bheight temp)) (InLeft pc p w # path)" and "\<not> rb_red w"
  shows "round_ok (rb_sibling_right temp pc p w path)"
proof (cases w)
  case (Node wc wl wx wr)
  show ?thesis
  proof (cases "\<not> rb_red wl \<and> \<not> rb_red wr")
    case True
    then show ?thesis using assms Node by (auto simp: rb_sibling_right_def deficient_def)
  next
    case False
    have z: "balanced t \<Longrightarrow> path_ok (bheight t) path \<Longrightarrow> (rb_red t \<longrightarrow> under_black path) \<Longrightarrow> balanced (zip_up t path)" for t
      using rb_inv_zip_up [of t path] by (simp add: rb_inv_def)
    show ?thesis
    proof (cases "rb_red wr")
      case True
      then show ?thesis using assms Node False
        by (cases wr) (auto simp: rb_sibling_right_def Let_def intro!: z)
    next
      case black: False
      then obtain a b c where "wl = Node True a b c" using False by (cases wl) auto
      then show ?thesis using assms Node black
        by (auto simp: rb_sibling_right_def Let_def intro!: z)
    qed
  qed
qed (use assms in simp)

lemma sibling_left_ok:
  assumes "balanced temp" and "\<not> rb_red temp" and "path_ok (Suc (bheight temp)) (InRight pc w p # path)" and "\<not> rb_red w"
  shows "round_ok (rb_sibling_left temp pc p w path)"
proof (cases w)
  case (Node wc wl wx wr)
  show ?thesis
  proof (cases "\<not> rb_red wl \<and> \<not> rb_red wr")
    case True
    then show ?thesis using assms Node by (auto simp: rb_sibling_left_def deficient_def)
  next
    case False
    have z: "balanced t \<Longrightarrow> path_ok (bheight t) path \<Longrightarrow> (rb_red t \<longrightarrow> under_black path) \<Longrightarrow> balanced (zip_up t path)" for t
      using rb_inv_zip_up [of t path] by (simp add: rb_inv_def)
    show ?thesis
    proof (cases "rb_red wl")
      case True
      then show ?thesis using assms Node False
        by (cases wl) (auto simp: rb_sibling_left_def Let_def intro!: z)
    next
      case black: False
      then obtain a b c where "wr = Node True a b c" using False by (cases wr) auto
      then show ?thesis using assms Node black
        by (auto simp: rb_sibling_left_def Let_def intro!: z)
    qed
  qed
qed (use assms in simp)

lemma rb_delete_round_ok:
  assumes "balanced temp" and "\<not> rb_red temp" and "path_ok (Suc (bheight temp)) (c # path)"
  shows "round_ok (rb_delete_round temp c path)"
proof (cases c)
  case (InLeft pc p w)
  show ?thesis
  proof (cases "rb_red w")
    case True
    then obtain wl wx wr where "w = Node True wl wx wr" by (cases w) auto
    then show ?thesis using assms InLeft by (auto intro!: sibling_right_ok)
  qed (use assms InLeft in \<open>auto intro!: sibling_right_ok\<close>)
next
  case (InRight pc w p)
  show ?thesis
  proof (cases "rb_red w")
    case True
    then obtain wl wx wr where "w = Node True wl wx wr" by (cases w) auto
    then show ?thesis using assms InRight by (auto intro!: sibling_left_ok)
  qed (use assms InRight in \<open>auto intro!: sibling_left_ok\<close>)
qed

lemma rb_delete_fix_inv: "deficient (temp, path) \<Longrightarrow> \<exists>t. rb_delete_fix temp path = Some t \<and> rb_inv t"
proof (induction temp path rule: rb_delete_fix.induct)
  case (1 temp)
  then show ?case by (simp add: deficient_def rb_inv_def)
next
  case (2 temp c path)
  show ?case
  proof (cases "rb_red temp")
    case True
    then show ?thesis
      using 2(2) rb_inv_zip_up [of "ngx_rbt_black temp" "c # path"] by (simp add: deficient_def)
  next
    case False
    then have ok: "round_ok (rb_delete_round temp c path)"
      using 2(2) by (intro rb_delete_round_ok) (simp_all add: deficient_def)
    then show ?thesis
    proof (cases "rb_delete_round temp c path" rule: round_ok.cases)
      case (2 z)
      then show ?thesis using ok "2.IH" False by (cases z) simp
    next
      case (3 t)
      then show ?thesis using ok False by (simp add: rb_inv_black)
    qed simp
  qed
qed

fun round_nodes :: "('a zipper + 'a rbtree) option \<Rightarrow> 'a list option" where
  "round_nodes None = None"
| "round_nodes (Some (Inl (t, path))) = Some (before path @ inorder t @ behind path)"
| "round_nodes (Some (Inr t)) = Some (inorder t)"

lemma sibling_nodes:
  "rb_sibling_right temp pc p w path = Some z \<Longrightarrow>
   round_nodes (Some z) = Some (before (InLeft pc p w # path) @ inorder temp @ behind (InLeft pc p w # path))"
  "rb_sibling_left temp pc p w path = Some z \<Longrightarrow>
   round_nodes (Some z) = Some (before (InRight pc w p # path) @ inorder temp @ behind (InRight pc w p # path))"
proof -
  assume "rb_sibling_right temp pc p w path = Some z"
  then show "round_nodes (Some z) = Some (before (InLeft pc p w # path) @ inorder temp @ behind (InLeft pc p w # path))"
    by (cases w; cases "rb_left w"; cases "rb_right w")
      (auto simp: rb_sibling_right_def Let_def split: if_splits)
next
  assume "rb_sibling_left temp pc p w path = Some z"
  then show "round_nodes (Some z) = Some (before (InRight pc w p # path) @ inorder temp @ behind (InRight pc w p # path))"
    by (cases w; cases "rb_left w"; cases "rb_right w")
      (auto simp: rb_sibling_left_def Let_def split: if_splits)
qed

lemma rb_delete_round_nodes:
  assumes "rb_delete_round temp c path = Some z"
  shows "round_nodes (Some z) = Some (before (c # path) @ inorder temp @ behind (c # path))"
proof (cases c)
  case (InLeft pc p w)
  then show ?thesis
    using assms sibling_nodes(1) by (cases w) (fastforce split: if_splits)+
next
  case (InRight pc w p)
  then show ?thesis
    using assms sibling_nodes(2) by (cases w) (fastforce split: if_splits)+
qed

lemma rb_delete_fix_inorder:
  "rb_delete_fix temp path = Some t \<Longrightarrow> inorder t = before path @ inorder temp @ behind path"
proof (induction temp path rule: rb_delete_fix.induct)
  case (2 temp c path)
  show ?case
  proof (cases "rb_red temp")
    case False
    with 2(2) obtain z where z: "rb_delete_round temp c path = Some z" by (auto split: option.splits)
    note nodes = rb_delete_round_nodes [OF z]
    show ?thesis
      using z nodes False 2 by (cases z) auto
  qed (use 2 in \<open>cases c; auto\<close>)
qed auto

lemma rb_delete_ok:
  assumes "rb_inv (zip_up (Node c l x r) path)"
  shows "\<exists>t. ngx_rbtree_delete (Node c l x r, path) = Some t \<and> rb_inv t
    \<and> inorder t = before path @ inorder l @ inorder r @ behind path"
proof (cases "l = Sentinel \<or> r = Sentinel")
  case True
  let ?temp = "if l = Sentinel then r else l"
  have ok: "balanced ?temp" "bheight ?temp = bheight l" "path_ok (bheight ?temp + (if c then 0 else 1)) path" "c \<longrightarrow> \<not> rb_red ?temp \<and> under_black path"
    using assms True by (auto simp: rb_inv_zip_up)
  have nodes: "inorder ?temp = inorder l @ inorder r" using True by auto
  show ?thesis
  proof (cases "path = []")
    case path: True
    then show ?thesis using True ok nodes by (auto simp: rb_inv_black)
  next
    case path: False
    show ?thesis
    proof (cases c)
      case c: True
      then have "rb_inv (zip_up ?temp path)" using ok by (simp add: rb_inv_zip_up)
      moreover have "ngx_rbtree_delete (Node c l x r, path) = Some (zip_up ?temp path)"
        using c True path by (simp only: ngx_rbtree_delete.simps Let_def if_True if_False simp_thms)
      ultimately show ?thesis using nodes by (simp only: inorder_zip_up) auto
    next
      case c: False
      then have "deficient (?temp, path)" using ok by (simp add: deficient_def)
      from rb_delete_fix_inv [OF this] obtain t where t: "rb_delete_fix ?temp path = Some t" "rb_inv t" by blast
      have "ngx_rbtree_delete (Node c l x r, path) = rb_delete_fix ?temp path"
        using c True path by (simp only: ngx_rbtree_delete.simps Let_def if_True if_False simp_thms)
      then show ?thesis using t rb_delete_fix_inorder [OF t(1)] nodes by auto
    qed
  qed
next
  case False
  then obtain sc sx sr spath where m: "ngx_rbtree_min r [] = (Node sc Sentinel sx sr, spath)"
    and zip: "zip_up (Node sc Sentinel sx sr) spath = r" and first: "before spath = []"
    using rb_min_zip [of r "[]"] by auto
  let ?path = "\<lambda>y. spath @ InRight c l y # path"
  have "zip_up (Node sc Sentinel sx sr) (?path x) = zip_up (Node c l x r) path" by (simp add: zip_up_append zip)
  with assms have "rb_inv (zip_up (Node sc Sentinel sx sr) (?path x))" by simp
  then have "rb_inv (zip_up (Node sc Sentinel sx sr) (?path sx))"
    by (simp only: zip_up_append zip_up.simps plug.simps zip) (auto simp: rb_inv_zip_up)
  then have ok: "balanced sr" "bheight sr = 0" "path_ok (if sc then 0 else 1) (?path sx)" "sc \<longrightarrow> \<not> rb_red sr"
    unfolding rb_inv_zip_up by auto
  have nodes: "before (?path sx) @ inorder sr @ behind (?path sx) = before path @ inorder l @ inorder r @ behind path"
    using arg_cong [OF zip, of inorder] by (simp add: first)
  show ?thesis
  proof (cases sc)
    case True
    then have "rb_inv (zip_up sr (?path sx))" using ok by (simp add: rb_inv_zip_up)
    then show ?thesis using False m True nodes by (simp add: Let_def)
  next
    case black: False
    then have "deficient (sr, ?path sx)" using ok by (simp add: deficient_def)
    from rb_delete_fix_inv [OF this] obtain t where t: "rb_delete_fix sr (?path sx) = Some t" "rb_inv t" by blast
    then show ?thesis using False m black rb_delete_fix_inorder [OF t(1)] nodes by (simp add: Let_def)
  qed
qed

section \<open>Height\<close>

fun rb_height :: "'a rbtree \<Rightarrow> nat" where
  "rb_height Sentinel = 0"
| "rb_height (Node c l x r) = Suc (max (rb_height l) (rb_height r))"

lemma balanced_height: "balanced t \<Longrightarrow> rb_height t \<le> 2 * bheight t + (if rb_red t then 1 else 0)"
  by (induction t) (auto split: if_splits)

lemma balanced_size: "balanced t \<Longrightarrow> 2 ^ bheight t \<le> Suc (length (inorder t))"
  by (induction t) auto

lemma rb_inv_height: "rb_inv t \<Longrightarrow> 2 ^ rb_height t \<le> (Suc (length (inorder t)))\<^sup>2"
proof -
  assume "rb_inv t"
  then have h: "rb_height t \<le> 2 * bheight t" and s: "2 ^ bheight t \<le> Suc (length (inorder t))"
    using balanced_height [of t] balanced_size [of t] by (auto simp: rb_inv_def)
  have "(2 :: nat) ^ rb_height t \<le> 2 ^ (2 * bheight t)" using h by (simp add: power_increasing)
  also have "\<dots> = (2 ^ bheight t)\<^sup>2" by (simp add: power_mult [symmetric] mult.commute)
  also have "\<dots> \<le> (Suc (length (inorder t)))\<^sup>2" using s by (rule power_mono) simp
  finally show ?thesis .
qed

section \<open>Search trees\<close>

text \<open>
  The interface between a tree and an insertion callback: on the nodes in \<open>D\<close> the callback's
  test is the order of a key.
\<close>

locale tree_order =
  fixes left :: "'a \<Rightarrow> 'a \<Rightarrow> bool" and key :: "'a \<Rightarrow> 'k::linorder" and D :: "'a set"
  assumes left_key: "a \<in> D \<Longrightarrow> b \<in> D \<Longrightarrow> left a b \<longleftrightarrow> key a < key b"
begin

definition search_tree :: "'a rbtree \<Rightarrow> bool" where
  "search_tree t \<longleftrightarrow> rb_inv t \<and> sorted (map key (inorder t)) \<and> set (inorder t) \<subseteq> D"

lemma insert_search_tree:
  assumes "search_tree t" and "x \<in> D"
  shows "\<exists>t'. ngx_rbtree_insert (rb_descend left) t x = Some t' \<and> search_tree t'
    \<and> inorder t' = [y \<leftarrow> inorder t. key y \<le> key x] @ x # [y \<leftarrow> inorder t. key x < key y]"
proof -
  have D: "\<And>y. y \<in> set (inorder t) \<Longrightarrow> left x y \<longleftrightarrow> key x < key y"
    using assms by (intro left_key) (auto simp: search_tree_def)
  have "sorted_wrt (\<lambda>a b. key a \<le> key b) (inorder t)" using assms(1) by (simp add: search_tree_def sorted_wrt_map)
  then have "sorted_wrt (\<lambda>a b. left x a \<longrightarrow> left x b) (inorder t)"
    by (rule sorted_wrt_mono_rel [rotated]) (auto simp: D)
  moreover obtain t' where t': "ngx_rbtree_insert (rb_descend left) t x = Some t'" "rb_inv t'"
    using rb_insert_inv [of t left x] assms(1) by (auto simp: search_tree_def)
  ultimately have "inorder t' = [y \<leftarrow> inorder t. \<not> left x y] @ x # [y \<leftarrow> inorder t. left x y]"
    by (intro rb_insert_inorder)
  then have nodes: "inorder t' = [y \<leftarrow> inorder t. key y \<le> key x] @ x # [y \<leftarrow> inorder t. key x < key y]"
    using D by (simp add: not_less [symmetric] cong: filter_cong)
  have "sorted (map key (inorder t'))"
    using assms(1) unfolding nodes by (auto simp: search_tree_def sorted_append sorted_map sorted_wrt_filter)
  then show ?thesis using t' nodes assms by (auto simp: search_tree_def)
qed

lemma delete_search_tree:
  assumes "search_tree (zip_up (Node c l x r) path)"
  shows "\<exists>t. ngx_rbtree_delete (Node c l x r, path) = Some t \<and> search_tree t
    \<and> inorder t = before path @ inorder l @ inorder r @ behind path"
proof -
  obtain t where "ngx_rbtree_delete (Node c l x r, path) = Some t" "rb_inv t"
    "inorder t = before path @ inorder l @ inorder r @ behind path"
    using rb_delete_ok [of c l x r path] assms by (auto simp: search_tree_def)
  then show ?thesis using assms by (auto simp: search_tree_def sorted_append)
qed

end

interpretation by_value: tree_order "\<lambda>a b. key a < key b" key UNIV
  for key :: "'a \<Rightarrow> ngx_uint_t"
  by unfold_locales simp

text \<open>Timers whose keys lie within half of the range from a base are ordered by their distance from it.\<close>

lemma timer_window:
  fixes a b base :: "64 word"
  assumes "unat (a - base) < 2 ^ 63" and "unat (b - base) < 2 ^ 63"
  shows "a - b <s 0 \<longleftrightarrow> a - base < b - base"
proof -
  have "a - b = (a - base) - (b - base)" by simp
  then show ?thesis
    using assms by (simp only: sless_zero_iff word_less_nat_alt unat_sub_if') (auto split: if_splits)
qed

interpretation by_timer: tree_order "\<lambda>a b. key a - key b <s 0" "\<lambda>a. key a - base" "{a. unat (key a - base) < 2 ^ 63}"
  for key :: "'a \<Rightarrow> ngx_uint_t" and base :: ngx_uint_t
  by unfold_locales (simp add: timer_window)

text \<open>
  C9. \<open>ngx_rbtree_insert\<close> with \<open>ngx_rbtree_insert_value\<close> keeps a red-black search tree: it never
  uses a null parent or a field of the sentinel, the colours and black heights stay right, and
  the node stands behind those with a key up to its own and before those with a greater one.
\<close>

theorem rbtree_insert_ok:
  fixes key :: "'a \<Rightarrow> ngx_uint_t"
  assumes "rb_inv t" and "sorted (map key (inorder t))"
  shows "\<exists>t'. ngx_rbtree_insert (ngx_rbtree_insert_value key) t x = Some t' \<and> rb_inv t'
    \<and> inorder t' = [y \<leftarrow> inorder t. key y \<le> key x] @ x # [y \<leftarrow> inorder t. key x < key y]
    \<and> sorted (map key (inorder t'))"
  using by_value.insert_search_tree [of key t x] assms
  by (auto simp: by_value.search_tree_def ngx_rbtree_insert_value_def)

text \<open>The tree with the keys 10, 20 and 30, the running example.\<close>

definition rb_example :: "ngx_uint_t rbtree" where
  "rb_example = Node False (Node True Sentinel 10 Sentinel) 20 (Node True Sentinel 30 Sentinel)"

theorem rbtree_insert_ok_witness:
  "rb_inv rb_example \<and> (\<exists>t'. ngx_rbtree_insert (ngx_rbtree_insert_value id) rb_example 25 = Some t' \<and> rb_inv t'
     \<and> inorder t' = [10, 20, 25, 30])"
proof -
  have h: "rb_inv rb_example" "sorted (map id (inorder rb_example))" by (simp_all add: rb_example_def rb_inv_def)
  from rbtree_insert_ok [OF h, of 25] h(1) show ?thesis by (auto simp: rb_example_def)
qed

text \<open>
  C10. \<open>ngx_rbtree_delete\<close> of any node of a red-black tree ends without using a null parent or a
  field of the sentinel, keeps the invariant, and takes out exactly that node: all others stay
  in their order.
\<close>

theorem rbtree_delete_ok:
  assumes "rb_inv (zip_up (Node c l x r) path)"
  shows "\<exists>t. ngx_rbtree_delete (Node c l x r, path) = Some t \<and> rb_inv t
    \<and> inorder t = before path @ inorder l @ inorder r @ behind path
    \<and> inorder (zip_up (Node c l x r) path) = before path @ inorder l @ x # inorder r @ behind path"
  using rb_delete_ok [OF assms] by simp

theorem rbtree_delete_ok_witness:
  "\<exists>t. ngx_rbtree_delete (rb_example, []) = Some t \<and> rb_inv t \<and> inorder t = [10, 30]"
proof -
  have "rb_inv (zip_up rb_example [])" by (simp add: rb_example_def rb_inv_def)
  then show ?thesis
    unfolding rb_example_def by (rule rbtree_delete_ok [THEN ex_forward]) simp
qed

text \<open>
  C31. The timer tree keeps its order across the wrap-around of the millisecond counter: as long
  as all timers are due within half of the range from some base, insertion with
  \<open>ngx_rbtree_insert_timer_value\<close> leaves the nodes in the order of their distance from the base,
  so the leftmost node is the timer that is due first; the height is logarithmic.
\<close>

theorem rbtree_timer_order:
  fixes key :: "'a \<Rightarrow> ngx_uint_t"
  assumes "rb_inv t" and "sorted (map (\<lambda>y. key y - base) (inorder t))"
    and "\<forall>y\<in>insert x (set (inorder t)). unat (key y - base) < 2 ^ 63"
  shows "\<exists>t'. ngx_rbtree_insert (ngx_rbtree_insert_timer_value key) t x = Some t' \<and> rb_inv t'
    \<and> sorted (map (\<lambda>y. key y - base) (inorder t')) \<and> mset (inorder t') = add_mset x (mset (inorder t))
    \<and> 2 ^ rb_height t' \<le> (Suc (length (inorder t')))\<^sup>2"
proof -
  have "by_timer.search_tree key base t" unfolding by_timer.search_tree_def using assms by auto
  from by_timer.insert_search_tree [OF this, of x] assms(3)
  obtain t' where t': "ngx_rbtree_insert (ngx_rbtree_insert_timer_value key) t x = Some t'" "by_timer.search_tree key base t'"
    "inorder t' = [y \<leftarrow> inorder t. key y - base \<le> key x - base] @ x # [y \<leftarrow> inorder t. key x - base < key y - base]"
    by (auto simp: ngx_rbtree_insert_timer_value_def)
  have "mset (inorder t') = add_mset x (mset (inorder t))"
    by (simp add: t'(3) not_less [symmetric] mset_filter flip: multiset_partition)
  then show ?thesis
    using t'(1) t'(2) [unfolded by_timer.search_tree_def] rb_inv_height [of t'] by blast
qed

theorem rbtree_timer_order_witness:
  "\<exists>t'. ngx_rbtree_insert (ngx_rbtree_insert_timer_value id) (Node False Sentinel (- 5) Sentinel) (3 :: ngx_uint_t) = Some t'
     \<and> rb_inv t' \<and> sorted (map (\<lambda>y. y - (- 10)) (inorder t'))"
proof -
  have "rb_inv (Node False Sentinel (- 5 :: ngx_uint_t) Sentinel)" by (simp add: rb_inv_def)
  from rbtree_timer_order [OF this, of id "- 10" 3] show ?thesis by auto
qed

text \<open>Search by a key, the specification of the lookups in search trees.\<close>

fun key_find :: "('a \<Rightarrow> 'k::linorder) \<Rightarrow> 'k \<Rightarrow> 'a rbtree \<Rightarrow> 'a option" where
  "key_find key k Sentinel = None"
| "key_find key k (Node c l n r) =
     (if k < key n then key_find key k l else if key n < k then key_find key k r else Some n)"

lemma key_find_sorted:
  assumes "sorted (map key (inorder t))"
  shows "case key_find key k t of
      None \<Rightarrow> k \<notin> key ` set (inorder t)
    | Some n \<Rightarrow> n \<in> set (inorder t) \<and> key n = k"
  using assms
proof (induction t)
  case (Node c l n r)
  have s: "sorted (map key (inorder l))" "sorted (map key (inorder r))"
    "\<forall>x\<in>set (inorder l). key x \<le> key n" "\<forall>x\<in>set (inorder r). key n \<le> key x"
    using Node.prems by (auto simp: sorted_append)
  consider "k < key n" | "key n < k" | "k = key n" by fastforce
  then show ?case
  proof cases
    case 1
    then show ?thesis using Node.IH(1) [OF s(1)] s(4) by (auto split: option.splits)
  next
    case 2
    then show ?thesis using Node.IH(2) [OF s(2)] s(3) by (auto split: option.splits)
  qed simp
qed simp

text \<open>A node of the tree by its address, as a zipper.\<close>

fun rb_locate :: "'a \<Rightarrow> 'a rbtree \<Rightarrow> 'a crumb list \<Rightarrow> 'a zipper option" where
  "rb_locate p Sentinel path = None"
| "rb_locate p (Node c l x r) path =
     (if x = p then Some (Node c l x r, path)
      else case rb_locate p l (InLeft c x r # path) of
             Some z \<Rightarrow> Some z
           | None \<Rightarrow> rb_locate p r (InRight c l x # path))"

lemma rb_locate_cases:
  "case rb_locate p t path of
     None \<Rightarrow> p \<notin> set (inorder t)
   | Some (n, path') \<Rightarrow> (\<exists>c l r. n = Node c l p r) \<and> zip_up n path' = zip_up t path"
proof (induction t arbitrary: path)
  case (Node c l x r)
  show ?case
    using Node.IH(1) [of "InLeft c x r # path"] Node.IH(2) [of "InRight c l x # path"] by (auto split: option.splits)
qed simp

lemma rb_locate_member:
  assumes "p \<in> set (inorder t)"
  obtains c l r path where "rb_locate p t [] = Some (Node c l p r, path)" "zip_up (Node c l p r) path = t"
  using assms rb_locate_cases [of p t "[]"] by (auto split: option.splits)

section \<open>Lookup in string trees\<close>

definition str_node_key :: "str_node \<Rightarrow> ngx_uint_t \<times> nat \<times> bytes" where
  "str_node_key n = (sn_key n, length (sn_str n), sn_str n)"

interpretation by_string: tree_order str_node_left str_node_key UNIV
proof unfold_locales
  fix a b :: str_node
  show "str_node_left a b \<longleftrightarrow> str_node_key a < str_node_key b"
    using ngx_memcmp_less [of "sn_str a" "sn_str b"] ngx_memcmp_eq [of "sn_str a" "sn_str b"]
    by (auto simp: str_node_left_def str_node_key_def less_le)
qed

lemma memcmp_trichotomy:
  assumes "length a = length b"
  shows "ngx_memcmp a b <s 0 \<longleftrightarrow> a < b" and "0 <s ngx_memcmp a b \<longleftrightarrow> b < a"
proof -
  show less: "ngx_memcmp a b <s 0 \<longleftrightarrow> a < b"
    using ngx_memcmp_less [of a b] ngx_memcmp_eq [OF assms] by auto
  show "0 <s ngx_memcmp a b \<longleftrightarrow> b < a"
    using less ngx_memcmp_eq [OF assms] by (auto simp: zero_sless_iff)
qed

text \<open>The search goes by the key: left, right or found.\<close>

lemma str_lookup_key_find:
  "ngx_str_rbtree_lookup t val hash = key_find str_node_key (ucast hash, length val, val) t"
proof (induction t)
  case (Node c l n r)
  then show ?case using memcmp_trichotomy [of val "sn_str n"] by (auto simp: str_node_key_def Let_def)
qed simp

lemma str_lookup_found:
  assumes "sorted (map str_node_key (inorder t))"
  shows "case ngx_str_rbtree_lookup t val hash of
      None \<Rightarrow> \<forall>n\<in>set (inorder t). \<not> (sn_key n = ucast hash \<and> sn_str n = val)
    | Some n \<Rightarrow> n \<in> set (inorder t) \<and> sn_key n = ucast hash \<and> sn_str n = val"
  using key_find_sorted [OF assms, of "(ucast hash, length val, val)"]
  by (force simp: str_node_key_def str_lookup_key_find image_iff split: option.splits)

text \<open>
  C28. A string tree is a map: after \<open>ngx_rbtree_insert\<close> with \<open>ngx_str_rbtree_insert_value\<close> the
  lookup of a string with its hash finds a node with that string and hash if it was found
  before or if the inserted node has them, and returns the null pointer otherwise.
\<close>

theorem str_rbtree_insert_lookup:
  assumes "rb_inv t" and "sorted (map str_node_key (inorder t))"
  shows "\<exists>t'. ngx_rbtree_insert ngx_str_rbtree_insert_value t n = Some t' \<and> rb_inv t' \<and> sorted (map str_node_key (inorder t'))
    \<and> (\<forall>val hash. case ngx_str_rbtree_lookup t' val hash of
         None \<Rightarrow> ngx_str_rbtree_lookup t val hash = None \<and> (sn_key n \<noteq> ucast hash \<or> sn_str n \<noteq> val)
       | Some n' \<Rightarrow> sn_key n' = ucast hash \<and> sn_str n' = val \<and> (n' = n \<or> ngx_str_rbtree_lookup t val hash \<noteq> None))"
proof -
  have "by_string.search_tree t" using assms by (simp add: by_string.search_tree_def)
  from by_string.insert_search_tree [OF this, of n]
  obtain t' where t': "ngx_rbtree_insert ngx_str_rbtree_insert_value t n = Some t'" "rb_inv t'" "sorted (map str_node_key (inorder t'))"
    and order: "inorder t' = [y \<leftarrow> inorder t. str_node_key y \<le> str_node_key n] @ n # [y \<leftarrow> inorder t. str_node_key n < str_node_key y]"
    unfolding by_string.search_tree_def ngx_str_rbtree_insert_value_def by blast
  have nodes: "set (inorder t') = insert n (set (inorder t))" unfolding order by fastforce
  have "case ngx_str_rbtree_lookup t' val hash of
         None \<Rightarrow> ngx_str_rbtree_lookup t val hash = None \<and> (sn_key n \<noteq> ucast hash \<or> sn_str n \<noteq> val)
       | Some n' \<Rightarrow> sn_key n' = ucast hash \<and> sn_str n' = val \<and> (n' = n \<or> ngx_str_rbtree_lookup t val hash \<noteq> None)" for val hash
    using str_lookup_found [OF t'(3), of hash val] str_lookup_found [OF assms(2), of hash val]
    by (auto simp: nodes split: option.splits)
  then show ?thesis using t' by blast
qed

theorem str_rbtree_insert_lookup_witness:
  "\<exists>t. ngx_rbtree_insert ngx_str_rbtree_insert_value Sentinel \<lparr>sn_key = 7, sn_str = s2b ''a''\<rparr> = Some t
     \<and> ngx_str_rbtree_lookup t (s2b ''a'') 7 \<noteq> None \<and> ngx_str_rbtree_lookup t (s2b ''b'') 7 = None"
proof -
  have "rb_inv (Sentinel :: str_node rbtree)" "sorted (map str_node_key (inorder Sentinel))" by (simp_all add: rb_inv_def)
  from str_rbtree_insert_lookup [OF this, of "\<lparr>sn_key = 7, sn_str = s2b ''a''\<rparr>"]
  obtain t where t: "ngx_rbtree_insert ngx_str_rbtree_insert_value Sentinel \<lparr>sn_key = 7, sn_str = s2b ''a''\<rparr> = Some t"
    and l: "\<forall>val hash. case ngx_str_rbtree_lookup t val hash of
         None \<Rightarrow> sn_key \<lparr>sn_key = 7, sn_str = s2b ''a''\<rparr> \<noteq> ucast hash \<or> sn_str \<lparr>sn_key = 7, sn_str = s2b ''a''\<rparr> \<noteq> val
       | Some n' \<Rightarrow> sn_key n' = ucast hash \<and> sn_str n' = val \<and> (n' = \<lparr>sn_key = 7, sn_str = s2b ''a''\<rparr> \<or> ngx_str_rbtree_lookup Sentinel val hash \<noteq> None)"
    by (fastforce split: option.splits)
  have "ngx_str_rbtree_lookup t (s2b ''a'') 7 \<noteq> None" using l [rule_format, where val = "s2b ''a''" and hash = 7] by (auto split: option.splits)
  moreover have "ngx_str_rbtree_lookup t (s2b ''b'') 7 = None" using l [rule_format, where val = "s2b ''b''" and hash = 7] by (auto split: option.splits)
  ultimately show ?thesis using t by blast
qed

end
