(* ===== verification/NgxQueue.thy ===== *)
theory NgxQueue
  imports NgxSort
begin

text \<open>
  The intrusive doubly linked lists of \<^verbatim>\<open>src/core/ngx_queue.h\<close> and
  \<^verbatim>\<open>src/core/ngx_queue.c\<close>, on an explicit store of links: a macro is the sequence of its
  assignments. The predicate \<open>is_queue\<close> relates a store to the list of the elements behind a
  sentinel, and every operation is shown to refine the corresponding operation on lists. The
  loops are partial functions, so that their termination is part of the statements.
\<close>

section \<open>Definitions\<close>

record qheap =
  q_prev :: "ptr \<Rightarrow> ptr"
  q_next :: "ptr \<Rightarrow> ptr"

definition set_prev :: "ptr \<Rightarrow> ptr \<Rightarrow> qheap \<Rightarrow> qheap" where
  "set_prev q v H = H\<lparr>q_prev := (q_prev H)(q := v)\<rparr>"

definition set_next :: "ptr \<Rightarrow> ptr \<Rightarrow> qheap \<Rightarrow> qheap" where
  "set_next q v H = H\<lparr>q_next := (q_next H)(q := v)\<rparr>"

definition ngx_queue_init :: "ptr \<Rightarrow> qheap \<Rightarrow> qheap" where
  "ngx_queue_init q H = set_next q q (set_prev q q H)"

definition ngx_queue_empty :: "ptr \<Rightarrow> qheap \<Rightarrow> bool" where
  "ngx_queue_empty h H \<longleftrightarrow> h = q_prev H h"

definition ngx_queue_insert_head :: "ptr \<Rightarrow> ptr \<Rightarrow> qheap \<Rightarrow> qheap" where
  "ngx_queue_insert_head h x H =
     (let H = set_next x (q_next H h) H;
          H = set_prev (q_next H x) x H;
          H = set_prev x h H
      in set_next h x H)"

abbreviation "ngx_queue_insert_after \<equiv> ngx_queue_insert_head"

definition ngx_queue_insert_tail :: "ptr \<Rightarrow> ptr \<Rightarrow> qheap \<Rightarrow> qheap" where
  "ngx_queue_insert_tail h x H =
     (let H = set_prev x (q_prev H h) H;
          H = set_next (q_prev H x) x H;
          H = set_next x h H
      in set_prev h x H)"

definition ngx_queue_head :: "ptr \<Rightarrow> qheap \<Rightarrow> ptr" where
  "ngx_queue_head h H = q_next H h"

definition ngx_queue_last :: "ptr \<Rightarrow> qheap \<Rightarrow> ptr" where
  "ngx_queue_last h H = q_prev H h"

text \<open>The variant of \<open>ngx_queue_remove\<close> that is compiled without \<open>NGX_DEBUG\<close>.\<close>

definition ngx_queue_remove :: "ptr \<Rightarrow> qheap \<Rightarrow> qheap" where
  "ngx_queue_remove x H =
     (let H = set_prev (q_next H x) (q_prev H x) H
      in set_next (q_prev H x) (q_next H x) H)"

definition ngx_queue_split :: "ptr \<Rightarrow> ptr \<Rightarrow> ptr \<Rightarrow> qheap \<Rightarrow> qheap" where
  "ngx_queue_split h q n H =
     (let H = set_prev n (q_prev H h) H;
          H = set_next (q_prev H n) n H;
          H = set_next n q H;
          H = set_prev h (q_prev H q) H;
          H = set_next (q_prev H h) h H
      in set_prev q n H)"

definition ngx_queue_add :: "ptr \<Rightarrow> ptr \<Rightarrow> qheap \<Rightarrow> qheap" where
  "ngx_queue_add h n H =
     (let H = set_next (q_prev H h) (q_next H n) H;
          H = set_prev (q_next H n) (q_prev H h) H;
          H = set_prev h (q_prev H n) H
      in set_next (q_prev H h) h H)"

partial_function (option) queue_middle_loop :: "ptr \<Rightarrow> qheap \<Rightarrow> ptr \<Rightarrow> ptr \<Rightarrow> ptr option" where
  "queue_middle_loop queue H middle nxt =
     (let middle = q_next H middle; nxt = q_next H nxt
      in if nxt = ngx_queue_last queue H then Some middle
         else let nxt = q_next H nxt
              in if nxt = ngx_queue_last queue H then Some middle
                 else queue_middle_loop queue H middle nxt)"

definition ngx_queue_middle :: "ptr \<Rightarrow> qheap \<Rightarrow> ptr option" where
  "ngx_queue_middle queue H =
     (let middle = ngx_queue_head queue H
      in if middle = ngx_queue_last queue H then Some middle
         else queue_middle_loop queue H middle (ngx_queue_head queue H))"

text \<open>The \<open>do\<close> loop of the sort finds the element behind which \<open>q\<close> is put.\<close>

partial_function (option) queue_sort_back ::
  "(ptr \<Rightarrow> ptr \<Rightarrow> ngx_int_t) \<Rightarrow> ptr \<Rightarrow> qheap \<Rightarrow> ptr \<Rightarrow> ptr \<Rightarrow> ptr option" where
  "queue_sort_back cmp queue H q prev =
     (if \<not> 0 <s cmp prev q then Some prev
      else let prev = q_prev H prev
           in if prev \<noteq> queue then queue_sort_back cmp queue H q prev else Some prev)"

partial_function (option) queue_sort_loop ::
  "(ptr \<Rightarrow> ptr \<Rightarrow> ngx_int_t) \<Rightarrow> ptr \<Rightarrow> qheap \<Rightarrow> ptr \<Rightarrow> qheap option" where
  "queue_sort_loop cmp queue H q =
     (if q = queue then Some H
      else let prev = q_prev H q; nxt = q_next H q; H = ngx_queue_remove q H
           in case queue_sort_back cmp queue H q prev of
                None \<Rightarrow> None
              | Some prev \<Rightarrow> queue_sort_loop cmp queue (ngx_queue_insert_after prev q H) nxt)"

definition ngx_queue_sort :: "(ptr \<Rightarrow> ptr \<Rightarrow> ngx_int_t) \<Rightarrow> ptr \<Rightarrow> qheap \<Rightarrow> qheap option" where
  "ngx_queue_sort cmp queue H =
     (let q = ngx_queue_head queue H
      in if q = ngx_queue_last queue H then Some H
         else queue_sort_loop cmp queue H (q_next H q))"

section \<open>The list behind a sentinel\<close>

fun links :: "qheap \<Rightarrow> ptr \<Rightarrow> ptr list \<Rightarrow> ptr \<Rightarrow> bool" where
  "links H a [] b \<longleftrightarrow> q_next H a = b \<and> q_prev H b = a"
| "links H a (x # xs) b \<longleftrightarrow> q_next H a = x \<and> q_prev H x = a \<and> links H x xs b"

definition is_queue :: "qheap \<Rightarrow> ptr \<Rightarrow> ptr list \<Rightarrow> bool" where
  "is_queue H h xs \<longleftrightarrow> distinct (h # xs) \<and> links H h xs h"

lemma heap_sel [heap_simps, simp]:
  "q_prev (set_prev q v H) = (q_prev H)(q := v)" "q_next (set_prev q v H) = q_next H"
  "q_next (set_next q v H) = (q_next H)(q := v)" "q_prev (set_next q v H) = q_prev H"
  by (simp_all add: set_prev_def set_next_def)

lemma links_append: "links H a (xs @ x # ys) b \<longleftrightarrow> links H a xs x \<and> links H x ys b"
  by (induction xs arbitrary: a) auto

lemma links_frame:
  "links H a xs b \<Longrightarrow> (\<forall>x\<in>set (a # xs). q_next H' x = q_next H x) \<Longrightarrow>
   (\<forall>x\<in>set (xs @ [b]). q_prev H' x = q_prev H x) \<Longrightarrow> links H' a xs b"
  by (induction xs arbitrary: a) auto

lemma links_ends:
  "links H a xs b \<Longrightarrow> q_next H a = hd (xs @ [b]) \<and> q_prev H b = List.last (a # xs)"
  by (induction xs arbitrary: a) auto

text \<open>A ring may be read from any of its members.\<close>

lemma is_queue_rotate: "is_queue H h (xs @ q # ys) \<longleftrightarrow> is_queue H q (ys @ h # xs)"
  by (auto simp: is_queue_def links_append)

section \<open>Refinement of the list operations\<close>

lemma init_queue: "is_queue (ngx_queue_init q H) q []"
  by (simp add: is_queue_def ngx_queue_init_def)

lemma empty_queue: "is_queue H h xs \<Longrightarrow> ngx_queue_empty h H \<longleftrightarrow> xs = []"
  using links_ends [of H h xs h] by (auto simp: is_queue_def ngx_queue_empty_def split: if_splits)

lemma head_queue: "is_queue H h xs \<Longrightarrow> ngx_queue_head h H = hd (xs @ [h])"
  using links_ends [of H h xs h] by (simp add: is_queue_def ngx_queue_head_def)

lemma last_queue: "is_queue H h xs \<Longrightarrow> ngx_queue_last h H = List.last (h # xs)"
  using links_ends [of H h xs h] by (simp add: is_queue_def ngx_queue_last_def)

lemma insert_head_queue:
  assumes "is_queue H h xs" and "x \<notin> set (h # xs)"
  shows "is_queue (ngx_queue_insert_head h x H) h (x # xs)"
proof (cases xs)
  case Nil
  then show ?thesis using assms by (auto simp: is_queue_def ngx_queue_insert_head_def Let_def)
next
  case (Cons y ys)
  then have q: "distinct (h # x # y # ys)" "q_next H h = y" "links H y ys h"
    using assms by (auto simp: is_queue_def)
  then have "links (ngx_queue_insert_head h x H) y ys h"
    by (intro links_frame [OF q(3)]) (auto simp: ngx_queue_insert_head_def Let_def)
  then show ?thesis
    using q by (auto simp: Cons is_queue_def ngx_queue_insert_head_def Let_def)
qed

lemma insert_after_queue:
  assumes "is_queue H h (xs @ q # ys)" and "x \<notin> set (h # xs @ q # ys)"
  shows "is_queue (ngx_queue_insert_after q x H) h (xs @ q # x # ys)"
  using insert_head_queue [of H q "ys @ h # xs" x] assms
  by (auto simp: is_queue_rotate [of _ h xs q])

lemma insert_tail_queue:
  assumes "is_queue H h xs" and "x \<notin> set (h # xs)"
  shows "is_queue (ngx_queue_insert_tail h x H) h (xs @ [x])"
proof (cases xs rule: rev_cases)
  case Nil
  then show ?thesis using assms by (auto simp: is_queue_def ngx_queue_insert_tail_def Let_def)
next
  case (snoc ys y)
  then have q: "distinct (h # x # y # ys)" "q_next H y = h" "q_prev H h = y" "links H h ys y"
    using assms by (auto simp: is_queue_def links_append)
  then have "links (ngx_queue_insert_tail h x H) h ys y"
    by (intro links_frame [OF q(4)]) (auto simp: ngx_queue_insert_tail_def Let_def)
  then show ?thesis
    using q by (auto simp: snoc is_queue_def links_append ngx_queue_insert_tail_def Let_def)
qed

lemma remove_ring:
  assumes "is_queue H x zs" and "zs \<noteq> []"
  shows "is_queue (ngx_queue_remove x H) (List.last zs) (butlast zs)"
proof -
  obtain ys z where zs: "zs = ys @ [z]" using assms(2) by (metis rev_exhaust)
  have q: "distinct (x # z # ys)" "q_next H z = x" "q_prev H x = z" "links H x ys z"
    using assms by (auto simp: zs is_queue_def links_append)
  show ?thesis
  proof (cases ys)
    case Nil
    then show ?thesis using q by (auto simp: zs is_queue_def ngx_queue_remove_def Let_def)
  next
    case (Cons y ys')
    then have l: "links H y ys' z" "q_next H x = y" using q by auto
    have "links (ngx_queue_remove x H) y ys' z"
      using q by (intro links_frame [OF l(1)]) (auto simp: ngx_queue_remove_def Let_def Cons)
    then show ?thesis using q l by (auto simp: zs Cons is_queue_def ngx_queue_remove_def Let_def)
  qed
qed

lemma remove_queue:
  assumes "is_queue H h (xs @ x # ys)"
  shows "is_queue (ngx_queue_remove x H) h (xs @ ys)"
proof -
  have ring: "is_queue (ngx_queue_remove x H) (List.last (ys @ h # xs)) (butlast (ys @ h # xs))"
    using assms by (intro remove_ring) (simp_all add: is_queue_rotate)
  show ?thesis
  proof (cases xs rule: rev_cases)
    case Nil
    show ?thesis using ring by (simp add: Nil)
  next
    case (snoc xs' z)
    have "is_queue (ngx_queue_remove x H) h (xs' @ z # ys)"
      using ring by (simp add: snoc butlast_append is_queue_rotate [of _ h xs' z])
    then show ?thesis by (simp add: snoc)
  qed
qed

text \<open>The inner links of a segment, without its two ends.\<close>

fun chain :: "qheap \<Rightarrow> ptr list \<Rightarrow> bool" where
  "chain H (x # y # zs) \<longleftrightarrow> q_next H x = y \<and> q_prev H y = x \<and> chain H (y # zs)"
| "chain H _ \<longleftrightarrow> True"

lemma links_chain:
  "links H a xs b \<longleftrightarrow> chain H (a # xs) \<and> q_next H (List.last (a # xs)) = b \<and> q_prev H b = List.last (a # xs)"
  by (induction xs arbitrary: a) auto

lemma chain_frame:
  "chain H xs \<Longrightarrow> (\<forall>x\<in>set (butlast xs). q_next H' x = q_next H x) \<Longrightarrow>
   (\<forall>x\<in>set (tl xs). q_prev H' x = q_prev H x) \<Longrightarrow> chain H' xs"
  by (induction H xs rule: chain.induct) auto

lemma last_notin_butlast: "distinct xs \<Longrightarrow> x \<in> set (butlast xs) \<Longrightarrow> x \<noteq> List.last xs"
  by (induction xs rule: rev_induct) auto

lemma chain_cut:
  assumes "chain H (a # xs)" and "distinct (a # xs)" and "p = List.last (a # xs)"
    and "\<And>x. x \<in> set (a # xs) \<Longrightarrow> x \<noteq> p \<Longrightarrow> q_next H' x = q_next H x"
    and "\<And>x. x \<in> set xs \<Longrightarrow> q_prev H' x = q_prev H x"
  shows "chain H' (a # xs)"
proof (rule chain_frame [OF assms(1)])
  show "\<forall>x\<in>set (butlast (a # xs)). q_next H' x = q_next H x"
    using assms(3,4) last_notin_butlast [OF assms(2)] in_set_butlastD by metis
  show "\<forall>x\<in>set (tl (a # xs)). q_prev H' x = q_prev H x"
    using assms(5) by simp
qed

lemma split_queue:
  assumes "is_queue H h (xs @ q # ys)" and "n \<notin> set (h # xs @ q # ys)"
  shows "is_queue (ngx_queue_split h q n H) h xs \<and> is_queue (ngx_queue_split h q n H) n (q # ys)"
proof -
  let ?H = "ngx_queue_split h q n H"
  obtain p l where p: "p = List.last (h # xs)" and l: "l = List.last (q # ys)" by blast
  have d: "distinct (n # h # q # xs @ ys)" using assms by (auto simp: is_queue_def)
  have "links H h xs q" "links H q ys h" using assms(1) by (simp_all add: is_queue_def links_append)
  then have hc: "chain H (h # xs)" and qc: "chain H (q # ys)" and e: "q_prev H q = p" "q_prev H h = l"
    unfolding p l links_chain by blast+
  have mem: "p \<in> set (h # xs)" "l \<in> set (q # ys)" unfolding p l by (rule last_in_set; simp)+
  have pl: "p \<noteq> n" "l \<noteq> n" "p \<noteq> l" "l \<noteq> h" "p \<noteq> q"
    using d mem by auto
  have nx: "q_next ?H = (q_next H)(l := n, n := q, p := h)" and pv: "q_prev ?H = (q_prev H)(n := l, h := p, q := n)"
    using pl e d by (auto simp: ngx_queue_split_def Let_def fun_eq_iff)
  have "chain ?H (h # xs)"
    by (rule chain_cut [OF hc _ p]) (use d mem pl in \<open>auto simp: nx pv\<close>)
  moreover have "chain ?H (q # ys)"
    by (rule chain_cut [OF qc _ l]) (use d mem pl in \<open>auto simp: nx pv\<close>)
  ultimately show ?thesis
    using d pl last_ConsR [of "q # ys" n]
    by (auto simp: is_queue_def links_chain nx pv p [symmetric] l [symmetric] simp del: last.simps)
qed

lemma add_queue_empty:
  assumes "is_queue H h xs" and "q_next H n = n" and "n \<notin> set (h # xs)"
  shows "is_queue (ngx_queue_add h n H) h xs"
proof -
  obtain p where p: "p = List.last (h # xs)" by blast
  have e: "q_next H p = h" "q_prev H h = p" using assms(1) unfolding p is_queue_def links_chain by blast+
  have "p \<in> set (h # xs)" unfolding p by (rule last_in_set) simp
  then have ne: "p \<noteq> n" "n \<noteq> h" using assms(3) by auto
  have nx: "q_next (ngx_queue_add h n H) = (q_next H)(p := h)" and pv: "q_prev (ngx_queue_add h n H) = (q_prev H)(n := p, h := p)"
    using ne by (simp_all add: ngx_queue_add_def Let_def assms(2) e)
  have "links (ngx_queue_add h n H) h xs h"
    by (rule links_frame [of H h xs h]) (use assms(1,3) e in \<open>auto simp: is_queue_def nx pv\<close>)
  then show ?thesis using assms(1) by (simp add: is_queue_def)
qed

lemma add_queue:
  assumes "is_queue H h xs" and "is_queue H n ys" and "set (h # xs) \<inter> set (n # ys) = {}"
  shows "is_queue (ngx_queue_add h n H) h (xs @ ys)"
proof (cases ys)
  case Nil
  then show ?thesis using assms add_queue_empty [of H h xs n] by (auto simp: is_queue_def)
next
  case (Cons y zs)
  let ?H = "ngx_queue_add h n H"
  obtain p l where p: "p = List.last (h # xs)" and l: "l = List.last (y # zs)" by blast
  have d: "distinct (n # h # xs @ y # zs)" using assms by (auto simp: Cons is_queue_def)
  have hc: "chain H (h # xs)" "q_prev H h = p" and yc: "chain H (y # zs)" "q_prev H n = l" "q_next H n = y"
    using assms unfolding p l by (auto simp: Cons is_queue_def links_chain)
  have mem: "p \<in> set (h # xs)" "l \<in> set (y # zs)" unfolding p l by (rule last_in_set; simp)+
  have pl: "p \<noteq> n" "l \<noteq> n" "p \<noteq> l" "l \<noteq> h" "p \<noteq> y"
    using d mem by auto
  have nx: "q_next ?H = (q_next H)(p := y, l := h)" and pv: "q_prev ?H = (q_prev H)(y := p, h := l)"
    using pl d hc yc by (auto simp: ngx_queue_add_def Let_def fun_eq_iff)
  have "chain ?H (h # xs)"
    by (rule chain_cut [OF hc(1) _ p]) (use d mem pl in \<open>auto simp: nx pv\<close>)
  moreover have "chain ?H (y # zs)"
    by (rule chain_cut [OF yc(1) _ l]) (use d mem pl in \<open>auto simp: nx pv\<close>)
  ultimately have "links ?H h xs y" "links ?H y zs h"
    using d pl by (auto simp: links_chain nx pv p [symmetric] l [symmetric] simp del: last.simps)
  then show ?thesis using d by (auto simp: Cons is_queue_def links_append)
qed

section \<open>The interface of a queue\<close>

text \<open>
  What the users of the queue rely on: the list behind a sentinel and how the operations
  change it.
\<close>

locale queue_ops =
  fixes repr :: "'h \<Rightarrow> ptr \<Rightarrow> ptr list \<Rightarrow> bool"
    and init :: "ptr \<Rightarrow> 'h \<Rightarrow> 'h"
    and empty :: "ptr \<Rightarrow> 'h \<Rightarrow> bool"
    and oldest :: "ptr \<Rightarrow> 'h \<Rightarrow> ptr"
    and insert_head :: "ptr \<Rightarrow> ptr \<Rightarrow> 'h \<Rightarrow> 'h"
    and remove :: "ptr \<Rightarrow> 'h \<Rightarrow> 'h"
  assumes repr_distinct: "repr H h xs \<Longrightarrow> distinct (h # xs)"
    and repr_init: "repr (init h H) h []"
    and repr_empty: "repr H h xs \<Longrightarrow> empty h H \<longleftrightarrow> xs = []"
    and repr_oldest: "repr H h xs \<Longrightarrow> xs \<noteq> [] \<Longrightarrow> oldest h H = List.last xs"
    and repr_insert_head: "repr H h xs \<Longrightarrow> x \<notin> set (h # xs) \<Longrightarrow> repr (insert_head h x H) h (x # xs)"
    and repr_remove: "repr H h (xs @ x # ys) \<Longrightarrow> repr (remove x H) h (xs @ ys)"
begin

lemma repr_remove1:
  assumes "repr H h xs" and "x \<in> set xs"
  shows "repr (remove x H) h (remove1 x xs)"
proof -
  obtain ys zs where xs: "xs = ys @ x # zs" "x \<notin> set ys"
    using split_list_first [OF assms(2)] by blast
  then show ?thesis
    using repr_remove [of H h ys x zs] assms(1) by (simp add: remove1_append)
qed

text \<open>An entry that is used again moves to the front.\<close>

lemma repr_touch:
  assumes "repr H h xs" and "x \<in> set xs"
  shows "repr (insert_head h x (remove x H)) h (x # remove1 x xs)"
proof (rule repr_insert_head [OF repr_remove1 [OF assms]])
  show "x \<notin> set (h # remove1 x xs)" using repr_distinct [OF assms(1)] assms(2) by auto
qed

text \<open>Taking the oldest entry out leaves the others in their order.\<close>

lemma repr_drop_oldest:
  assumes "repr H h xs" and "xs \<noteq> []"
  shows "repr (remove (oldest h H) H) h (butlast xs)"
  using repr_remove [of H h "butlast xs" "List.last xs" "[]"] repr_oldest [OF assms] assms
  by (simp add: append_butlast_last_id)

end

interpretation nq: queue_ops is_queue ngx_queue_init ngx_queue_empty ngx_queue_last ngx_queue_insert_head ngx_queue_remove
proof unfold_locales
  show "distinct (h # xs)" if "is_queue H h xs" for H h xs using that by (simp add: is_queue_def)
  show "is_queue (ngx_queue_init h H) h []" for h H by (rule init_queue)
  show "ngx_queue_empty h H \<longleftrightarrow> xs = []" if "is_queue H h xs" for H h xs using that by (rule empty_queue)
  show "ngx_queue_last h H = List.last xs" if "is_queue H h xs" "xs \<noteq> []" for H h xs
    using that by (simp add: last_queue)
  show "is_queue (ngx_queue_insert_head h x H) h (x # xs)" if "is_queue H h xs" "x \<notin> set (h # xs)" for H h xs x
    using that by (rule insert_head_queue)
  show "is_queue (ngx_queue_remove x H) h (xs @ ys)" if "is_queue H h (xs @ x # ys)" for H h xs x ys
    using that by (rule remove_queue)
qed

text \<open>
  C11. Every operation of the queue refines the operation on lists: on a store in which the
  sentinel \<open>h\<close> heads the list \<open>xs\<close>, insertion at the head, at the tail and behind an element,
  removal, splitting at an element and appending another queue leave a store that heads the
  list one expects, in particular with every link of the ring consistent in both directions.
\<close>

theorem queue_refines_list:
  assumes "is_queue H h (xs @ q # ys)" and "x \<notin> set (h # xs @ q # ys)"
    and "is_queue H n zs" and "set (h # xs @ q # ys) \<inter> set (n # zs) = {}"
  shows "is_queue (ngx_queue_insert_head h x H) h (x # xs @ q # ys)
    \<and> is_queue (ngx_queue_insert_tail h x H) h (xs @ q # ys @ [x])
    \<and> is_queue (ngx_queue_insert_after q x H) h (xs @ q # x # ys)
    \<and> is_queue (ngx_queue_remove q H) h (xs @ ys)
    \<and> is_queue (ngx_queue_split h q x H) h xs \<and> is_queue (ngx_queue_split h q x H) x (q # ys)
    \<and> is_queue (ngx_queue_add h n H) h (xs @ q # ys @ zs)"
  using nq.repr_insert_head [OF assms(1,2)] insert_tail_queue [OF assms(1,2)] insert_after_queue [OF assms(1,2)]
    nq.repr_remove [OF assms(1)] split_queue [OF assms(1,2)] add_queue [OF assms(1,3,4)]
  by simp

theorem queue_refines_list_witness:
  "\<exists>H. is_queue H 1 [2, 3] \<and> is_queue H 8 [9] \<and> is_queue (ngx_queue_split 1 2 7 H) 7 [2, 3]
     \<and> is_queue (ngx_queue_add 1 8 H) 1 [2, 3, 9]"
proof -
  let ?H = "ngx_queue_insert_tail 8 9 (ngx_queue_insert_tail 1 3 (ngx_queue_insert_tail 1 2
     (ngx_queue_init 8 (ngx_queue_init 1 \<lparr>q_prev = (\<lambda>_. 0), q_next = (\<lambda>_. 0)\<rparr>))))"
  have "is_queue ?H 1 ([] @ 2 # [3])" "is_queue ?H 8 [9]"
    by (simp_all add: is_queue_def ngx_queue_insert_tail_def ngx_queue_init_def Let_def)
  then show ?thesis
    using queue_refines_list [where H = ?H and h = 1 and xs = "[]" and q = 2 and ys = "[3]" and x = 7 and n = 8 and zs = "[9]"]
    by (intro exI [of _ ?H]) simp
qed

section \<open>The loops\<close>

lemma next_nth: "is_queue H h xs \<Longrightarrow> Suc j < length xs \<Longrightarrow> q_next H (xs ! j) = xs ! Suc j"
proof -
  assume q: "is_queue H h xs" and j: "Suc j < length xs"
  have "xs = take j xs @ xs ! j # xs ! Suc j # drop (Suc (Suc j)) xs"
    using j by (simp add: Cons_nth_drop_Suc)
  then show ?thesis
    using q unfolding is_queue_def by (metis links.simps(2) links_append)
qed

lemma queue_nth_last:
  "is_queue H h xs \<Longrightarrow> j < length xs \<Longrightarrow> xs ! j = ngx_queue_last h H \<longleftrightarrow> Suc j = length xs"
  by (auto simp: last_queue last_conv_nth is_queue_def nth_eq_iff_index_eq)

lemma queue_middle_loop_eq:
  assumes q: "is_queue H h xs"
  shows "Suc (2 * i) < length xs \<Longrightarrow>
    queue_middle_loop h H (xs ! i) (xs ! (2 * i)) = Some (xs ! (length xs div 2))"
proof (induction "length xs - 2 * i" arbitrary: i rule: less_induct)
  case less
  have m: "q_next H (xs ! i) = xs ! Suc i" and n1: "q_next H (xs ! (2 * i)) = xs ! Suc (2 * i)"
    using less.prems by (auto intro!: next_nth [OF q])
  have l1: "xs ! Suc (2 * i) = ngx_queue_last h H \<longleftrightarrow> Suc (Suc (2 * i)) = length xs"
    by (rule queue_nth_last [OF q less.prems])
  show ?case
  proof (cases "Suc (Suc (2 * i)) < length xs")
    case False
    then have "Suc (Suc (2 * i)) = length xs" using less.prems by simp
    then show ?thesis
      by (subst queue_middle_loop.simps) (simp add: Let_def m n1 l1 flip: \<open>Suc (Suc (2 * i)) = length xs\<close>)
  next
    case True
    have n2: "q_next H (xs ! Suc (2 * i)) = xs ! Suc (Suc (2 * i))" by (rule next_nth [OF q True])
    have l2: "xs ! Suc (Suc (2 * i)) = ngx_queue_last h H \<longleftrightarrow> Suc (Suc (Suc (2 * i))) = length xs"
      by (rule queue_nth_last [OF q True])
    have IH: "Suc (2 * Suc i) < length xs \<Longrightarrow>
        queue_middle_loop h H (xs ! Suc i) (xs ! Suc (Suc (2 * i))) = Some (xs ! (length xs div 2))"
      using less.hyps [of "Suc i"] less.prems by simp
    show ?thesis
      using True by (subst queue_middle_loop.simps) (auto simp: Let_def m n1 n2 l1 l2 intro!: IH dest: sym)
  qed
qed

lemma middle_queue:
  assumes "is_queue H h xs"
  shows "ngx_queue_middle h H = Some (if xs = [] then h else xs ! (length xs div 2))"
proof (cases "length xs \<le> 1")
  case True
  then show ?thesis
    using assms by (cases xs) (auto simp: ngx_queue_middle_def Let_def head_queue last_queue)
next
  case False
  then have "xs \<noteq> []" "Suc (2 * 0) < length xs" by auto
  moreover from this have "ngx_queue_head h H = xs ! 0" using assms by (cases xs) (simp_all add: head_queue)
  moreover have "xs ! 0 \<noteq> ngx_queue_last h H"
    using queue_nth_last [OF assms, of 0] False by (metis One_nat_def less_numeral_extra(1) linorder_not_le order.strict_trans order_refl)
  ultimately show ?thesis
    using queue_middle_loop_eq [OF assms, of 0] by (simp add: ngx_queue_middle_def Let_def)
qed

text \<open>A comparison of queue elements, as \<open>ngx_queue_sort\<close> takes it.\<close>

locale queue_order = comparison cmp key ok
  for cmp :: "ptr \<Rightarrow> ptr \<Rightarrow> ngx_int_t" and key :: "ptr \<Rightarrow> 'k::linorder" and ok :: "ptr \<Rightarrow> ptr \<Rightarrow> bool"
begin

lemma sorted_filter_le:
  "sorted (map key ys) \<Longrightarrow> ys = [y \<leftarrow> ys. key y \<le> k] @ [y \<leftarrow> ys. k < key y]"
proof (induction ys)
  case (Cons a ys)
  show ?case
  proof (cases "key a \<le> k")
    case False
    then have "\<forall>y\<in>set ys. \<not> key y \<le> k" using Cons.prems by auto
    then have "[y \<leftarrow> ys. key y \<le> k] = []" "[y \<leftarrow> ys. k < key y] = ys"
      by (simp_all add: filter_empty_conv filter_id_conv not_le)
    then show ?thesis using False by simp
  qed (use Cons in auto)
qed simp

lemma queue_sort_back_eq:
  "is_queue H h (ys @ zs) \<Longrightarrow> ys \<noteq> [] \<Longrightarrow> sorted (map key ys) \<Longrightarrow> (\<forall>y\<in>set ys. ok y q) \<Longrightarrow>
   queue_sort_back cmp h H q (List.last ys) = Some (List.last (h # [y \<leftarrow> ys. key y \<le> key q]))"
proof (induction ys arbitrary: zs rule: rev_induct)
  case (snoc y ys)
  have pos: "0 <s cmp y q \<longleftrightarrow> key q < key y" using snoc.prems(4) by (intro cmp_pos) simp
  show ?case
  proof (cases "key y \<le> key q")
    case True
    then show ?thesis
      by (subst queue_sort_back.simps) (simp add: pos not_less [symmetric])
  next
    case False
    have prev: "q_prev H y = List.last (h # ys)"
      using snoc.prems(1) links_ends [of H h ys y] by (simp add: is_queue_def links_append)
    have h: "h \<notin> set ys" using snoc.prems(1) by (simp add: is_queue_def)
    show ?thesis
    proof (cases "ys = []")
      case True
      then show ?thesis
        using False prev by (subst queue_sort_back.simps) (simp add: pos not_le)
    next
      case nonempty: False
      have IH: "queue_sort_back cmp h H q (List.last ys) = Some (List.last (h # [y \<leftarrow> ys. key y \<le> key q]))"
        using snoc.prems nonempty by (intro snoc.IH [of "y # zs"]) (simp_all add: sorted_append)
      have "List.last ys \<noteq> h" using h nonempty last_in_set by metis
      then show ?thesis
        using False prev IH nonempty by (subst queue_sort_back.simps) (simp add: pos not_le)
    qed
  qed
qed simp

text \<open>One round of the sort puts the element at its place among the sorted ones.\<close>

lemma queue_sort_round:
  assumes q: "is_queue H h (ys @ q # zs)" and ys: "ys \<noteq> []" "sorted (map key ys)" "\<forall>y\<in>set ys. ok y q"
  shows "\<exists>p. queue_sort_back cmp h (ngx_queue_remove q H) q (q_prev H q) = Some p
     \<and> is_queue (ngx_queue_insert_after p q (ngx_queue_remove q H)) h (place q ys @ zs)"
proof -
  let ?H = "ngx_queue_remove q H" and ?le = "[y \<leftarrow> ys. key y \<le> key q]" and ?gt = "[y \<leftarrow> ys. key q < key y]"
  have r: "is_queue ?H h (ys @ zs)" by (rule remove_queue [OF q])
  have "links H h ys q" using q by (simp add: is_queue_def links_append)
  then have "q_prev H q = List.last ys" using ys(1) links_ends by fastforce
  then have found: "queue_sort_back cmp h ?H q (q_prev H q) = Some (List.last (h # ?le))"
    using queue_sort_back_eq [OF r ys] by simp
  have parts: "is_queue ?H h (?le @ ?gt @ zs)" using r sorted_filter_le [OF ys(2), of "key q"] by (metis append.assoc)
  have new: "q \<notin> set (h # ?le @ ?gt @ zs)" using q by (auto simp: is_queue_def)
  have "is_queue (ngx_queue_insert_after (List.last (h # ?le)) q ?H) h (place q ys @ zs)"
  proof (cases "?le = []")
    case True
    have "is_queue ?H h (?gt @ zs)" "q \<notin> set (h # ?gt @ zs)" using parts new by (simp_all add: True)
    from insert_head_queue [OF this] show ?thesis by (simp add: place_def True)
  next
    case False
    have le: "?le = butlast ?le @ [List.last ?le]" using False by simp
    have "is_queue ?H h (butlast ?le @ List.last ?le # ?gt @ zs)"
      using parts le by (metis append.assoc append_Cons append_Nil)
    moreover have "q \<notin> set (h # butlast ?le @ List.last ?le # ?gt @ zs)"
      using new le by (metis append.assoc append_Cons append_Nil)
    ultimately have "is_queue (ngx_queue_insert_after (List.last ?le) q ?H) h (butlast ?le @ List.last ?le # q # ?gt @ zs)"
      by (rule insert_after_queue)
    moreover have "butlast ?le @ List.last ?le # q # ?gt @ zs = place q ys @ zs"
      using le by (metis append.assoc append_Cons append_Nil place_def)
    ultimately show ?thesis using False by simp
  qed
  with found show ?thesis by blast
qed

lemma queue_sort_loop_eq:
  "is_queue H h (sort_key key ys @ zs) \<Longrightarrow> ys \<noteq> [] \<Longrightarrow> sorted_wrt ok (ys @ zs) \<Longrightarrow>
   \<exists>H'. queue_sort_loop cmp h H (hd (zs @ [h])) = Some H' \<and> is_queue H' h (sort_key key (ys @ zs))"
proof (induction zs arbitrary: H ys)
  case Nil
  then show ?case by (subst queue_sort_loop.simps) simp
next
  case (Cons q zs)
  have "\<forall>y\<in>set (sort_key key ys). ok y q" using Cons.prems(3) by (simp add: sorted_wrt_append)
  moreover have "sort_key key ys \<noteq> []" using Cons.prems(2) by (metis length_0_conv length_sort)
  ultimately obtain p where
    p: "queue_sort_back cmp h (ngx_queue_remove q H) q (q_prev H q) = Some p"
    and q: "is_queue (ngx_queue_insert_after p q (ngx_queue_remove q H)) h (sort_key key (ys @ [q]) @ zs)"
    using queue_sort_round [OF Cons.prems(1)] by (auto simp: place_sort_key)
  have "q_next H q = hd (zs @ [h])" "q \<noteq> h"
    using Cons.prems(1) links_ends [of H q zs h] by (auto simp: is_queue_def links_append)
  moreover from Cons.IH [OF q] Cons.prems(3)
  obtain H' where "queue_sort_loop cmp h (ngx_queue_insert_after p q (ngx_queue_remove q H)) (hd (zs @ [h])) = Some H'"
    "is_queue H' h (sort_key key (ys @ q # zs))" by auto
  ultimately show ?case
    by (subst queue_sort_loop.simps) (simp add: Let_def p)
qed

lemma queue_sort_sort_key:
  assumes "is_queue H h xs" and "sorted_wrt ok xs"
  shows "\<exists>H'. ngx_queue_sort cmp h H = Some H' \<and> is_queue H' h (sort_key key xs)"
proof (cases xs)
  case Nil
  then show ?thesis using assms by (simp add: ngx_queue_sort_def head_queue last_queue)
next
  case (Cons x ys)
  show ?thesis
  proof (cases "ys = []")
    case True
    then show ?thesis using assms Cons by (simp add: ngx_queue_sort_def head_queue last_queue)
  next
    case False
    then have "List.last ys \<noteq> x" using assms(1) Cons last_in_set by (fastforce simp: is_queue_def)
    moreover have "q_next H x = hd (ys @ [h])"
      using assms(1) links_ends [of H x ys h] by (simp add: Cons is_queue_def)
    ultimately show ?thesis
      using queue_sort_loop_eq [of H h "[x]" ys] assms False
      by (auto simp: Cons ngx_queue_sort_def head_queue last_queue)
  qed
qed

end

end
