(* ===== verification/HttpLocations.thy ===== *)
theory HttpLocations
  imports NgxQueue "HOL-Library.Product_Lexorder"
begin

text \<open>
  The static locations of a server: how \<^verbatim>\<open>src/http/ngx_http.c\<close> sorts the configured
  locations, joins an exact and an inclusive one of the same name, nests the locations below
  their longest inclusive prefix and builds the search tree, and how
  \<open>ngx_http_core_find_static_location\<close> of \<^verbatim>\<open>src/http/ngx_http_core_module.c\<close> walks it for a
  request. A queue is the list of its elements here, which the theory of queues justifies;
  names end with a zero byte in memory, which the lists leave out. Memory allocation succeeds.
\<close>

section \<open>Definitions\<close>

text \<open>The fields of \<open>ngx_http_core_loc_conf_t\<close> in use; \<open>lc_regex\<close> tells that \<open>regex\<close> is set.\<close>

record loc_conf =
  lc_name :: bytes
  lc_noname :: bool
  lc_named :: bool
  lc_exact_match :: bool
  lc_regex :: bool
  lc_auto_redirect :: bool

datatype location_queue =
  LQ (lq_exact: "loc_conf option") (lq_inclusive: "loc_conf option") (lq_name: bytes) (lq_list: "location_queue list")

text \<open>The element that \<open>ngx_http_add_location\<close> appends to the queue.\<close>

definition ngx_http_add_location :: "location_queue list \<Rightarrow> loc_conf \<Rightarrow> location_queue list" where
  "ngx_http_add_location locations clcf =
     locations @
       [if lc_exact_match clcf \<or> lc_regex clcf \<or> lc_named clcf \<or> lc_noname clcf
        then LQ (Some clcf) None (lc_name clcf) []
        else LQ None (Some clcf) (lc_name clcf) []]"

definition lq_conf :: "location_queue \<Rightarrow> loc_conf" where
  "lq_conf lq = (case lq_exact lq of Some c \<Rightarrow> c | None \<Rightarrow> the (lq_inclusive lq))"

text \<open>\<open>strcmp\<close> on two strings whose terminating zero bytes are left out.\<close>

fun ngx_strcmp :: "bytes \<Rightarrow> bytes \<Rightarrow> ngx_int_t" where
  "ngx_strcmp (a # s1) (b # s2) =
     (if a \<noteq> b then ucast a - ucast b else if a = 0 then 0 else ngx_strcmp s1 s2)"
| "ngx_strcmp (a # s1) [] = ucast a"
| "ngx_strcmp [] (b # s2) = - ucast b"
| "ngx_strcmp [] [] = 0"

definition ngx_http_cmp_locations :: "location_queue \<Rightarrow> location_queue \<Rightarrow> ngx_int_t" where
  "ngx_http_cmp_locations lq1 lq2 =
     (let first = lq_conf lq1; second = lq_conf lq2
      in if lc_noname first \<and> \<not> lc_noname second then 1
         else if \<not> lc_noname first \<and> lc_noname second then - 1
         else if lc_noname first \<or> lc_noname second then 0
         else if lc_named first \<and> \<not> lc_named second then 1
         else if \<not> lc_named first \<and> lc_named second then - 1
         else if lc_named first \<and> lc_named second then ngx_strcmp (lc_name first) (lc_name second)
         else if lc_regex first \<and> \<not> lc_regex second then 1
         else if \<not> lc_regex first \<and> lc_regex second then - 1
         else if lc_regex first \<or> lc_regex second then 0
         else let rc = ngx_strcmp (lc_name first) (lc_name second)
              in if rc = 0 \<and> \<not> lc_exact_match first \<and> lc_exact_match second then 1 else rc)"

text \<open>\<open>ngx_http_join_exact_locations\<close>; \<open>None\<close> is \<open>NGX_ERROR\<close>, the duplicate location.\<close>

fun ngx_http_join_exact_locations :: "location_queue list \<Rightarrow> location_queue list option" where
  "ngx_http_join_exact_locations (lq # lx # xs) =
     (if ngx_strcmp (lq_name lq) (lq_name lx) = 0
      then if (lq_exact lq \<noteq> None \<and> lq_exact lx \<noteq> None) \<or> (lq_inclusive lq \<noteq> None \<and> lq_inclusive lx \<noteq> None)
           then None
           else ngx_http_join_exact_locations (LQ (lq_exact lq) (lq_inclusive lx) (lq_name lq) (lq_list lq) # xs)
      else map_option (Cons lq) (ngx_http_join_exact_locations (lx # xs)))"
| "ngx_http_join_exact_locations xs = Some xs"

text \<open>
  The test that ends the inner loop of \<open>ngx_http_create_locations_list\<close>: \<open>lx\<close> does not begin
  with \<open>name\<close>. \<open>strncmp\<close> compares up to \<open>len\<close> bytes and stops at a common zero byte.
\<close>

definition name_prefix :: "bytes \<Rightarrow> location_queue \<Rightarrow> bool" where
  "name_prefix name lx \<longleftrightarrow>
     length name \<le> length (lq_name lx) \<and> ngx_strcmp name (take (length name) (lq_name lx)) = 0"

lemma size_span:
  "size_list size (takeWhile P xs) + size_list size (dropWhile P xs) = size_list size xs"
  by (induction xs) auto

function ngx_http_create_locations_list :: "location_queue list \<Rightarrow> location_queue list" where
  "ngx_http_create_locations_list [] = []"
| "ngx_http_create_locations_list [lq] = [lq]"
| "ngx_http_create_locations_list (lq # y # ys) =
     (if lq_inclusive lq = None then lq # ngx_http_create_locations_list (y # ys)
      else let tail = takeWhile (name_prefix (lq_name lq)) (y # ys);
               x = dropWhile (name_prefix (lq_name lq)) (y # ys)
           in if tail = [] then lq # ngx_http_create_locations_list x
              else let lq' = LQ (lq_exact lq) (lq_inclusive lq) (lq_name lq)
                               (ngx_http_create_locations_list (lq_list lq @ tail))
                   in if x = [] then [lq'] else lq' # ngx_http_create_locations_list x)"
  by pat_completeness auto
termination
proof (relation "measure (size_list size)", goal_cases)
  case (3 lq y ys tail x)
  then show ?case using size_span [of "name_prefix (lq_name lq)" "y # ys"] by (cases lq) simp
next
  case (4 lq y ys tail x)
  then show ?case using size_span [of "name_prefix (lq_name lq)" "y # ys"]
    by (cases lq) (simp add: size_list_append)
next
  case (5 lq y ys tail x)
  then show ?case using size_span [of "name_prefix (lq_name lq)" "y # ys"] by (cases lq) simp
qed auto

text \<open>
  A node of the search tree; the length is an \<open>u_char\<close>. \<open>Null\<close> is the null pointer.
\<close>

datatype location_tree =
  Null
| TNode (t_left: location_tree) (t_right: location_tree) (t_tree: location_tree)
    (t_exact: "loc_conf option") (t_inclusive: "loc_conf option") (t_auto_redirect: bool) (t_len: byte) (t_name: bytes)

definition lq_auto_redirect :: "location_queue \<Rightarrow> bool" where
  "lq_auto_redirect lq \<longleftrightarrow>
     (case lq_exact lq of Some c \<Rightarrow> lc_auto_redirect c | None \<Rightarrow> False)
     \<or> (case lq_inclusive lq of Some c \<Rightarrow> lc_auto_redirect c | None \<Rightarrow> False)"

lemma size_middle:
  "m < length xs \<Longrightarrow>
   size_list size xs = Suc (size_list size (take m xs) + size (xs ! m) + size_list size (drop (Suc m) xs))"
  by (subst id_take_nth_drop [of m xs]) (simp_all add: size_list_append)

lemma size_lq_list: "size_list size (lq_list lq) < size lq"
  by (cases lq) simp

function ngx_http_create_locations_tree :: "location_queue list \<Rightarrow> nat \<Rightarrow> location_tree" where
  "ngx_http_create_locations_tree locations pfx =
     (if locations = [] then Null
      else let m = length locations div 2;
               lq = locations ! m;
               len = length (lq_name lq) - pfx;
               head = take m locations;
               tail = drop (Suc m) locations
           in TNode (if head = [] then Null else ngx_http_create_locations_tree head pfx)
                    (if head = [] \<or> tail = [] then Null else ngx_http_create_locations_tree tail pfx)
                    (if lq_list lq = [] then Null else ngx_http_create_locations_tree (lq_list lq) (pfx + len))
                    (lq_exact lq) (lq_inclusive lq) (lq_auto_redirect lq)
                    (of_nat len) (drop pfx (lq_name lq)))"
  by pat_completeness auto
termination
proof (relation "measure (\<lambda>(xs, _). size_list size xs)", goal_cases)
  case (2 xs pfx m)
  then show ?case using size_middle [of m xs] by simp
next
  case (3 xs pfx m)
  then show ?case using size_middle [of m xs] by simp
next
  case (4 xs pfx m)
  then show ?case using size_middle [of m xs] size_lq_list [of "xs ! m"] by simp
qed simp

declare ngx_http_create_locations_tree.simps [simp del]

text \<open>
  The search. \<open>uri\<close> is the part of the URI that is still to be matched; the pair carries the
  return value \<open>rv\<close> and the location chosen so far for \<open>r->loc_conf\<close>.
\<close>

fun ngx_http_core_find_static_location ::
  "location_tree \<Rightarrow> bytes \<Rightarrow> ngx_rc \<times> loc_conf option \<Rightarrow> ngx_rc \<times> loc_conf option" where
  "ngx_http_core_find_static_location Null uri rv = rv"
| "ngx_http_core_find_static_location (TNode left right tree exact inclusive auto_redirect nlen name) uri rv =
     (let len = length uri;
          n = (if len \<le> unat nlen then len else unat nlen);
          rc = ngx_memcmp (take n uri) (take n name)
      in if rc \<noteq> 0 then
           if rc <s 0 then ngx_http_core_find_static_location left uri rv
           else ngx_http_core_find_static_location right uri rv
         else if len > unat nlen then
           if inclusive \<noteq> None then ngx_http_core_find_static_location tree (drop n uri) (NGX_AGAIN, inclusive)
           else ngx_http_core_find_static_location right uri rv
         else if len = unat nlen then
           if exact \<noteq> None then (NGX_OK, exact) else (NGX_AGAIN, inclusive)
         else if len + 1 = unat nlen \<and> auto_redirect then
           ngx_http_core_find_static_location left uri (NGX_DONE, if exact \<noteq> None then exact else inclusive)
         else ngx_http_core_find_static_location left uri rv)"

section \<open>The order of locations\<close>

lemma ngx_strcmp_order:
  "(0 <s ngx_strcmp a b \<longleftrightarrow> cstr b < cstr a) \<and> (ngx_strcmp a b = 0 \<longleftrightarrow> cstr a = cstr b)"
proof (induction a b rule: ngx_strcmp.induct)
  case (1 a s1 b s2)
  show ?case
  proof (cases "a = b")
    case True
    with 1 show ?thesis by (cases "a = 0") auto
  next
    case False
    then have "ucast a - ucast b \<noteq> (0 :: 64 word)" by (simp add: ucast64_eq)
    moreover have "(0 <s (ucast a - ucast b :: 64 word)) \<longleftrightarrow> b < a"
      using calculation False by (auto simp: zero_sless_iff ucast_diff_sless word_less_nat_alt word_unat_eq_iff)
    ultimately show ?thesis using False
      by (cases "a = 0"; cases "b = 0") (auto simp: word_greater_zero_iff)
  qed
next
  case (2 a s1)
  have "0 <s (ucast a :: 64 word) \<longleftrightarrow> a \<noteq> 0" "(ucast a :: 64 word) = 0 \<longleftrightarrow> a = 0"
    using ucast_diff_sless [of a 0] ucast64_eq [of a 0] by (auto simp: zero_sless_iff)
  then show ?case by (cases "a = 0") auto
next
  case (3 b s2)
  have "(- ucast b :: 64 word) = 0 \<longleftrightarrow> b = 0" using ucast64_eq [of b 0] by auto
  moreover have "\<not> 0 <s (- ucast b :: 64 word)"
    using ucast_diff_sless [of 0 b] ucast64_eq [of b 0] by (auto simp: zero_sless_iff unat_eq_0)
  ultimately show ?case by (cases "b = 0") auto
qed simp

text \<open>The key by which locations are sorted.\<close>

definition loc_key :: "location_queue \<Rightarrow> nat \<times> bytes \<times> nat" where
  "loc_key lq =
     (let c = lq_conf lq
      in if lc_noname c then (3, [], 0)
         else if lc_named c then (2, cstr (lc_name c), 0)
         else if lc_regex c then (1, [], 0)
         else (0, cstr (lc_name c), if lc_exact_match c then 0 else 1))"

lemma cmp_locations_key: "0 <s ngx_http_cmp_locations a b \<longleftrightarrow> loc_key b < loc_key a"
proof -
  have "\<not> 0 <s (- 1 :: 64 word)" "0 <s (1 :: 64 word)" by (simp_all add: word_sless_alt)
  then show ?thesis
    using ngx_strcmp_order [of "lc_name (lq_conf a)" "lc_name (lq_conf b)"]
    by (auto simp: ngx_http_cmp_locations_def loc_key_def Let_def)
qed

interpretation locations: queue_order "\<lambda>p q. ngx_http_cmp_locations (loc p) (loc q)" "\<lambda>p. loc_key (loc p)" "\<lambda>_ _. True"
  for loc :: "ptr \<Rightarrow> location_queue"
  by unfold_locales (rule cmp_locations_key)

text \<open>
  C37. \<open>ngx_queue_sort\<close> on the queue of the configured locations ends, keeps the ring consistent
  and leaves the queue stably sorted: the static locations first, in the order of their names
  and with an exact one before the inclusive one of the same name, then those with a regular
  expression in the order of the configuration, then the named ones by name, then the
  nameless ones.
\<close>

theorem locations_sorted:
  assumes "is_queue H h xs"
  shows "\<exists>H'. ngx_queue_sort (\<lambda>p q. ngx_http_cmp_locations (loc p) (loc q)) h H = Some H'
    \<and> is_queue H' h (sort_key (\<lambda>p. loc_key (loc p)) xs)"
  using locations.queue_sort_sort_key [OF assms, of loc] by (simp add: sorted_wrt_true)

theorem locations_sorted_witness:
  "\<exists>H H'. is_queue H 1 [2, 3] \<and> ngx_queue_sort (\<lambda>p q. ngx_http_cmp_locations
      (LQ None (Some \<lparr>lc_name = s2b (if p = 2 then ''/b'' else ''/a''), lc_noname = False, lc_named = False,
         lc_exact_match = False, lc_regex = False, lc_auto_redirect = False\<rparr>) [] [])
      (LQ None (Some \<lparr>lc_name = s2b (if q = 2 then ''/b'' else ''/a''), lc_noname = False, lc_named = False,
         lc_exact_match = False, lc_regex = False, lc_auto_redirect = False\<rparr>) [] [])) 1 H = Some H'
    \<and> is_queue H' 1 [3, 2]"
proof -
  let ?H = "ngx_queue_insert_tail 1 3 (ngx_queue_insert_tail 1 2
     (ngx_queue_init 1 \<lparr>q_prev = (\<lambda>_. 0), q_next = (\<lambda>_. 0)\<rparr>))"
  let ?loc = "\<lambda>p :: ptr. LQ None (Some \<lparr>lc_name = s2b (if p = 2 then ''/b'' else ''/a''), lc_noname = False, lc_named = False,
         lc_exact_match = False, lc_regex = False, lc_auto_redirect = False\<rparr>) [] []"
  have q: "is_queue ?H 1 [2, 3]"
    by (simp add: is_queue_def ngx_queue_insert_tail_def ngx_queue_init_def Let_def)
  have "sort_key (\<lambda>p. loc_key (?loc p)) [2, 3] = [3, 2 :: ptr]"
    by (simp add: loc_key_def lq_conf_def Let_def)
  with locations_sorted [OF q, of ?loc] q show ?thesis by metis
qed

section \<open>Nesting\<close>

text \<open>What a location contributes to the lookup, and the locations of a nested list in order.\<close>

type_synonym loc_core = "loc_conf option \<times> loc_conf option \<times> bytes"

definition lq_core :: "location_queue \<Rightarrow> loc_core" where
  "lq_core lq = (lq_exact lq, lq_inclusive lq, lq_name lq)"

fun lq_flat :: "location_queue \<Rightarrow> loc_core list" where
  "lq_flat (LQ e i n l) = (e, i, n) # concat (map lq_flat l)"

abbreviation "flat xs \<equiv> concat (map lq_flat xs)"

text \<open>
  The locations of one level: in strict order, and no inclusive one is a prefix of a later
  one. Below an inclusive location are only longer names that begin with its name.
\<close>

definition level :: "location_queue list \<Rightarrow> bool" where
  "level xs \<longleftrightarrow> sorted_wrt (\<lambda>p q. lq_name p < lq_name q
     \<and> (lq_inclusive p \<noteq> None \<longrightarrow> \<not> prefix (lq_name p) (lq_name q))) xs"

fun nested :: "location_queue \<Rightarrow> bool" where
  "nested (LQ e i n l) \<longleftrightarrow> (e \<noteq> None \<or> i \<noteq> None) \<and> (i = None \<longrightarrow> l = []) \<and> level l
     \<and> (\<forall>x\<in>set l. strict_prefix n (lq_name x) \<and> nested x)"

lemma less_append_cancel [simp]: "p @ a < p @ b \<longleftrightarrow> a < (b :: bytes)"
  by (induction p) auto

lemma prefix_leq: "prefix p q \<Longrightarrow> p \<le> (q :: bytes)"
  by (induction p arbitrary: q) (auto elim: prefixE)

lemma strict_prefix_less: "strict_prefix p q \<Longrightarrow> p < (q :: bytes)"
  using prefix_leq [of p q] by (auto simp: strict_prefix_def)

text \<open>A string that is below another and not a prefix of it stays below when it is extended.\<close>

lemma less_extend: "p < q \<Longrightarrow> \<not> prefix p q \<Longrightarrow> p @ s < (q :: bytes)"
proof (induction p arbitrary: q)
  case (Cons a p)
  then show ?case by (cases q) auto
qed simp

lemma prefix_between: "p < q \<Longrightarrow> q \<le> r \<Longrightarrow> prefix p r \<Longrightarrow> prefix p (q :: bytes)"
  using less_extend [of p q] by (metis leD prefix_def)

lemma name_prefix_iff:
  assumes "0 \<notin> set name" and "0 \<notin> set (lq_name lx)"
  shows "name_prefix name lx \<longleftrightarrow> prefix name (lq_name lx)"
proof -
  have cstr_id: "0 \<notin> set s \<Longrightarrow> cstr s = s" for s by (auto simp: cstr_def takeWhile_eq_all_conv)
  have "0 \<notin> set (take (length name) (lq_name lx))" using assms(2) by (metis in_set_takeD)
  then show ?thesis
    using assms(1) by (auto simp: name_prefix_def ngx_strcmp_order cstr_id prefix_def) (metis append_take_drop_id)
qed

text \<open>The input of the nesting: sorted by name, without zero bytes, nothing nested yet.\<close>

definition plain :: "location_queue list \<Rightarrow> bool" where
  "plain xs \<longleftrightarrow> sorted_wrt (\<lambda>p q. lq_name p < lq_name q) xs
     \<and> (\<forall>q\<in>set xs. lq_list q = [] \<and> 0 \<notin> set (lq_name q) \<and> (lq_exact q \<noteq> None \<or> lq_inclusive q \<noteq> None))"

lemma plain_Cons: "plain (q # xs) \<longleftrightarrow> plain xs \<and> (\<forall>x\<in>set xs. lq_name q < lq_name x) \<and> lq_list q = []
    \<and> 0 \<notin> set (lq_name q) \<and> (lq_exact q \<noteq> None \<or> lq_inclusive q \<noteq> None)"
  by (auto simp: plain_def)

lemma plain_append: "plain (xs @ ys) \<longleftrightarrow> plain xs \<and> plain ys \<and> (\<forall>x\<in>set xs. \<forall>y\<in>set ys. lq_name x < lq_name y)"
  by (auto simp: plain_def sorted_wrt_append)

lemma flat_names: "q \<in> set xs \<Longrightarrow> lq_core q \<in> set (flat xs)"
  by (cases q) (force simp: lq_core_def)

lemma plain_flat: "lq_list q = [] \<Longrightarrow> lq_flat q = [lq_core q]"
  by (cases q) (simp add: lq_core_def)

text \<open>The names below the first one that does not begin with \<open>name\<close> do not begin with it either.\<close>

lemma span_prefix:
  assumes "plain (q # xs)" and "x \<in> set (dropWhile (name_prefix (lq_name q)) xs)"
  shows "\<not> prefix (lq_name q) (lq_name x)"
proof -
  have np: "y \<in> set xs \<Longrightarrow> name_prefix (lq_name q) y \<longleftrightarrow> prefix (lq_name q) (lq_name y)" for y
    using assms(1) by (intro name_prefix_iff) (auto simp: plain_def)
  obtain y ys where y: "dropWhile (name_prefix (lq_name q)) xs = y # ys"
    using assms(2) by (cases "dropWhile (name_prefix (lq_name q)) xs") auto
  then have "\<not> name_prefix (lq_name q) y"
    using hd_dropWhile [of "name_prefix (lq_name q)" xs] by force
  have "y \<in> set xs" using y set_dropWhileD [of y "name_prefix (lq_name q)" xs] by simp
  with \<open>\<not> name_prefix (lq_name q) y\<close> have "\<not> prefix (lq_name q) (lq_name y)" by (simp add: np)
  moreover have "lq_name q < lq_name y" using assms(1) \<open>y \<in> set xs\<close> by (simp add: plain_Cons)
  moreover have "lq_name y \<le> lq_name x"
  proof -
    have "plain (takeWhile (name_prefix (lq_name q)) xs @ y # ys)" using assms(1) y by (metis plain_Cons takeWhile_dropWhile_id)
    then show ?thesis using assms(2) y by (auto simp: plain_append plain_Cons)
  qed
  ultimately show ?thesis using prefix_between by blast
qed

lemma flat_name:
  assumes "flat xs = map lq_core ys" and "r \<in> set xs"
  shows "\<exists>t\<in>set ys. lq_name t = lq_name r"
proof -
  have "lq_core r \<in> set (map lq_core ys)" using flat_names [OF assms(2)] assms(1) by simp
  then show ?thesis by (auto simp: lq_core_def)
qed

lemma level_Cons:
  "level (q # xs) \<longleftrightarrow> level xs
     \<and> (\<forall>x\<in>set xs. lq_name q < lq_name x \<and> (lq_inclusive q \<noteq> None \<longrightarrow> \<not> prefix (lq_name q) (lq_name x)))"
  by (auto simp: level_def)

lemma level_attach:
  assumes "plain (q # xs)"
    and IH: "level ys \<and> (\<forall>q\<in>set ys. nested q) \<and> flat ys = map lq_core zs"
    and r: "nested r" "lq_name r = lq_name q" "lq_inclusive r = lq_inclusive q"
    and zs: "\<And>z. z \<in> set zs \<Longrightarrow> z \<in> set xs \<and> (lq_inclusive q \<noteq> None \<longrightarrow> \<not> prefix (lq_name q) (lq_name z))"
  shows "level (r # ys) \<and> (\<forall>q\<in>set (r # ys). nested q) \<and> flat (r # ys) = lq_flat r @ map lq_core zs"
proof -
  have "lq_name r < lq_name x \<and> (lq_inclusive r \<noteq> None \<longrightarrow> \<not> prefix (lq_name r) (lq_name x))" if x: "x \<in> set ys" for x
  proof -
    obtain t where "t \<in> set zs" "lq_name t = lq_name x" using flat_name [OF _ x] IH by blast
    then show ?thesis using zs [of t] assms(1) r by (auto simp: plain_Cons)
  qed
  then show ?thesis using IH r by (simp add: level_Cons)
qed

text \<open>One round of the nesting, with the early returns folded together.\<close>

lemma create_list_step:
  assumes "lq_list q = []" and "tail = takeWhile (name_prefix (lq_name q)) xs" and "x = dropWhile (name_prefix (lq_name q)) xs"
  shows "ngx_http_create_locations_list (q # xs) =
    (if lq_inclusive q = None then q # ngx_http_create_locations_list xs
     else LQ (lq_exact q) (lq_inclusive q) (lq_name q) (ngx_http_create_locations_list tail)
       # ngx_http_create_locations_list x)"
proof -
  have q: "LQ (lq_exact q) (lq_inclusive q) (lq_name q) [] = q" using assms(1) by (cases q) simp
  show ?thesis
  proof (cases xs)
    case Nil
    then show ?thesis using assms(2,3) q by simp
  next
    case (Cons y ys)
    show ?thesis
      using q unfolding Cons ngx_http_create_locations_list.simps(3) Let_def assms(2) [unfolded Cons, symmetric]
        assms(3) [unfolded Cons, symmetric] assms(1)
      by auto
  qed
qed

lemma create_list_nested:
  "plain xs \<Longrightarrow>
   level (ngx_http_create_locations_list xs) \<and> (\<forall>q\<in>set (ngx_http_create_locations_list xs). nested q)
   \<and> flat (ngx_http_create_locations_list xs) = map lq_core xs"
proof (induction "length xs" arbitrary: xs rule: less_induct)
  case less
  let ?f = ngx_http_create_locations_list
  show ?case
  proof (cases xs)
    case Nil
    then show ?thesis by (simp add: level_def)
  next
    case (Cons q xs')
    obtain tail x where tail: "tail = takeWhile (name_prefix (lq_name q)) xs'" and x: "x = dropWhile (name_prefix (lq_name q)) xs'"
      by blast
    have p: "plain (q # xs')" and q: "lq_list q = []" using less.prems by (simp_all add: Cons plain_Cons)
    have parts: "xs' = tail @ x" by (simp add: tail x)
    then have pp: "plain tail" "plain x" "plain xs'" using p by (simp_all add: plain_append plain_Cons)
    have len: "length tail < length xs" "length x < length xs" "length xs' < length xs" by (simp_all add: Cons parts)
    note step = create_list_step [OF q tail x]
    show ?thesis
    proof (cases "lq_inclusive q = None")
      case True
      have "nested q" using p True by (cases q) (auto simp: plain_def level_def)
      from level_attach [OF p less.hyps [OF len(3) pp(3)] this refl refl] True show ?thesis
        by (simp add: Cons step plain_flat q)
    next
      case False
      let ?q = "LQ (lq_exact q) (lq_inclusive q) (lq_name q) (?f tail)"
      have IH: "level (?f tail) \<and> (\<forall>q\<in>set (?f tail). nested q) \<and> flat (?f tail) = map lq_core tail"
        by (rule less.hyps [OF len(1) pp(1)])
      have "strict_prefix (lq_name q) (lq_name r)" if r: "r \<in> set (?f tail)" for r
      proof -
        obtain t where t: "t \<in> set tail" "lq_name t = lq_name r" using flat_name [OF _ r] IH by blast
        then have "t \<in> set xs'" "name_prefix (lq_name q) t" using set_takeWhileD [of t] by (auto simp: tail)
        then show ?thesis
          using t(2) name_prefix_iff [of "lq_name q" t] p by (auto simp: strict_prefix_def plain_def)
      qed
      then have "nested ?q" using IH False by auto
      moreover have "z \<in> set xs' \<and> (lq_inclusive q \<noteq> None \<longrightarrow> \<not> prefix (lq_name q) (lq_name z))" if "z \<in> set x" for z
        using span_prefix [OF p that [unfolded x]] that by (simp add: parts)
      ultimately have "level (?q # ?f x) \<and> (\<forall>r\<in>set (?q # ?f x). nested r) \<and> flat (?q # ?f x) = lq_flat ?q @ map lq_core x"
        by (intro level_attach [OF p less.hyps [OF len(2) pp(2)]]) auto
      moreover have "lq_flat ?q @ map lq_core x = map lq_core xs" using IH by (simp add: Cons parts lq_core_def)
      ultimately show ?thesis using False by (simp only: Cons step if_False) blast
    qed
  qed
qed

section \<open>The lookup\<close>

text \<open>
  What a lookup of \<open>w\<close> among the locations \<open>L\<close> may return when \<open>d\<close> is the result so far: the
  location named \<open>w\<close>, the exact one if there is one; otherwise the redirect to a location
  that has one byte more; otherwise the inclusive location with the longest name that is a
  prefix of \<open>w\<close>; and \<open>d\<close> if there is none.
\<close>

definition core_redirect :: "loc_core \<Rightarrow> bool" where
  "core_redirect c \<longleftrightarrow> (\<exists>l \<in> set_option (fst c) \<union> set_option (fst (snd c)). lc_auto_redirect l)"

inductive static_match ::
  "loc_core set \<Rightarrow> bytes \<Rightarrow> ngx_rc \<times> loc_conf option \<Rightarrow> ngx_rc \<times> loc_conf option \<Rightarrow> bool"
  for L w d where
  exact: "(Some j, i, w) \<in> L \<Longrightarrow> static_match L w d (NGX_OK, Some j)"
| inclusive: "(None, i, w) \<in> L \<Longrightarrow> static_match L w d (NGX_AGAIN, i)"
| redirect: "(\<And>e i. (e, i, w) \<notin> L) \<Longrightarrow> (e, i, w @ [c]) \<in> L \<Longrightarrow> core_redirect (e, i, w @ [c]) \<Longrightarrow>
    k = (if e \<noteq> None then e else i) \<Longrightarrow> static_match L w d (NGX_DONE, k)"
| longest: "(\<And>e i. (e, i, w) \<notin> L) \<Longrightarrow> (e, Some j, n) \<in> L \<Longrightarrow> prefix n w \<Longrightarrow>
    (\<And>e' j' n'. (e', Some j', n') \<in> L \<Longrightarrow> prefix n' w \<Longrightarrow> prefix n' n) \<Longrightarrow> static_match L w d (NGX_AGAIN, Some j)"
| none: "(\<And>e i. (e, i, w) \<notin> L) \<Longrightarrow> (\<And>e j n. (e, Some j, n) \<in> L \<Longrightarrow> \<not> prefix n w) \<Longrightarrow> static_match L w d d"

text \<open>Locations that neither are named \<open>w\<close> nor are an inclusive prefix of it do not matter.\<close>

definition irrelevant :: "bytes \<Rightarrow> loc_core set \<Rightarrow> bool" where
  "irrelevant w L \<longleftrightarrow> (\<forall>e i n. (e, i, n) \<in> L \<longrightarrow> n \<noteq> w \<and> (i \<noteq> None \<longrightarrow> \<not> prefix n w))"

lemma irrelevant_Un [simp]: "irrelevant w (A \<union> B) \<longleftrightarrow> irrelevant w A \<and> irrelevant w B"
  unfolding irrelevant_def by blast

lemma irrelevantD: "irrelevant w L \<Longrightarrow> (e, i, w) \<notin> L" "irrelevant w L \<Longrightarrow> (e, Some j, n) \<in> L \<Longrightarrow> \<not> prefix n w"
  by (auto simp: irrelevant_def)

lemma static_match_mono:
  assumes "static_match L w d res" and "irrelevant w M"
  shows "static_match (L \<union> M) w d res"
  using assms(1)
proof cases
  case (exact j i)
  then show ?thesis by (auto intro: static_match.exact)
next
  case (inclusive i)
  then show ?thesis by (auto intro: static_match.inclusive)
next
  case (redirect e i c)
  then show ?thesis
    using irrelevantD [OF assms(2)] by (auto intro!: static_match.redirect [where e = e and i = i and c = c])
next
  case (longest e j n)
  then show ?thesis using irrelevantD [OF assms(2)] by (auto intro!: static_match.longest)
next
  case none
  then show ?thesis using irrelevantD [OF assms(2)] by (auto intro!: static_match.none)
qed

lemma static_match_descend:
  assumes "static_match L w (NGX_AGAIN, Some i) res" and n: "strict_prefix n w"
    and L: "\<And>e' i' n'. (e', i', n') \<in> L \<Longrightarrow> prefix n n'"
  shows "static_match (insert (e, Some i, n) L) w d res"
  using assms(1)
proof cases
  case (exact j i)
  then show ?thesis by (auto intro: static_match.exact)
next
  case (inclusive i)
  then show ?thesis by (auto intro: static_match.inclusive)
next
  case (redirect e i c)
  then show ?thesis using n by (auto intro!: static_match.redirect [where e = e and i = i and c = c])
next
  case (longest e j m)
  then show ?thesis using n L [OF longest(3)] by (auto intro!: static_match.longest [where e = e and n = m])
next
  case none
  then show ?thesis using n by (auto intro!: static_match.longest)
qed

lemma static_match_redirect:
  assumes "static_match L w (NGX_DONE, if e \<noteq> None then e else i) res"
    and no: "\<And>e' i' n'. (e', Some i', n') \<in> L \<Longrightarrow> \<not> prefix n' w" and r: "core_redirect (e, i, w @ [c])"
  shows "static_match (insert (e, i, w @ [c]) L) w d res"
  using assms(1)
proof cases
  case (exact j i)
  then show ?thesis by (auto intro: static_match.exact)
next
  case (inclusive i)
  then show ?thesis by (auto intro: static_match.inclusive)
next
  case (redirect e' i' c')
  then show ?thesis by (auto intro!: static_match.redirect [where e = e' and i = i' and c = c'])
next
  case (longest e j m)
  then show ?thesis using no by blast
next
  case none
  then show ?thesis using r by (auto intro!: static_match.redirect [where e = e and i = i and c = c])
qed

lemma flat_prefix: "nested q \<Longrightarrow> (e, i, n) \<in> set (lq_flat q) \<Longrightarrow> prefix (lq_name q) n"
proof (induction q arbitrary: e i n)
  case (LQ e' i' n' l)
  show ?case
  proof (cases "(e, i, n) = (e', i', n')")
    case False
    then obtain x where x: "x \<in> set l" "(e, i, n) \<in> set (lq_flat x)" using LQ.prems(2) by auto
    then have "prefix (lq_name x) n" "strict_prefix n' (lq_name x)"
      using LQ.IH [of x] LQ.prems(1) by auto
    then show ?thesis by (auto simp: strict_prefix_def)
  qed simp
qed

lemma irrelevant_flat:
  assumes "nested x" and "lq_inclusive x \<noteq> None \<Longrightarrow> \<not> prefix (lq_name x) w" and "lq_name x \<noteq> w"
  shows "irrelevant w (set (lq_flat x))"
proof (cases "lq_inclusive x")
  case None
  then show ?thesis using assms by (cases x) (auto simp: irrelevant_def)
next
  case (Some i)
  then have "\<not> prefix (lq_name x) w" using assms(2) by simp
  then show ?thesis
    using flat_prefix [OF assms(1)] unfolding irrelevant_def by (metis prefix_order.order_trans prefix_order.order_refl)
qed

lemma irrelevant_flats: "\<forall>x\<in>set xs. irrelevant w (set (lq_flat x)) \<Longrightarrow> irrelevant w (set (flat xs))"
  by (induction xs) (simp_all, simp add: irrelevant_def)

lemma create_tree_step:
  assumes "xs \<noteq> []" and "m = length xs div 2"
  shows "ngx_http_create_locations_tree xs pfx =
    TNode (ngx_http_create_locations_tree (take m xs) pfx) (ngx_http_create_locations_tree (drop (Suc m) xs) pfx)
      (ngx_http_create_locations_tree (lq_list (xs ! m)) (pfx + (length (lq_name (xs ! m)) - pfx)))
      (lq_exact (xs ! m)) (lq_inclusive (xs ! m)) (lq_auto_redirect (xs ! m))
      (of_nat (length (lq_name (xs ! m)) - pfx)) (drop pfx (lq_name (xs ! m)))"
proof -
  have nil: "ngx_http_create_locations_tree [] pfx = Null" for pfx
    by (subst ngx_http_create_locations_tree.simps) simp
  have "drop (Suc m) xs = []" if "take m xs = []"
  proof -
    have "m = 0" using that assms by simp
    then have "length xs < 2" using assms(2) by simp
    then show ?thesis using assms(1) by simp
  qed
  then show ?thesis
    using assms(1) unfolding assms(2)
    by (subst ngx_http_create_locations_tree.simps) (simp add: Let_def nil)
qed

text \<open>The three positions of a name relative to the one looked up.\<close>

lemma level_split:
  assumes "level (l @ q # r)"
  shows "level l" and "level r" and "\<And>x. x \<in> set l \<Longrightarrow> lq_name x < lq_name q"
    and "\<And>x. x \<in> set r \<Longrightarrow> lq_name q < lq_name x"
    and "\<And>x. x \<in> set l \<Longrightarrow> lq_inclusive x \<noteq> None \<Longrightarrow> \<not> prefix (lq_name x) (lq_name q)"
    and "\<And>x. x \<in> set r \<Longrightarrow> lq_inclusive q \<noteq> None \<Longrightarrow> \<not> prefix (lq_name q) (lq_name x)"
  using assms by (auto simp: level_def sorted_wrt_append)

lemma irrelevant_right:
  assumes "level (l @ q # r)" and "\<forall>x\<in>set (l @ q # r). nested x" and "w < lq_name q"
  shows "irrelevant w (set (lq_flat q))" and "irrelevant w (set (flat r))"
proof -
  have "irrelevant w (set (lq_flat x))" if x: "x \<in> set (q # r)" for x
  proof -
    have "w < lq_name x" using level_split(4) [OF assms(1), of x] assms(3) x by fastforce
    then have "\<not> prefix (lq_name x) w" "lq_name x \<noteq> w" using prefix_leq [of "lq_name x" w] by auto
    then show ?thesis using irrelevant_flat [of x w] assms(2) x by auto
  qed
  then show "irrelevant w (set (lq_flat q))" "irrelevant w (set (flat r))"
    by (simp, intro irrelevant_flats, simp)
qed

lemma irrelevant_left:
  assumes "level (l @ q # r)" and "\<forall>x\<in>set (l @ q # r). nested x" and "lq_name q < w"
  shows "irrelevant w (set (flat l))"
proof (rule irrelevant_flats, intro ballI)
  fix x assume x: "x \<in> set l"
  have less: "lq_name x < lq_name q" by (rule level_split(3) [OF assms(1) x])
  show "irrelevant w (set (lq_flat x))"
  proof (rule irrelevant_flat)
    show "nested x" using assms(2) x by simp
    show "lq_name x \<noteq> w" using less assms(3) by auto
    assume "lq_inclusive x \<noteq> None"
    then have "\<not> prefix (lq_name x) (lq_name q)" by (rule level_split(5) [OF assms(1) x])
    then show "\<not> prefix (lq_name x) w"
      using less_extend [OF less] assms(3) by (metis less_asym prefix_def)
  qed
qed

lemma irrelevant_beside:
  assumes "level (l @ q # r)" and "\<forall>x\<in>set (l @ q # r). nested x" and "lq_inclusive q \<noteq> None" and "prefix (lq_name q) w"
  shows "irrelevant w (set (flat r))"
proof (rule irrelevant_flats, intro ballI)
  fix x assume x: "x \<in> set r"
  have less: "lq_name q < lq_name x" and no: "\<not> prefix (lq_name q) (lq_name x)"
    using level_split(4,6) [OF assms(1) x] assms(3) by auto
  then have "w < lq_name x" using less_extend [OF less no] assms(4) by (metis prefix_def)
  then have "\<not> prefix (lq_name x) w" "lq_name x \<noteq> w" using prefix_leq [of "lq_name x" w] by auto
  then show "irrelevant w (set (lq_flat x))"
    using irrelevant_flat [of x w] assms(2) x by simp
qed

text \<open>The comparison of the remaining URI with the name in a node.\<close>

lemma node_compare:
  assumes "k = (if length u \<le> length s then length u else length s)" and "rc = ngx_memcmp (take k u) (take k s)"
  shows "rc \<noteq> 0 \<Longrightarrow> rc <s 0 \<Longrightarrow> u < s" and "rc \<noteq> 0 \<Longrightarrow> \<not> rc <s 0 \<Longrightarrow> s < u \<and> \<not> prefix s u"
    and "rc = 0 \<Longrightarrow> length s < length u \<Longrightarrow> strict_prefix s u"
    and "rc = 0 \<Longrightarrow> length u = length s \<Longrightarrow> u = s" and "rc = 0 \<Longrightarrow> length u < length s \<Longrightarrow> strict_prefix u s"
proof -
  have k: "k = min (length u) (length s)" using assms(1) by (simp add: min_def)
  then have rc: "rc = ngx_memcmp u s" using ngx_memcmp_take [OF k] assms(2) by simp
  have eq: "rc = 0 \<longleftrightarrow> take k u = take k s"
    unfolding assms(2) by (rule ngx_memcmp_eq) (simp add: k)
  show "rc \<noteq> 0 \<Longrightarrow> rc <s 0 \<Longrightarrow> u < s" using ngx_memcmp_less [of u s] rc by simp
  show "rc \<noteq> 0 \<Longrightarrow> \<not> rc <s 0 \<Longrightarrow> s < u \<and> \<not> prefix s u"
    using ngx_memcmp_less [of u s] rc eq k by (auto simp: prefix_def not_less_iff_gr_or_eq)
  show "rc = 0 \<Longrightarrow> length s < length u \<Longrightarrow> strict_prefix s u"
    using eq k by (auto simp: strict_prefix_def prefix_def min_def) (metis append_take_drop_id)
  show "rc = 0 \<Longrightarrow> length u = length s \<Longrightarrow> u = s" using eq k by simp
  show "rc = 0 \<Longrightarrow> length u < length s \<Longrightarrow> strict_prefix u s"
    using eq k by (auto simp: strict_prefix_def prefix_def min_def) (metis append_take_drop_id)
qed

text \<open>The branches of the search at a node whose name is shorter than 256 bytes.\<close>

lemma find_branches:
  fixes tL tR tT :: location_tree
  assumes "length s < 256" and "rc = ngx_memcmp (take (if length u \<le> length s then length u else length s) u)
      (take (if length u \<le> length s then length u else length s) s)"
    and res: "res = ngx_http_core_find_static_location (TNode tL tR tT e i a (of_nat (length s)) s) u d"
  shows "rc \<noteq> 0 \<Longrightarrow> res = ngx_http_core_find_static_location (if rc <s 0 then tL else tR) u d"
    and "rc = 0 \<Longrightarrow> length s < length u \<Longrightarrow> i = None \<Longrightarrow> res = ngx_http_core_find_static_location tR u d"
    and "rc = 0 \<Longrightarrow> length s < length u \<Longrightarrow> i \<noteq> None \<Longrightarrow>
      res = ngx_http_core_find_static_location tT (drop (length s) u) (NGX_AGAIN, i)"
    and "rc = 0 \<Longrightarrow> length u = length s \<Longrightarrow> res = (if e \<noteq> None then (NGX_OK, e) else (NGX_AGAIN, i))"
    and "rc = 0 \<Longrightarrow> length u < length s \<Longrightarrow> length u + 1 = length s \<and> a \<Longrightarrow>
      res = ngx_http_core_find_static_location tL u (NGX_DONE, if e \<noteq> None then e else i)"
    and "rc = 0 \<Longrightarrow> length u < length s \<Longrightarrow> \<not> (length u + 1 = length s \<and> a) \<Longrightarrow>
      res = ngx_http_core_find_static_location tL u d"
proof -
  have len: "unat (of_nat (length s) :: byte) = length s" using assms(1) by (simp add: unat_of_nat)
  note find = res [unfolded ngx_http_core_find_static_location.simps(2) Let_def len, folded assms(2)]
  show "rc \<noteq> 0 \<Longrightarrow> res = ngx_http_core_find_static_location (if rc <s 0 then tL else tR) u d"
    unfolding find by simp
  show "rc = 0 \<Longrightarrow> length s < length u \<Longrightarrow> i = None \<Longrightarrow> res = ngx_http_core_find_static_location tR u d"
    unfolding find by simp
  show "rc = 0 \<Longrightarrow> length s < length u \<Longrightarrow> i \<noteq> None \<Longrightarrow>
      res = ngx_http_core_find_static_location tT (drop (length s) u) (NGX_AGAIN, i)"
    unfolding find by simp
  show "rc = 0 \<Longrightarrow> length u = length s \<Longrightarrow> res = (if e \<noteq> None then (NGX_OK, e) else (NGX_AGAIN, i))"
    unfolding find by simp
  show "rc = 0 \<Longrightarrow> length u < length s \<Longrightarrow> length u + 1 = length s \<and> a \<Longrightarrow>
      res = ngx_http_core_find_static_location tL u (NGX_DONE, if e \<noteq> None then e else i)"
    unfolding find by simp
  show "rc = 0 \<Longrightarrow> length u < length s \<Longrightarrow> \<not> (length u + 1 = length s \<and> a) \<Longrightarrow>
      res = ngx_http_core_find_static_location tL u d"
    unfolding find by auto
qed

lemma flat_core: "set (lq_flat q) = insert (lq_exact q, lq_inclusive q, lq_name q) (set (flat (lq_list q)))"
  by (cases q) simp

text \<open>The redirect: the name of \<open>q\<close> is one byte longer than the URI, and the search goes left.\<close>

lemma find_redirect:
  assumes lev: "level (l @ q # r)" and nest: "\<forall>x\<in>set (l @ q # r). nested x" and name: "lq_name q = w @ [c]"
    and redirect: "lq_auto_redirect q"
    and left: "static_match (set (flat l)) w (NGX_DONE, if lq_exact q \<noteq> None then lq_exact q else lq_inclusive q) res"
  shows "static_match (set (flat (l @ q # r))) w d res"
proof -
  have "w < lq_name q" unfolding name by (rule strict_prefix_less) (simp add: strict_prefix_def)
  then have "irrelevant w (set (lq_flat q))" "irrelevant w (set (flat r))"
    using irrelevant_right [OF lev nest] by blast+
  moreover have "static_match (insert (lq_exact q, lq_inclusive q, w @ [c]) (set (flat l))) w d res"
  proof (rule static_match_redirect [OF left])
    show "core_redirect (lq_exact q, lq_inclusive q, w @ [c])"
      using redirect by (auto simp: core_redirect_def lq_auto_redirect_def split: option.splits)
    show "\<not> prefix n' w" if n': "(e', Some i', n') \<in> set (flat l)" for e' i' n'
    proof -
      obtain x where x: "x \<in> set l" "(e', Some i', n') \<in> set (lq_flat x)" using n' by auto
      have nx: "nested x" using nest x(1) by simp
      show ?thesis
      proof (cases "lq_inclusive x")
        case None
        then have "(e', Some i', n') = (lq_exact x, lq_inclusive x, lq_name x)" using x(2) nx by (cases x) auto
        then show ?thesis using None by simp
      next
        case (Some j)
        then have "\<not> prefix (lq_name x) (lq_name q)" using level_split(5) [OF lev x(1)] by simp
        then show ?thesis
          using flat_prefix [OF nx x(2)] by (metis name prefix_order.trans prefix_append prefixI)
      qed
    qed
  qed
  moreover have "set (flat (l @ q # r)) =
      insert (lq_exact q, lq_inclusive q, w @ [c]) (set (flat l)) \<union> (set (lq_flat q) \<union> set (flat r))"
    by (auto simp: flat_core [of q] name)
  ultimately show ?thesis by (simp only: static_match_mono irrelevant_Un simp_thms)
qed

text \<open>One step of the search at the node of \<open>q\<close>, between the locations \<open>l\<close> and \<open>r\<close>.\<close>

lemma find_node:
  assumes lev: "level (l @ q # r)" and nest: "\<forall>x\<in>set (l @ q # r). nested x"
    and name: "lq_name q = P @ s" and short: "length s < 256"
    and left: "\<And>u d. static_match (set (flat l)) (P @ u) d (ngx_http_core_find_static_location tL u d)"
    and right: "\<And>u d. static_match (set (flat r)) (P @ u) d (ngx_http_core_find_static_location tR u d)"
    and below: "\<And>u d. static_match (set (flat (lq_list q))) (P @ s @ u) d (ngx_http_core_find_static_location tT u d)"
    and res: "res = ngx_http_core_find_static_location
       (TNode tL tR tT (lq_exact q) (lq_inclusive q) (lq_auto_redirect q) (of_nat (length s)) s) u d"
  shows "static_match (set (flat (l @ q # r))) (P @ u) d res" (is "static_match ?L ?w d res")
proof -
  let ?find = ngx_http_core_find_static_location and ?core = "(lq_exact q, lq_inclusive q, lq_name q)"
  let ?n = "if length u \<le> length s then length u else length s"
  obtain rc where rc: "rc = ngx_memcmp (take ?n u) (take ?n s)" by blast
  note cmp = node_compare [OF refl rc]
  note find = find_branches [OF short rc res]
  have all: "?L = set (flat l) \<union> (set (lq_flat q) \<union> set (flat r))"
      "?L = set (flat r) \<union> (set (flat l) \<union> set (lq_flat q))"
      "?L = set (lq_flat q) \<union> (set (flat l) \<union> set (flat r))" by auto
  have nq: "nested q" using nest by simp
  have go_left: "static_match ?L ?w d (?find tL u d)" if "u < s"
    using irrelevant_right [OF lev nest, of ?w] that unfolding all(1) by (intro static_match_mono left) (simp add: name)
  have go_right: "static_match ?L ?w d (?find tR u d)" if "s < u" "lq_inclusive q = None \<or> \<not> prefix s u"
    using irrelevant_left [OF lev nest, of ?w] irrelevant_flat [OF nq, of ?w] that unfolding all(2)
    by (intro static_match_mono right) (auto simp: name)
  consider "rc \<noteq> 0" | "rc = 0" "length s < length u" | "rc = 0" "length u = length s" | "rc = 0" "length u < length s"
    by linarith
  then show ?thesis
  proof cases
    case 1
    then show ?thesis using cmp(1,2) go_left go_right find(1) by (cases "rc <s 0") simp_all
  next
    case 2
    then have su: "strict_prefix s u" by (rule cmp(3))
    then have less: "s < u" by (rule strict_prefix_less)
    show ?thesis
    proof (cases "lq_inclusive q")
      case None
      then show ?thesis using find(2) [OF 2] go_right [OF less] by simp
    next
      case (Some i)
      obtain t where t: "u = s @ t" using su by (auto simp: strict_prefix_def prefix_def)
      have "static_match (set (flat (lq_list q))) ?w (NGX_AGAIN, Some i) (?find tT t (NGX_AGAIN, Some i))"
        using below [of t] by (simp add: t)
      moreover have "strict_prefix (lq_name q) ?w" using su by (simp add: name strict_prefix_def)
      moreover have "prefix (lq_name q) n'" if "(e', i', n') \<in> set (flat (lq_list q))" for e' i' n'
        using flat_prefix [OF nq, of e' i' n'] that by (simp add: flat_core [of q])
      ultimately have "static_match (set (lq_flat q)) ?w d (?find tT t (NGX_AGAIN, Some i))"
        unfolding flat_core [of q] Some by (rule static_match_descend)
      moreover have "irrelevant ?w (set (flat l))" by (rule irrelevant_left [OF lev nest]) (simp add: name less)
      moreover have "irrelevant ?w (set (flat r))"
        using irrelevant_beside [OF lev nest, of ?w] Some su by (simp add: name strict_prefix_def)
      ultimately show ?thesis
        using find(3) [OF 2] unfolding all(3) by (intro static_match_mono) (simp_all add: Some t)
    qed
  next
    case 3
    then have "?core \<in> ?L" "lq_name q = ?w" using cmp(4) by (simp_all add: flat_core [of q] name)
    then show ?thesis
      using find(4) [OF 3] by (cases "lq_exact q") (auto intro: static_match.exact static_match.inclusive)
  next
    case 4
    then have us: "strict_prefix u s" by (rule cmp(5))
    then have less: "u < s" by (rule strict_prefix_less)
    show ?thesis
    proof (cases "length u + 1 = length s \<and> lq_auto_redirect q")
      case True
      obtain zs where zs: "s = u @ zs" using us by (auto simp: strict_prefix_def prefix_def)
      then obtain c where "zs = [c]" using True by (cases zs; cases "List.tl zs") auto
      with zs have "s = u @ [c]" by simp
      then show ?thesis
        using find_redirect [OF lev nest, of ?w c] left True find(5) [OF 4 True] by (simp add: name)
    next
      case False
      then show ?thesis using find(6) [OF 4] go_left [OF less] by simp
    qed
  qed
qed

lemma find_tree:
  "level xs \<Longrightarrow> \<forall>x\<in>set xs. nested x \<and> prefix P (lq_name x) \<Longrightarrow> \<forall>c\<in>set (flat xs). length (snd (snd c)) < 256 \<Longrightarrow>
   static_match (set (flat xs)) (P @ u) d
     (ngx_http_core_find_static_location (ngx_http_create_locations_tree xs (length P)) u d)"
proof (induction "size_list size xs" arbitrary: xs P u d rule: less_induct)
  case less
  show ?case
  proof (cases "xs = []")
    case True
    then show ?thesis by (subst ngx_http_create_locations_tree.simps) (auto intro: static_match.none)
  next
    case False
    let ?m = "length xs div 2"
    obtain q l r where q: "q = xs ! ?m" and l: "l = take ?m xs" and r: "r = drop (Suc ?m) xs" by blast
    have xs: "xs = l @ q # r" using False unfolding q l r by (simp add: id_take_nth_drop [symmetric])
    have "prefix P (lq_name q)" using less.prems(2) xs by simp
    then obtain s where name: "lq_name q = P @ s" by (auto simp: prefix_def)
    have nq: "nested q" using less.prems(2) xs by simp
    have size: "size_list size l < size_list size xs" "size_list size r < size_list size xs"
      "size_list size (lq_list q) < size_list size xs"
      using size_lq_list [of q] by (simp_all add: xs size_list_append)
    have short: "\<forall>c\<in>set (flat l) \<union> set (flat r) \<union> set (lq_flat q). length (snd (snd c)) < 256"
      using less.prems(3) unfolding xs by auto
    have "(lq_exact q, lq_inclusive q, lq_name q) \<in> set (lq_flat q)" by (simp add: flat_core [of q])
    then have s: "length s < 256" using short by (force simp: name)
    note lev = level_split [OF less.prems(1) [unfolded xs]]
    have below: "level (lq_list q)" "\<forall>x\<in>set (lq_list q). nested x \<and> prefix (P @ s) (lq_name x)"
      "\<forall>c\<in>set (flat (lq_list q)). length (snd (snd c)) < 256"
      using nq name short by (cases q; auto simp: strict_prefix_def)+
    have tree: "ngx_http_create_locations_tree xs (length P) =
        TNode (ngx_http_create_locations_tree l (length P)) (ngx_http_create_locations_tree r (length P))
          (ngx_http_create_locations_tree (lq_list q) (length (P @ s)))
          (lq_exact q) (lq_inclusive q) (lq_auto_redirect q) (of_nat (length s)) s"
      using create_tree_step [OF False refl, of "length P"] unfolding q [symmetric] l [symmetric] r [symmetric] name by simp
    have "static_match (set (flat (l @ q # r))) (P @ u) d
       (ngx_http_core_find_static_location (ngx_http_create_locations_tree xs (length P)) u d)"
    proof (rule find_node [OF less.prems(1) [unfolded xs] _ name s _ _ _ arg_cong [OF tree, of "\<lambda>t. ngx_http_core_find_static_location t u d"]])
      show "\<forall>x\<in>set (l @ q # r). nested x" using less.prems(2) xs by simp
      show "static_match (set (flat l)) (P @ u) d (ngx_http_core_find_static_location (ngx_http_create_locations_tree l (length P)) u d)" for u d
        using less.prems(2) short by (intro less.hyps [OF size(1) lev(1)]) (auto simp: xs)
      show "static_match (set (flat r)) (P @ u) d (ngx_http_core_find_static_location (ngx_http_create_locations_tree r (length P)) u d)" for u d
        using less.prems(2) short by (intro less.hyps [OF size(2) lev(2)]) (auto simp: xs)
      show "static_match (set (flat (lq_list q))) (P @ s @ u) d
          (ngx_http_core_find_static_location (ngx_http_create_locations_tree (lq_list q) (length (P @ s))) u d)" for u d
        using less.hyps [OF size(3) below, of u d] by simp
    qed
    then show ?thesis by (simp only: xs [symmetric])
  qed
qed

section \<open>Joining\<close>

text \<open>
  The sorted queue before the join: an exact location comes before the inclusive one of the
  same name, every element but perhaps the first, which may be joined already, has one of
  the two, and the names are those of the configurations.
\<close>

definition lq_ok :: "location_queue \<Rightarrow> bool" where
  "lq_ok q \<longleftrightarrow> lq_list q = [] \<and> 0 \<notin> set (lq_name q) \<and> (lq_exact q \<noteq> None \<or> lq_inclusive q \<noteq> None)
     \<and> (\<forall>c. lq_exact q = Some c \<or> lq_inclusive q = Some c \<longrightarrow> lc_name c = lq_name q)"

definition lq_before :: "location_queue \<Rightarrow> location_queue \<Rightarrow> bool" where
  "lq_before p q \<longleftrightarrow> lq_name p \<le> lq_name q \<and> (lq_name p = lq_name q \<and> lq_exact q \<noteq> None \<longrightarrow> lq_exact p \<noteq> None)
     \<and> (lq_exact q = None \<or> lq_inclusive q = None)"

definition exacts :: "location_queue list \<Rightarrow> loc_conf set" where
  "exacts xs = (\<Union>q\<in>set xs. set_option (lq_exact q))"

definition inclusives :: "location_queue list \<Rightarrow> loc_conf set" where
  "inclusives xs = (\<Union>q\<in>set xs. set_option (lq_inclusive q))"

lemma conf_sets_simps [simp]:
  "exacts [] = {}" "inclusives [] = {}"
  "exacts (q # xs) = set_option (lq_exact q) \<union> exacts xs" "inclusives (q # xs) = set_option (lq_inclusive q) \<union> inclusives xs"
  by (simp_all add: exacts_def inclusives_def)

lemma strcmp_eq: "0 \<notin> set a \<Longrightarrow> 0 \<notin> set b \<Longrightarrow> ngx_strcmp a b = 0 \<longleftrightarrow> a = b"
proof -
  have "0 \<notin> set s \<Longrightarrow> cstr s = s" for s by (auto simp: cstr_def takeWhile_eq_all_conv)
  then show "0 \<notin> set a \<Longrightarrow> 0 \<notin> set b \<Longrightarrow> ngx_strcmp a b = 0 \<longleftrightarrow> a = b" by (simp add: ngx_strcmp_order)
qed

lemma join_sound:
  "sorted_wrt lq_before xs \<Longrightarrow> \<forall>q\<in>set xs. lq_ok q \<Longrightarrow> ngx_http_join_exact_locations xs = Some ys \<Longrightarrow>
   plain ys \<and> (\<forall>q\<in>set ys. lq_ok q) \<and> exacts ys = exacts xs \<and> inclusives ys = inclusives xs
   \<and> lq_name ` set ys = lq_name ` set xs"
proof (induction xs arbitrary: ys rule: ngx_http_join_exact_locations.induct)
  case (1 q x xs)
  note IH = 1(1,2) and sorted = 1(3) and ok = 1(4) and join = 1(5)
  have b: "lq_before q x" "sorted_wrt lq_before (x # xs)" "\<forall>z\<in>set xs. lq_before q z"
    using sorted by simp_all
  have eq: "ngx_strcmp (lq_name q) (lq_name x) = 0 \<longleftrightarrow> lq_name q = lq_name x"
    using ok by (intro strcmp_eq) (simp_all add: lq_ok_def)
  show ?case
  proof (cases "lq_name q = lq_name x")
    case True
    let ?q = "LQ (lq_exact q) (lq_inclusive x) (lq_name q) (lq_list q)"
    have no: "\<not> ((lq_exact q \<noteq> None \<and> lq_exact x \<noteq> None) \<or> (lq_inclusive q \<noteq> None \<and> lq_inclusive x \<noteq> None))"
      using join True eq by (auto split: if_splits)
    have "lq_exact x \<noteq> None \<or> lq_inclusive x \<noteq> None" using ok by (simp add: lq_ok_def)
    moreover have "lq_exact x \<noteq> None \<longrightarrow> lq_exact q \<noteq> None" using b(1) True by (simp add: lq_before_def)
    ultimately have x: "lq_exact x = None" "lq_inclusive x \<noteq> None" "lq_inclusive q = None" using no by blast+
    have "ngx_http_join_exact_locations (?q # xs) = Some ys"
      using join eq True no by (simp only: ngx_http_join_exact_locations.simps(1) if_True if_False simp_thms)
    moreover have "sorted_wrt lq_before (?q # xs)" using b(2,3) by (auto simp: lq_before_def [of ?q] lq_before_def [of q])
    moreover have "\<forall>z\<in>set (?q # xs). lq_ok z" using ok x True by (auto simp: lq_ok_def)
    ultimately show ?thesis using IH(1) [of ys] True eq no x by (auto simp: image_iff)
  next
    case False
    then obtain zs where zs: "ngx_http_join_exact_locations (x # xs) = Some zs" "ys = q # zs"
      using join eq by auto
    have IH': "plain zs \<and> (\<forall>q\<in>set zs. lq_ok q) \<and> exacts zs = exacts (x # xs) \<and> inclusives zs = inclusives (x # xs)
        \<and> lq_name ` set zs = lq_name ` set (x # xs)"
      using IH(2) [of zs] False eq b(2) ok zs(1) by simp
    have "lq_name q < lq_name z" if "z \<in> set (x # xs)" for z
      using b False that by (auto simp: lq_before_def dest: order_trans)
    then have "lq_name q < lq_name z" if "z \<in> set zs" for z using IH' that by (metis (no_types, lifting) image_iff)
    then show ?thesis using IH' ok by (auto simp: zs(2) plain_Cons lq_ok_def)
  qed
qed (auto simp: plain_def lq_ok_def)

section \<open>From the configuration to the lookup\<close>

text \<open>
  The locations a server is configured with, sorted, joined, nested and built into the tree.
  The function follows \<open>ngx_http_init_locations\<close> and \<open>ngx_http_init_static_location_trees\<close>
  for a level without regular expressions, named or nameless locations; \<open>None\<close> is the
  refusal of a duplicate location.
\<close>

definition static_locations :: "loc_conf list \<Rightarrow> location_tree option" where
  "static_locations cs =
     (let locations = fold (\<lambda>clcf q. ngx_http_add_location q clcf) cs [];
          locations = sort_key loc_key locations
      in case ngx_http_join_exact_locations locations of
           None \<Rightarrow> None
         | Some locations \<Rightarrow>
             Some (ngx_http_create_locations_tree (ngx_http_create_locations_list locations) 0))"

text \<open>What the configuration promises for a URI.\<close>

inductive location_match :: "loc_conf set \<Rightarrow> bytes \<Rightarrow> ngx_rc \<times> loc_conf option \<Rightarrow> bool" for C w where
  exact: "c \<in> C \<Longrightarrow> lc_exact_match c \<Longrightarrow> lc_name c = w \<Longrightarrow> location_match C w (NGX_OK, Some c)"
| same: "c \<in> C \<Longrightarrow> \<not> lc_exact_match c \<Longrightarrow> lc_name c = w \<Longrightarrow>
    (\<And>c'. c' \<in> C \<Longrightarrow> lc_exact_match c' \<Longrightarrow> lc_name c' \<noteq> w) \<Longrightarrow> location_match C w (NGX_AGAIN, Some c)"
| redirect: "(\<And>c'. c' \<in> C \<Longrightarrow> lc_name c' \<noteq> w) \<Longrightarrow> c \<in> C \<Longrightarrow> lc_name c = w @ [b] \<Longrightarrow>
    r \<in> C \<Longrightarrow> lc_name r = w @ [b] \<Longrightarrow> lc_auto_redirect r \<Longrightarrow> location_match C w (NGX_DONE, Some c)"
| longest: "(\<And>c'. c' \<in> C \<Longrightarrow> lc_name c' \<noteq> w) \<Longrightarrow> c \<in> C \<Longrightarrow> \<not> lc_exact_match c \<Longrightarrow> prefix (lc_name c) w \<Longrightarrow>
    (\<And>c'. c' \<in> C \<Longrightarrow> \<not> lc_exact_match c' \<Longrightarrow> prefix (lc_name c') w \<Longrightarrow> prefix (lc_name c') (lc_name c)) \<Longrightarrow>
    location_match C w (NGX_AGAIN, Some c)"
| none: "(\<And>c'. c' \<in> C \<Longrightarrow> lc_name c' \<noteq> w) \<Longrightarrow>
    (\<And>c'. c' \<in> C \<Longrightarrow> \<not> lc_exact_match c' \<Longrightarrow> \<not> prefix (lc_name c') w) \<Longrightarrow> location_match C w (NGX_DECLINED, None)"

definition static_conf :: "loc_conf \<Rightarrow> bool" where
  "static_conf c \<longleftrightarrow> \<not> lc_regex c \<and> \<not> lc_named c \<and> \<not> lc_noname c \<and> 0 \<notin> set (lc_name c) \<and> length (lc_name c) < 256"

lemma add_locations:
  "fold (\<lambda>clcf q. ngx_http_add_location q clcf) cs q = q @ map (\<lambda>c. hd (ngx_http_add_location [] c)) cs"
  by (induction cs arbitrary: q) (simp_all add: ngx_http_add_location_def)

lemma add_location_static:
  assumes "static_conf c" and "q = hd (ngx_http_add_location [] c)"
  shows "q = LQ (if lc_exact_match c then Some c else None) (if lc_exact_match c then None else Some c) (lc_name c) []"
  using assms by (simp add: static_conf_def ngx_http_add_location_def)

lemma sorted_key_before:
  assumes "\<forall>c\<in>set cs. static_conf c"
  shows "sorted_wrt lq_before (sort_key loc_key (map (\<lambda>c. hd (ngx_http_add_location [] c)) cs))"
proof -
  let ?xs = "sort_key loc_key (map (\<lambda>c. hd (ngx_http_add_location [] c)) cs)"
  have before: "lq_before p q" if p: "p \<in> set ?xs" and q: "q \<in> set ?xs" and le: "loc_key p \<le> loc_key q" for p q
  proof -
    obtain c d where c: "static_conf c" "p = hd (ngx_http_add_location [] c)"
      and d: "static_conf d" "q = hd (ngx_http_add_location [] d)"
      using p q assms by auto
    have cstr_id: "0 \<notin> set s \<Longrightarrow> cstr s = s" for s by (auto simp: cstr_def takeWhile_eq_all_conv)
    have "loc_key p = (0, lc_name c, if lc_exact_match c then 0 else 1)" "loc_key q = (0, lc_name d, if lc_exact_match d then 0 else 1)"
      using c(1) d(1) add_location_static [OF c] add_location_static [OF d]
      by (simp_all add: loc_key_def Let_def lq_conf_def static_conf_def cstr_id)
    then show ?thesis
      using le add_location_static [OF c] add_location_static [OF d]
      by (auto simp: lq_before_def less_eq_prod_def split: if_splits)
  qed
  have "sorted_wrt (\<lambda>p q. loc_key p \<le> loc_key q) ?xs"
    using sorted_sort_key [of loc_key "map (\<lambda>c. hd (ngx_http_add_location [] c)) cs"] by (simp add: sorted_wrt_map)
  then show ?thesis by (rule sorted_wrt_mono_rel [rotated]) (rule before)
qed

lemma core_exact: "(Some c, i, n) \<in> set (map lq_core ys) \<Longrightarrow> \<forall>q\<in>set ys. lq_ok q \<Longrightarrow> c \<in> exacts ys \<and> lc_name c = n"
  by (force simp: lq_core_def exacts_def lq_ok_def)

lemma core_inclusive: "(e, Some c, n) \<in> set (map lq_core ys) \<Longrightarrow> \<forall>q\<in>set ys. lq_ok q \<Longrightarrow> c \<in> inclusives ys \<and> lc_name c = n"
  by (force simp: lq_core_def inclusives_def lq_ok_def)

lemma exact_core: "c \<in> exacts ys \<Longrightarrow> \<forall>q\<in>set ys. lq_ok q \<Longrightarrow> \<exists>i. (Some c, i, lc_name c) \<in> set (map lq_core ys)"
  by (force simp: lq_core_def exacts_def lq_ok_def image_iff)

lemma inclusive_core: "c \<in> inclusives ys \<Longrightarrow> \<forall>q\<in>set ys. lq_ok q \<Longrightarrow> \<exists>e. (e, Some c, lc_name c) \<in> set (map lq_core ys)"
  by (force simp: lq_core_def inclusives_def lq_ok_def image_iff)

lemma core_unique:
  assumes "plain ys" and "(e, i, n) \<in> set (map lq_core ys)" and "(e', i', n) \<in> set (map lq_core ys)"
  shows "e = e' \<and> i = i'"
proof -
  have "sorted_wrt (<) (map lq_name ys)" using assms(1) by (simp add: plain_def sorted_wrt_map)
  then have "distinct (map lq_name ys)" by (simp add: strict_sorted_iff)
  then have "inj_on lq_name (set ys)" by (simp add: distinct_map)
  then show ?thesis using assms(2,3) by (auto simp: lq_core_def inj_on_def)
qed

lemma static_match_conf:
  assumes "static_match (set (map lq_core ys)) w (NGX_DECLINED, None) res" and plain: "plain ys" and ok: "\<forall>q\<in>set ys. lq_ok q"
    and C: "exacts ys = {c \<in> C. lc_exact_match c}" "inclusives ys = {c \<in> C. \<not> lc_exact_match c}"
  shows "location_match C w res"
proof -
  let ?L = "set (map lq_core ys)"
  have ex: "c \<in> C \<and> lc_exact_match c \<and> lc_name c = n" if "(Some c, i, n) \<in> ?L" for c i n
    using core_exact [OF that ok] C by auto
  have inc: "c \<in> C \<and> \<not> lc_exact_match c \<and> lc_name c = n" if "(e, Some c, n) \<in> ?L" for e c n
    using core_inclusive [OF that ok] C by auto
  have conf: "\<exists>e i. (e, i, lc_name c) \<in> ?L \<and> (if lc_exact_match c then e = Some c else i = Some c)" if "c \<in> C" for c
    using exact_core [OF _ ok, of c] inclusive_core [OF _ ok, of c] that C by (cases "lc_exact_match c") auto
  have one: "e \<noteq> None \<or> i \<noteq> None" if "(e, i, n) \<in> ?L" for e i n
    using that ok by (auto simp: lq_core_def lq_ok_def)
  have no: "lc_name c \<noteq> w" if "\<And>e i. (e, i, w) \<notin> ?L" "c \<in> C" for c using conf [OF that(2)] that(1) by auto
  show ?thesis
    using assms(1)
  proof cases
    case (exact j i)
    then show ?thesis using ex by (auto intro: location_match.exact)
  next
    case (inclusive i)
    then obtain c where c: "i = Some c" using one by blast
    have "lc_name c' \<noteq> w" if c': "c' \<in> C" "lc_exact_match c'" for c'
      using conf [OF c'(1)] c'(2) core_unique [OF plain inclusive(2)] by fastforce
    then show ?thesis using inc [of None c w] inclusive c by (auto intro!: location_match.same)
  next
    case (redirect e i b k)
    obtain c where c: "k = Some c" "c \<in> C" "lc_name c = w @ [b]"
      using one [OF redirect(3)] redirect(3,5) ex inc by (cases e; cases i) auto
    obtain r where r: "r \<in> set_option e \<union> set_option i" "lc_auto_redirect r"
      using redirect(4) by (auto simp: core_redirect_def)
    have "r \<in> C" "lc_name r = w @ [b]"
      using r(1) redirect(3) ex [of r i "w @ [b]"] inc [of e r "w @ [b]"] by (auto simp del: set_map)
    with r(2) show ?thesis using redirect(1) c no [OF redirect(2)] by (auto intro: location_match.redirect)
  next
    case (longest e j n)
    have "prefix (lc_name c') (lc_name j)" if "c' \<in> C" "\<not> lc_exact_match c'" "prefix (lc_name c') w" for c'
      using conf [OF that(1)] that longest(5) inc [OF longest(3)] by auto
    moreover have "prefix (lc_name j) w" "j \<in> C" "\<not> lc_exact_match j" using inc [OF longest(3)] longest(4) by auto
    ultimately show ?thesis unfolding longest(1) using no [OF longest(2)] by (intro location_match.longest)
  next
    case none
    have "\<not> prefix (lc_name c) w" if "c \<in> C" "\<not> lc_exact_match c" for c
      using conf [OF that(1)] that(2) none(3) by auto
    then show ?thesis unfolding none(1) using no [OF none(2)] by (intro location_match.none)
  qed
qed

text \<open>
  C6. The static locations of a server are looked up as documented: whatever the order of the
  configuration, if no location is duplicated, then for every URI the search in the tree
  returns the exact location of that name if there is one, else the inclusive location of that
  name, else a redirect to a location that is one byte longer and asks for it, else the
  inclusive location with the longest name that is a prefix of the URI, and declines if there
  is none. Names have to be shorter than 256 bytes, the range of the length in a tree node.
\<close>

theorem static_locations_lookup:
  assumes "\<forall>c\<in>set cs. static_conf c" and "static_locations cs = Some tree"
  shows "location_match (set cs) uri (ngx_http_core_find_static_location tree uri (NGX_DECLINED, None))"
proof -
  let ?qs = "map (\<lambda>c. hd (ngx_http_add_location [] c)) cs"
  obtain ys where ys: "ngx_http_join_exact_locations (sort_key loc_key ?qs) = Some ys"
    and tree: "tree = ngx_http_create_locations_tree (ngx_http_create_locations_list ys) 0"
    using assms(2) by (auto simp: static_locations_def Let_def add_locations split: option.splits)
  have q: "hd (ngx_http_add_location [] c) = LQ (if lc_exact_match c then Some c else None)
      (if lc_exact_match c then None else Some c) (lc_name c) []" if "c \<in> set cs" for c
    using add_location_static [OF _ refl] assms(1) that by blast
  then have "\<forall>q\<in>set (sort_key loc_key ?qs). lq_ok q"
    using assms(1) by (auto simp: lq_ok_def static_conf_def)
  from join_sound [OF sorted_key_before [OF assms(1)] this ys]
  have plain: "plain ys" and ok: "\<forall>q\<in>set ys. lq_ok q" and e: "exacts ys = exacts (sort_key loc_key ?qs)"
    and i: "inclusives ys = inclusives (sort_key loc_key ?qs)" and n: "lq_name ` set ys = lq_name ` set ?qs"
    by auto
  have e': "exacts ys = {c \<in> set cs. lc_exact_match c}" and i': "inclusives ys = {c \<in> set cs. \<not> lc_exact_match c}"
    unfolding e i by (auto simp: exacts_def inclusives_def q split: if_splits)
  have "\<forall>c\<in>set (map lq_core ys). length (snd (snd c)) < 256"
  proof -
    have "lq_name y \<in> lc_name ` set cs" if "y \<in> set ys" for y using n that q by (force simp: image_image)
    then show ?thesis using assms(1) by (fastforce simp: lq_core_def static_conf_def)
  qed
  with find_tree [of "ngx_http_create_locations_list ys" "[]" uri] create_list_nested [OF plain]
  have "static_match (set (map lq_core ys)) uri (NGX_DECLINED, None)
      (ngx_http_core_find_static_location tree uri (NGX_DECLINED, None))"
    unfolding tree by simp
  then show ?thesis by (rule static_match_conf [OF _ plain ok e' i'])
qed

definition conf_named :: "string \<Rightarrow> bool \<Rightarrow> bool \<Rightarrow> loc_conf" where
  "conf_named s ex redir = \<lparr>lc_name = s2b s, lc_noname = False, lc_named = False, lc_exact_match = ex,
     lc_regex = False, lc_auto_redirect = redir\<rparr>"

theorem static_locations_lookup_witness:
  "\<exists>tree. static_locations [conf_named ''/'' False False, conf_named ''/images/'' False False,
       conf_named ''/'' True False] = Some tree
    \<and> location_match {conf_named ''/'' False False, conf_named ''/images/'' False False, conf_named ''/'' True False}
        (s2b ''/images/1.gif'') (NGX_AGAIN, Some (conf_named ''/images/'' False False))"
proof -
  let ?cs = "[conf_named ''/'' False False, conf_named ''/images/'' False False, conf_named ''/'' True False]"
  have "\<forall>c\<in>set ?cs. static_conf c" by (simp add: static_conf_def conf_named_def)
  moreover obtain tree where tree: "static_locations ?cs = Some tree"
    and found: "ngx_http_core_find_static_location tree (s2b ''/images/1.gif'') (NGX_DECLINED, None)
      = (NGX_AGAIN, Some (conf_named ''/images/'' False False))"
  proof -
    have "case static_locations ?cs of None \<Rightarrow> False | Some tree \<Rightarrow>
       ngx_http_core_find_static_location tree (s2b ''/images/1.gif'') (NGX_DECLINED, None)
      = (NGX_AGAIN, Some (conf_named ''/images/'' False False))" by code_simp
    then show ?thesis using that by (auto split: option.splits)
  qed
  ultimately show ?thesis
    using static_locations_lookup [of ?cs tree "s2b ''/images/1.gif''"] by auto
qed

text \<open>
  The redirect to the location with a trailing slash depends on the other locations: with
  \<open>/a-b\<close>, \<open>/a-c\<close> and \<open>/a/\<close> the search for \<open>/a\<close> turns left at \<open>/a-c\<close> and declines,
  although with \<open>/a-c\<close> and \<open>/a/\<close> alone it redirects to \<open>/a/\<close>.
\<close>

lemma auto_redirect_missed:
  "map_option (\<lambda>tree. ngx_http_core_find_static_location tree (s2b ''/a'') (NGX_DECLINED, None))
     (static_locations [conf_named ''/a-b'' False False, conf_named ''/a-c'' False False, conf_named ''/a/'' False True])
   = Some (NGX_DECLINED, None)
   \<and> map_option (\<lambda>tree. ngx_http_core_find_static_location tree (s2b ''/a'') (NGX_DECLINED, None))
     (static_locations [conf_named ''/a-c'' False False, conf_named ''/a/'' False True])
   = Some (NGX_DONE, Some (conf_named ''/a/'' False True))"
  by (intro conjI) code_simp+

end
