(* ===== verification/NgxCodec.thy ===== *)
theory NgxCodec
  imports NgxString
begin

text \<open>
  The encoders and decoders of \<^verbatim>\<open>src/core/ngx_string.c\<close>: hexadecimal dump, base64, UTF-8,
  URI escaping and unescaping, HTML escaping. The bytes written from \<open>dst\<close> on are the
  result list. The interface \<open>codec\<close> states the round trip once for all of them.
\<close>

section \<open>Definitions\<close>

definition hex_digits :: bytes where
  "hex_digits = s2b ''0123456789abcdef''"

primrec ngx_hex_dump :: "bytes \<Rightarrow> bytes" where
  "ngx_hex_dump [] = []"
| "ngx_hex_dump (c # src) =
     hex_digits ! unat (drop_bit 4 c) # hex_digits ! unat (c AND 0xf) # ngx_hex_dump src"

subsection \<open>Base64\<close>

definition basis64 :: bytes where
  "basis64 = s2b ''ABCDEFGHIJKLMNOPQRSTUVWXYZabcdefghijklmnopqrstuvwxyz0123456789+/''"

fun ngx_encode_base64 :: "bytes \<Rightarrow> bytes" where
  "ngx_encode_base64 (a # b # c # s) =
     basis64 ! unat (drop_bit 2 a AND 0x3f)
     # basis64 ! unat (push_bit 4 (a AND 3) OR drop_bit 4 b)
     # basis64 ! unat (push_bit 2 (b AND 0x0f) OR drop_bit 6 c)
     # basis64 ! unat (c AND 0x3f)
     # ngx_encode_base64 s"
| "ngx_encode_base64 [a, b] =
     [basis64 ! unat (drop_bit 2 a AND 0x3f),
      basis64 ! unat (push_bit 4 (a AND 3) OR drop_bit 4 b),
      basis64 ! unat (push_bit 2 (b AND 0x0f)), ch_equals]"
| "ngx_encode_base64 [a] =
     [basis64 ! unat (drop_bit 2 a AND 0x3f), basis64 ! unat (push_bit 4 (a AND 3)), ch_equals, ch_equals]"
| "ngx_encode_base64 [] = []"

text \<open>The tables of the decoders; 77 marks a byte that is not in the alphabet.\<close>

definition byte_range :: "nat \<Rightarrow> nat \<Rightarrow> bytes" where
  "byte_range a b = map of_nat [a..<b]"

definition basis64_std :: bytes where
  "basis64_std = replicate 43 77 @ [62] @ replicate 3 77 @ [63]
     @ byte_range 52 62 @ replicate 7 77 @ byte_range 0 26 @ replicate 6 77 @ byte_range 26 52
     @ replicate 5 77 @ replicate 128 77"

definition basis64_url :: bytes where
  "basis64_url = replicate 45 77 @ [62] @ replicate 2 77
     @ byte_range 52 62 @ replicate 7 77 @ byte_range 0 26 @ replicate 4 77 @ [63] @ [77] @ byte_range 26 52
     @ replicate 5 77 @ replicate 128 77"

text \<open>The first loop: the length up to an equals sign, \<open>None\<close> on a foreign byte.\<close>

primrec base64_length :: "bytes \<Rightarrow> bytes \<Rightarrow> nat option" where
  "base64_length basis [] = Some 0"
| "base64_length basis (c # src) =
     (if c = ch_equals then Some 0
      else if basis ! unat c = 77 then None
      else map_option Suc (base64_length basis src))"

fun base64_groups :: "bytes \<Rightarrow> bytes \<Rightarrow> bytes" where
  "base64_groups basis (a # b # c # d # s) =
     (push_bit 2 (basis ! unat a) OR drop_bit 4 (basis ! unat b))
     # (push_bit 4 (basis ! unat b) OR drop_bit 2 (basis ! unat c))
     # (push_bit 6 (basis ! unat c) OR basis ! unat d)
     # base64_groups basis s"
| "base64_groups basis [a, b, c] =
     [push_bit 2 (basis ! unat a) OR drop_bit 4 (basis ! unat b),
      push_bit 4 (basis ! unat b) OR drop_bit 2 (basis ! unat c)]"
| "base64_groups basis [a, b] = [push_bit 2 (basis ! unat a) OR drop_bit 4 (basis ! unat b)]"
| "base64_groups basis _ = []"

definition ngx_decode_base64_internal :: "bytes \<Rightarrow> bytes \<Rightarrow> bytes option" where
  "ngx_decode_base64_internal basis src =
     (case base64_length basis src of
        None \<Rightarrow> None
      | Some len \<Rightarrow> if len mod 4 = 1 then None else Some (base64_groups basis (take len src)))"

definition ngx_decode_base64 :: "bytes \<Rightarrow> bytes option" where
  "ngx_decode_base64 src = ngx_decode_base64_internal basis64_std src"

definition ngx_decode_base64url :: "bytes \<Rightarrow> bytes option" where
  "ngx_decode_base64url src = ngx_decode_base64_internal basis64_url src"

definition ngx_base64_encoded_length :: "nat \<Rightarrow> nat" where
  "ngx_base64_encoded_length len = ((len + 2) div 3) * 4"

definition ngx_base64_decoded_length :: "nat \<Rightarrow> nat" where
  "ngx_base64_decoded_length len = ((len + 3) div 4) * 3"

subsection \<open>UTF-8\<close>

text \<open>
  \<open>ngx_utf8_decode\<close> on the bytes from \<open>*p\<close> on; the result is the code and the bytes from the
  new \<open>*p\<close> on. The test \<^verbatim>\<open>n - 1 < len\<close> is on \<open>size_t\<close>, so \<open>n = 0\<close> passes it.
\<close>

primrec utf8_tail :: "nat \<Rightarrow> bytes \<Rightarrow> u32 \<Rightarrow> u32 \<Rightarrow> (u32 \<times> bytes) option" where
  "utf8_tail 0 p u valid = Some (if u > valid then u else 0xffffffff, p)"
| "utf8_tail (Suc len) p u valid =
     (case p of
        [] \<Rightarrow> None
      | i # p' \<Rightarrow>
          if i < 0x80 then Some (0xffffffff, p')
          else utf8_tail len p' (push_bit 6 u OR (ucast i AND 0x3f)) valid)"

definition ngx_utf8_decode :: "bytes \<Rightarrow> nat \<Rightarrow> (u32 \<times> bytes) option" where
  "ngx_utf8_decode p n =
     (case p of
        [] \<Rightarrow> None
      | c # p' \<Rightarrow>
          let u = (ucast c :: u32);
              sel = (if u \<ge> 0xf0 then Some (u AND 0x07, 0xffff, 3)
                     else if u \<ge> 0xe0 then Some (u AND 0x0f, 0x7ff, 2)
                     else if u \<ge> 0xc2 then Some (u AND 0x1f, 0x7f, 1)
                     else None)
          in case sel of
               None \<Rightarrow> Some (0xffffffff, p')
             | Some (u', valid, len) \<Rightarrow>
                 if n \<noteq> 0 \<and> n - 1 < len then Some (0xfffffffe, p)
                 else utf8_tail len p' u' valid)"

lemma utf8_tail_shorter: "utf8_tail len p u valid = Some (v, q) \<Longrightarrow> length q \<le> length p"
  by (induction len arbitrary: p u) (fastforce split: list.splits if_splits)+

lemma ngx_utf8_decode_shorter:
  "ngx_utf8_decode p n = Some (v, q) \<Longrightarrow> v \<noteq> 0xfffffffe \<Longrightarrow> length q < length p"
  by (auto simp: ngx_utf8_decode_def Let_def le_imp_less_Suc dest!: utf8_tail_shorter split: list.splits if_splits)

text \<open>
  \<open>ngx_utf8_length\<close> on \<open>s\<close>, the bytes up to \<open>last\<close>, with \<open>beyond\<close> behind them; every call of
  \<open>ngx_utf8_decode\<close> gets the whole length \<open>n\<close>. When the decoder moves past \<open>last\<close> the loop ends.
\<close>

function utf8_length_loop :: "bytes \<Rightarrow> nat \<Rightarrow> bytes \<Rightarrow> nat \<Rightarrow> nat option" where
  "utf8_length_loop beyond n s len =
     (case s of
        [] \<Rightarrow> Some len
      | c # s' \<Rightarrow>
          if c < 0x80 then utf8_length_loop beyond n s' (len + 1)
          else case ngx_utf8_decode (s @ beyond) n of
            None \<Rightarrow> None
          | Some (u, q) \<Rightarrow>
              if u > 0x10ffff then Some n
              else utf8_length_loop beyond n (take (length q - length beyond) q) (len + 1))"
  by pat_completeness auto
termination
proof (relation "measure (\<lambda>(beyond, n, s, len). length s)", goal_cases)
  case (3 beyond n s len c s' r u q)
  then have "length q < length (s @ beyond)"
    by (intro ngx_utf8_decode_shorter) auto
  then show ?case using 3 by auto
qed auto

declare utf8_length_loop.simps [simp del]

definition ngx_utf8_length :: "bytes \<Rightarrow> nat \<Rightarrow> nat option" where
  "ngx_utf8_length mem n = utf8_length_loop (drop n mem) n (take n mem) 0"

subsection \<open>URI escaping\<close>

datatype escape_type = NGX_ESCAPE_URI | NGX_ESCAPE_ARGS | NGX_ESCAPE_URI_COMPONENT | NGX_ESCAPE_HTML
  | NGX_ESCAPE_REFRESH | NGX_ESCAPE_MEMCACHED | NGX_ESCAPE_MAIL_AUTH

definition escape_high :: "u32 list" where
  "escape_high = [0xffffffff, 0xffffffff, 0xffffffff, 0xffffffff]"

primrec escape_map :: "escape_type \<Rightarrow> u32 list" where
  "escape_map NGX_ESCAPE_URI = [0xffffffff, 0x80000029, 0x00000000, 0x80000000] @ escape_high"
| "escape_map NGX_ESCAPE_ARGS = [0xffffffff, 0x88000869, 0x00000000, 0x80000000] @ escape_high"
| "escape_map NGX_ESCAPE_URI_COMPONENT = [0xffffffff, 0xfc009fff, 0x78000001, 0xb8000001] @ escape_high"
| "escape_map NGX_ESCAPE_HTML = [0xffffffff, 0x000000ad, 0x00000000, 0x80000000] @ escape_high"
| "escape_map NGX_ESCAPE_REFRESH = [0xffffffff, 0x00000085, 0x00000000, 0x80000000] @ escape_high"
| "escape_map NGX_ESCAPE_MEMCACHED = [0xffffffff, 0x00000021, 0, 0, 0, 0, 0, 0]"
| "escape_map NGX_ESCAPE_MAIL_AUTH = [0xffffffff, 0x00000021, 0, 0, 0, 0, 0, 0]"

text \<open>The call with a null \<open>dst\<close> counts, the other call writes.\<close>

primrec ngx_escape_uri_count :: "escape_type \<Rightarrow> bytes \<Rightarrow> nat" where
  "ngx_escape_uri_count type [] = 0"
| "ngx_escape_uri_count type (c # src) =
     (if bitmap_test (escape_map type) c then 1 else 0) + ngx_escape_uri_count type src"

primrec ngx_escape_uri :: "escape_type \<Rightarrow> bytes \<Rightarrow> bytes" where
  "ngx_escape_uri type [] = []"
| "ngx_escape_uri type (c # src) =
     (if bitmap_test (escape_map type) c
      then ch_percent # hex_digits ! unat (drop_bit 4 c) # hex_digits ! unat (c AND 0xf) # ngx_escape_uri type src
      else c # ngx_escape_uri type src)"

datatype ue_sw = ue_sw_usual | ue_sw_quoted | ue_sw_quoted_second

text \<open>
  One byte of \<open>ngx_unescape_uri\<close>: the next state and \<open>decoded\<close>, the bytes written, and whether
  the loop is left. \<open>prev\<close> is the byte before \<open>ch\<close>. The flags are the bits of \<open>type\<close>.
\<close>

definition ue_step ::
  "bool \<Rightarrow> bool \<Rightarrow> ue_sw \<Rightarrow> byte \<Rightarrow> byte \<Rightarrow> byte \<Rightarrow> (ue_sw \<times> byte) \<times> bytes \<times> bool" where
  "ue_step uri redirect state decoded prev ch =
     (case state of
        ue_sw_usual \<Rightarrow>
          if ch = ch_qmark \<and> (uri \<or> redirect) then ((state, decoded), [ch], True)
          else if ch = ch_percent then ((ue_sw_quoted, decoded), [], False)
          else ((state, decoded), [ch], False)
      | ue_sw_quoted \<Rightarrow>
          if ch \<ge> ch_0 \<and> ch \<le> ch_9 then ((ue_sw_quoted_second, ch - ch_0), [], False)
          else let c = ch OR 0x20 in
            if c \<ge> ch_a \<and> c \<le> ch_f then ((ue_sw_quoted_second, c - ch_a + 10), [], False)
            else ((ue_sw_usual, decoded), [ch], False)
      | ue_sw_quoted_second \<Rightarrow>
          let st = (ue_sw_usual, decoded) in
          if ch \<ge> ch_0 \<and> ch \<le> ch_9 then
            let ch' = push_bit 4 decoded + ch - ch_0 in
            if redirect then
              if ch' > ch_percent \<and> ch' < 0x7f then (st, [ch'], False)
              else (st, [ch_percent, prev, ch], False)
            else (st, [ch'], False)
          else let c = ch OR 0x20 in
            if c \<ge> ch_a \<and> c \<le> ch_f then
              let ch' = push_bit 4 decoded + c - ch_a + 10 in
              if uri then (if ch' = ch_qmark then (st, [ch'], True) else (st, [ch'], False))
              else if redirect then
                if ch' = ch_qmark then (st, [ch'], True)
                else if ch' > ch_percent \<and> ch' < 0x7f then (st, [ch'], False)
                else (st, [ch_percent, prev, ch], False)
              else (st, [ch'], False)
            else (st, [], False))"

text \<open>The result: the bytes written and the bytes of the source that are left.\<close>

primrec unescape_loop ::
  "bool \<Rightarrow> bool \<Rightarrow> bytes \<Rightarrow> ue_sw \<Rightarrow> byte \<Rightarrow> byte \<Rightarrow> bytes \<times> bytes" where
  "unescape_loop uri redirect [] state decoded prev = ([], [])"
| "unescape_loop uri redirect (ch # s) state decoded prev =
     (case ue_step uri redirect state decoded prev ch of
        ((state', decoded'), out, leave) \<Rightarrow>
          if leave then (out, s)
          else case unescape_loop uri redirect s state' decoded' ch of (d, s') \<Rightarrow> (out @ d, s'))"

definition ngx_unescape_uri :: "bool \<Rightarrow> bool \<Rightarrow> bytes \<Rightarrow> bytes \<times> bytes" where
  "ngx_unescape_uri uri redirect src = unescape_loop uri redirect src ue_sw_usual 0 0"

subsection \<open>HTML escaping\<close>

definition html_entity :: "byte \<Rightarrow> bytes" where
  "html_entity ch =
     (if ch = 0x3C then s2b ''&lt;''
      else if ch = 0x3E then s2b ''&gt;''
      else if ch = 0x26 then s2b ''&amp;''
      else if ch = 0x22 then s2b ''&quot;''
      else [ch])"

primrec ngx_escape_html :: "bytes \<Rightarrow> bytes" where
  "ngx_escape_html [] = []"
| "ngx_escape_html (ch # src) = html_entity ch @ ngx_escape_html src"

primrec ngx_escape_html_count :: "bytes \<Rightarrow> nat" where
  "ngx_escape_html_count [] = 0"
| "ngx_escape_html_count (ch # src) =
     (if ch = 0x3C then 3 else if ch = 0x3E then 3 else if ch = 0x26 then 4 else if ch = 0x22 then 5 else 0)
     + ngx_escape_html_count src"

section \<open>The interface of an encoding\<close>

locale codec =
  fixes encode :: "'a \<Rightarrow> bytes" and decode :: "bytes \<Rightarrow> 'a option"
  assumes decode_encode: "decode (encode x) = Some x"
begin

lemma encode_eq_iff: "encode x = encode y \<longleftrightarrow> x = y"
  using decode_encode by (metis option.inject)

lemma decode_unique: "decode (encode x) = Some y \<longleftrightarrow> x = y"
  by (simp add: decode_encode)

end

section \<open>Base64\<close>

lemma byte_eqI: "(\<And>n. n < 8 \<Longrightarrow> bit a n = bit b n) \<Longrightarrow> a = (b :: byte)"
  by (rule bit_word_eqI) simp

lemma less_8_cases: "n < (8 :: nat) \<Longrightarrow> n = 0 \<or> n = 1 \<or> n = 2 \<or> n = 3 \<or> n = 4 \<or> n = 5 \<or> n = 6 \<or> n = 7"
  by linarith

lemma sextets:
  fixes a b c :: byte
  shows "push_bit 2 (drop_bit 2 a AND 0x3f) OR drop_bit 4 (push_bit 4 (a AND 3) OR drop_bit 4 b) = a"
    and "push_bit 4 (push_bit 4 (a AND 3) OR drop_bit 4 b) OR drop_bit 2 (push_bit 2 (b AND 0x0f) OR drop_bit 6 c) = b"
    and "push_bit 6 (push_bit 2 (b AND 0x0f) OR drop_bit 6 c) OR (c AND 0x3f) = c"
    and "push_bit 2 (drop_bit 2 a AND 0x3f) OR drop_bit 4 (push_bit 4 (a AND 3)) = a"
    and "push_bit 4 (push_bit 4 (a AND 3) OR drop_bit 4 b) OR drop_bit 2 (push_bit 2 (b AND 0x0f)) = b"
  by (rule byte_eqI; drule less_8_cases; auto simp: bit_simps; simp add: numeral_eq_Suc)+

lemma unat_less_64:
  fixes w :: byte
  assumes "\<not> bit w 6" and "\<not> bit w 7"
  shows "unat w < 64"
proof -
  have "take_bit 6 w = w"
  proof (rule byte_eqI)
    show "n < 8 \<Longrightarrow> bit (take_bit 6 w) n = bit w n" for n
      using assms less_8_cases [of n] by (auto simp: bit_simps)
  qed
  moreover have "unat (take_bit 6 w) = unat w mod 64"
    by (simp add: take_bit_eq_mod unat_mod)
  ultimately show ?thesis by (metis mod_less_divisor zero_less_numeral)
qed

lemma sextet_bounds:
  fixes a b c :: byte
  shows "unat (drop_bit 2 a AND 0x3f) < 64" "unat (push_bit 4 (a AND 3) OR drop_bit 4 b) < 64"
    "unat (push_bit 2 (b AND 0x0f) OR drop_bit 6 c) < 64" "unat (c AND 0x3f) < 64"
    "unat (push_bit 4 (a AND 3)) < 64" "unat (push_bit 2 (b AND 0x0f)) < 64"
  by (rule unat_less_64; auto simp: bit_simps dest: bit_imp_le_length)+

lemma basis64_inverse:
  "unat x < 64 \<Longrightarrow> basis64_std ! unat (basis64 ! unat x) = x"
  "unat x < 64 \<Longrightarrow> basis64 ! unat x \<noteq> ch_equals"
  "unat x < 64 \<Longrightarrow> x \<noteq> 77"
proof -
  have "\<forall>x :: byte. unat x < 64 \<longrightarrow> basis64_std ! unat (basis64 ! unat x) = x \<and> basis64 ! unat x \<noteq> ch_equals \<and> x \<noteq> 77"
    unfolding all_byte_iff by code_simp
  then show "unat x < 64 \<Longrightarrow> basis64_std ! unat (basis64 ! unat x) = x" "unat x < 64 \<Longrightarrow> basis64 ! unat x \<noteq> ch_equals"
    "unat x < 64 \<Longrightarrow> x \<noteq> 77" by blast+
qed


text \<open>How many of the encoded bytes are not padding.\<close>

fun base64_payload :: "bytes \<Rightarrow> nat" where
  "base64_payload (a # b # c # s) = Suc (Suc (Suc (Suc (base64_payload s))))"
| "base64_payload [a, b] = Suc (Suc (Suc 0))"
| "base64_payload [a] = Suc (Suc 0)"
| "base64_payload [] = 0"

lemma base64_length_sextet:
  "unat (x :: byte) < 64 \<Longrightarrow> base64_length basis64_std (basis64 ! unat x # s) = map_option Suc (base64_length basis64_std s)"
  using basis64_inverse [of x] by simp

lemmas sextet_length = sextet_bounds [THEN base64_length_sextet]
lemmas sextet_inverse = sextet_bounds [THEN basis64_inverse(1)]

lemma base64_length_encode: "base64_length basis64_std (ngx_encode_base64 s) = Some (base64_payload s)"
proof (induction s rule: ngx_encode_base64.induct)
  case (1 a b c s)
  then show ?case by (simp only: ngx_encode_base64.simps sextet_length base64_payload.simps option.map)
next
  case (2 a b)
  show ?case by (simp only: ngx_encode_base64.simps sextet_length base64_payload.simps) simp
next
  case (3 a)
  show ?case by (simp only: ngx_encode_base64.simps sextet_length base64_payload.simps) simp
qed simp

lemma base64_groups_encode: "base64_groups basis64_std (take (base64_payload s) (ngx_encode_base64 s)) = s"
proof (induction s rule: ngx_encode_base64.induct)
  case (1 a b c s)
  then show ?case
    by (simp only: ngx_encode_base64.simps base64_payload.simps take_Suc_Cons base64_groups.simps sextet_inverse sextets)
next
  case (2 a b)
  show ?case
    by (simp only: ngx_encode_base64.simps base64_payload.simps take_Suc_Cons take_0 base64_groups.simps sextet_inverse sextets)
next
  case (3 a)
  show ?case
    by (simp only: ngx_encode_base64.simps base64_payload.simps take_Suc_Cons take_0 base64_groups.simps sextet_inverse sextets)
qed simp

lemma base64_payload_mod: "base64_payload s mod 4 \<noteq> Suc 0"
  by (induction s rule: base64_payload.induct) auto

lemma length_base64_groups: "length (base64_groups basis s) \<le> (length s + 3) div 4 * 3"
proof (induction basis s rule: base64_groups.induct)
  case (1 basis a b c d s)
  have "(length (a # b # c # d # s) + 3) div 4 = Suc ((length s + 3) div 4)" by simp
  with 1 show ?case by simp
qed auto

lemma base64_length_le: "base64_length basis src = Some n \<Longrightarrow> n \<le> length src"
  by (induction src arbitrary: n) (auto split: if_splits)

interpretation base64: codec ngx_encode_base64 ngx_decode_base64
  by unfold_locales
    (simp add: ngx_decode_base64_def ngx_decode_base64_internal_def base64_length_encode base64_groups_encode base64_payload_mod)

text \<open>
  C29. Base64 round trip and buffer sizes: decoding what \<open>ngx_encode_base64\<close> wrote gives the
  source back, the encoding has exactly the length \<open>ngx_base64_encoded_length\<close> allots, and a
  decoding never exceeds \<open>ngx_base64_decoded_length\<close>.
\<close>

theorem base64_roundtrip:
  "ngx_decode_base64 (ngx_encode_base64 s) = Some s
   \<and> length (ngx_encode_base64 s) = ngx_base64_encoded_length (length s)
   \<and> (ngx_decode_base64_internal basis src = Some out \<longrightarrow> length out \<le> ngx_base64_decoded_length (length src))"
proof (intro conjI impI)
  show "length (ngx_encode_base64 s) = ngx_base64_encoded_length (length s)"
    unfolding ngx_base64_encoded_length_def
  proof (induction s rule: ngx_encode_base64.induct)
    case (1 a b c s)
    have "(length (a # b # c # s) + 2) div 3 = Suc ((length s + 2) div 3)" by simp
    with 1 show ?case by simp
  qed simp_all
  show "length out \<le> ngx_base64_decoded_length (length src)" if dec: "ngx_decode_base64_internal basis src = Some out"
  proof -
    obtain n where "base64_length basis src = Some n" and out: "out = base64_groups basis (take n src)"
      using dec by (auto simp: ngx_decode_base64_internal_def split: option.splits if_splits)
    then have "length out \<le> (n + 3) div 4 * 3" and "n \<le> length src"
      using length_base64_groups [of basis "take n src"] base64_length_le by auto
    then show ?thesis
      unfolding ngx_base64_decoded_length_def by (meson add_right_mono div_le_mono le_trans mult_right_mono zero_le)
  qed
qed (rule base64.decode_encode)

theorem base64_roundtrip_witness:
  "ngx_decode_base64_internal basis64_std (s2b ''YWI='') = Some (s2b ''ab'')
   \<and> length (s2b ''ab'') \<le> ngx_base64_decoded_length (length (s2b ''YWI=''))"
proof -
  have run: "ngx_decode_base64_internal basis64_std (s2b ''YWI='') = Some (s2b ''ab'')" by code_simp
  with base64_roundtrip [of "[]" basis64_std "s2b ''YWI=''" "s2b ''ab''"] show ?thesis by blast
qed

section \<open>URI escaping\<close>

lemma hex_digit_high:
  "let h = hex_digits ! unat (drop_bit 4 c) in
     if h \<ge> ch_0 \<and> h \<le> ch_9 then h - ch_0 = drop_bit 4 c
     else h OR 0x20 \<ge> ch_a \<and> h OR 0x20 \<le> ch_f \<and> (h OR 0x20) - ch_a + 10 = drop_bit 4 (c :: byte)"
proof -
  have "\<forall>c :: byte. let h = hex_digits ! unat (drop_bit 4 c) in
     if h \<ge> ch_0 \<and> h \<le> ch_9 then h - ch_0 = drop_bit 4 c
     else h OR 0x20 \<ge> ch_a \<and> h OR 0x20 \<le> ch_f \<and> (h OR 0x20) - ch_a + 10 = drop_bit 4 c"
    unfolding all_byte_iff by code_simp
  then show ?thesis by blast
qed

lemma hex_digit_low:
  "let l = hex_digits ! unat (c AND 0xf) in
     if l \<ge> ch_0 \<and> l \<le> ch_9 then push_bit 4 (drop_bit 4 c) + l - ch_0 = c
     else l OR 0x20 \<ge> ch_a \<and> l OR 0x20 \<le> ch_f \<and> push_bit 4 (drop_bit 4 c) + (l OR 0x20) - ch_a + 10 = (c :: byte)"
proof -
  have "\<forall>c :: byte. let l = hex_digits ! unat (c AND 0xf) in
     if l \<ge> ch_0 \<and> l \<le> ch_9 then push_bit 4 (drop_bit 4 c) + l - ch_0 = c
     else l OR 0x20 \<ge> ch_a \<and> l OR 0x20 \<le> ch_f \<and> push_bit 4 (drop_bit 4 c) + (l OR 0x20) - ch_a + 10 = c"
    unfolding all_byte_iff by code_simp
  then show ?thesis by blast
qed

definition escape_types :: "escape_type list" where
  "escape_types = [NGX_ESCAPE_URI, NGX_ESCAPE_ARGS, NGX_ESCAPE_URI_COMPONENT, NGX_ESCAPE_HTML,
     NGX_ESCAPE_REFRESH, NGX_ESCAPE_MEMCACHED, NGX_ESCAPE_MAIL_AUTH]"

lemma all_escape_types: "list_all P escape_types \<Longrightarrow> P type"
  by (cases type) (simp_all add: escape_types_def)

lemma percent_escaped: "type \<noteq> NGX_ESCAPE_REFRESH \<Longrightarrow> bitmap_test (escape_map type) ch_percent"
proof -
  have "list_all (\<lambda>t. t = NGX_ESCAPE_REFRESH \<or> bitmap_test (escape_map t) ch_percent) escape_types" by code_simp
  then have "type = NGX_ESCAPE_REFRESH \<or> bitmap_test (escape_map type) ch_percent" by (rule all_escape_types)
  then show "type \<noteq> NGX_ESCAPE_REFRESH \<Longrightarrow> bitmap_test (escape_map type) ch_percent" by blast
qed

lemma hex_digit_plain: "\<not> bitmap_test (escape_map type) (hex_digits ! unat (drop_bit 4 c))"
  "\<not> bitmap_test (escape_map type) (hex_digits ! unat (c AND 0xf :: byte))"
proof -
  have "list_all (\<lambda>t. list_all (\<lambda>h. \<not> bitmap_test (escape_map t) h) hex_digits) escape_types" by code_simp
  then have plain: "list_all (\<lambda>h. \<not> bitmap_test (escape_map type) h) hex_digits" by (rule all_escape_types)
  have len: "length hex_digits = 16" by (simp add: hex_digits_def)
  have "\<forall>c :: byte. unat (drop_bit 4 c) < 16 \<and> unat (c AND 0xf) < 16"
    unfolding all_byte_iff by code_simp
  then have "unat (drop_bit 4 c) < 16" "unat (c AND 0xf) < 16" by blast+
  then show "\<not> bitmap_test (escape_map type) (hex_digits ! unat (drop_bit 4 c))"
    "\<not> bitmap_test (escape_map type) (hex_digits ! unat (c AND 0xf))"
    using plain len unfolding list_all_length by metis+
qed

lemma unescape_escaped:
  "unescape_loop False False (ch_percent # hex_digits ! unat (drop_bit 4 c) # hex_digits ! unat (c AND 0xf) # s) ue_sw_usual d p
   = (case unescape_loop False False s ue_sw_usual (drop_bit 4 c) (hex_digits ! unat (c AND 0xf)) of (out, s') \<Rightarrow> (c # out, s'))"
proof -
  have 1: "ue_step False False ue_sw_quoted d ch_percent (hex_digits ! unat (drop_bit 4 c)) = ((ue_sw_quoted_second, drop_bit 4 c), [], False)"
    using hex_digit_high [of c] by (simp add: ue_step_def Let_def split: if_splits)
  have 2: "ue_step False False ue_sw_quoted_second (drop_bit 4 c) q (hex_digits ! unat (c AND 0xf)) = ((ue_sw_usual, drop_bit 4 c), [c], False)" for q
    using hex_digit_low [of c] unfolding ue_step_def Let_def by (auto split: if_splits)
  have 3: "ue_step False False ue_sw_usual d p ch_percent = ((ue_sw_quoted, d), [], False)"
    by (simp add: ue_step_def)
  show ?thesis
    by (simp only: unescape_loop.simps 1 2 3 prod.case if_False append_Nil append_Cons) (simp split: prod.split)
qed

lemma unescape_escape: "type \<noteq> NGX_ESCAPE_REFRESH \<Longrightarrow> unescape_loop False False (ngx_escape_uri type s) ue_sw_usual d p = (s, [])"
proof (induction s arbitrary: d p)
  case (Cons c s)
  show ?case
  proof (cases "bitmap_test (escape_map type) c")
    case True
    then show ?thesis by (simp only: ngx_escape_uri.simps if_True unescape_escaped Cons.IH [OF Cons.prems] prod.case)
  next
    case False
    then have "c \<noteq> ch_percent" using percent_escaped [OF Cons.prems] by metis
    then have "ue_step False False ue_sw_usual d p c = ((ue_sw_usual, d), [c], False)" by (simp add: ue_step_def)
    then show ?thesis using False Cons.IH [OF Cons.prems] by simp
  qed
qed simp

interpretation uri: codec "ngx_escape_uri NGX_ESCAPE_URI" "\<lambda>s. Some (fst (ngx_unescape_uri False False s))"
  by unfold_locales (simp add: ngx_unescape_uri_def unescape_escape)

interpretation uri_args: codec "ngx_escape_uri NGX_ESCAPE_ARGS" "\<lambda>s. Some (fst (ngx_unescape_uri False False s))"
  by unfold_locales (simp add: ngx_unescape_uri_def unescape_escape)

interpretation uri_component: codec "ngx_escape_uri NGX_ESCAPE_URI_COMPONENT"
  "\<lambda>s. Some (fst (ngx_unescape_uri False False s))"
  by unfold_locales (simp add: ngx_unescape_uri_def unescape_escape)

lemma length_escape_uri: "length (ngx_escape_uri type s) = length s + 2 * ngx_escape_uri_count type s"
  by (induction s) auto

lemma escape_uri_clean:
  "list_all (\<lambda>c. c = ch_percent \<or> \<not> bitmap_test (escape_map type) c) (ngx_escape_uri type s)"
  by (induction s) (simp_all add: hex_digit_plain)

text \<open>
  C30. URI escaping: for every kind of escaping but the one for refresh headers,
  \<open>ngx_unescape_uri\<close> without flags undoes \<open>ngx_escape_uri\<close>; for every kind the escaped string
  has two more bytes per byte that the counting call reports, and apart from the percent signs
  no byte of it needs escaping.
\<close>

theorem escape_uri_roundtrip:
  "(type \<noteq> NGX_ESCAPE_REFRESH \<longrightarrow> ngx_unescape_uri False False (ngx_escape_uri type s) = (s, []))
   \<and> length (ngx_escape_uri type s) = length s + 2 * ngx_escape_uri_count type s
   \<and> list_all (\<lambda>c. c = ch_percent \<or> \<not> bitmap_test (escape_map type) c) (ngx_escape_uri type s)"
  by (simp add: ngx_unescape_uri_def unescape_escape length_escape_uri escape_uri_clean)

theorem escape_uri_roundtrip_witness:
  "NGX_ESCAPE_ARGS \<noteq> NGX_ESCAPE_REFRESH
   \<and> ngx_escape_uri NGX_ESCAPE_ARGS (s2b ''a&b %'') = s2b ''a%26b%20%25''
   \<and> ngx_unescape_uri False False (ngx_escape_uri NGX_ESCAPE_ARGS (s2b ''a&b %'')) = (s2b ''a&b %'', [])"
proof -
  have run: "ngx_escape_uri NGX_ESCAPE_ARGS (s2b ''a&b %'') = s2b ''a%26b%20%25''" by code_simp
  show ?thesis
    using escape_uri_roundtrip [of NGX_ESCAPE_ARGS "s2b ''a&b %''"] run by blast
qed

text \<open>
  The comment above the table for refresh headers lists the percent sign among the escaped
  characters, the table does not have its bit: a percent sign passes through, and unescaping
  gives another string.
\<close>

lemma escape_refresh_percent:
  "ngx_escape_uri NGX_ESCAPE_REFRESH (s2b ''%41'') = s2b ''%41''
   \<and> ngx_unescape_uri False False (ngx_escape_uri NGX_ESCAPE_REFRESH (s2b ''%41'')) = (s2b ''A'', [])"
  by (intro conjI) code_simp+

text \<open>How many bytes a state has read and not yet written.\<close>

primrec ue_pending :: "ue_sw \<Rightarrow> nat" where
  "ue_pending ue_sw_usual = 0"
| "ue_pending ue_sw_quoted = 1"
| "ue_pending ue_sw_quoted_second = 2"

lemma ue_step_bound:
  "ue_step uri redirect state decoded prev ch = ((state', decoded'), out, leave) \<Longrightarrow>
   length out + ue_pending state' \<le> Suc (ue_pending state)"
  by (cases state) (auto simp: ue_step_def Let_def split: if_splits)

lemma unescape_loop_bound:
  "length (fst (unescape_loop uri redirect s state decoded prev)) + length (snd (unescape_loop uri redirect s state decoded prev))
   \<le> length s + ue_pending state"
proof (induction s arbitrary: state decoded prev)
  case (Cons ch s)
  obtain state' decoded' out leave where step: "ue_step uri redirect state decoded prev ch = ((state', decoded'), out, leave)"
    by (metis prod.collapse)
  show ?case
    using ue_step_bound [OF step] Cons.IH [of state' decoded' ch]
    by (auto simp: step split: prod.split)
qed simp

text \<open>
  Unescaping never writes more bytes than it has read, whatever the flags and however broken
  the input, so it may run in place.
\<close>

lemma unescape_in_place:
  "length (fst (ngx_unescape_uri uri redirect src)) + length (snd (ngx_unescape_uri uri redirect src)) \<le> length src"
  using unescape_loop_bound [of uri redirect src ue_sw_usual] by (simp add: ngx_unescape_uri_def)

section \<open>HTML escaping\<close>

lemma html_entity_eq:
  "html_entity a @ x = html_entity b @ y \<Longrightarrow> a = b"
  by (auto simp: html_entity_def split: if_splits)

lemma ngx_escape_html_inj: "ngx_escape_html s = ngx_escape_html t \<Longrightarrow> s = t"
proof (induction s arbitrary: t)
  case Nil
  then show ?case by (cases t) (auto simp: html_entity_def split: if_splits)
next
  case (Cons a s)
  then obtain b t' where t: "t = b # t'" by (cases t) (auto simp: html_entity_def split: if_splits)
  then have "a = b" using Cons.prems html_entity_eq by fastforce
  then show ?case using Cons t by simp
qed

text \<open>
  HTML escaping: the counting call gives the number of additional bytes, the output holds no
  angle bracket and no double quote, and different sources have different escapes.
\<close>

lemma escape_html_safe:
  "length (ngx_escape_html s) = length s + ngx_escape_html_count s
   \<and> set (ngx_escape_html s) \<inter> {0x3C, 0x3E, 0x22} = {}
   \<and> (ngx_escape_html s = ngx_escape_html t \<longleftrightarrow> s = t)"
proof (intro conjI)
  show "length (ngx_escape_html s) = length s + ngx_escape_html_count s"
    by (induction s) (auto simp: html_entity_def)
  show "set (ngx_escape_html s) \<inter> {0x3C, 0x3E, 0x22} = {}"
    by (induction s) (auto simp: html_entity_def)
  show "ngx_escape_html s = ngx_escape_html t \<longleftrightarrow> s = t"
    using ngx_escape_html_inj by blast
qed

section \<open>UTF-8\<close>

text \<open>The encoding of the characters from \<open>0x80\<close> to \<open>0x10ffff\<close>, as RFC 3629 has it.\<close>

definition utf8_encode :: "nat \<Rightarrow> bytes" where
  "utf8_encode u =
     (if u < 0x800 then [of_nat (0xc0 + u div 64), of_nat (0x80 + u mod 64)]
      else if u < 0x10000 then
        [of_nat (0xe0 + u div 4096), of_nat (0x80 + u div 64 mod 64), of_nat (0x80 + u mod 64)]
      else [of_nat (0xf0 + u div 262144), of_nat (0x80 + u div 4096 mod 64),
            of_nat (0x80 + u div 64 mod 64), of_nat (0x80 + u mod 64)])"

lemma and_mask_word: "unat (w AND mask k) = unat w mod 2 ^ k" for w :: "'a::len word"
  by (metis take_bit_eq_mask take_bit_eq_mod unsigned_take_bit_eq)

lemma and_masks32:
  fixes w :: u32
  shows "unat (w AND 0x3f) = unat w mod 64" "unat (w AND 0x1f) = unat w mod 32"
    "unat (w AND 0x0f) = unat w mod 16" "unat (w AND 0x07) = unat w mod 8"
  using and_mask_word [of w 6] and_mask_word [of w 5] and_mask_word [of w 4] and_mask_word [of w 3]
  by (simp_all add: mask_eq_exp_minus_1)

lemma unat_shift_six:
  fixes u :: u32
  assumes "unat u < 2 ^ 26"
  shows "unat (push_bit 6 u OR (ucast i AND 0x3f)) = unat u * 64 + unat (i :: byte) mod 64"
proof -
  have "push_bit 6 u OR (ucast i AND 0x3f) = push_bit 6 u + (ucast i AND 0x3f)"
  proof (rule disjunctive_add [symmetric])
    have mask: "(0x3f :: u32) = mask 6" by (simp add: mask_eq_exp_minus_1)
    show "\<not> bit (push_bit 6 u) n \<or> \<not> bit (ucast i AND 0x3f :: u32) n" for n
      unfolding mask by (auto simp: bit_simps)
  qed
  moreover have "unat (push_bit 6 u) = unat u * 64"
    using assms by (simp add: push_bit_eq_mult unat_word_ariths)
  moreover have "unat (ucast i AND 0x3f :: u32) = unat i mod 64"
    by (simp add: and_masks32)
  ultimately show ?thesis
    using assms by (simp add: unat_word_ariths)
qed

lemma of_nat_byte: "n < 256 \<Longrightarrow> unat (of_nat n :: byte) = n"
  by (simp add: unat_of_nat)

lemma utf8_tail_step:
  assumes "unat u < 2 ^ 26" and "m < 64"
  shows "utf8_tail (Suc len) (of_nat (0x80 + m) # p) u valid = utf8_tail len p (of_nat (unat u * 64 + m)) valid"
proof -
  have m: "unat (of_nat (0x80 + m) :: byte) = 0x80 + m" using assms(2) by (intro of_nat_byte) simp
  then have "\<not> (of_nat (0x80 + m) :: byte) < 0x80" by (simp only: word_less_nat_alt) simp
  moreover have "push_bit 6 u OR (ucast (of_nat (0x80 + m) :: byte) AND 0x3f) = (of_nat (unat u * 64 + m) :: u32)"
    using unat_shift_six [OF assms(1), of "of_nat (0x80 + m)"] assms m mod_add_left_eq [of 128 64 m]
    by (simp only: word_unat_eq_iff unat_of_nat) simp
  ultimately show ?thesis by (simp only: utf8_tail.simps list.case if_False)
qed

lemma mod_window: "a = k * m \<Longrightarrow> a \<le> n \<Longrightarrow> n < a + k \<Longrightarrow> n mod k = n - (a :: nat)"
  by (metis add_diff_inverse_nat le_add_diff_inverse2 less_diff_conv2 add.commute mod_less mod_mult_self4 not_less)

lemma utf8_head:
  "0xc2 \<le> unat c \<Longrightarrow> unat c < 0xe0 \<Longrightarrow> 2 \<le> n \<Longrightarrow>
   ngx_utf8_decode (c # p) n = utf8_tail (Suc 0) p (of_nat (unat c - 0xc0)) 0x7f"
  "0xe0 \<le> unat c \<Longrightarrow> unat c < 0xf0 \<Longrightarrow> 3 \<le> n \<Longrightarrow>
   ngx_utf8_decode (c # p) n = utf8_tail (Suc (Suc 0)) p (of_nat (unat c - 0xe0)) 0x7ff"
  "0xf0 \<le> unat c \<Longrightarrow> unat c < 0xf8 \<Longrightarrow> 4 \<le> n \<Longrightarrow>
   ngx_utf8_decode (c # p) n = utf8_tail (Suc (Suc (Suc 0))) p (of_nat (unat c - 0xf0)) 0xffff"
proof -
  have cmp: "(ucast c :: u32) \<ge> 0xf0 \<longleftrightarrow> 0xf0 \<le> unat c" "(ucast c :: u32) \<ge> 0xe0 \<longleftrightarrow> 0xe0 \<le> unat c"
      "(ucast c :: u32) \<ge> 0xc2 \<longleftrightarrow> 0xc2 \<le> unat c"
    by (simp_all add: word_le_nat_alt)
  have val: "unat (ucast c AND 0x1f :: u32) = unat c mod 32" "unat (ucast c AND 0x0f :: u32) = unat c mod 16"
      "unat (ucast c AND 0x07 :: u32) = unat c mod 8"
    by (simp_all add: and_masks32)
  show "ngx_utf8_decode (c # p) n = utf8_tail (Suc 0) p (of_nat (unat c - 0xc0)) 0x7f"
    if "0xc2 \<le> unat c" "unat c < 0xe0" "2 \<le> n"
  proof -
    have "unat c mod 32 = unat c - 0xc0" using that by (intro mod_window [of _ _ 6]) simp_all
    then have "(ucast c AND 0x1f :: u32) = of_nat (unat c - 0xc0)" using val(1) by (metis of_nat_unat_id)
    then show ?thesis using that cmp by (simp add: ngx_utf8_decode_def Let_def)
  qed
  show "ngx_utf8_decode (c # p) n = utf8_tail (Suc (Suc 0)) p (of_nat (unat c - 0xe0)) 0x7ff"
    if "0xe0 \<le> unat c" "unat c < 0xf0" "3 \<le> n"
  proof -
    have "unat c mod 16 = unat c - 0xe0" using that by (intro mod_window [of _ _ 14]) simp_all
    then have "(ucast c AND 0x0f :: u32) = of_nat (unat c - 0xe0)" using val(2) by (metis of_nat_unat_id)
    moreover have "\<not> n - 1 < 2" using that(3) by linarith
    moreover have "utf8_tail 2 = utf8_tail (Suc (Suc 0))" by (simp only: numeral_2_eq_2)
    ultimately show ?thesis using that cmp by (simp add: ngx_utf8_decode_def Let_def del: utf8_tail.simps)
  qed
  show "ngx_utf8_decode (c # p) n = utf8_tail (Suc (Suc (Suc 0))) p (of_nat (unat c - 0xf0)) 0xffff"
    if "0xf0 \<le> unat c" "unat c < 0xf8" "4 \<le> n"
  proof -
    have "unat c mod 8 = unat c - 0xf0" using that by (intro mod_window [of _ _ 30]) simp_all
    then have "(ucast c AND 0x07 :: u32) = of_nat (unat c - 0xf0)" using val(3) by (metis of_nat_unat_id)
    moreover have "\<not> n - 1 < 3" using that(3) by linarith
    moreover have "utf8_tail 3 = utf8_tail (Suc (Suc (Suc 0)))" by (simp only: numeral_3_eq_3)
    ultimately show ?thesis using that cmp by (simp add: ngx_utf8_decode_def Let_def del: utf8_tail.simps)
  qed
qed

lemma utf8_tail_nat:
  "u < 2 ^ 26 \<Longrightarrow> m < 64 \<Longrightarrow>
   utf8_tail (Suc len) (of_nat (0x80 + m) # p) (of_nat u) valid = utf8_tail len p (of_nat (u * 64 + m)) valid"
  using utf8_tail_step [of "of_nat u" m len p valid] by (simp add: unat_of_nat)

lemma utf8_tail_end:
  "u < 2 ^ 32 \<Longrightarrow> unat valid < u \<Longrightarrow> utf8_tail 0 p (of_nat u) valid = Some (of_nat u, p)"
  by (simp add: word_less_nat_alt unat_of_nat)

text \<open>
  \<open>ngx_utf8_decode\<close> reads back every character of two to four bytes: given the encoding of a
  code point from \<open>0x80\<close> to \<open>0x10ffff\<close> and at least its length as \<open>n\<close>, it returns the code
  point and moves the pointer right behind the encoding.
\<close>

lemma utf8_decode_encode:
  assumes "0x80 \<le> u" and "u \<le> 0x10ffff" and "length (utf8_encode u) \<le> n"
  shows "ngx_utf8_decode (utf8_encode u @ s) n = Some (of_nat u, s)"
proof -
  consider "u < 0x800" | "0x800 \<le> u" "u < 0x10000" | "0x10000 \<le> u" by linarith
  then show ?thesis
  proof cases
    case 1
    let ?c = "of_nat (0xc0 + u div 64) :: byte"
    have c: "unat ?c = 0xc0 + u div 64" using 1 by (intro of_nat_byte) linarith
    have "u div 64 < 32" using 1 by linarith
    have "ngx_utf8_decode (?c # of_nat (0x80 + u mod 64) # s) n
        = utf8_tail (Suc 0) (of_nat (0x80 + u mod 64) # s) (of_nat (unat ?c - 0xc0)) 0x7f"
      using assms(1,3) 1 c by (intro utf8_head) (simp_all add: utf8_encode_def; linarith)+
    also have "\<dots> = utf8_tail 0 s (of_nat (u div 64 * 64 + u mod 64)) 0x7f"
      unfolding c using \<open>u div 64 < 32\<close> by (subst utf8_tail_nat [symmetric]) simp_all
    also have "\<dots> = Some (of_nat u, s)"
      using assms(1) 1 by (simp only: div_mult_mod_eq) (intro utf8_tail_end; simp)
    finally show ?thesis using 1 by (simp only: utf8_encode_def if_True append_Cons append_Nil)
  next
    case 2
    let ?c = "of_nat (0xe0 + u div 4096) :: byte"
    have c: "unat ?c = 0xe0 + u div 4096" using 2 by (intro of_nat_byte) linarith
    have "u div 4096 < 16" using 2 by linarith
    have u: "(u div 4096 * 64 + u div 64 mod 64) * 64 + u mod 64 = u"
      using div_mult_mod_eq [of "u div 64" 64] by (simp add: div_mult2_eq [symmetric])
    have "ngx_utf8_decode (?c # of_nat (0x80 + u div 64 mod 64) # of_nat (0x80 + u mod 64) # s) n
        = utf8_tail (Suc (Suc 0)) (of_nat (0x80 + u div 64 mod 64) # of_nat (0x80 + u mod 64) # s) (of_nat (unat ?c - 0xe0)) 0x7ff"
      using assms(3) 2 c by (intro utf8_head) (simp_all add: utf8_encode_def; linarith)+
    also have "\<dots> = utf8_tail 0 s (of_nat ((u div 4096 * 64 + u div 64 mod 64) * 64 + u mod 64)) 0x7ff"
      unfolding c add_diff_cancel_left' using \<open>u div 4096 < 16\<close> mod_less_divisor [of 64 "u div 64"]
      by (subst utf8_tail_nat, simp, simp, subst utf8_tail_nat) simp_all
    also have "\<dots> = Some (of_nat u, s)"
      unfolding u using 2 by (intro utf8_tail_end; simp)
    finally show ?thesis using 2 by (simp only: utf8_encode_def if_True if_False append_Cons append_Nil not_less[symmetric] simp_thms)
  next
    case 3
    let ?c = "of_nat (0xf0 + u div 262144) :: byte"
    have c: "unat ?c = 0xf0 + u div 262144" using assms(2) by (intro of_nat_byte) linarith
    have hi: "u div 262144 < 5" using assms(2) by linarith
    have u: "((u div 262144 * 64 + u div 4096 mod 64) * 64 + u div 64 mod 64) * 64 + u mod 64 = u"
      using div_mult_mod_eq [of "u div 64" 64] div_mult_mod_eq [of "u div 4096" 64] by (simp add: div_mult2_eq [symmetric])
    let ?p = "of_nat (0x80 + u div 4096 mod 64) # of_nat (0x80 + u div 64 mod 64) # of_nat (0x80 + u mod 64) # s"
    have "ngx_utf8_decode (?c # ?p) n = utf8_tail (Suc (Suc (Suc 0))) ?p (of_nat (unat ?c - 0xf0)) 0xffff"
      using assms(3) 3 c hi by (intro utf8_head) (simp_all add: utf8_encode_def)
    also have "\<dots> = utf8_tail 0 s (of_nat (((u div 262144 * 64 + u div 4096 mod 64) * 64 + u div 64 mod 64) * 64 + u mod 64)) 0xffff"
      unfolding c add_diff_cancel_left' using hi mod_less_divisor [of 64 "u div 64"] mod_less_divisor [of 64 "u div 4096"]
      by (subst utf8_tail_nat, simp, simp, subst utf8_tail_nat, simp, simp, subst utf8_tail_nat) simp_all
    also have "\<dots> = Some (of_nat u, s)"
      unfolding u using 3 assms(2) by (intro utf8_tail_end; simp)
    finally show ?thesis using 3 by (simp only: utf8_encode_def if_False append_Cons append_Nil not_less [symmetric] simp_thms) simp
  qed
qed


lemma utf8_decode_encode_example:
  "length (utf8_encode 0x20ac) \<le> 3 \<and> ngx_utf8_decode (utf8_encode 0x20ac @ [0x41]) 3 = Some (0x20ac, [0x41])"
proof -
  have "length (utf8_encode 0x20ac) \<le> 3" by (simp add: utf8_encode_def)
  then show ?thesis using utf8_decode_encode [where u = "0x20ac" and n = "3" and s = "[0x41]"] by simp
qed

text \<open>
  \<open>ngx_utf8_length\<close> hands the length of the whole string to every call of the decoder, so a
  string that ends in the first byte of a longer sequence makes it read behind the end; the
  same bytes at the start of a string are recognised as incomplete.
\<close>

lemma utf8_length_overread:
  "ngx_utf8_length [0x61, 0x61, 0xe4] 3 = None \<and> ngx_utf8_length [0xe4] 1 = Some 1
   \<and> ngx_utf8_length (s2b ''a'' @ [0xc3, 0xa4] @ s2b ''b'') 4 = Some 3"
  by (intro conjI) code_simp+

end
