(* ===== verification/HttpScan.thy ===== *)
theory HttpScan
  imports Prelude
begin

text \<open>
  The interface of the incremental parsers of \<^verbatim>\<open>src/http/ngx_http_parse.c\<close>.
  \<open>ngx_http_parse_request_line\<close>, \<open>ngx_http_parse_header_line\<close> and
  \<open>ngx_http_parse_status_line\<close> share one loop,
  \<^verbatim>\<open>for (p = b->pos; p < b->last; p++) { ch = *p; switch (state) ... }\<close>,
  which either leaves the loop at some byte or reaches \<open>b->last\<close> and returns
  \<open>NGX_AGAIN\<close> with the state saved, to be called again when the buffer has more bytes.
  The buffer memory is a byte list, pointers are offsets into it.
\<close>

datatype ('r, 'x) action = Next 'r | Stop 'r 'x

function scan ::
  "(bytes \<Rightarrow> nat \<Rightarrow> byte \<Rightarrow> 'r \<Rightarrow> ('r, 'x) action) \<Rightarrow> bytes \<Rightarrow> nat \<Rightarrow> nat \<Rightarrow> 'r \<Rightarrow> nat \<times> 'r \<times> 'x option"
where
  "scan step mem p lim r =
     (if p < lim
      then case step mem p (mem ! p) r of
             Next r' \<Rightarrow> scan step mem (Suc p) lim r'
           | Stop r' x \<Rightarrow> (p, r', Some x)
      else (p, r, None))"
  by pat_completeness auto
termination
  by (relation "measure (\<lambda>(step, mem, p, lim, r). lim - p)") auto

declare scan.simps [simp del]

lemma scan_end [simp]: "lim \<le> p \<Longrightarrow> scan step mem p lim r = (p, r, None)"
  by (simp add: scan.simps)

lemma scan_Next:
  "p < lim \<Longrightarrow> step mem p (mem ! p) r = Next r' \<Longrightarrow>
   scan step mem p lim r = scan step mem (Suc p) lim r'"
  by (simp add: scan.simps [of _ _ p])

lemma scan_Stop:
  "p < lim \<Longrightarrow> step mem p (mem ! p) r = Stop r' x \<Longrightarrow> scan step mem p lim r = (p, r', Some x)"
  by (simp add: scan.simps [of _ _ p])

lemma scan_invariant:
  assumes "scan step mem p lim r = (q, r', x)" and "I p r" and "p \<le> lim"
    and "\<And>p r r'. p < lim \<Longrightarrow> I p r \<Longrightarrow> step mem p (mem ! p) r = Next r' \<Longrightarrow> I (Suc p) r'"
  shows "case x of
      None \<Rightarrow> q = lim \<and> I q r'
    | Some e \<Rightarrow> p \<le> q \<and> q < lim \<and> (\<exists>r0. I q r0 \<and> step mem q (mem ! q) r0 = Stop r' e)"
  using assms(1-3)
proof (induction "lim - p" arbitrary: p r)
  case 0
  then show ?case by simp
next
  case (Suc n)
  then have less: "p < lim" by simp
  show ?case
  proof (cases "step mem p (mem ! p) r")
    case (Next r1)
    have "I (Suc p) r1" using assms(4) [OF less Suc.prems(2) Next] .
    moreover have "scan step mem (Suc p) lim r1 = (q, r', x)"
      using Suc.prems(1) scan_Next [of p lim step mem r r1, OF less Next] by simp
    ultimately have "case x of None \<Rightarrow> q = lim \<and> I q r'
        | Some e \<Rightarrow> Suc p \<le> q \<and> q < lim \<and> (\<exists>r0. I q r0 \<and> step mem q (mem ! q) r0 = Stop r' e)"
      using Suc.hyps less by simp
    then show ?thesis by (auto split: option.splits)
  next
    case (Stop r1 e)
    then show ?thesis
      using Suc.prems less scan_Stop [of p lim step mem r r1 e, OF less Stop] by auto
  qed
qed

text \<open>The same loop on the list of bytes that are left, for computing on symbolic input.\<close>

primrec scan_on ::
  "(bytes \<Rightarrow> nat \<Rightarrow> byte \<Rightarrow> 'r \<Rightarrow> ('r, 'x) action) \<Rightarrow> bytes \<Rightarrow> nat \<Rightarrow> 'r \<Rightarrow> bytes \<Rightarrow> nat \<times> 'r \<times> 'x option"
where
  "scan_on step mem p r [] = (p, r, None)"
| "scan_on step mem p r (c # cs) =
     (case step mem p c r of
        Next r' \<Rightarrow> scan_on step mem (Suc p) r' cs
      | Stop r' x \<Rightarrow> (p, r', Some x))"

lemma scan_eq_scan_on:
  "p \<le> length mem \<Longrightarrow> scan step mem p (length mem) r = scan_on step mem p r (drop p mem)"
proof (induction "length mem - p" arbitrary: p r)
  case (Suc n)
  then have "drop p mem = mem ! p # drop (Suc p) mem" by (simp add: Cons_nth_drop_Suc)
  with Suc show ?case
    by (auto simp: scan.simps [of _ _ p] split: action.splits)
qed simp

lemma scan_on_append:
  "scan_on step mem p r (xs @ ys) =
     (case scan_on step mem p r xs of
        (q, r', None) \<Rightarrow> scan_on step mem q r' ys
      | (q, r', Some x) \<Rightarrow> (q, r', Some x))"
  by (induction xs arbitrary: p r) (simp_all split: action.splits)

lemma scan_on_while:
  assumes "P r" and "list_all B cs"
    and "\<And>p c r. P r \<Longrightarrow> B c \<Longrightarrow> \<exists>r'. step mem p c r = Next r' \<and> P r'"
  shows "\<exists>r'. scan_on step mem p r cs = (p + length cs, r', None) \<and> P r'"
  using assms(1,2)
proof (induction cs arbitrary: p r)
  case (Cons c cs)
  then obtain r' where r': "step mem p c r = Next r'" "P r'"
    using assms(3) [of r c p] by auto
  then obtain r'' where "scan_on step mem (Suc p) r' cs = (Suc p + length cs, r'', None)" "P r''"
    using Cons.IH [of r' "Suc p"] Cons.prems by auto
  with r' show ?case by simp
qed simp

text \<open>
  A caller that receives the input in chunks: after each receive the parser is called with
  the saved position and state, until it leaves the loop.
\<close>

fun scan_feed ::
  "(bytes \<Rightarrow> nat \<Rightarrow> byte \<Rightarrow> 'r \<Rightarrow> ('r, 'x) action) \<Rightarrow> bytes \<Rightarrow> nat \<Rightarrow> 'r \<Rightarrow> bytes list \<Rightarrow> nat \<times> 'r \<times> 'x option"
where
  "scan_feed step mem p r [] = scan step mem p (length mem) r"
| "scan_feed step mem p r (c # cs) =
     (case scan step (mem @ c) p (length (mem @ c)) r of
        (q, r', None) \<Rightarrow> scan_feed step (mem @ c) q r' cs
      | (q, r', Some x) \<Rightarrow> (q, r', Some x))"

text \<open>
  What makes a parser restartable: at offset \<open>p\<close> it looks only at bytes that have
  already arrived. A parser with this law gives the same answer however the input is cut
  into pieces.
\<close>

locale incremental_parser =
  fixes step :: "bytes \<Rightarrow> nat \<Rightarrow> byte \<Rightarrow> 'r \<Rightarrow> ('r, 'x) action"
  assumes step_arrived: "p < length mem \<Longrightarrow> step (mem @ more) p c r = step mem p c r"
begin

lemma scan_arrived:
  "lim \<le> length mem \<Longrightarrow> scan step (mem @ more) p lim r = scan step mem p lim r"
proof (induction "lim - p" arbitrary: p r)
  case 0
  then show ?case by simp
next
  case (Suc n)
  then have p: "p < lim" "p < length mem" by simp_all
  show ?case
  proof (cases "step mem p (mem ! p) r")
    case (Next r1)
    have "scan step (mem @ more) p lim r = scan step (mem @ more) (Suc p) lim r1"
      using Next p by (intro scan_Next) (simp_all add: step_arrived nth_append)
    also have "\<dots> = scan step mem (Suc p) lim r1"
      using Suc p by (intro Suc.hyps) simp_all
    finally show ?thesis using scan_Next [of p lim step mem r r1, OF p(1) Next] by simp
  next
    case (Stop r1 x)
    then show ?thesis
      using p scan_Stop [of p lim step mem r r1 x, OF p(1) Stop]
        scan_Stop [of p lim step "mem @ more" r r1 x] by (simp add: step_arrived nth_append)
  qed
qed

text \<open>Reading up to \<open>mid\<close>, then going on with the saved state when more bytes are there.\<close>

lemma scan_split:
  assumes "p \<le> mid" "mid \<le> lim" "mid \<le> length mem"
  shows "scan step (mem @ more) p lim r =
    (case scan step mem p mid r of
       (q, r', None) \<Rightarrow> scan step (mem @ more) q lim r'
     | (q, r', Some x) \<Rightarrow> (q, r', Some x))"
  using assms
proof (induction "mid - p" arbitrary: p r)
  case 0
  then show ?case by simp
next
  case (Suc n)
  then have p: "p < mid" "p < lim" "p < length mem" by simp_all
  show ?case
  proof (cases "step mem p (mem ! p) r")
    case (Next r1)
    have "scan step (mem @ more) p lim r = scan step (mem @ more) (Suc p) lim r1"
      using Next p by (intro scan_Next) (simp_all add: step_arrived nth_append)
    then show ?thesis
      using Suc p scan_Next [of p mid step mem r r1, OF p(1) Next] by simp
  next
    case (Stop r1 x)
    then show ?thesis
      using p scan_Stop [of p mid step mem r r1 x, OF p(1) Stop]
        scan_Stop [of p lim step "mem @ more" r r1 x] by (simp add: step_arrived nth_append)
  qed
qed

text \<open>The whole input, in whatever pieces it arrives.\<close>

lemma scan_feed_eq:
  "p \<le> length mem \<Longrightarrow>
   scan_feed step mem p r chunks = scan step (mem @ concat chunks) p (length (mem @ concat chunks)) r"
proof (induction chunks arbitrary: mem p r)
  case Nil
  have "scan step mem p (length mem) r = scan_feed step mem p r []"
    by simp
  then show ?case by simp
next
  case (Cons c chunks)
  obtain q r' x where one: "scan step (mem @ c) p (length (mem @ c)) r = (q, r', x)"
    by (cases "scan step (mem @ c) p (length (mem @ c)) r") auto
  have split: "scan step ((mem @ c) @ concat chunks) p (length ((mem @ c) @ concat chunks)) r =
      (case (q, r', x) of (q, r', None) \<Rightarrow>
          scan step ((mem @ c) @ concat chunks) q (length ((mem @ c) @ concat chunks)) r'
        | (q, r', Some x) \<Rightarrow> (q, r', Some x))"
    unfolding one [symmetric] using Cons.prems by (intro scan_split) simp_all
  show ?case
  proof (cases x)
    case None
    have "q = length (mem @ c)"
      using scan_invariant [OF one, of "\<lambda>_ _. True"] Cons.prems None by simp
    then show ?thesis
      using Cons.IH [of q "mem @ c" r'] split one None by simp
  next
    case (Some e)
    then show ?thesis using split one by simp
  qed
qed

end


section \<open>A parser and its caller\<close>

text \<open>
  The caller, as \<open>ngx_http_process_request_line\<close>, \<open>ngx_http_process_request_headers\<close> and the
  upstream modules drive a parser: after every receive it calls the parser again, with the
  position and the request of the last call, until the answer is no longer \<open>again\<close>.
\<close>

fun parse_feed ::
  "(bytes \<Rightarrow> nat \<Rightarrow> nat \<Rightarrow> 'r \<Rightarrow> nat \<times> 'r \<times> 'rc) \<Rightarrow> 'rc \<Rightarrow> bytes \<Rightarrow> nat \<Rightarrow> 'r \<Rightarrow> bytes list \<Rightarrow> nat \<times> 'r \<times> 'rc"
where
  "parse_feed parse again mem pos r [] = (pos, r, again)"
| "parse_feed parse again mem pos r (c # cs) =
     (case parse (mem @ c) pos (length (mem @ c)) r of
        (q, r', rc) \<Rightarrow> if rc = again then parse_feed parse again (mem @ c) q r' cs else (q, r', rc))"

text \<open>
  A parser whose function is the loop followed by \<open>leave\<close>, the code after it, which sees the
  position and request at the call (\<open>pos\<close>, \<open>r0\<close>) and those at the exit from the loop. Two
  exits that differ only in the call they belong to are the \<open>same\<close> to the caller.
\<close>

locale chunked_parser = incremental_parser step
  for step :: "bytes \<Rightarrow> nat \<Rightarrow> byte \<Rightarrow> 'r \<Rightarrow> ('r, 'x) action" +
  fixes parse :: "bytes \<Rightarrow> nat \<Rightarrow> nat \<Rightarrow> 'r \<Rightarrow> nat \<times> 'r \<times> 'rc"
    and again :: 'rc
    and leave :: "nat \<Rightarrow> 'r \<Rightarrow> nat \<Rightarrow> 'r \<Rightarrow> 'x \<Rightarrow> nat \<times> 'r \<times> 'rc"
    and same :: "nat \<times> 'r \<times> 'rc \<Rightarrow> nat \<times> 'r \<times> 'rc \<Rightarrow> bool"
  assumes parse_eq: "parse mem pos lim r =
      (case scan step mem pos lim r of
         (p, r', None) \<Rightarrow> (p, r', again)
       | (p, r', Some x) \<Rightarrow> leave pos r p r' x)"
    and leave_final: "step mem p c r = Stop r' x \<Longrightarrow> snd (snd (leave pos r0 p r' x)) \<noteq> again"
    and leave_same: "step mem p c r = Stop r' x \<Longrightarrow> same (leave pos r0 p r' x) (leave pos' r0' p r' x)"
    and same_refl: "same a a"
begin

lemma scan_exit_step:
  assumes "scan step mem p lim r = (q, r', Some x)"
  shows "\<exists>r0. step mem q (mem ! q) r0 = Stop r' x"
proof (cases "p \<le> lim")
  case True
  have "case Some x of None \<Rightarrow> q = lim \<and> True
      | Some e \<Rightarrow> p \<le> q \<and> q < lim \<and> (\<exists>r0. True \<and> step mem q (mem ! q) r0 = Stop r' e)"
    using assms TrueI True by (rule scan_invariant)
  then show ?thesis by auto
qed (use assms in simp)

lemma parse_feed_scan:
  "p = length mem \<Longrightarrow>
   \<exists>pos r0. parse_feed parse again mem p r chunks =
     (case scan_feed step mem p r chunks of
        (q, r', None) \<Rightarrow> (q, r', again)
      | (q, r', Some x) \<Rightarrow> leave pos r0 q r' x)"
proof (induction chunks arbitrary: mem p r)
  case (Cons c cs)
  obtain q r' x where one: "scan step (mem @ c) p (length (mem @ c)) r = (q, r', x)"
    by (cases "scan step (mem @ c) p (length (mem @ c)) r") auto
  show ?case
  proof (cases x)
    case None
    have "q = length (mem @ c)"
      using scan_invariant [OF one, of "\<lambda>_ _. True"] Cons.prems None by simp
    with Cons.IH [of q "mem @ c" r'] None one show ?thesis by (simp add: parse_eq)
  next
    case (Some e)
    then obtain r0 where "step (mem @ c) q ((mem @ c) ! q) r0 = Stop r' e"
      using scan_exit_step one by metis
    then have "snd (snd (leave p r q r' e)) \<noteq> again" by (rule leave_final)
    then have "parse_feed parse again mem p r (c # cs) = leave p r q r' e"
      using one Some by (cases "leave p r q r' e") (simp add: parse_eq)
    then show ?thesis using one Some by auto
  qed
qed simp

lemma parse_feed_same:
  "same (parse_feed parse again [] 0 r chunks) (parse (concat chunks) 0 (length (concat chunks)) r)"
proof -
  obtain q r' x where one: "scan step (concat chunks) 0 (length (concat chunks)) r = (q, r', x)"
    by (metis prod_cases3)
  then obtain pos r0 where feed: "parse_feed parse again [] 0 r chunks =
      (case x of None \<Rightarrow> (q, r', again) | Some x \<Rightarrow> leave pos r0 q r' x)"
    using parse_feed_scan [of 0 "[]" r chunks] scan_feed_eq [of 0 "[]" r chunks] by auto
  show ?thesis
  proof (cases x)
    case (Some e)
    then obtain r1 where "step (concat chunks) q (concat chunks ! q) r1 = Stop r' e"
      using scan_exit_step one by metis
    from leave_same [OF this] show ?thesis using feed one Some by (simp add: parse_eq)
  qed (use feed one same_refl in \<open>simp add: parse_eq\<close>)
qed

end

end
