(* ===== verification/HttpRequestLine.thy ===== *)
theory HttpRequestLine
  imports HttpScan
begin

text \<open>
  \<open>ngx_http_parse_request_line\<close> of \<^verbatim>\<open>src/http/ngx_http_parse.c\<close> (the build
  without \<open>NGX_WIN32\<close>): one definition per \<open>case\<close> of the switch, the loop from
  \<open>HttpScan\<close>, and the code after the label \<open>done\<close>. Pointers are offsets, \<open>None\<close>
  is \<open>NULL\<close>; the one-bit fields are booleans; \<open>http_major\<close> and \<open>http_minor\<close> keep
  their 16 bits.
\<close>

section \<open>State and tables\<close>

datatype http_method = NGX_HTTP_UNKNOWN | NGX_HTTP_GET | NGX_HTTP_HEAD | NGX_HTTP_POST
  | NGX_HTTP_PUT | NGX_HTTP_DELETE | NGX_HTTP_MKCOL | NGX_HTTP_COPY | NGX_HTTP_MOVE
  | NGX_HTTP_OPTIONS | NGX_HTTP_PROPFIND | NGX_HTTP_PROPPATCH | NGX_HTTP_LOCK
  | NGX_HTTP_UNLOCK | NGX_HTTP_PATCH | NGX_HTTP_TRACE

datatype http_parse_rc = PARSE_OK | PARSE_AGAIN | PARSE_HEADER_DONE | PARSE_INVALID_METHOD
  | PARSE_INVALID_REQUEST | PARSE_INVALID_09_METHOD | PARSE_INVALID_HEADER

datatype rl_sw = rl_sw_start | rl_sw_method | rl_sw_spaces_before_uri | rl_sw_schema
  | rl_sw_schema_slash | rl_sw_schema_slash_slash | rl_sw_host_start | rl_sw_host | rl_sw_host_end
  | rl_sw_host_ip_literal | rl_sw_port | rl_sw_host_http_09 | rl_sw_after_slash_in_uri
  | rl_sw_check_uri | rl_sw_check_uri_http_09 | rl_sw_uri | rl_sw_http_09 | rl_sw_http_H
  | rl_sw_http_HT | rl_sw_http_HTT | rl_sw_http_HTTP | rl_sw_first_major_digit | rl_sw_major_digit
  | rl_sw_first_minor_digit | rl_sw_minor_digit | rl_sw_spaces_after_digit | rl_sw_almost_done

text \<open>The fields of \<open>ngx_http_request_t\<close> that the function reads or writes.\<close>

record request_line =
  rl_state :: rl_sw
  req_method :: http_method
  request_start :: "nat option"
  request_end :: "nat option"
  method_end :: "nat option"
  uri_start :: "nat option"
  uri_end :: "nat option"
  uri_ext :: "nat option"
  args_start :: "nat option"
  schema_start :: "nat option"
  schema_end :: "nat option"
  host_start :: "nat option"
  host_end :: "nat option"
  port_end :: "nat option"
  http_protocol :: "nat option"
  http_major :: "16 word"
  http_minor :: "16 word"
  http_version :: ngx_uint_t
  complex_uri :: bool
  quoted_uri :: bool
  plus_in_uri :: bool
  space_in_uri :: bool

type_synonym rl_action = "(request_line, http_parse_rc option) action"

text \<open>
  \<open>Stop r None\<close> is \<^verbatim>\<open>goto done\<close>, \<open>Stop r (Some rc)\<close> is \<^verbatim>\<open>return rc\<close>.
\<close>

abbreviation (input) goto_done :: "request_line \<Rightarrow> rl_action" where
  "goto_done r \<equiv> Stop r None"

abbreviation (input) invalid_request :: "request_line \<Rightarrow> rl_action" where
  "invalid_request r \<equiv> Stop r (Some PARSE_INVALID_REQUEST)"

definition usual :: "u32 list" where
  "usual = [0xffffdbfe, 0x7fff37d6, 0xffffffff, 0xffffffff,
            0xffffffff, 0xffffffff, 0xffffffff, 0xffffffff]"

definition is_usual :: "byte \<Rightarrow> bool" where
  "is_usual ch \<longleftrightarrow> bitmap_test usual ch"

text \<open>The switch on the length of the method and the comparisons \<open>ngx_str3_cmp\<close> and so on.\<close>

definition rl_set_method :: "bytes \<Rightarrow> nat \<Rightarrow> nat \<Rightarrow> http_method \<Rightarrow> http_method" where
  "rl_set_method mem m p old =
     (let s = subarray mem m p in
      if p - m = 3 then
        if s = s2b ''GET'' then NGX_HTTP_GET
        else if s = s2b ''PUT'' then NGX_HTTP_PUT else old
      else if p - m = 4 then
        if mem ! (m + 1) = 0x4F then
          if s = s2b ''POST'' then NGX_HTTP_POST
          else if s = s2b ''COPY'' then NGX_HTTP_COPY
          else if s = s2b ''MOVE'' then NGX_HTTP_MOVE
          else if s = s2b ''LOCK'' then NGX_HTTP_LOCK else old
        else if s = s2b ''HEAD'' then NGX_HTTP_HEAD else old
      else if p - m = 5 then
        if s = s2b ''MKCOL'' then NGX_HTTP_MKCOL
        else if s = s2b ''PATCH'' then NGX_HTTP_PATCH
        else if s = s2b ''TRACE'' then NGX_HTTP_TRACE else old
      else if p - m = 6 then
        if s = s2b ''DELETE'' then NGX_HTTP_DELETE
        else if s = s2b ''UNLOCK'' then NGX_HTTP_UNLOCK else old
      else if p - m = 7 then (if s = s2b ''OPTIONS'' then NGX_HTTP_OPTIONS else old)
      else if p - m = 8 then (if s = s2b ''PROPFIND'' then NGX_HTTP_PROPFIND else old)
      else if p - m = 9 then (if s = s2b ''PROPPATCH'' then NGX_HTTP_PROPPATCH else old)
      else old)"

section \<open>The cases of the switch\<close>

definition rl_start :: "nat \<Rightarrow> byte \<Rightarrow> request_line \<Rightarrow> rl_action" where
  "rl_start p ch r0 =
     (let r = r0\<lparr>request_start := Some p\<rparr> in
      if ch = ch_CR \<or> ch = ch_LF then Next r
      else if (ch < ch_A \<or> ch > ch_Z) \<and> ch \<noteq> ch_underscore then Stop r (Some PARSE_INVALID_METHOD)
      else Next (r\<lparr>rl_state := rl_sw_method\<rparr>))"

definition rl_method :: "bytes \<Rightarrow> nat \<Rightarrow> byte \<Rightarrow> request_line \<Rightarrow> rl_action" where
  "rl_method mem p ch r =
     (if ch = ch_SP then
        Next (r\<lparr>method_end := Some (p - 1),
                req_method := rl_set_method mem (the (request_start r)) p (req_method r),
                rl_state := rl_sw_spaces_before_uri\<rparr>)
      else if (ch < ch_A \<or> ch > ch_Z) \<and> ch \<noteq> ch_underscore then Stop r (Some PARSE_INVALID_METHOD)
      else Next r)"

definition is_alpha :: "byte \<Rightarrow> bool" where
  "is_alpha ch \<longleftrightarrow> (let c = ch OR 0x20 in c \<ge> ch_a \<and> c \<le> ch_z)"

definition rl_spaces_before_uri :: "nat \<Rightarrow> byte \<Rightarrow> request_line \<Rightarrow> rl_action" where
  "rl_spaces_before_uri p ch r =
     (if ch = ch_slash then Next (r\<lparr>uri_start := Some p, rl_state := rl_sw_after_slash_in_uri\<rparr>)
      else if is_alpha ch then Next (r\<lparr>schema_start := Some p, rl_state := rl_sw_schema\<rparr>)
      else if ch = ch_SP then Next r
      else invalid_request r)"

definition rl_schema :: "nat \<Rightarrow> byte \<Rightarrow> request_line \<Rightarrow> rl_action" where
  "rl_schema p ch r =
     (if is_alpha ch then Next r
      else if ch = ch_colon then Next (r\<lparr>schema_end := Some p, rl_state := rl_sw_schema_slash\<rparr>)
      else invalid_request r)"

definition rl_schema_slash :: "byte \<Rightarrow> request_line \<Rightarrow> rl_action" where
  "rl_schema_slash ch r =
     (if ch = ch_slash then Next (r\<lparr>rl_state := rl_sw_schema_slash_slash\<rparr>) else invalid_request r)"

definition rl_schema_slash_slash :: "byte \<Rightarrow> request_line \<Rightarrow> rl_action" where
  "rl_schema_slash_slash ch r =
     (if ch = ch_slash then Next (r\<lparr>rl_state := rl_sw_host_start\<rparr>) else invalid_request r)"

text \<open>The single \<open>/\<close> of the request line used as the URI when a host is followed by a space.\<close>

definition rl_uri_of_schema :: "request_line \<Rightarrow> request_line" where
  "rl_uri_of_schema r =
     r\<lparr>uri_start := map_option (\<lambda>e. e + 1) (schema_end r),
       uri_end := map_option (\<lambda>e. e + 2) (schema_end r),
       rl_state := rl_sw_host_http_09\<rparr>"

definition rl_host_end :: "nat \<Rightarrow> byte \<Rightarrow> request_line \<Rightarrow> rl_action" where
  "rl_host_end p ch r0 =
     (let r = r0\<lparr>host_end := Some p\<rparr> in
      if ch = ch_colon then Next (r\<lparr>rl_state := rl_sw_port\<rparr>)
      else if ch = ch_slash then Next (r\<lparr>uri_start := Some p, rl_state := rl_sw_after_slash_in_uri\<rparr>)
      else if ch = ch_SP then Next (rl_uri_of_schema r)
      else invalid_request r)"

definition rl_host :: "nat \<Rightarrow> byte \<Rightarrow> request_line \<Rightarrow> rl_action" where
  "rl_host p ch r =
     (if is_alpha ch then Next r
      else if (ch \<ge> ch_0 \<and> ch \<le> ch_9) \<or> ch = ch_dot \<or> ch = ch_minus then Next r
      else rl_host_end p ch r)"

definition rl_host_start :: "nat \<Rightarrow> byte \<Rightarrow> request_line \<Rightarrow> rl_action" where
  "rl_host_start p ch r0 =
     (let r = r0\<lparr>host_start := Some p\<rparr> in
      if ch = ch_lbracket then Next (r\<lparr>rl_state := rl_sw_host_ip_literal\<rparr>)
      else rl_host p ch (r\<lparr>rl_state := rl_sw_host\<rparr>))"

definition rl_host_ip_literal :: "byte \<Rightarrow> request_line \<Rightarrow> rl_action" where
  "rl_host_ip_literal ch r =
     (if ch \<ge> ch_0 \<and> ch \<le> ch_9 then Next r
      else if is_alpha ch then Next r
      else if ch = ch_colon then Next r
      else if ch = ch_rbracket then Next (r\<lparr>rl_state := rl_sw_host_end\<rparr>)
      else if ch \<in> set (s2b ''-._~'') then Next r
      else if ch \<in> set (s2b [CHR ''!'', CHR ''$'', CHR ''&'', CHR 0x27, CHR ''('', CHR '')'',
                             CHR ''*'', CHR ''+'', CHR '','', CHR '';'', CHR ''='']) then Next r
      else invalid_request r)"

definition rl_port :: "nat \<Rightarrow> byte \<Rightarrow> request_line \<Rightarrow> rl_action" where
  "rl_port p ch r =
     (if ch \<ge> ch_0 \<and> ch \<le> ch_9 then Next r
      else if ch = ch_slash then
        Next (r\<lparr>port_end := Some p, uri_start := Some p, rl_state := rl_sw_after_slash_in_uri\<rparr>)
      else if ch = ch_SP then Next (rl_uri_of_schema (r\<lparr>port_end := Some p\<rparr>))
      else invalid_request r)"

text \<open>
  The three states after a URI: \<open>sw_host_http_09\<close>, \<open>sw_check_uri_http_09\<close> and
  \<open>sw_http_09\<close> treat a space, the end of the line and \<open>H\<close> alike.
\<close>

definition rl_host_http_09 :: "nat \<Rightarrow> byte \<Rightarrow> request_line \<Rightarrow> rl_action" where
  "rl_host_http_09 p ch r =
     (if ch = ch_SP then Next r
      else if ch = ch_CR then Next (r\<lparr>http_minor := 9, rl_state := rl_sw_almost_done\<rparr>)
      else if ch = ch_LF then goto_done (r\<lparr>http_minor := 9\<rparr>)
      else if ch = ch_H then Next (r\<lparr>http_protocol := Some p, rl_state := rl_sw_http_H\<rparr>)
      else invalid_request r)"

definition rl_after_slash_in_uri :: "nat \<Rightarrow> byte \<Rightarrow> request_line \<Rightarrow> rl_action" where
  "rl_after_slash_in_uri p ch r =
     (if is_usual ch then Next (r\<lparr>rl_state := rl_sw_check_uri\<rparr>)
      else if ch = ch_SP then Next (r\<lparr>uri_end := Some p, rl_state := rl_sw_check_uri_http_09\<rparr>)
      else if ch = ch_CR then
        Next (r\<lparr>uri_end := Some p, http_minor := 9, rl_state := rl_sw_almost_done\<rparr>)
      else if ch = ch_LF then goto_done (r\<lparr>uri_end := Some p, http_minor := 9\<rparr>)
      else if ch = ch_dot then Next (r\<lparr>complex_uri := True, rl_state := rl_sw_uri\<rparr>)
      else if ch = ch_percent then Next (r\<lparr>quoted_uri := True, rl_state := rl_sw_uri\<rparr>)
      else if ch = ch_slash then Next (r\<lparr>complex_uri := True, rl_state := rl_sw_uri\<rparr>)
      else if ch = ch_qmark then Next (r\<lparr>args_start := Some (p + 1), rl_state := rl_sw_uri\<rparr>)
      else if ch = ch_hash then Next (r\<lparr>complex_uri := True, rl_state := rl_sw_uri\<rparr>)
      else if ch = ch_plus then Next (r\<lparr>plus_in_uri := True\<rparr>)
      else if ch = ch_NUL then invalid_request r
      else Next (r\<lparr>rl_state := rl_sw_check_uri\<rparr>))"

definition rl_check_uri :: "nat \<Rightarrow> byte \<Rightarrow> request_line \<Rightarrow> rl_action" where
  "rl_check_uri p ch r =
     (if is_usual ch then Next r
      else if ch = ch_slash then Next (r\<lparr>uri_ext := None, rl_state := rl_sw_after_slash_in_uri\<rparr>)
      else if ch = ch_dot then Next (r\<lparr>uri_ext := Some (p + 1)\<rparr>)
      else if ch = ch_SP then Next (r\<lparr>uri_end := Some p, rl_state := rl_sw_check_uri_http_09\<rparr>)
      else if ch = ch_CR then
        Next (r\<lparr>uri_end := Some p, http_minor := 9, rl_state := rl_sw_almost_done\<rparr>)
      else if ch = ch_LF then goto_done (r\<lparr>uri_end := Some p, http_minor := 9\<rparr>)
      else if ch = ch_percent then Next (r\<lparr>quoted_uri := True, rl_state := rl_sw_uri\<rparr>)
      else if ch = ch_qmark then Next (r\<lparr>args_start := Some (p + 1), rl_state := rl_sw_uri\<rparr>)
      else if ch = ch_hash then Next (r\<lparr>complex_uri := True, rl_state := rl_sw_uri\<rparr>)
      else if ch = ch_plus then Next (r\<lparr>plus_in_uri := True\<rparr>)
      else if ch = ch_NUL then invalid_request r
      else Next r)"

definition rl_check_uri_http_09 :: "nat \<Rightarrow> byte \<Rightarrow> request_line \<Rightarrow> rl_action" where
  "rl_check_uri_http_09 p ch r =
     (if ch = ch_SP then Next r
      else if ch = ch_CR then Next (r\<lparr>http_minor := 9, rl_state := rl_sw_almost_done\<rparr>)
      else if ch = ch_LF then goto_done (r\<lparr>http_minor := 9\<rparr>)
      else if ch = ch_H then Next (r\<lparr>http_protocol := Some p, rl_state := rl_sw_http_H\<rparr>)
      else Next (r\<lparr>space_in_uri := True, rl_state := rl_sw_check_uri\<rparr>))"

definition rl_uri :: "nat \<Rightarrow> byte \<Rightarrow> request_line \<Rightarrow> rl_action" where
  "rl_uri p ch r =
     (if is_usual ch then Next r
      else if ch = ch_SP then Next (r\<lparr>uri_end := Some p, rl_state := rl_sw_http_09\<rparr>)
      else if ch = ch_CR then
        Next (r\<lparr>uri_end := Some p, http_minor := 9, rl_state := rl_sw_almost_done\<rparr>)
      else if ch = ch_LF then goto_done (r\<lparr>uri_end := Some p, http_minor := 9\<rparr>)
      else if ch = ch_hash then Next (r\<lparr>complex_uri := True\<rparr>)
      else if ch = ch_NUL then invalid_request r
      else Next r)"

definition rl_http_09 :: "nat \<Rightarrow> byte \<Rightarrow> request_line \<Rightarrow> rl_action" where
  "rl_http_09 p ch r =
     (if ch = ch_SP then Next r
      else if ch = ch_CR then Next (r\<lparr>http_minor := 9, rl_state := rl_sw_almost_done\<rparr>)
      else if ch = ch_LF then goto_done (r\<lparr>http_minor := 9\<rparr>)
      else if ch = ch_H then Next (r\<lparr>http_protocol := Some p, rl_state := rl_sw_http_H\<rparr>)
      else Next (r\<lparr>space_in_uri := True, rl_state := rl_sw_uri\<rparr>))"

text \<open>The letters of \<open>HTTP/\<close>: the expected byte moves to the next state.\<close>

definition rl_expect :: "byte \<Rightarrow> rl_sw \<Rightarrow> byte \<Rightarrow> request_line \<Rightarrow> rl_action" where
  "rl_expect want next_state ch r =
     (if ch = want then Next (r\<lparr>rl_state := next_state\<rparr>) else invalid_request r)"

definition rl_first_major_digit :: "byte \<Rightarrow> request_line \<Rightarrow> rl_action" where
  "rl_first_major_digit ch r =
     (if ch < ch_1 \<or> ch > ch_9 then invalid_request r
      else Next (r\<lparr>http_major := ucast (ch - ch_0), rl_state := rl_sw_major_digit\<rparr>))"

definition rl_major_digit :: "byte \<Rightarrow> request_line \<Rightarrow> rl_action" where
  "rl_major_digit ch r =
     (if ch = ch_dot then Next (r\<lparr>rl_state := rl_sw_first_minor_digit\<rparr>)
      else if ch < ch_0 \<or> ch > ch_9 then invalid_request r
      else Next (r\<lparr>http_major := http_major r * 10 + ucast (ch - ch_0)\<rparr>))"

definition rl_first_minor_digit :: "byte \<Rightarrow> request_line \<Rightarrow> rl_action" where
  "rl_first_minor_digit ch r =
     (if ch < ch_0 \<or> ch > ch_9 then invalid_request r
      else Next (r\<lparr>http_minor := ucast (ch - ch_0), rl_state := rl_sw_minor_digit\<rparr>))"

definition rl_minor_digit :: "byte \<Rightarrow> request_line \<Rightarrow> rl_action" where
  "rl_minor_digit ch r =
     (if ch = ch_CR then Next (r\<lparr>rl_state := rl_sw_almost_done\<rparr>)
      else if ch = ch_LF then goto_done r
      else if ch = ch_SP then Next (r\<lparr>rl_state := rl_sw_spaces_after_digit\<rparr>)
      else if ch < ch_0 \<or> ch > ch_9 then invalid_request r
      else Next (r\<lparr>http_minor := http_minor r * 10 + ucast (ch - ch_0)\<rparr>))"

definition rl_spaces_after_digit :: "byte \<Rightarrow> request_line \<Rightarrow> rl_action" where
  "rl_spaces_after_digit ch r =
     (if ch = ch_SP then Next r
      else if ch = ch_CR then Next (r\<lparr>rl_state := rl_sw_almost_done\<rparr>)
      else if ch = ch_LF then goto_done r
      else invalid_request r)"

definition rl_almost_done :: "nat \<Rightarrow> byte \<Rightarrow> request_line \<Rightarrow> rl_action" where
  "rl_almost_done p ch r0 =
     (let r = r0\<lparr>request_end := Some (p - 1)\<rparr> in
      if ch = ch_LF then goto_done r else invalid_request r)"

section \<open>The function\<close>

definition rl_step :: "bytes \<Rightarrow> nat \<Rightarrow> byte \<Rightarrow> request_line \<Rightarrow> rl_action" where
  "rl_step mem p ch r =
     (case rl_state r of
        rl_sw_start \<Rightarrow> rl_start p ch r
      | rl_sw_method \<Rightarrow> rl_method mem p ch r
      | rl_sw_spaces_before_uri \<Rightarrow> rl_spaces_before_uri p ch r
      | rl_sw_schema \<Rightarrow> rl_schema p ch r
      | rl_sw_schema_slash \<Rightarrow> rl_schema_slash ch r
      | rl_sw_schema_slash_slash \<Rightarrow> rl_schema_slash_slash ch r
      | rl_sw_host_start \<Rightarrow> rl_host_start p ch r
      | rl_sw_host \<Rightarrow> rl_host p ch r
      | rl_sw_host_end \<Rightarrow> rl_host_end p ch r
      | rl_sw_host_ip_literal \<Rightarrow> rl_host_ip_literal ch r
      | rl_sw_port \<Rightarrow> rl_port p ch r
      | rl_sw_host_http_09 \<Rightarrow> rl_host_http_09 p ch r
      | rl_sw_after_slash_in_uri \<Rightarrow> rl_after_slash_in_uri p ch r
      | rl_sw_check_uri \<Rightarrow> rl_check_uri p ch r
      | rl_sw_check_uri_http_09 \<Rightarrow> rl_check_uri_http_09 p ch r
      | rl_sw_uri \<Rightarrow> rl_uri p ch r
      | rl_sw_http_09 \<Rightarrow> rl_http_09 p ch r
      | rl_sw_http_H \<Rightarrow> rl_expect ch_T rl_sw_http_HT ch r
      | rl_sw_http_HT \<Rightarrow> rl_expect ch_T rl_sw_http_HTT ch r
      | rl_sw_http_HTT \<Rightarrow> rl_expect ch_P rl_sw_http_HTTP ch r
      | rl_sw_http_HTTP \<Rightarrow> rl_expect ch_slash rl_sw_first_major_digit ch r
      | rl_sw_first_major_digit \<Rightarrow> rl_first_major_digit ch r
      | rl_sw_major_digit \<Rightarrow> rl_major_digit ch r
      | rl_sw_first_minor_digit \<Rightarrow> rl_first_minor_digit ch r
      | rl_sw_minor_digit \<Rightarrow> rl_minor_digit ch r
      | rl_sw_spaces_after_digit \<Rightarrow> rl_spaces_after_digit ch r
      | rl_sw_almost_done \<Rightarrow> rl_almost_done p ch r)"

definition rl_done :: "nat \<Rightarrow> request_line \<Rightarrow> request_line \<times> http_parse_rc" where
  "rl_done p r0 =
     (let r = (if request_end r0 = None then r0\<lparr>request_end := Some p\<rparr> else r0);
          r' = r\<lparr>http_version := ucast (http_major r) * 1000 + ucast (http_minor r),
                 rl_state := rl_sw_start\<rparr>
      in (r', if http_version r' = 9 \<and> req_method r' \<noteq> NGX_HTTP_GET
              then PARSE_INVALID_09_METHOD else PARSE_OK))"

text \<open>
  The result is the new \<open>b->pos\<close>, the request and the return code. An error return
  leaves \<open>b->pos\<close> and \<open>r->state\<close> as they were, the local \<open>state\<close> is lost.
\<close>

definition ngx_http_parse_request_line ::
  "bytes \<Rightarrow> nat \<Rightarrow> nat \<Rightarrow> request_line \<Rightarrow> nat \<times> request_line \<times> http_parse_rc" where
  "ngx_http_parse_request_line mem pos lim r =
     (case scan rl_step mem pos lim r of
        (p, r', None) \<Rightarrow> (p, r', PARSE_AGAIN)
      | (p, r', Some (Some rc)) \<Rightarrow> (pos, r'\<lparr>rl_state := rl_state r\<rparr>, rc)
      | (p, r', Some None) \<Rightarrow> (case rl_done p r' of (r'', rc) \<Rightarrow> (p + 1, r'', rc)))"

text \<open>The request as \<open>ngx_http_init_request\<close> hands it over (a zeroed structure).\<close>

definition rl_init :: request_line where
  "rl_init = \<lparr>rl_state = rl_sw_start, req_method = NGX_HTTP_UNKNOWN, request_start = None,
     request_end = None, method_end = None, uri_start = None, uri_end = None, uri_ext = None,
     args_start = None, schema_start = None, schema_end = None, host_start = None,
     host_end = None, port_end = None, http_protocol = None, http_major = 0, http_minor = 0,
     http_version = 0, complex_uri = False, quoted_uri = False, plus_in_uri = False,
     space_in_uri = False\<rparr>"

section \<open>Facts about single steps\<close>

lemma usual_rows:
  "list_all (\<lambda>n. bit (usual ! 0) n \<longleftrightarrow> 32 * 0 + n \<notin> {0, 10, 13, 32, 35, 37, 43, 46, 47, 63}) [0..<32]"
  "list_all (\<lambda>n. bit (usual ! 1) n \<longleftrightarrow> 32 * 1 + n \<notin> {0, 10, 13, 32, 35, 37, 43, 46, 47, 63}) [0..<32]"
  by (simp_all add: upt_conv_Cons usual_def)

lemma is_usual_iff:
  "is_usual ch \<longleftrightarrow> unat ch \<notin> {0, 10, 13, 32, 35, 37, 43, 46, 47, 63}"
proof -
  consider "unat ch div 32 = 0" | "unat ch div 32 = 1" | "2 \<le> unat ch div 32" by linarith
  then show ?thesis
  proof cases
    case 3
    then have "64 \<le> unat ch" by simp
    moreover have "usual ! (unat ch div 32) = 0xffffffff"
    proof -
      have "list_all (\<lambda>i. usual ! i = 0xffffffff) [2..<8]"
        by (simp add: upt_conv_Cons usual_def)
      moreover have "unat ch div 32 \<in> set [2..<8]" using 3 byte_div_32 [of ch] by (simp only: set_upt atLeastLessThan_iff)
      ultimately show ?thesis by (simp only: list_all_iff)
    qed
    ultimately show ?thesis
      using list_all_upt [OF bitmap_ones, of "unat ch mod 32"]
      by (auto simp: is_usual_def bitmap_test_bit)
  qed (simp_all add: is_usual_def bitmap_row [OF usual_rows(1)] bitmap_row [OF usual_rows(2)])
qed
lemma rl_set_method_arrived:
  "p < length mem \<Longrightarrow> rl_set_method (mem @ rest) m p old = rl_set_method mem m p old"
proof -
  assume "p < length mem"
  then have "subarray (mem @ rest) m p = subarray mem m p"
    and "p - m = 4 \<Longrightarrow> (mem @ rest) ! (m + 1) = mem ! (m + 1)"
    by (auto simp: nth_append)
  then show ?thesis
    unfolding rl_set_method_def Let_def by (cases "p - m = 4") (simp_all only: if_True if_False)
qed

lemmas rl_step_defs = rl_start_def rl_method_def rl_spaces_before_uri_def rl_schema_def
  rl_schema_slash_def rl_schema_slash_slash_def rl_host_start_def rl_host_def rl_host_end_def
  rl_host_ip_literal_def rl_port_def rl_host_http_09_def rl_after_slash_in_uri_def rl_check_uri_def
  rl_check_uri_http_09_def rl_uri_def rl_http_09_def rl_expect_def rl_first_major_digit_def
  rl_major_digit_def rl_first_minor_digit_def rl_minor_digit_def rl_spaces_after_digit_def
  rl_almost_done_def rl_uri_of_schema_def

interpretation rl: incremental_parser rl_step
  by unfold_locales (simp add: rl_step_def rl_method_def rl_set_method_arrived split: rl_sw.split)


section \<open>The invariant of the loop\<close>

text \<open>
  What is known at offset \<open>p\<close> in each state: the method has been read, a schema has been
  read, a URI is open (started, its end not yet seen) or closed. A URI is clean when it
  holds no NUL, CR, LF or space; once \<open>space_in_uri\<close> is set nothing is known any more.
  The predicates speak of the field values, so that record updates of other fields
  simplify away.
\<close>

definition rl_clean :: "bytes \<Rightarrow> nat \<Rightarrow> nat \<Rightarrow> bool \<Rightarrow> bool" where
  "rl_clean mem u v sp \<longleftrightarrow> sp \<or> (\<forall>i\<in>{u..<v}. mem ! i \<notin> {ch_NUL, ch_LF, ch_CR, ch_SP})"

definition rl_method_read :: "nat \<Rightarrow> nat \<Rightarrow> nat option \<Rightarrow> nat option \<Rightarrow> bool" where
  "rl_method_read pos p rs me \<longleftrightarrow>
     (\<exists>s e. rs = Some s \<and> me = Some e \<and> pos \<le> s \<and> s \<le> e \<and> e + 1 < p)"

definition rl_schema_read :: "bytes \<Rightarrow> nat \<Rightarrow> nat \<Rightarrow> nat option \<Rightarrow> nat option \<Rightarrow> bool" where
  "rl_schema_read mem n p me se \<longleftrightarrow>
     (\<exists>e k. me = Some e \<and> se = Some k \<and> e + 1 < k \<and> k + n < p \<and> (0 < n \<longrightarrow> mem ! (k + 1) = ch_slash))"

definition rl_uri_open :: "bytes \<Rightarrow> nat \<Rightarrow> nat option \<Rightarrow> nat option \<Rightarrow> bool \<Rightarrow> bool" where
  "rl_uri_open mem p me us sp \<longleftrightarrow>
     (\<exists>e u. me = Some e \<and> us = Some u \<and> e + 1 < u \<and> u < p \<and> mem ! u = ch_slash \<and> rl_clean mem u p sp)"

definition rl_uri_closed ::
  "bytes \<Rightarrow> nat \<Rightarrow> nat option \<Rightarrow> nat option \<Rightarrow> nat option \<Rightarrow> bool \<Rightarrow> bool" where
  "rl_uri_closed mem p me us ue sp \<longleftrightarrow>
     (\<exists>e u v. me = Some e \<and> us = Some u \<and> ue = Some v \<and> e + 1 < u \<and> u < v \<and> v < p
        \<and> mem ! u = ch_slash \<and> rl_clean mem u v sp)"

definition rl_inv :: "bytes \<Rightarrow> nat \<Rightarrow> nat \<Rightarrow> request_line \<Rightarrow> bool" where
  "rl_inv mem pos p r \<longleftrightarrow> request_end r = None \<and> pos \<le> p \<and>
     (let me = method_end r;
          meth = rl_method_read pos p (request_start r) me;
          schema = (\<lambda>n. meth \<and> rl_schema_read mem n p me (schema_end r));
          opened = (meth \<and> rl_uri_open mem p me (uri_start r) (space_in_uri r));
          closed = (meth \<and> rl_uri_closed mem p me (uri_start r) (uri_end r) (space_in_uri r))
      in case rl_state r of
        rl_sw_start \<Rightarrow> True
      | rl_sw_method \<Rightarrow> (\<exists>s. request_start r = Some s \<and> pos \<le> s \<and> s < p)
      | rl_sw_spaces_before_uri \<Rightarrow> meth
      | rl_sw_schema \<Rightarrow> meth
      | rl_sw_schema_slash \<Rightarrow> schema 0 \<and> schema_end r = Some (p - 1)
      | rl_sw_schema_slash_slash \<Rightarrow> schema 1
      | rl_sw_host_start \<Rightarrow> schema 2
      | rl_sw_host \<Rightarrow> schema 2
      | rl_sw_host_end \<Rightarrow> schema 2
      | rl_sw_host_ip_literal \<Rightarrow> schema 2
      | rl_sw_port \<Rightarrow> schema 2
      | rl_sw_after_slash_in_uri \<Rightarrow> opened
      | rl_sw_check_uri \<Rightarrow> opened
      | rl_sw_uri \<Rightarrow> opened
      | _ \<Rightarrow> closed)"

lemma rl_method_read_mono: "rl_method_read pos p rs me \<Longrightarrow> rl_method_read pos (Suc p) rs me"
  by (fastforce simp: rl_method_read_def)

lemma rl_schema_read_mono: "rl_schema_read mem n p me se \<Longrightarrow> rl_schema_read mem n (Suc p) me se"
  by (fastforce simp: rl_schema_read_def)

lemma rl_schema_read_0:
  "rl_method_read pos p rs me \<Longrightarrow> rl_schema_read mem 0 (Suc p) me (Some p)"
  by (auto simp: rl_schema_read_def rl_method_read_def)

lemma rl_schema_read_1:
  "rl_schema_read mem 0 p me (Some (p - Suc 0)) \<Longrightarrow> mem ! p = ch_slash
   \<Longrightarrow> rl_schema_read mem (Suc 0) (Suc p) me (Some (p - Suc 0))"
  by (auto simp: rl_schema_read_def)

lemma rl_schema_read_2:
  "rl_schema_read mem (Suc 0) p me se \<Longrightarrow> rl_schema_read mem 2 (Suc p) me se"
  by (auto simp: rl_schema_read_def)

lemma rl_uri_open_next:
  "rl_uri_open mem p me us sp \<Longrightarrow> mem ! p \<noteq> ch_NUL \<Longrightarrow> mem ! p \<noteq> ch_LF \<Longrightarrow> mem ! p \<noteq> ch_CR
   \<Longrightarrow> mem ! p \<noteq> ch_SP \<Longrightarrow> rl_uri_open mem (Suc p) me us sp"
  by (auto simp: rl_uri_open_def rl_clean_def less_Suc_eq)

lemma rl_uri_open_first:
  "rl_method_read pos p rs me \<Longrightarrow> mem ! p = ch_slash \<Longrightarrow> rl_uri_open mem (Suc p) me (Some p) sp"
  by (auto simp: rl_uri_open_def rl_clean_def rl_method_read_def less_Suc_eq)

lemma rl_uri_open_close:
  "rl_uri_open mem p me us sp \<Longrightarrow> rl_uri_closed mem (Suc p) me us (Some p) sp"
  by (auto simp: rl_uri_open_def rl_uri_closed_def)

lemma rl_uri_closed_mono:
  "rl_uri_closed mem p me us ue sp \<Longrightarrow> rl_uri_closed mem (Suc p) me us ue sp"
  by (fastforce simp: rl_uri_closed_def)

lemma rl_uri_reopen: "rl_uri_closed mem p me us ue sp \<Longrightarrow> rl_uri_open mem (Suc p) me us True"
  by (auto simp: rl_uri_closed_def rl_uri_open_def rl_clean_def)

lemma rl_uri_of_schema_closed:
  "rl_schema_read mem 2 p me se \<Longrightarrow>
   rl_uri_closed mem (Suc p) me (map_option Suc se) (map_option (\<lambda>e. Suc (Suc e)) se) sp"
  by (auto simp: rl_uri_closed_def rl_schema_read_def rl_clean_def less_Suc_eq)

lemmas rl_transport = rl_method_read_mono rl_schema_read_mono rl_schema_read_1
  rl_schema_read_2 rl_uri_open_next rl_uri_open_close rl_uri_closed_mono rl_uri_of_schema_closed
lemmas rl_enter = rl_schema_read_0 rl_uri_open_first rl_uri_reopen

lemma is_usual_clean:
  "is_usual ch \<Longrightarrow> ch \<noteq> ch_NUL \<and> ch \<noteq> ch_LF \<and> ch \<noteq> ch_CR \<and> ch \<noteq> ch_SP"
  by (auto simp: is_usual_iff)

lemma rl_inv_step:
  assumes "rl_inv mem pos p r" and "rl_step mem p (mem ! p) r = Next r'"
  shows "rl_inv mem pos (Suc p) r'"
proof (cases "rl_state r")
  case rl_sw_method
  with assms show ?thesis
    by (auto simp: rl_inv_def rl_step_def rl_method_def rl_method_read_def split: if_splits)
qed (use assms in \<open>auto simp: rl_inv_def rl_step_def rl_step_defs Let_def rl_transport split: if_splits
  dest!: is_usual_clean intro: rl_enter\<close>)

section \<open>Accepted lines are safe\<close>

lemma rl_done_step:
  assumes "rl_inv mem pos p r" and "rl_step mem p (mem ! p) r = Stop r' None"
  shows "rl_method_read pos (Suc p) (request_start r') (method_end r')
    \<and> rl_uri_closed mem (Suc p) (method_end r') (uri_start r') (uri_end r') (space_in_uri r')
    \<and> (request_end r' = None
       \<or> request_end r' = Some (p - 1)
         \<and> rl_uri_closed mem p (method_end r') (uri_start r') (uri_end r') (space_in_uri r'))"
proof (cases "rl_state r")
qed (use assms in \<open>auto simp: rl_inv_def rl_step_def rl_step_defs Let_def rl_transport split: if_splits\<close>)

subsection \<open>The pointers into the URI, the authority and the protocol\<close>

definition rl_unset :: "request_line \<Rightarrow> bool" where
  "rl_unset r \<longleftrightarrow> args_start r = None \<and> uri_ext r = None \<and> schema_start r = None \<and> schema_end r = None
     \<and> host_start r = None \<and> host_end r = None \<and> port_end r = None \<and> http_protocol r = None"

text \<open>
  \<open>uri_ext\<close> and \<open>args_start\<close> stand behind a dot and behind a question mark of the URI, in this order.
\<close>

definition rl_query :: "bytes \<Rightarrow> nat \<Rightarrow> nat \<Rightarrow> nat option \<Rightarrow> nat option \<Rightarrow> bool" where
  "rl_query mem u v ext args \<longleftrightarrow>
     (\<forall>x. ext = Some x \<longrightarrow> u + 1 < x \<and> x \<le> v \<and> mem ! (x - 1) = ch_dot \<and> (\<forall>a. args = Some a \<longrightarrow> x < a))
     \<and> (\<forall>a. args = Some a \<longrightarrow> u + 1 < a \<and> a \<le> v \<and> mem ! (a - 1) = ch_qmark)"

text \<open>
  The schema lies between the method and its colon, the host starts behind \<open>://\<close>, its end is not before its start and not
  behind the end of the port. The URI starts there, or, when a space follows, it is the first of the two slashes.
\<close>

definition rl_schema_at :: "bytes \<Rightarrow> nat \<Rightarrow> nat option \<Rightarrow> nat option \<Rightarrow> nat option \<Rightarrow> nat \<Rightarrow> bool" where
  "rl_schema_at mem e ss se hs h \<longleftrightarrow>
     (\<exists>a b. ss = Some a \<and> se = Some b \<and> hs = Some h \<and> e + 1 < a \<and> a < b \<and> b + 3 = h \<and> mem ! b = ch_colon)"

definition rl_authority ::
  "bytes \<Rightarrow> nat \<Rightarrow> nat \<Rightarrow> nat \<Rightarrow> nat option \<Rightarrow> nat option \<Rightarrow> nat option \<Rightarrow> nat option \<Rightarrow> nat option \<Rightarrow> bool" where
  "rl_authority mem p e u ss se hs he pe \<longleftrightarrow>
     ss = None \<and> se = None \<and> hs = None \<and> he = None \<and> pe = None
     \<or> (\<exists>h k m. rl_schema_at mem e ss se hs h \<and> he = Some k \<and> h \<le> k \<and> k \<le> m \<and> m < p
         \<and> (pe = None \<and> m = k \<or> pe = Some m \<and> k < m) \<and> (u = m \<or> u + 2 = h))"

definition rl_host_read :: "bytes \<Rightarrow> nat \<Rightarrow> nat \<Rightarrow> request_line \<Rightarrow> bool" where
  "rl_host_read mem p e r \<longleftrightarrow> args_start r = None \<and> uri_ext r = None \<and> http_protocol r = None \<and> port_end r = None
     \<and> (\<exists>h<p. rl_schema_at mem e (schema_start r) (schema_end r) (host_start r) h)"

definition rl_ptrs :: "bytes \<Rightarrow> nat \<Rightarrow> request_line \<Rightarrow> bool" where
  "rl_ptrs mem p r \<longleftrightarrow>
     (let e = the (method_end r); u = the (uri_start r);
          auth = rl_authority mem p e u (schema_start r) (schema_end r) (host_start r) (host_end r) (port_end r);
          opened = (auth \<and> rl_query mem u p (uri_ext r) (args_start r) \<and> http_protocol r = None);
          closed = (auth \<and> rl_query mem u (the (uri_end r)) (uri_ext r) (args_start r));
          protocol = (\<exists>h<p. http_protocol r = Some h \<and> the (uri_end r) < h \<and> mem ! h = ch_H);
          schema = (\<lambda>n. \<exists>a b. rl_unset (r\<lparr>schema_start := None, schema_end := None\<rparr>)
            \<and> schema_start r = Some a \<and> schema_end r = Some b \<and> e + 1 < a \<and> a < b \<and> b + 1 + n = p \<and> mem ! b = ch_colon)
      in case rl_state r of
        rl_sw_start \<Rightarrow> rl_unset r
      | rl_sw_method \<Rightarrow> rl_unset r
      | rl_sw_spaces_before_uri \<Rightarrow> rl_unset r
      | rl_sw_schema \<Rightarrow> rl_unset (r\<lparr>schema_start := None\<rparr>) \<and> (\<exists>a. schema_start r = Some a \<and> e + 1 < a \<and> a < p)
      | rl_sw_schema_slash \<Rightarrow> schema 0
      | rl_sw_schema_slash_slash \<Rightarrow> schema 1
      | rl_sw_host_start \<Rightarrow> schema 2
      | rl_sw_host \<Rightarrow> host_end r = None \<and> rl_host_read mem p e r
      | rl_sw_host_end \<Rightarrow> host_end r = None \<and> rl_host_read mem p e r
      | rl_sw_host_ip_literal \<Rightarrow> host_end r = None \<and> rl_host_read mem p e r
      | rl_sw_port \<Rightarrow> rl_host_read mem p e r \<and> (\<exists>k<p. host_end r = Some k \<and> the (host_start r) \<le> k)
      | rl_sw_after_slash_in_uri \<Rightarrow> opened \<and> args_start r = None
      | rl_sw_check_uri \<Rightarrow> opened \<and> args_start r = None
      | rl_sw_uri \<Rightarrow> opened
      | rl_sw_check_uri_http_09 \<Rightarrow> closed \<and> args_start r = None \<and> http_protocol r = None
      | rl_sw_host_http_09 \<Rightarrow> closed \<and> http_protocol r = None
      | rl_sw_http_09 \<Rightarrow> closed \<and> http_protocol r = None
      | rl_sw_almost_done \<Rightarrow> closed \<and> (http_protocol r = None \<or> (\<exists>h<p - 1. http_protocol r = Some h \<and> the (uri_end r) < h \<and> mem ! h = ch_H))
      | _ \<Rightarrow> closed \<and> protocol)"

lemma rl_query_mono: "rl_query mem u v ext args \<Longrightarrow> v \<le> v' \<Longrightarrow> rl_query mem u v' ext args"
  by (fastforce simp: rl_query_def)

lemma rl_query_ext: "rl_query mem u p ext None \<Longrightarrow> u < p \<Longrightarrow> mem ! p = ch_dot \<Longrightarrow> rl_query mem u (Suc p) (Some (Suc p)) None"
  by (simp add: rl_query_def)

lemma rl_query_args: "rl_query mem u p ext None \<Longrightarrow> u < p \<Longrightarrow> mem ! p = ch_qmark \<Longrightarrow> rl_query mem u (Suc p) ext (Some (Suc p))"
  by (fastforce simp: rl_query_def)

lemma rl_query_none [simp]: "rl_query mem u v None None"
  by (simp add: rl_query_def)

lemma rl_authority_mono: "rl_authority mem p e u ss se hs he pe \<Longrightarrow> rl_authority mem (Suc p) e u ss se hs he pe"
  by (fastforce simp: rl_authority_def)

lemma rl_authority_none [simp]: "rl_authority mem p e u None None None None None"
  by (simp add: rl_authority_def)

lemma rl_authority_shape:
  "rl_authority mem (Suc q) e u ss se hs he pe \<Longrightarrow>
   ss = None \<and> se = None \<and> hs = None \<and> he = None \<and> pe = None
   \<or> (\<exists>a b h k. ss = Some a \<and> se = Some b \<and> hs = Some h \<and> he = Some k
        \<and> e + 1 < a \<and> a < b \<and> mem ! b = ch_colon \<and> h = b + 3 \<and> h \<le> k \<and> k \<le> q
        \<and> (\<forall>m. pe = Some m \<longrightarrow> k < m \<and> m \<le> q)
        \<and> (u = b + 1 \<or> u = (case pe of None \<Rightarrow> k | Some m \<Rightarrow> m)))"
  by (auto simp: rl_authority_def rl_schema_at_def)

lemma rl_read_the:
  "rl_method_read pos p rs me \<Longrightarrow> the me + 1 < p"
  "rl_uri_open mem p me us sp \<Longrightarrow> the us < p"
  "rl_uri_closed mem p me us ue sp \<Longrightarrow> the us < the ue \<and> the ue < p"
  by (auto simp: rl_method_read_def rl_uri_open_def rl_uri_closed_def)

text \<open>The states up to the port, and those behind the start of the URI.\<close>

lemma rl_ptrs_step_front:
  assumes "rl_inv mem pos p r" "rl_ptrs mem p r" and "rl_step mem p (mem ! p) r = Next r'"
    and "rl_state r \<in> {rl_sw_start, rl_sw_method, rl_sw_spaces_before_uri, rl_sw_schema, rl_sw_schema_slash, rl_sw_schema_slash_slash,
      rl_sw_host_start, rl_sw_host, rl_sw_host_end, rl_sw_host_ip_literal, rl_sw_port}"
  shows "rl_ptrs mem (Suc p) r'"
proof (cases "rl_state r")
qed (use assms in \<open>auto simp: rl_inv_def rl_ptrs_def rl_step_def rl_step_defs Let_def rl_unset_def rl_host_read_def rl_authority_def
    rl_schema_at_def dest!: rl_read_the split: if_splits\<close>)

lemma rl_ptrs_step:
  assumes "rl_inv mem pos p r" "rl_ptrs mem p r" and "rl_step mem p (mem ! p) r = Next r'"
  shows "rl_ptrs mem (Suc p) r'"
proof (cases "rl_state r")
qed (use assms rl_ptrs_step_front [OF assms] in \<open>auto simp: rl_inv_def rl_ptrs_def rl_step_def rl_step_defs Let_def rl_authority_mono rl_query_ext rl_query_args
    dest!: rl_read_the elim!: rl_query_mono split: if_splits\<close>)

lemma rl_ptrs_done:
  assumes "rl_inv mem pos p r" "rl_ptrs mem p r" and "rl_step mem p (mem ! p) r = Stop r' None"
    and "q = (if request_end r' = None then p else p - 1)"
  shows "rl_authority mem (Suc q) (the (method_end r')) (the (uri_start r'))
       (schema_start r') (schema_end r') (host_start r') (host_end r') (port_end r')
    \<and> rl_query mem (the (uri_start r')) (the (uri_end r')) (uri_ext r') (args_start r')
    \<and> (\<forall>h. http_protocol r' = Some h \<longrightarrow> the (uri_end r') < h \<and> h < q \<and> mem ! h = ch_H)"
proof (cases "rl_state r")
  case rl_sw_almost_done
  then have "Suc q = p" "request_end r' \<noteq> None"
    using assms by (auto simp: rl_inv_def rl_step_def rl_almost_done_def Let_def dest!: rl_read_the split: if_splits)
  then show ?thesis using assms rl_sw_almost_done
    by (auto simp: rl_ptrs_def rl_step_def rl_almost_done_def Let_def split: if_splits)
qed (use assms in \<open>auto simp: rl_inv_def rl_ptrs_def rl_step_def rl_step_defs Let_def rl_authority_mono split: if_splits\<close>)

lemma rl_parse_ok_cases:
  assumes "ngx_http_parse_request_line mem pos lim r = (n, r', PARSE_OK)" and "pos \<le> lim"
    and "rl_inv mem pos pos r" "rl_ptrs mem pos r"
  obtains p r0 r1 where "pos \<le> p" "p < lim" "n = Suc p" "rl_inv mem pos p r0" "rl_ptrs mem p r0"
    "rl_step mem p (mem ! p) r0 = Stop r1 None" "rl_done p r1 = (r', PARSE_OK)"
proof -
  obtain q r1 x where sc: "scan rl_step mem pos lim r = (q, r1, x)"
    by (cases "scan rl_step mem pos lim r") auto
  have inv: "case x of None \<Rightarrow> q = lim \<and> rl_inv mem pos q r1 \<and> rl_ptrs mem q r1
      | Some e \<Rightarrow> pos \<le> q \<and> q < lim
          \<and> (\<exists>r0. (rl_inv mem pos q r0 \<and> rl_ptrs mem q r0) \<and> rl_step mem q (mem ! q) r0 = Stop r1 e)"
    using sc conjI [OF assms(3,4)] assms(2) by (rule scan_invariant) (blast intro: rl_inv_step rl_ptrs_step)
  have no_ok: "rl_step mem q (mem ! q) r0 \<noteq> Stop r1 (Some PARSE_OK)" for r0
    by (cases "rl_state r0") (auto simp: rl_step_def rl_step_defs Let_def)
  consider "x = Some None" | "x = Some (Some PARSE_OK)"
    using assms(1) sc by (auto simp: ngx_http_parse_request_line_def split: option.splits prod.splits)
  then show thesis
  proof cases
    case 1
    with inv obtain r0 where "rl_inv mem pos q r0" "rl_ptrs mem q r0" "rl_step mem q (mem ! q) r0 = Stop r1 None"
      and "pos \<le> q" "q < lim" by auto
    moreover have "n = Suc q" "rl_done q r1 = (r', PARSE_OK)"
      using assms(1) sc 1 by (auto simp: ngx_http_parse_request_line_def split: prod.splits)
    ultimately show ?thesis by (intro that)
  next
    case 2
    with inv no_ok show ?thesis by auto
  qed
qed

text \<open>
  C7. Safety of an accepted request line. When \<open>ngx_http_parse_request_line\<close> returns
  \<open>NGX_OK\<close> for a request whose pointers were not set before, the start of the request, the end of the method, the start and the end of the URI, the end of
  the line and the new position are set, lie inside the bytes that have been read and are in order; the URI starts with a slash, and unless \<open>space_in_uri\<close> is set
  it holds no NUL, CR, LF or space. Every other recorded pointer has its place: \<open>uri_ext\<close> is behind a dot and \<open>args_start\<close> behind a
  question mark of the URI, in this order; \<open>http_protocol\<close> is at an \<open>H\<close> between the URI and the end of the line; schema, host and port are not set at all, or schema and host both are, the schema
  stands between the method and a colon, the host starts three bytes behind that colon and the port ends behind the host, all
  inside the line, and the URI starts where the host or the port ends or is the slash behind the colon.
\<close>

theorem request_line_ok:
  assumes "ngx_http_parse_request_line mem pos lim r = (n, r', PARSE_OK)"
    and "pos \<le> lim" and "rl_state r = rl_sw_start" and "request_end r = None" and "rl_unset r"
  shows "\<exists>s e u v q. request_start r' = Some s \<and> method_end r' = Some e
    \<and> uri_start r' = Some u \<and> uri_end r' = Some v \<and> request_end r' = Some q
    \<and> pos \<le> s \<and> s \<le> e \<and> e + 1 < u \<and> u < v \<and> v \<le> q \<and> q < n \<and> n \<le> lim
    \<and> mem ! u = ch_slash
    \<and> (space_in_uri r' \<or> (\<forall>i\<in>{u..<v}. mem ! i \<notin> {ch_NUL, ch_LF, ch_CR, ch_SP}))
    \<and> (\<forall>x. uri_ext r' = Some x \<longrightarrow> u + 1 < x \<and> x \<le> v \<and> mem ! (x - 1) = ch_dot)
    \<and> (\<forall>a. args_start r' = Some a \<longrightarrow> u + 1 < a \<and> a \<le> v \<and> mem ! (a - 1) = ch_qmark
         \<and> (\<forall>x. uri_ext r' = Some x \<longrightarrow> x < a))
    \<and> (\<forall>h. http_protocol r' = Some h \<longrightarrow> v < h \<and> h < q \<and> mem ! h = ch_H)
    \<and> (schema_start r' = None \<and> schema_end r' = None \<and> host_start r' = None \<and> host_end r' = None \<and> port_end r' = None
       \<or> (\<exists>a b h k. schema_start r' = Some a \<and> schema_end r' = Some b \<and> host_start r' = Some h \<and> host_end r' = Some k
            \<and> e + 1 < a \<and> a < b \<and> mem ! b = ch_colon \<and> h = b + 3 \<and> h \<le> k \<and> k \<le> q
            \<and> (\<forall>m. port_end r' = Some m \<longrightarrow> k < m \<and> m \<le> q)
            \<and> (u = b + 1 \<or> u = (case port_end r' of None \<Rightarrow> k | Some m \<Rightarrow> m))))"
proof -
  have inv: "rl_inv mem pos pos r" "rl_ptrs mem pos r"
    using assms(3-5) by (simp_all add: rl_inv_def rl_ptrs_def)
  obtain p r0 r1 where p: "pos \<le> p" "p < lim" "n = Suc p" "rl_inv mem pos p r0" "rl_ptrs mem p r0"
      "rl_step mem p (mem ! p) r0 = Stop r1 None" "rl_done p r1 = (r', PARSE_OK)"
    using rl_parse_ok_cases [OF assms(1,2) inv] .
  have fields: "r' = r1\<lparr>request_end := request_end r', http_version := http_version r', rl_state := rl_state r'\<rparr>"
      "request_end r' = (if request_end r1 = None then Some p else request_end r1)"
    using p(7) by (cases "request_end r1"; auto simp: rl_done_def Let_def)+
  note base = rl_done_step [OF p(4,6)]
  then obtain s e u v where seuv: "request_start r1 = Some s" "method_end r1 = Some e" "uri_start r1 = Some u" "uri_end r1 = Some v"
      "pos \<le> s" "s \<le> e" "e + 1 < u" "u < v" "mem ! u = ch_slash" "rl_clean mem u v (space_in_uri r1)"
    by (auto simp: rl_method_read_def rl_uri_closed_def)
  define q where "q = (if request_end r1 = None then p else p - 1)"
  have q: "request_end r' = Some q" "v \<le> q" "q < n"
    using base seuv p(3) fields(2) by (auto simp: q_def rl_uri_closed_def)
  note ptrs = rl_ptrs_done [OF p(4-6) q_def, unfolded seuv option.sel]
  have sel: "request_start r' = Some s" "method_end r' = Some e" "uri_start r' = Some u" "uri_end r' = Some v"
      "space_in_uri r' = space_in_uri r1" "uri_ext r' = uri_ext r1" "args_start r' = args_start r1" "http_protocol r' = http_protocol r1"
      "schema_start r' = schema_start r1" "schema_end r' = schema_end r1" "host_start r' = host_start r1"
      "host_end r' = host_end r1" "port_end r' = port_end r1"
    by (subst fields(1), simp add: seuv)+
  note auth = rl_authority_shape [OF conjunct1 [OF ptrs]] and proto = conjunct2 [OF conjunct2 [OF ptrs]]
    and query = conjunct1 [OF conjunct2 [OF ptrs], unfolded rl_query_def]
  have ext: "\<forall>x. uri_ext r1 = Some x \<longrightarrow> u + 1 < x \<and> x \<le> v \<and> mem ! (x - 1) = ch_dot"
    and args: "\<forall>a. args_start r1 = Some a \<longrightarrow> u + 1 < a \<and> a \<le> v \<and> mem ! (a - 1) = ch_qmark \<and> (\<forall>x. uri_ext r1 = Some x \<longrightarrow> x < a)"
    using query by simp_all
  have "n \<le> lim" using p(2,3) by simp
  moreover have "space_in_uri r1 \<or> (\<forall>i\<in>{u..<v}. mem ! i \<notin> {ch_NUL, ch_LF, ch_CR, ch_SP})"
    using seuv(10) by (auto simp: rl_clean_def)
  ultimately show ?thesis
    unfolding sel q(1)
    by (intro exI [of _ s] exI [of _ e] exI [of _ u] exI [of _ v] exI [of _ q] conjI auth ext args proto seuv q refl)
qed

theorem request_line_ok_witness:
  "\<exists>r' s e u v q a.
     ngx_http_parse_request_line (s2b ''GET http://h:8/a?b HTTP/1.0'' @ [ch_CR, ch_LF]) 0 29 rl_init = (29, r', PARSE_OK)
     \<and> request_start r' = Some s \<and> method_end r' = Some e \<and> uri_start r' = Some u
     \<and> uri_end r' = Some v \<and> request_end r' = Some q \<and> s \<le> e \<and> e + 1 < u \<and> u < v \<and> v \<le> q \<and> q < 29
     \<and> args_start r' = Some a \<and> u + 1 < a \<and> a \<le> v"
proof -
  let ?mem = "s2b ''GET http://h:8/a?b HTTP/1.0'' @ [ch_CR, ch_LF]"
  let ?r = "rl_init\<lparr>req_method := NGX_HTTP_GET, request_start := Some 0, request_end := Some 27,
     method_end := Some 2, uri_start := Some 14, uri_end := Some 18, args_start := Some 17, schema_start := Some 4, schema_end := Some 8,
     host_start := Some 11, host_end := Some 12, port_end := Some 14, http_protocol := Some 19,
     http_major := 1, http_minor := 0, http_version := 1000\<rparr>"
  have run: "ngx_http_parse_request_line ?mem 0 29 rl_init = (29, ?r, PARSE_OK)"
    by code_simp
  have "rl_state rl_init = rl_sw_start" "request_end rl_init = None" "rl_unset rl_init"
    by (simp_all add: rl_init_def rl_unset_def)
  from request_line_ok [OF run _ this] show ?thesis
    using run by (auto simp del: append.simps)
qed

section \<open>Packet boundaries\<close>

text \<open>The code after the loop, and when two outcomes agree on all that is used afterwards.\<close>

definition rl_leave ::
  "nat \<Rightarrow> request_line \<Rightarrow> nat \<Rightarrow> request_line \<Rightarrow> http_parse_rc option \<Rightarrow> nat \<times> request_line \<times> http_parse_rc" where
  "rl_leave pos r p r' x =
     (case x of
        Some rc \<Rightarrow> (pos, r'\<lparr>rl_state := rl_state r\<rparr>, rc)
      | None \<Rightarrow> (case rl_done p r' of (r'', rc) \<Rightarrow> (p + 1, r'', rc)))"

definition rl_same_outcome ::
  "nat \<times> request_line \<times> http_parse_rc \<Rightarrow> nat \<times> request_line \<times> http_parse_rc \<Rightarrow> bool" where
  "rl_same_outcome a b =
     (case (a, b) of ((p, r, rc), (q, r', rc')) \<Rightarrow>
        rc = rc' \<and> r\<lparr>rl_state := rl_sw_start\<rparr> = r'\<lparr>rl_state := rl_sw_start\<rparr>
        \<and> (rc \<in> {PARSE_OK, PARSE_AGAIN} \<longrightarrow> p = q \<and> r = r'))"

lemma rl_step_error: "rl_step mem p c r = Stop r' (Some rc) \<Longrightarrow> rc \<notin> {PARSE_OK, PARSE_AGAIN}"
  by (cases "rl_state r") (auto simp: rl_step_def rl_step_defs Let_def split: if_splits)

interpretation rl_chunks: chunked_parser rl_step ngx_http_parse_request_line PARSE_AGAIN rl_leave rl_same_outcome
proof
  show "ngx_http_parse_request_line mem pos lim r =
      (case scan rl_step mem pos lim r of
         (p, r', None) \<Rightarrow> (p, r', PARSE_AGAIN)
       | (p, r', Some x) \<Rightarrow> rl_leave pos r p r' x)" for mem pos lim r
    by (auto simp: ngx_http_parse_request_line_def rl_leave_def split: prod.splits option.splits)
  show "snd (snd (rl_leave pos r0 p r' x)) \<noteq> PARSE_AGAIN"
    if "rl_step mem p c r = Stop r' x" for mem p c r r' x pos r0
    using that rl_step_error [of mem p c r r']
    by (auto simp: rl_leave_def rl_done_def Let_def split: option.splits)
  show "rl_same_outcome (rl_leave pos r0 p r' x) (rl_leave pos' r0' p r' x)"
    if "rl_step mem p c r = Stop r' x" for mem p c r r' x pos r0 pos' r0'
    using that rl_step_error [of mem p c r r']
    by (auto simp: rl_leave_def rl_same_outcome_def split: option.splits prod.splits)
qed (simp add: rl_same_outcome_def split: prod.split)

text \<open>
  C27. Independence of packet boundaries. However the input is cut into chunks, feeding the
  chunks to \<open>ngx_http_parse_request_line\<close> one by one ends with the same return code and the
  same request fields (\<open>r->state\<close> apart) as one call on the whole input, and on
  \<open>NGX_OK\<close> and \<open>NGX_AGAIN\<close> also with the same state and buffer position.
\<close>

theorem request_line_chunks:
  "rl_same_outcome (parse_feed ngx_http_parse_request_line PARSE_AGAIN [] 0 r chunks)
     (ngx_http_parse_request_line (concat chunks) 0 (length (concat chunks)) r)"
  by (rule rl_chunks.parse_feed_same)

section \<open>Well-formed lines are accepted\<close>

text \<open>The methods the parser knows, as a table.\<close>

definition method_table :: "(bytes \<times> http_method) list" where
  "method_table = [(s2b ''GET'', NGX_HTTP_GET), (s2b ''PUT'', NGX_HTTP_PUT),
     (s2b ''POST'', NGX_HTTP_POST), (s2b ''COPY'', NGX_HTTP_COPY), (s2b ''MOVE'', NGX_HTTP_MOVE),
     (s2b ''LOCK'', NGX_HTTP_LOCK), (s2b ''HEAD'', NGX_HTTP_HEAD), (s2b ''MKCOL'', NGX_HTTP_MKCOL),
     (s2b ''PATCH'', NGX_HTTP_PATCH), (s2b ''TRACE'', NGX_HTTP_TRACE),
     (s2b ''DELETE'', NGX_HTTP_DELETE), (s2b ''UNLOCK'', NGX_HTTP_UNLOCK),
     (s2b ''OPTIONS'', NGX_HTTP_OPTIONS), (s2b ''PROPFIND'', NGX_HTTP_PROPFIND),
     (s2b ''PROPPATCH'', NGX_HTTP_PROPPATCH)]"

definition method_of :: "bytes \<Rightarrow> http_method" where
  "method_of m = (case map_of method_table m of None \<Rightarrow> NGX_HTTP_UNKNOWN | Some x \<Rightarrow> x)"

lemma s2b_eq_length: "xs = s2b s \<Longrightarrow> length xs = length s"
  by simp

lemma rl_set_method_eq: "rl_set_method (m @ rest) 0 (length m) NGX_HTTP_UNKNOWN = method_of m"
proof -
  have sub: "subarray (m @ rest) 0 (length m) = m" by (simp add: subarray_def)
  have nth: "length m = 4 \<Longrightarrow> (m @ rest) ! (0 + 1) = m ! 1" by (simp add: nth_append)
  show ?thesis
    unfolding rl_set_method_def Let_def sub method_of_def method_table_def
    using nth by (auto dest: s2b_eq_length)
qed


definition is_method_char :: "byte \<Rightarrow> bool" where
  "is_method_char c \<longleftrightarrow> ch_A \<le> c \<and> c \<le> ch_Z \<or> c = ch_underscore"

lemma rl_method_segment:
  assumes "m \<noteq> []" and "list_all is_method_char m" and "mem = m @ rest"
  shows "scan_on rl_step mem 0 rl_init (m @ [ch_SP]) =
    (Suc (length m), rl_init\<lparr>request_start := Some 0, method_end := Some (length m - 1),
       req_method := method_of m, rl_state := rl_sw_spaces_before_uri\<rparr>, None)"
proof -
  let ?r = "rl_init\<lparr>request_start := Some 0, rl_state := rl_sw_method\<rparr>"
  obtain c cs where m: "m = c # cs" using assms(1) by (cases m) auto
  have first: "rl_step mem 0 c rl_init = Next ?r"
    using assms(2) m
    by (auto simp: rl_step_def rl_start_def rl_init_def is_method_char_def not_less Let_def)
  have stay: "rl_step mem p c ?r = Next ?r" if "is_method_char c" for p c
    using that by (auto simp: rl_step_def rl_method_def rl_init_def is_method_char_def not_less)
  have "\<exists>r'. scan_on rl_step mem (Suc 0) ?r cs = (Suc 0 + length cs, r', None) \<and> r' = ?r"
    by (rule scan_on_while [of "\<lambda>r. r = ?r" ?r is_method_char]) (use assms(2) m stay in auto)
  moreover have "rl_step mem (length m) ch_SP ?r
      = Next (?r\<lparr>method_end := Some (length m - 1), req_method := method_of m,
                 rl_state := rl_sw_spaces_before_uri\<rparr>)"
    using assms(3) rl_set_method_eq [of m rest] by (simp add: rl_step_def rl_method_def rl_init_def)
  ultimately show ?thesis
    using first m by (simp add: scan_on_append rl_init_def)
qed

text \<open>What stays fixed while a clean URI is read.\<close>

definition rl_reading_uri :: "nat \<Rightarrow> http_method \<Rightarrow> request_line \<Rightarrow> bool" where
  "rl_reading_uri n k r \<longleftrightarrow> rl_state r \<in> {rl_sw_after_slash_in_uri, rl_sw_check_uri, rl_sw_uri}
     \<and> request_start r = Some 0 \<and> method_end r = Some (n - 1) \<and> req_method r = k
     \<and> uri_start r = Some (Suc n) \<and> request_end r = None \<and> \<not> space_in_uri r"

definition is_uri_char :: "byte \<Rightarrow> bool" where
  "is_uri_char c \<longleftrightarrow> c \<notin> {ch_NUL, ch_LF, ch_CR, ch_SP}"

lemma rl_uri_segment:
  assumes "rl_reading_uri n k r" and "list_all is_uri_char u"
  shows "\<exists>r'. scan_on rl_step mem p r u = (p + length u, r', None) \<and> rl_reading_uri n k r'"
proof (rule scan_on_while [of "rl_reading_uri n k" r is_uri_char, OF assms])
  fix p c r
  assume r: "rl_reading_uri n k r" and c: "is_uri_char c"
  show "\<exists>r'. rl_step mem p c r = Next r' \<and> rl_reading_uri n k r'"
  proof (cases "rl_state r")
  qed (use r c in \<open>auto simp: rl_reading_uri_def is_uri_char_def rl_step_def rl_after_slash_in_uri_def
      rl_check_uri_def rl_uri_def\<close>)
qed

lemma rl_version_segment:
  assumes "rl_reading_uri n k r" and "ch_1 \<le> x" "x \<le> ch_9" and "ch_0 \<le> y" "y \<le> ch_9"
  shows "\<exists>r'. scan_on rl_step mem p r ([ch_SP] @ s2b ''HTTP/'' @ [x, ch_dot, y, ch_CR, ch_LF] @ rest)
      = (p + 10, r', Some None) \<and> request_start r' = Some 0 \<and> method_end r' = Some (n - 1)
      \<and> req_method r' = k \<and> uri_start r' = Some (Suc n) \<and> uri_end r' = Some p
      \<and> request_end r' = Some (p + 9) \<and> \<not> space_in_uri r'
      \<and> http_major r' = ucast (x - ch_0) \<and> http_minor r' = ucast (y - ch_0)"
proof -
  have y: "\<not> y < ch_0" "\<not> y > ch_9" "y \<noteq> ch_CR" "y \<noteq> ch_LF" "y \<noteq> ch_SP"
    using assms(4,5) by (auto simp: not_less)
  have x: "\<not> x < ch_1" "\<not> x > ch_9" using assms(2,3) by (auto simp: not_less)
  from assms(1) show ?thesis
    by (auto simp: rl_reading_uri_def rl_step_def rl_after_slash_in_uri_def rl_check_uri_def rl_uri_def
        rl_check_uri_http_09_def rl_http_09_def rl_expect_def rl_first_major_digit_def rl_major_digit_def
        rl_first_minor_digit_def rl_minor_digit_def rl_almost_done_def x y is_usual_iff)
qed

definition request_line_of :: "bytes \<Rightarrow> bytes \<Rightarrow> byte \<Rightarrow> byte \<Rightarrow> bytes" where
  "request_line_of m u x y =
     m @ [ch_SP, ch_slash] @ u @ [ch_SP] @ s2b ''HTTP/'' @ [x, ch_dot, y, ch_CR, ch_LF]"

lemma version_not_9:
  assumes "ch_1 \<le> x" "x \<le> ch_9" "ch_0 \<le> y" "y \<le> ch_9"
  shows "unat (ucast (ucast (x - ch_0) :: 16 word) * 1000 + ucast (ucast (y - ch_0) :: 16 word) :: 64 word)
    = unat (x - ch_0) * 1000 + unat (y - ch_0)"
proof -
  have x: "unat (x - ch_0) \<le> 9" and y: "unat (y - ch_0) \<le> 9"
    using assms by (simp_all add: word_le_nat_alt unat_sub)
  show ?thesis
    using x y by (simp add: unat_word_ariths)
qed


text \<open>
  C33. Every well-formed request line is accepted, for any method name of capital letters and
  underscores, any URI without NUL, CR, LF and space, and any one-digit version: the parser
  returns \<open>NGX_OK\<close> after exactly that line, whatever follows it, the pointers denote the
  method and the URI, the method is looked up in the table and the version is
  \<open>major * 1000 + minor\<close>.
\<close>

theorem request_line_accepted:
  assumes "m \<noteq> []" and "list_all is_method_char m" and "list_all is_uri_char u"
    and "ch_1 \<le> x" "x \<le> ch_9" and "ch_0 \<le> y" "y \<le> ch_9"
  defines "line \<equiv> request_line_of m u x y"
  shows "\<exists>r'. ngx_http_parse_request_line (line @ rest) 0 (length (line @ rest)) rl_init
      = (length line, r', PARSE_OK)
    \<and> request_start r' = Some 0 \<and> method_end r' = Some (length m - 1)
    \<and> req_method r' = method_of m
    \<and> uri_start r' = Some (length m + 1) \<and> uri_end r' = Some (length m + 2 + length u)
    \<and> \<not> space_in_uri r' \<and> request_end r' = Some (length line - 2)
    \<and> unat (http_version r') = unat (x - ch_0) * 1000 + unat (y - ch_0)"
proof -
  let ?mem = "line @ rest" and ?n = "length m"
  let ?r0 = "rl_init\<lparr>request_start := Some 0, method_end := Some (?n - 1),
       req_method := method_of m, rl_state := rl_sw_spaces_before_uri\<rparr>"
  let ?r1 = "?r0\<lparr>uri_start := Some (Suc ?n), rl_state := rl_sw_after_slash_in_uri\<rparr>"
  let ?tail = "[ch_SP] @ s2b ''HTTP/'' @ [x, ch_dot, y, ch_CR, ch_LF] @ rest"
  have mem: "?mem = (m @ [ch_SP]) @ [ch_slash] @ u @ ?tail"
    by (simp add: line_def request_line_of_def)
  have seg1: "scan_on rl_step ?mem 0 rl_init (m @ [ch_SP]) = (Suc ?n, ?r0, None)"
    by (rule rl_method_segment [OF assms(1,2)]) (simp add: mem)
  have seg2: "scan_on rl_step ?mem (Suc ?n) ?r0 [ch_slash] = (Suc (Suc ?n), ?r1, None)"
    by (simp add: rl_step_def rl_spaces_before_uri_def)
  have "rl_reading_uri ?n (method_of m) ?r1"
    by (simp add: rl_reading_uri_def rl_init_def)
  from rl_uri_segment [OF this assms(3), of ?mem "Suc (Suc ?n)"]
  obtain r2 where seg3: "scan_on rl_step ?mem (Suc (Suc ?n)) ?r1 u = (Suc (Suc ?n) + length u, r2, None)"
    and r2: "rl_reading_uri ?n (method_of m) r2" by blast
  from rl_version_segment [OF r2 assms(4-7), of ?mem "Suc (Suc ?n) + length u" rest]
  obtain r3 where seg4: "scan_on rl_step ?mem (Suc (Suc ?n) + length u) r2 ?tail
      = (Suc (Suc ?n) + length u + 10, r3, Some None)"
    and r3: "request_start r3 = Some 0" "method_end r3 = Some (?n - 1)" "req_method r3 = method_of m"
      "uri_start r3 = Some (Suc ?n)" "uri_end r3 = Some (Suc (Suc ?n) + length u)"
      "request_end r3 = Some (Suc (Suc ?n) + length u + 9)" "\<not> space_in_uri r3"
      "http_major r3 = ucast (x - ch_0)" "http_minor r3 = ucast (y - ch_0)" by blast
  have "scan rl_step ?mem 0 (length ?mem) rl_init = (Suc (Suc ?n) + length u + 10, r3, Some None)"
    using scan_eq_scan_on [of 0 ?mem rl_step rl_init] seg1 seg2 seg3 seg4
    by (simp only: drop_0 le0 mem scan_on_append split_conv prod.case option.case)
  moreover have "length line = Suc (Suc ?n) + length u + 11"
    by (simp add: line_def request_line_of_def)
  moreover have v: "unat (ucast (http_major r3) * 1000 + ucast (http_minor r3) :: 64 word)
      = unat (x - ch_0) * 1000 + unat (y - ch_0)"
    unfolding r3 by (rule version_not_9 [OF assms(4-7)])
  moreover have "ucast (http_major r3) * 1000 + ucast (http_minor r3) \<noteq> (9 :: 64 word)"
  proof
    assume "ucast (http_major r3) * 1000 + ucast (http_minor r3) = (9 :: 64 word)"
    moreover have "unat (x - ch_0) \<ge> 1"
      using assms(4,5) by (simp add: word_le_nat_alt unat_sub)
    ultimately show False using v by simp
  qed
  ultimately show ?thesis
    using r3 by (simp add: ngx_http_parse_request_line_def rl_done_def Let_def)
qed

theorem request_line_accepted_witness:
  "\<exists>r'. ngx_http_parse_request_line (request_line_of (s2b ''GET'') (s2b ''rest?sid=7'') ch_1 ch_1 @ [])
      0 (length (request_line_of (s2b ''GET'') (s2b ''rest?sid=7'') ch_1 ch_1 @ [])) rl_init
      = (length (request_line_of (s2b ''GET'') (s2b ''rest?sid=7'') ch_1 ch_1), r', PARSE_OK)
      \<and> req_method r' = NGX_HTTP_GET"
proof -
  have h: "s2b ''GET'' \<noteq> []" "list_all is_method_char (s2b ''GET'')"
    "list_all is_uri_char (s2b ''rest?sid=7'')" "ch_1 \<le> ch_1" "ch_1 \<le> ch_9" "ch_0 \<le> ch_1" "ch_1 \<le> ch_9"
    by (simp_all add: is_method_char_def is_uri_char_def)
  have "method_of (s2b ''GET'') = NGX_HTTP_GET"
    by (simp add: method_of_def method_table_def)
  with request_line_accepted [OF h, of "[]"] show ?thesis by auto
qed

text \<open>
  After a space inside the URI the next byte is not inspected: the states
  \<open>sw_check_uri_http_09\<close> and \<open>sw_http_09\<close> set \<open>space_in_uri\<close> and move on, so a
  request whose URI holds a NUL byte is accepted although the URI states reject NUL.
\<close>

lemma request_line_nul_after_space:
  "\<exists>r'. ngx_http_parse_request_line
       (s2b ''GET /a '' @ [ch_NUL] @ s2b '' HTTP/1.0'' @ [ch_CR, ch_LF]) 0 19 rl_init = (19, r', PARSE_OK)
     \<and> uri_start r' = Some 4 \<and> uri_end r' = Some 8
     \<and> ch_NUL \<in> set (subarray (s2b ''GET /a '' @ [ch_NUL] @ s2b '' HTTP/1.0'' @ [ch_CR, ch_LF]) 4 8)"
proof -
  let ?r = "rl_init\<lparr>req_method := NGX_HTTP_GET, request_start := Some 0, request_end := Some 17,
     method_end := Some 2, uri_start := Some 4, uri_end := Some 8, http_protocol := Some 9,
     http_major := 1, http_minor := 0, http_version := 1000, space_in_uri := True\<rparr>"
  have "ngx_http_parse_request_line
      (s2b ''GET /a '' @ [ch_NUL] @ s2b '' HTTP/1.0'' @ [ch_CR, ch_LF]) 0 19 rl_init = (19, ?r, PARSE_OK)"
    by code_simp
  then show ?thesis
    by (intro exI [of _ ?r] conjI) (assumption, simp, simp, simp add: subarray_def)
qed

end
