(* ===== verification/HttpComplexUri.thy ===== *)
theory HttpComplexUri
  imports HttpRequestLine "HOL-Library.Sublist"
begin

text \<open>
  \<open>ngx_http_parse_complex_uri\<close> of \<^verbatim>\<open>src/http/ngx_http_parse.c\<close> (the build without
  \<open>NGX_WIN32\<close>): unescaping and normalisation of the request path. The bytes written from
  \<open>r->uri.data\<close> up to \<open>u\<close> are the list \<open>cu_out\<close>, so \<^verbatim>\<open>*u++ = ch\<close> appends and
  \<^verbatim>\<open>u--\<close> drops the last byte. \<open>quoted_state\<close> only ever holds one of the first four
  states, which have a type of their own here.
\<close>

section \<open>Definitions\<close>

datatype cu_plain = cu_sw_usual | cu_sw_slash | cu_sw_dot | cu_sw_dot_dot

datatype cu_sw = Cu_plain cu_plain | cu_sw_quoted | cu_sw_quoted_second

record complex_path =
  cu_out :: bytes
  cu_uri_ext :: "nat option"
  cu_args_start :: "nat option"
  cu_args :: "(nat \<times> nat) option"
  cu_exten :: "(nat \<times> nat) option"
  cu_plus_in_uri :: bool
  cu_quoted_uri :: bool

text \<open>How a plain state leaves the switch: on to a state, into a quoted character, or out of the loop.\<close>

datatype cu_exit = CU_done | CU_args | CU_invalid

datatype cu_move = CU_go cu_plain complex_path | CU_quote complex_path | CU_exit cu_exit complex_path

definition cu_put :: "byte \<Rightarrow> complex_path \<Rightarrow> complex_path" where
  "cu_put ch s = s\<lparr>cu_out := cu_out s @ [ch]\<rparr>"

definition cu_usual :: "byte \<Rightarrow> nat \<Rightarrow> complex_path \<Rightarrow> cu_move" where
  "cu_usual ch p s =
     (if is_usual ch then CU_go cu_sw_usual (cu_put ch s)
      else if ch = ch_slash then CU_go cu_sw_slash (cu_put ch (s\<lparr>cu_uri_ext := None\<rparr>))
      else if ch = ch_percent then CU_quote s
      else if ch = ch_qmark then CU_exit CU_args (s\<lparr>cu_args_start := Some p\<rparr>)
      else if ch = ch_hash then CU_exit CU_done s
      else if ch = ch_dot then
        CU_go cu_sw_usual (cu_put ch (s\<lparr>cu_uri_ext := Some (length (cu_out s) + 1)\<rparr>))
      else if ch = ch_plus then CU_go cu_sw_usual (cu_put ch (s\<lparr>cu_plus_in_uri := True\<rparr>))
      else CU_go cu_sw_usual (cu_put ch s))"

definition cu_slash :: "bool \<Rightarrow> byte \<Rightarrow> nat \<Rightarrow> complex_path \<Rightarrow> cu_move" where
  "cu_slash merge_slashes ch p s =
     (if is_usual ch then CU_go cu_sw_usual (cu_put ch s)
      else if ch = ch_slash then CU_go cu_sw_slash (if \<not> merge_slashes then cu_put ch s else s)
      else if ch = ch_dot then CU_go cu_sw_dot (cu_put ch s)
      else if ch = ch_percent then CU_quote s
      else if ch = ch_qmark then CU_exit CU_args (s\<lparr>cu_args_start := Some p\<rparr>)
      else if ch = ch_hash then CU_exit CU_done s
      else if ch = ch_plus then CU_go cu_sw_usual (cu_put ch (s\<lparr>cu_plus_in_uri := True\<rparr>))
      else CU_go cu_sw_usual (cu_put ch s))"

definition cu_dot :: "byte \<Rightarrow> nat \<Rightarrow> complex_path \<Rightarrow> cu_move" where
  "cu_dot ch p s =
     (if is_usual ch then CU_go cu_sw_usual (cu_put ch s)
      else if ch = ch_slash then CU_go cu_sw_slash (s\<lparr>cu_out := butlast (cu_out s)\<rparr>)
      else if ch = ch_dot then CU_go cu_sw_dot_dot (cu_put ch s)
      else if ch = ch_percent then CU_quote s
      else if ch = ch_qmark then CU_exit CU_args (s\<lparr>cu_args_start := Some p\<rparr>)
      else if ch = ch_hash then CU_exit CU_done s
      else if ch = ch_plus then CU_go cu_sw_usual (cu_put ch (s\<lparr>cu_plus_in_uri := True\<rparr>))
      else CU_go cu_sw_usual (cu_put ch s))"

text \<open>
  The inner loop after \<^verbatim>\<open>u -= 5\<close>: step back to a slash; the result is \<open>u\<close> one past
  it, or \<open>None\<close> when \<open>u\<close> falls below \<open>r->uri.data\<close>.
\<close>

primrec cu_back_from :: "bytes \<Rightarrow> nat \<Rightarrow> nat option" where
  "cu_back_from out 0 = (if out ! 0 = ch_slash then Some 1 else None)"
| "cu_back_from out (Suc u) = (if out ! Suc u = ch_slash then Some (Suc (Suc u)) else cu_back_from out u)"

definition cu_back :: "bytes \<Rightarrow> nat option" where
  "cu_back out = (if length out < 5 then None else cu_back_from out (length out - 5))"

definition cu_dot_dot :: "byte \<Rightarrow> nat \<Rightarrow> complex_path \<Rightarrow> cu_move" where
  "cu_dot_dot ch p s =
     (if is_usual ch then CU_go cu_sw_usual (cu_put ch s)
      else if ch = ch_slash then
        (case cu_back (cu_out s) of
           None \<Rightarrow> CU_exit CU_invalid s
         | Some u \<Rightarrow> CU_go cu_sw_slash (s\<lparr>cu_out := take u (cu_out s)\<rparr>))
      else if ch = ch_percent then CU_quote s
      else if ch = ch_qmark then CU_exit CU_args (s\<lparr>cu_args_start := Some p\<rparr>)
      else if ch = ch_hash then CU_exit CU_done s
      else if ch = ch_plus then CU_go cu_sw_usual (cu_put ch (s\<lparr>cu_plus_in_uri := True\<rparr>))
      else CU_go cu_sw_usual (cu_put ch s))"

definition cu_plain_step :: "bool \<Rightarrow> cu_plain \<Rightarrow> byte \<Rightarrow> nat \<Rightarrow> complex_path \<Rightarrow> cu_move" where
  "cu_plain_step merge_slashes state ch p s =
     (case state of
        cu_sw_usual \<Rightarrow> cu_usual ch p s
      | cu_sw_slash \<Rightarrow> cu_slash merge_slashes ch p s
      | cu_sw_dot \<Rightarrow> cu_dot ch p s
      | cu_sw_dot_dot \<Rightarrow> cu_dot_dot ch p s)"

text \<open>Result of \<open>sw_quoted_second\<close>: a byte to write, a byte to look at again, or an error.\<close>

datatype cu_decoded = CU_write byte | CU_again byte bool | CU_bad

definition cu_quoted_second :: "byte \<Rightarrow> byte \<Rightarrow> cu_decoded" where
  "cu_quoted_second decoded ch =
     (if ch \<ge> ch_0 \<and> ch \<le> ch_9 then
        let ch' = push_bit 4 decoded + ch - ch_0 in
        if ch' = ch_percent \<or> ch' = ch_hash then CU_write ch'
        else if ch' = ch_NUL then CU_bad
        else CU_again ch' False
      else let c = ch OR 0x20 in
        if c \<ge> ch_a \<and> c \<le> ch_f then
          let ch' = push_bit 4 decoded + c - ch_a + 10 in
          if ch' = ch_qmark then CU_write ch'
          else CU_again ch' (ch' = ch_plus)
        else CU_bad)"

definition cu_quoted :: "byte \<Rightarrow> byte option" where
  "cu_quoted ch =
     (if ch \<ge> ch_0 \<and> ch \<le> ch_9 then Some (ch - ch_0)
      else let c = ch OR 0x20 in
        if c \<ge> ch_a \<and> c \<le> ch_f then Some (c - ch_a + 10) else None)"

text \<open>
  The loop \<^verbatim>\<open>while (p <= r->uri_end)\<close>; \<open>ch\<close> is the byte before \<open>p\<close>, or the decoded
  byte that is looked at again in the saved state.
\<close>

function cu_loop ::
  "bytes \<Rightarrow> nat \<Rightarrow> bool \<Rightarrow> cu_sw \<Rightarrow> cu_plain \<Rightarrow> byte \<Rightarrow> byte \<Rightarrow> nat \<Rightarrow> complex_path \<Rightarrow> cu_exit \<times> nat \<times> complex_path"
where
  "cu_loop mem u_end merge_slashes state quoted_state decoded ch p s =
     (if p > u_end then (CU_done, p, s)
      else case state of
        Cu_plain pl \<Rightarrow>
          (case cu_plain_step merge_slashes pl ch p s of
             CU_go pl' s' \<Rightarrow>
               cu_loop mem u_end merge_slashes (Cu_plain pl') quoted_state decoded (mem ! p) (p + 1) s'
           | CU_quote s' \<Rightarrow>
               cu_loop mem u_end merge_slashes cu_sw_quoted pl decoded (mem ! p) (p + 1) s'
           | CU_exit x s' \<Rightarrow> (x, p, s'))
      | cu_sw_quoted \<Rightarrow>
          (let s' = s\<lparr>cu_quoted_uri := True\<rparr> in
           case cu_quoted ch of
             None \<Rightarrow> (CU_invalid, p, s')
           | Some d \<Rightarrow>
               cu_loop mem u_end merge_slashes cu_sw_quoted_second quoted_state d (mem ! p) (p + 1) s')
      | cu_sw_quoted_second \<Rightarrow>
          (case cu_quoted_second decoded ch of
             CU_write ch' \<Rightarrow>
               cu_loop mem u_end merge_slashes (Cu_plain cu_sw_usual) quoted_state decoded (mem ! p) (p + 1)
                 (cu_put ch' s)
           | CU_again ch' is_plus \<Rightarrow>
               cu_loop mem u_end merge_slashes (Cu_plain quoted_state) quoted_state decoded ch' p
                 (if is_plus then s\<lparr>cu_plus_in_uri := True\<rparr> else s)
           | CU_bad \<Rightarrow> (CU_invalid, p, s)))"
  by pat_completeness auto
termination
  by (relation "measure (\<lambda>(mem, u_end, ms, state, qs, d, ch, p, s).
        2 * (u_end + 1 - p) + (if state = cu_sw_quoted_second then 1 else 0))") auto

declare cu_loop.simps [simp del]

text \<open>The loop after the label \<open>args\<close>: a fragment cuts the arguments.\<close>

function cu_args_loop :: "bytes \<Rightarrow> nat \<Rightarrow> nat \<Rightarrow> complex_path \<Rightarrow> complex_path" where
  "cu_args_loop mem u_end p s =
     (if p < u_end
      then if mem ! p \<noteq> ch_hash then cu_args_loop mem u_end (p + 1) s
           else s\<lparr>cu_args := map_option (\<lambda>a. (a, p - a)) (cu_args_start s), cu_args_start := None\<rparr>
      else s)"
  by pat_completeness auto
termination
  by (relation "measure (\<lambda>(mem, u_end, p, s). u_end - p)") auto

declare cu_args_loop.simps [simp del]

definition cu_finish :: "complex_path \<Rightarrow> complex_path" where
  "cu_finish s =
     s\<lparr>cu_exten := (case cu_uri_ext s of
                      None \<Rightarrow> cu_exten s
                    | Some e \<Rightarrow> Some (e, length (cu_out s) - e)),
       cu_uri_ext := None\<rparr>"

definition ngx_http_parse_complex_uri ::
  "bytes \<Rightarrow> nat \<Rightarrow> nat \<Rightarrow> bool \<Rightarrow> complex_path \<Rightarrow> http_parse_rc \<times> complex_path" where
  "ngx_http_parse_complex_uri mem u_start u_end merge_slashes s =
     (case cu_loop mem u_end merge_slashes (Cu_plain cu_sw_usual) cu_sw_usual 0
             (mem ! u_start) (u_start + 1)
             (s\<lparr>cu_out := [], cu_uri_ext := None, cu_args_start := None\<rparr>) of
        (CU_done, p, s') \<Rightarrow> (PARSE_OK, cu_finish s')
      | (CU_args, p, s') \<Rightarrow> (PARSE_OK, cu_finish (cu_args_loop mem u_end p s'))
      | (CU_invalid, p, s') \<Rightarrow> (PARSE_INVALID_REQUEST, s'))"

text \<open>
  The length that \<open>ngx_http_process_request_line\<close> sets before the call, from the \<open>args_start\<close> of the request line; it allocates
  one byte more for \<open>r->uri.data\<close>.
\<close>

definition request_uri_len :: "nat \<Rightarrow> nat \<Rightarrow> nat option \<Rightarrow> nat" where
  "request_uri_len u_start u_end args = (case args of Some a \<Rightarrow> a - 1 - u_start | None \<Rightarrow> u_end - u_start)"

definition cu_init :: complex_path where
  "cu_init = \<lparr>cu_out = [], cu_uri_ext = None, cu_args_start = None, cu_args = None,
     cu_exten = None, cu_plus_in_uri = False, cu_quoted_uri = False\<rparr>"

section \<open>What the loop keeps\<close>

lemma suffix_snocs:
  "suffix [a] (ys @ [y]) \<longleftrightarrow> a = y"
  "suffix [a, b] (ys @ [y]) \<longleftrightarrow> b = y \<and> suffix [a] ys"
  "suffix [a, b, c] (ys @ [y]) \<longleftrightarrow> c = y \<and> suffix [a, b] ys"
  using snoc_suffix_snoc [of "[]" a ys y] snoc_suffix_snoc [of "[a]" b ys y]
    snoc_suffix_snoc [of "[a, b]" c ys y] by simp_all

lemma sublist_snocs:
  "sublist [a, b] (ys @ [y]) \<longleftrightarrow> b = y \<and> suffix [a] ys \<or> sublist [a, b] ys"
  "sublist [a, b, c] (ys @ [y]) \<longleftrightarrow> c = y \<and> suffix [a, b] ys \<or> sublist [a, b, c] ys"
  "sublist [a, b, c, d] (ys @ [y]) \<longleftrightarrow> d = y \<and> suffix [a, b, c] ys \<or> sublist [a, b, c, d] ys"
  using snoc_sublist_snoc [of "[a]" b ys y] snoc_sublist_snoc [of "[a, b]" c ys y]
    snoc_sublist_snoc [of "[a, b, c]" d ys y] by simp_all

definition normal_path :: "bool \<Rightarrow> bytes \<Rightarrow> bool" where
  "normal_path merge out \<longleftrightarrow> out \<noteq> [] \<and> hd out = ch_slash
     \<and> \<not> sublist [ch_slash, ch_dot, ch_slash] out
     \<and> \<not> sublist [ch_slash, ch_dot, ch_dot, ch_slash] out
     \<and> (merge \<longrightarrow> \<not> sublist [ch_slash, ch_slash] out)"

definition cu_tail :: "cu_plain \<Rightarrow> bytes \<Rightarrow> bool" where
  "cu_tail state out =
     (case state of
        cu_sw_usual \<Rightarrow> \<not> suffix [ch_slash] out \<and> \<not> suffix [ch_slash, ch_dot] out
          \<and> \<not> suffix [ch_slash, ch_dot, ch_dot] out
      | cu_sw_slash \<Rightarrow> suffix [ch_slash] out
      | cu_sw_dot \<Rightarrow> suffix [ch_slash, ch_dot] out
      | cu_sw_dot_dot \<Rightarrow> suffix [ch_slash, ch_dot, ch_dot] out)"

definition cu_inv :: "bool \<Rightarrow> cu_plain \<Rightarrow> bytes \<Rightarrow> bool" where
  "cu_inv merge state out \<longleftrightarrow> normal_path merge out \<and> cu_tail state out"

lemma normal_path_snoc:
  "normal_path merge out \<Longrightarrow> ch \<noteq> ch_slash \<Longrightarrow> normal_path merge (out @ [ch])"
  by (auto simp: normal_path_def sublist_snocs)

lemma normal_path_snoc_slash:
  "normal_path merge out \<Longrightarrow> \<not> suffix [ch_slash, ch_dot] out \<Longrightarrow> \<not> suffix [ch_slash, ch_dot, ch_dot] out
   \<Longrightarrow> merge \<longrightarrow> \<not> suffix [ch_slash] out \<Longrightarrow> normal_path merge (out @ [ch_slash])"
  by (auto simp: normal_path_def sublist_snocs)

lemma normal_path_take: "normal_path merge out \<Longrightarrow> 0 < k \<Longrightarrow> normal_path merge (take k out)"
proof -
  have "sublist xs (take k out) \<Longrightarrow> sublist xs out" for xs
    by (meson sublist_order.order_trans sublist_take)
  then show "normal_path merge out \<Longrightarrow> 0 < k \<Longrightarrow> normal_path merge (take k out)"
    unfolding normal_path_def by (metis hd_take take_eq_Nil neq0_conv)
qed

lemma suffix_take_nth: "n < length xs \<Longrightarrow> suffix [a] (take (Suc n) xs) \<longleftrightarrow> xs ! n = a"
  by (auto simp: take_Suc_conv_app_nth [of n xs] suffix_snocs)

lemma cu_back_from_slash:
  "cu_back_from out n = Some u \<Longrightarrow> n < length out \<Longrightarrow> 0 < u \<and> u \<le> length out \<and> suffix [ch_slash] (take u out)"
proof (induction n)
  case 0
  then show ?case using suffix_take_nth [of 0 out ch_slash] by (auto simp: Suc_le_eq split: if_splits)
next
  case (Suc n)
  then show ?case
    using suffix_take_nth [of "Suc n" out ch_slash] by (auto split: if_splits)
qed

lemma cu_back_slash:
  "cu_back out = Some u \<Longrightarrow> 0 < u \<and> u \<le> length out \<and> suffix [ch_slash] (take u out)"
  using cu_back_from_slash [of out "length out - 5" u] by (auto simp: cu_back_def split: if_splits)

lemma is_usual_not_special:
  "is_usual ch \<Longrightarrow> ch \<noteq> ch_slash \<and> ch \<noteq> ch_dot"
  by (auto simp: is_usual_iff)

lemma cu_tail_usual_snoc:
  "ch \<noteq> ch_slash \<Longrightarrow> ch = ch_dot \<longrightarrow> \<not> suffix [ch_slash] out \<and> \<not> suffix [ch_slash, ch_dot] out
   \<Longrightarrow> cu_tail cu_sw_usual (out @ [ch])"
  by (auto simp: cu_tail_def suffix_snocs)

lemma suffix_exclude:
  "suffix [ch_slash] out \<Longrightarrow> \<not> suffix [ch_slash, ch_dot] out \<and> \<not> suffix [ch_slash, ch_dot, ch_dot] out"
  "suffix [ch_slash, ch_dot] out \<Longrightarrow> \<not> suffix [ch_slash] out \<and> \<not> suffix [ch_slash, ch_dot, ch_dot] out"
  "suffix [ch_slash, ch_dot, ch_dot] out \<Longrightarrow> \<not> suffix [ch_slash] out \<and> \<not> suffix [ch_slash, ch_dot] out"
  by (auto simp: suffix_def)

text \<open>
  With the pending extension, which only the usual state has, and a bound on the length.
\<close>

definition cu_ok :: "bool \<Rightarrow> cu_plain \<Rightarrow> nat \<Rightarrow> bytes \<Rightarrow> nat option \<Rightarrow> bool" where
  "cu_ok merge state n out ext \<longleftrightarrow> normal_path merge out \<and> cu_tail state out \<and> length out \<le> n
     \<and> (\<forall>e. ext = Some e \<longrightarrow> state = cu_sw_usual \<and> e \<le> length out)"

lemma cu_tail_simps:
  "cu_tail cu_sw_usual out \<longleftrightarrow> \<not> suffix [ch_slash] out \<and> \<not> suffix [ch_slash, ch_dot] out
          \<and> \<not> suffix [ch_slash, ch_dot, ch_dot] out"
  "cu_tail cu_sw_slash out \<longleftrightarrow> suffix [ch_slash] out"
  "cu_tail cu_sw_dot out \<longleftrightarrow> suffix [ch_slash, ch_dot] out"
  "cu_tail cu_sw_dot_dot out \<longleftrightarrow> suffix [ch_slash, ch_dot, ch_dot] out"
  by (simp_all add: cu_tail_def)

lemma cu_ok_mono: "cu_ok merge state n out ext \<Longrightarrow> n \<le> m \<Longrightarrow> cu_ok merge state m out ext"
  by (simp add: cu_ok_def)

lemma cu_ok_ex: "cu_ok merge state n out ext \<Longrightarrow> n \<le> m \<Longrightarrow> \<exists>state. cu_ok merge state m out ext"
  by (auto simp: cu_ok_def)

lemmas cu_step_defs = cu_usual_def cu_slash_def cu_dot_def cu_dot_dot_def cu_put_def

lemma cu_ok_put:
  assumes "cu_ok merge state n out ext" and "ch \<noteq> ch_slash"
    and "ch = ch_dot \<longrightarrow> state = cu_sw_usual \<or> state = cu_sw_dot_dot"
  shows "cu_ok merge cu_sw_usual (Suc n) (out @ [ch]) ext"
    and "cu_ok merge cu_sw_usual (Suc n) (out @ [ch]) (Some (Suc (length out)))"
proof -
  have "cu_tail cu_sw_usual (out @ [ch])"
    using assms
    by (intro cu_tail_usual_snoc; cases state)
      (auto simp: cu_ok_def cu_tail_simps suffix_exclude(3))
  then show "cu_ok merge cu_sw_usual (Suc n) (out @ [ch]) ext"
    and "cu_ok merge cu_sw_usual (Suc n) (out @ [ch]) (Some (Suc (length out)))"
    using assms normal_path_snoc by (auto simp: cu_ok_def)
qed

lemma cu_ok_slash:
  assumes "cu_ok merge state n out ext" and "state = cu_sw_usual \<or> state = cu_sw_slash \<and> \<not> merge"
  shows "cu_ok merge cu_sw_slash (Suc n) (out @ [ch_slash]) None"
proof -
  have "normal_path merge (out @ [ch_slash])"
    using assms
    by (intro normal_path_snoc_slash; cases state)
      (auto simp: cu_ok_def cu_tail_simps suffix_exclude(1))
  then show ?thesis
    using assms by (simp add: cu_ok_def cu_tail_simps suffix_snocs)
qed

lemma cu_ok_dot:
  assumes "cu_ok merge state n out ext"
    and "state = cu_sw_slash \<and> state' = cu_sw_dot \<or> state = cu_sw_dot \<and> state' = cu_sw_dot_dot"
  shows "cu_ok merge state' (Suc n) (out @ [ch_dot]) ext"
  using assms normal_path_snoc [of merge out ch_dot]
  by (auto simp: cu_ok_def cu_tail_simps suffix_snocs)

lemma cu_ok_take:
  assumes "cu_ok merge state n out ext" and "state \<noteq> cu_sw_usual" and "0 < u" and "suffix [ch_slash] (take u out)"
  shows "cu_ok merge cu_sw_slash (Suc n) (take u out) ext"
  using assms normal_path_take [of merge out u]
  by (auto simp: cu_ok_def cu_tail_simps min_def)

lemma cu_ok_butlast:
  assumes "cu_ok merge cu_sw_dot n out ext"
  shows "cu_ok merge cu_sw_slash (Suc n) (butlast out) ext"
proof -
  obtain zs where zs: "out = zs @ [ch_slash, ch_dot]"
    using assms by (auto simp: cu_ok_def cu_tail_simps suffix_def)
  then have "butlast out = take (Suc (length zs)) out" by (simp add: butlast_append)
  moreover have "suffix [ch_slash] (take (Suc (length zs)) out)" using zs by (simp add: suffix_def)
  ultimately show ?thesis using cu_ok_take [OF assms, of "Suc (length zs)"] by simp
qed

lemma cu_ok_not_usual: "cu_ok merge state n out ext \<Longrightarrow> state \<noteq> cu_sw_usual \<Longrightarrow> ext = None"
  by (auto simp: cu_ok_def)

lemmas cu_ok_moves = cu_ok_put cu_ok_dot cu_ok_take cu_ok_slash cu_ok_butlast cu_ok_mono

definition cu_move_ok :: "bool \<Rightarrow> cu_plain \<Rightarrow> nat \<Rightarrow> complex_path \<Rightarrow> cu_move \<Rightarrow> bool" where
  "cu_move_ok merge state n s m \<longleftrightarrow>
     (case m of
        CU_go state' s' \<Rightarrow> cu_ok merge state' (Suc n) (cu_out s') (cu_uri_ext s')
      | CU_quote s' \<Rightarrow> s' = s
      | CU_exit x s' \<Rightarrow> cu_ok merge state n (cu_out s') (cu_uri_ext s'))"

lemma cu_usual_ok:
  assumes "cu_ok merge cu_sw_usual n (cu_out s) (cu_uri_ext s)"
  shows "cu_move_ok merge cu_sw_usual n s (cu_usual ch p s)"
  using cu_ok_put [OF assms, of ch] cu_ok_slash [OF assms] is_usual_not_special [of ch] assms
  by (auto simp: cu_usual_def cu_put_def cu_move_ok_def)

lemma cu_slash_ok:
  assumes "cu_ok merge cu_sw_slash n (cu_out s) (cu_uri_ext s)"
  shows "cu_move_ok merge cu_sw_slash n s (cu_slash merge ch p s)"
  using cu_ok_put(1) [OF assms, of ch] cu_ok_slash [OF assms] cu_ok_dot [OF assms, of cu_sw_dot]
    cu_ok_mono [OF assms, of "Suc n"] is_usual_not_special [of ch] assms cu_ok_not_usual [OF assms]
  by (auto simp: cu_slash_def cu_put_def cu_move_ok_def)

lemma cu_dot_ok:
  assumes "cu_ok merge cu_sw_dot n (cu_out s) (cu_uri_ext s)"
  shows "cu_move_ok merge cu_sw_dot n s (cu_dot ch p s)"
  using cu_ok_put(1) [OF assms, of ch] cu_ok_butlast [OF assms] cu_ok_dot [OF assms, of cu_sw_dot_dot]
    is_usual_not_special [of ch] assms
  by (auto simp: cu_dot_def cu_put_def cu_move_ok_def)

lemma cu_dot_dot_ok:
  assumes "cu_ok merge cu_sw_dot_dot n (cu_out s) (cu_uri_ext s)"
  shows "cu_move_ok merge cu_sw_dot_dot n s (cu_dot_dot ch p s)"
  using cu_ok_put(1) [OF assms, of ch] cu_ok_take [OF assms] cu_back_slash [of "cu_out s"]
    is_usual_not_special [of ch] assms
  by (auto simp: cu_dot_dot_def cu_put_def cu_move_ok_def split: option.split)

lemma cu_plain_step_ok:
  "cu_ok merge state n (cu_out s) (cu_uri_ext s) \<Longrightarrow>
   cu_move_ok merge state n s (cu_plain_step merge state ch p s)"
  by (cases state) (simp_all add: cu_plain_step_def cu_usual_ok cu_slash_ok cu_dot_ok cu_dot_dot_ok)

lemma cu_quoted_second_write:
  "cu_quoted_second decoded ch = CU_write c \<Longrightarrow> c \<in> {ch_percent, ch_hash, ch_qmark}"
  by (auto simp: cu_quoted_second_def Let_def split: if_splits)

text \<open>The loop invariant: what is known at the head of the loop, state by state.\<close>

definition cu_head :: "bool \<Rightarrow> nat \<Rightarrow> cu_sw \<Rightarrow> cu_plain \<Rightarrow> nat \<Rightarrow> bytes \<Rightarrow> nat option \<Rightarrow> bool" where
  "cu_head merge u_start state quoted_state p out ext =
     (case state of
        Cu_plain st \<Rightarrow> u_start + 1 \<le> p \<and> cu_ok merge st (p - u_start - 1) out ext
      | cu_sw_quoted \<Rightarrow> u_start + 2 \<le> p \<and> cu_ok merge quoted_state (p - u_start - 2) out ext
      | cu_sw_quoted_second \<Rightarrow> u_start + 3 \<le> p \<and> cu_ok merge quoted_state (p - u_start - 3) out ext)"

lemma cu_loop_ok:
  assumes "cu_head merge u_start state quoted_state p (cu_out s) (cu_uri_ext s)" and "p \<le> u_end + 1"
    and "cu_loop mem u_end merge state quoted_state decoded ch p s = (x, q, s')" and "x \<noteq> CU_invalid"
  shows "\<exists>st. cu_ok merge st (u_end - u_start) (cu_out s') (cu_uri_ext s')"
  using assms
proof (induction mem u_end merge state quoted_state decoded ch p s rule: cu_loop.induct)
  case (1 mem u_end merge state quoted_state decoded ch p s)
  show ?case 
  proof (cases "p > u_end")
    case True
    then have "cu_head merge u_start state quoted_state (u_end + 1) (cu_out s') (cu_uri_ext s')"
      using 1(6-) by (simp add: cu_loop.simps le_Suc_eq)
    then show ?thesis
      by (auto simp: cu_head_def split: cu_sw.splits intro: cu_ok_ex)
  next
    case False
    then have p: "p \<le> u_end" and np: "\<not> u_end < p" by simp_all
    note run = 1(8) [unfolded cu_loop.simps [of mem u_end merge state quoted_state decoded ch p s] if_not_P [OF np]]
    show ?thesis
    proof (cases state)
      case (Cu_plain st)
      have ok: "cu_ok merge st (p - u_start - 1) (cu_out s) (cu_uri_ext s)" and "u_start + 1 \<le> p"
        using 1(6) Cu_plain by (simp_all add: cu_head_def)
      then have n: "Suc (p - u_start - 1) = p + 1 - u_start - 1" by simp
      show ?thesis
      proof (cases "cu_plain_step merge st ch p s")
        case (CU_go st' s1)
        then have "cu_ok merge st' (p + 1 - u_start - 1) (cu_out s1) (cu_uri_ext s1)"
          using cu_plain_step_ok [OF ok, of ch p] n by (simp add: cu_move_ok_def)
        then show ?thesis
          using 1(1) [OF np Cu_plain CU_go] run Cu_plain CU_go p 1(9) \<open>u_start + 1 \<le> p\<close> by (simp add: cu_head_def)
      next
        case (CU_quote s1)
        then have "s1 = s" using cu_plain_step_ok [OF ok, of ch p] by (simp add: cu_move_ok_def)
        then show ?thesis
          using 1(2) [OF np Cu_plain CU_quote] ok run Cu_plain CU_quote p 1(9) \<open>u_start + 1 \<le> p\<close> by (simp add: cu_head_def)
      next
        case (CU_exit y s1)
        then have "cu_ok merge st (p - u_start - 1) (cu_out s') (cu_uri_ext s')"
          using cu_plain_step_ok [OF ok, of ch p] run Cu_plain by (simp add: cu_move_ok_def)
        then show ?thesis using p by (auto intro: cu_ok_ex)
      qed
    next
      case cu_sw_quoted
      then obtain d where d: "cu_quoted ch = Some d"
        using run 1(9) by (auto simp: Let_def split: option.splits)
      show ?thesis
        using 1(3) [OF np cu_sw_quoted refl d] 1(6) run cu_sw_quoted d p 1(9) by (simp add: cu_head_def Let_def)
    next
      case cu_sw_quoted_second
      have ok: "cu_ok merge quoted_state (p - u_start - 3) (cu_out s) (cu_uri_ext s)" and le: "u_start + 3 \<le> p"
        using 1(6) cu_sw_quoted_second by (simp_all add: cu_head_def)
      show ?thesis
      proof (cases "cu_quoted_second decoded ch")
        case (CU_write c)
        have "cu_ok merge cu_sw_usual (Suc (p - u_start - 3)) (cu_out s @ [c]) (cu_uri_ext s)"
          using cu_quoted_second_write [OF CU_write] by (intro cu_ok_put [OF ok]) auto
        then have "cu_ok merge cu_sw_usual (p + 1 - u_start - 1) (cu_out s @ [c]) (cu_uri_ext s)"
          using le by (elim cu_ok_mono) simp
        then show ?thesis
          using 1(4) [OF np cu_sw_quoted_second CU_write] le run cu_sw_quoted_second CU_write p 1(9)
          by (simp add: cu_head_def cu_put_def)
      next
        case (CU_again c b)
        have "cu_ok merge quoted_state (p - u_start - 1) (cu_out s) (cu_uri_ext s)"
          using ok by (rule cu_ok_mono) simp
        then show ?thesis
          using 1(5) [OF np cu_sw_quoted_second CU_again] le run cu_sw_quoted_second CU_again p 1(9)
          by (cases b) (simp_all add: cu_head_def)
      next
        case CU_bad
        then show ?thesis using run cu_sw_quoted_second 1(9) by simp
      qed
    qed
  qed
qed


lemma cu_args_loop_keeps:
  "cu_exten (cu_args_loop mem u_end p s) = cu_exten s \<and> cu_out (cu_args_loop mem u_end p s) = cu_out s \<and> cu_uri_ext (cu_args_loop mem u_end p s) = cu_uri_ext s"
  by (induction mem u_end p s rule: cu_args_loop.induct) (simp add: cu_args_loop.simps)

lemma cu_plain_step_exten:
  "cu_plain_step merge state ch p s = CU_go state' s' \<Longrightarrow> cu_exten s' = cu_exten s"
  "cu_plain_step merge state ch p s = CU_quote s' \<Longrightarrow> cu_exten s' = cu_exten s"
  "cu_plain_step merge state ch p s = CU_exit x s' \<Longrightarrow> cu_exten s' = cu_exten s"
  by (cases state; auto simp: cu_plain_step_def cu_step_defs split: if_splits option.splits)+

lemma cu_loop_exten:
  "cu_loop mem u_end merge state quoted_state decoded ch p s = (x, q, s') \<Longrightarrow> cu_exten s' = cu_exten s"
proof (induction mem u_end merge state quoted_state decoded ch p s rule: cu_loop.induct)
  case (1 mem u_end merge state quoted_state decoded ch p s)
  show ?case
    using 1
    by (auto dest: cu_plain_step_exten simp: cu_loop.simps [of mem u_end merge state quoted_state decoded ch p s] cu_put_def Let_def
        split: if_splits cu_sw.splits cu_move.splits option.splits cu_decoded.splits)
qed

lemma cu_first:
  "mem ! u_start = ch_slash \<Longrightarrow> u_start < u_end \<Longrightarrow>
   cu_loop mem u_end merge (Cu_plain cu_sw_usual) quoted_state decoded (mem ! u_start) (u_start + 1) s
   = cu_loop mem u_end merge (Cu_plain cu_sw_slash) quoted_state decoded (mem ! (u_start + 1)) (u_start + 2)
       (s\<lparr>cu_uri_ext := None, cu_out := cu_out s @ [ch_slash]\<rparr>)"
  by (simp add: cu_loop.simps [of mem u_end merge "Cu_plain cu_sw_usual"] cu_plain_step_def cu_usual_def
      cu_put_def is_usual_iff)

text \<open>
  The loop does not go past a question mark of the request: a plain state leaves the loop there, the others refuse it. So it has
  written what it would have written if the path ended there.
\<close>

lemma cu_plain_step_qmark:
  "cu_plain_step merge st ch_qmark p s = CU_exit CU_args (s\<lparr>cu_args_start := Some p\<rparr>)"
  by (cases st) (simp_all add: cu_plain_step_def cu_step_defs is_usual_iff)

lemma cu_quoted_qmark: "cu_quoted ch_qmark = None" "cu_quoted_second decoded ch_qmark = CU_bad"
  by (simp_all add: cu_quoted_def cu_quoted_second_def Let_def)

lemma cu_loop_qmark:
  assumes "cu_loop mem u_end merge state quoted_state decoded ch p s = (x, q, s')" "x \<noteq> CU_invalid"
    and "w < u_end" "mem ! w = ch_qmark" "p \<le> Suc w" "p = Suc w \<longrightarrow> ch = ch_qmark"
  shows "\<exists>x2 q2 s2. cu_loop mem w merge state quoted_state decoded ch p s = (x2, q2, s2) \<and> x2 \<noteq> CU_invalid
    \<and> cu_out s2 = cu_out s' \<and> cu_uri_ext s2 = cu_uri_ext s'"
  using assms
proof (induction mem u_end merge state quoted_state decoded ch p s rule: cu_loop.induct)
  case (1 mem u_end merge state quoted_state decoded ch p s)
  have np: "\<not> u_end < p" using 1(8,10) by simp
  note run = 1(6) [unfolded cu_loop.simps [of mem u_end merge state quoted_state decoded ch p s] if_not_P [OF np]]
  show ?case
  proof (cases "p = Suc w")
    case True
    then show ?thesis
      using run 1(7,11) by (cases state) (auto simp: cu_plain_step_qmark cu_quoted_qmark Let_def cu_loop.simps [of mem w])
  next
    case False
    then have w: "\<not> w < p" "Suc p \<le> Suc w" "Suc p = Suc w \<longrightarrow> mem ! p = ch_qmark" using 1(9,10) by auto
    show ?thesis
    proof (cases state)
      case (Cu_plain st)
      show ?thesis
        using 1(1) [OF np Cu_plain] 1(2) [OF np Cu_plain] run 1(7,8,9) w Cu_plain
        by (cases "cu_plain_step merge st ch p s") (simp_all add: cu_loop.simps [of mem w])
    next
      case cu_sw_quoted
      show ?thesis
        using 1(3) [OF np cu_sw_quoted refl] run 1(7,8,9) w cu_sw_quoted
        by (cases "cu_quoted ch") (simp_all add: cu_loop.simps [of mem w] Let_def)
    next
      case cu_sw_quoted_second
      show ?thesis
        using 1(4) [OF np cu_sw_quoted_second] 1(5) [OF np cu_sw_quoted_second] run 1(7,8,9) w cu_sw_quoted_second
        by (cases "cu_quoted_second decoded ch") (simp_all add: cu_loop.simps [of mem w "merge" cu_sw_quoted_second])
    qed
  qed
qed

text \<open>
  C8. When \<open>ngx_http_parse_complex_uri\<close> accepts a path that starts with a slash, the path it
  has written starts with a slash, has no segment \<open>.\<close> or \<open>..\<close> that is followed by a
  slash, no two slashes in a row if slashes are merged, and the extension it reports lies inside it. It is not longer than \<open>r->uri.len\<close> as the caller
  set it, that is than the raw path without the arguments, so it fits the \<open>r->uri.len + 1\<close> bytes allocated for it; \<open>args\<close> is the \<open>args_start\<close> of the
  request line, which stands behind a question mark of the URI.
\<close>

theorem complex_uri_normal:
  assumes "mem ! u_start = ch_slash" and "u_start < u_end"
    and "ngx_http_parse_complex_uri mem u_start u_end merge s = (PARSE_OK, s')" and "cu_exten s = None"
    and "\<forall>a. args = Some a \<longrightarrow> u_start + 1 < a \<and> a \<le> u_end \<and> mem ! (a - 1) = ch_qmark"
  shows "normal_path merge (cu_out s') \<and> length (cu_out s') \<le> request_uri_len u_start u_end args
    \<and> (case cu_exten s' of None \<Rightarrow> True | Some (e, n) \<Rightarrow> e + n = length (cu_out s'))"
proof -
  let ?s1 = "s\<lparr>cu_args_start := None, cu_uri_ext := None, cu_out := [ch_slash]\<rparr>"
  obtain x q s2 where run: "cu_loop mem u_end merge (Cu_plain cu_sw_slash) cu_sw_usual 0
      (mem ! (u_start + 1)) (u_start + 2) ?s1 = (x, q, s2)"
    by (metis prod_cases3)
  have x: "x \<noteq> CU_invalid" and s': "s' = cu_finish (if x = CU_args then cu_args_loop mem u_end q s2 else s2)"
    using assms(3) run cu_first [OF assms(1,2), of merge cu_sw_usual 0
        "s\<lparr>cu_out := [], cu_uri_ext := None, cu_args_start := None\<rparr>"]
    by (simp_all add: ngx_http_parse_complex_uri_def split: cu_exit.splits)
  have head: "cu_head merge u_start (Cu_plain cu_sw_slash) cu_sw_usual (u_start + 2) (cu_out ?s1) (cu_uri_ext ?s1)"
    by (simp add: cu_head_def cu_ok_def cu_tail_simps normal_path_def sublist_Cons_right)
  have "\<exists>st. cu_ok merge st (request_uri_len u_start u_end args) (cu_out s2) (cu_uri_ext s2)"
  proof (cases args)
    case None
    then show ?thesis using cu_loop_ok [OF head _ run x] assms(2) by (simp add: request_uri_len_def)
  next
    case (Some a)
    define w where "w = a - 1"
    have w: "w < u_end" "mem ! w = ch_qmark" "u_start + 2 \<le> Suc w" using assms(5) Some by (auto simp: w_def)
    then have "u_start + 2 = Suc w \<longrightarrow> mem ! (u_start + 1) = ch_qmark" by (metis add_2_eq_Suc' add_Suc_right add.right_neutral One_nat_def nat.inject)
    note q = cu_loop_qmark [OF run x w this]
    then obtain x2 q2 s3 where "cu_loop mem w merge (Cu_plain cu_sw_slash) cu_sw_usual 0 (mem ! (u_start + 1)) (u_start + 2) ?s1 = (x2, q2, s3)"
      "x2 \<noteq> CU_invalid" "cu_out s3 = cu_out s2" "cu_uri_ext s3 = cu_uri_ext s2" by blast
    moreover have "request_uri_len u_start u_end args = w - u_start" by (simp add: request_uri_len_def Some w_def)
    ultimately show ?thesis using cu_loop_ok [OF head, of w mem 0 "mem ! (u_start + 1)" x2 q2 s3] w(3) by simp
  qed
  moreover have "cu_exten s2 = None" using cu_loop_exten [OF run] assms(4) by simp
  ultimately show ?thesis
    unfolding s' using cu_args_loop_keeps [of mem u_end q s2]
    by (auto simp: cu_finish_def cu_ok_def split: option.splits)
qed

theorem complex_uri_normal_witness:
  "\<exists>s'. ngx_http_parse_complex_uri (s2b ''/a//b/%2e%2E/./c.x?d '') 0 20 True cu_init = (PARSE_OK, s') \<and> cu_out s' = s2b ''/a/c.x''
    \<and> normal_path True (cu_out s') \<and> length (cu_out s') \<le> request_uri_len 0 20 (Some 19) \<and> cu_exten s' = Some (5, 1)"
proof -
  have run: "ngx_http_parse_complex_uri (s2b ''/a//b/%2e%2E/./c.x?d '') 0 20 True cu_init =
    (PARSE_OK, cu_init\<lparr>cu_out := s2b ''/a/c.x'', cu_args_start := Some 19, cu_exten := Some (5, 1), cu_quoted_uri := True\<rparr>)"
    by code_simp
  have "s2b ''/a//b/%2e%2E/./c.x?d '' ! (19 - 1) = ch_qmark" by code_simp
  then show ?thesis using complex_uri_normal [OF _ _ run, of "Some 19"] run
    by (simp add: cu_init_def)
qed

text \<open>
  The last segment is left alone: a path that ends in \<open>..\<close> or \<open>.\<close> is accepted and not
  resolved, since the two states are only left by a slash.
\<close>

lemma complex_uri_trailing_dots:
  "map (\<lambda>u. ngx_http_parse_complex_uri (s2b (u @ '' '')) 0 (length u) True cu_init) [''/..'', ''/a/..'', ''/a/.'', ''/../'']
   = [(PARSE_OK, cu_init\<lparr>cu_out := s2b ''/..''\<rparr>), (PARSE_OK, cu_init\<lparr>cu_out := s2b ''/a/..''\<rparr>),
      (PARSE_OK, cu_init\<lparr>cu_out := s2b ''/a/.''\<rparr>), (PARSE_INVALID_REQUEST, cu_init\<lparr>cu_out := s2b ''/..''\<rparr>)]"
  by code_simp

end
