(* ===== verification/HttpHeaderLine.thy ===== *)
theory HttpHeaderLine
  imports HttpRequestLine NgxString
begin

text \<open>
  \<open>ngx_http_parse_header_line\<close> of \<^verbatim>\<open>src/http/ngx_http_parse.c\<close>: one definition per
  \<open>case\<close> of the switch. The local variables \<open>state\<close>, \<open>hash\<close> and \<open>i\<close> are fields of the
  record while the loop runs; the function restores the saved values where the source does
  not write them back.
\<close>

section \<open>State and tables\<close>

datatype hl_sw = hl_sw_start | hl_sw_name | hl_sw_space_before_value | hl_sw_value
  | hl_sw_space_after_value | hl_sw_ignore_line | hl_sw_almost_done | hl_sw_header_almost_done

abbreviation (input) NGX_HTTP_LC_HEADER_LEN :: nat where
  "NGX_HTTP_LC_HEADER_LEN \<equiv> 32"

record header_line =
  hl_state :: hl_sw
  header_hash :: ngx_uint_t
  lowcase_index :: nat
  lowcase_header :: bytes
  header_name_start :: "nat option"
  header_name_end :: "nat option"
  header_start :: "nat option"
  header_end :: "nat option"
  invalid_header :: bool
  has_upstream :: bool

datatype hl_exit = HL_done | HL_header_done | HL_invalid

type_synonym hl_action = "(header_line, hl_exit) action"

definition lowcase :: bytes where
  "lowcase = replicate 32 0
     @ replicate 13 0 @ [ch_minus] @ replicate 2 0 @ s2b ''0123456789'' @ replicate 6 0
     @ [0] @ s2b ''abcdefghijklmnopqrstuvwxyz'' @ replicate 5 0
     @ [0] @ s2b ''abcdefghijklmnopqrstuvwxyz'' @ replicate 5 0
     @ replicate 128 0"

section \<open>The cases of the switch\<close>

definition hl_start :: "nat \<Rightarrow> byte \<Rightarrow> header_line \<Rightarrow> hl_action" where
  "hl_start p ch r0 =
     (let r = r0\<lparr>header_name_start := Some p, invalid_header := False\<rparr> in
      if ch = ch_CR then Next (r\<lparr>header_end := Some p, hl_state := hl_sw_header_almost_done\<rparr>)
      else if ch = ch_LF then Stop (r\<lparr>header_end := Some p\<rparr>) HL_header_done
      else let r' = r\<lparr>hl_state := hl_sw_name\<rparr>; c = lowcase ! unat ch in
        if c \<noteq> 0 then
          Next (r'\<lparr>header_hash := ngx_hash 0 c, lowcase_header := (lowcase_header r')[0 := c],
                   lowcase_index := 1\<rparr>)
        else if ch = ch_NUL then Stop r' HL_invalid
        else Next (r'\<lparr>invalid_header := True\<rparr>))"

text \<open>Writing one byte of the lower-case name.\<close>

definition hl_push :: "byte \<Rightarrow> header_line \<Rightarrow> header_line" where
  "hl_push c r =
     r\<lparr>header_hash := ngx_hash (header_hash r) c,
       lowcase_header := (lowcase_header r)[lowcase_index r := c],
       lowcase_index := (lowcase_index r + 1) AND (NGX_HTTP_LC_HEADER_LEN - 1)\<rparr>"

definition hl_name :: "bool \<Rightarrow> bytes \<Rightarrow> nat \<Rightarrow> byte \<Rightarrow> header_line \<Rightarrow> hl_action" where
  "hl_name allow_underscores mem p ch r =
     (let c = lowcase ! unat ch in
      if c \<noteq> 0 then Next (hl_push c r)
      else if ch = ch_underscore then
        Next (if allow_underscores then hl_push ch r else r\<lparr>invalid_header := True\<rparr>)
      else if ch = ch_colon then
        Next (r\<lparr>header_name_end := Some p, hl_state := hl_sw_space_before_value\<rparr>)
      else if ch = ch_CR then
        Next (r\<lparr>header_name_end := Some p, header_start := Some p, header_end := Some p,
                hl_state := hl_sw_almost_done\<rparr>)
      else if ch = ch_LF then
        Stop (r\<lparr>header_name_end := Some p, header_start := Some p, header_end := Some p\<rparr>) HL_done
      else if ch = ch_slash \<and> has_upstream r
        \<and> (\<exists>s \<in> set_option (header_name_start r). p - s = 4 \<and> subarray mem s p = s2b ''HTTP'')
      then Next (r\<lparr>hl_state := hl_sw_ignore_line\<rparr>)
      else if ch = ch_NUL then Stop r HL_invalid
      else Next (r\<lparr>invalid_header := True\<rparr>))"

definition hl_space_before_value :: "nat \<Rightarrow> byte \<Rightarrow> header_line \<Rightarrow> hl_action" where
  "hl_space_before_value p ch r =
     (if ch = ch_SP then Next r
      else if ch = ch_CR then
        Next (r\<lparr>header_start := Some p, header_end := Some p, hl_state := hl_sw_almost_done\<rparr>)
      else if ch = ch_LF then Stop (r\<lparr>header_start := Some p, header_end := Some p\<rparr>) HL_done
      else if ch = ch_NUL then Stop r HL_invalid
      else Next (r\<lparr>header_start := Some p, hl_state := hl_sw_value\<rparr>))"

definition hl_value :: "nat \<Rightarrow> byte \<Rightarrow> header_line \<Rightarrow> hl_action" where
  "hl_value p ch r =
     (if ch = ch_SP then Next (r\<lparr>header_end := Some p, hl_state := hl_sw_space_after_value\<rparr>)
      else if ch = ch_CR then Next (r\<lparr>header_end := Some p, hl_state := hl_sw_almost_done\<rparr>)
      else if ch = ch_LF then Stop (r\<lparr>header_end := Some p\<rparr>) HL_done
      else if ch = ch_NUL then Stop r HL_invalid
      else Next r)"

definition hl_space_after_value :: "byte \<Rightarrow> header_line \<Rightarrow> hl_action" where
  "hl_space_after_value ch r =
     (if ch = ch_SP then Next r
      else if ch = ch_CR then Next (r\<lparr>hl_state := hl_sw_almost_done\<rparr>)
      else if ch = ch_LF then Stop r HL_done
      else if ch = ch_NUL then Stop r HL_invalid
      else Next (r\<lparr>hl_state := hl_sw_value\<rparr>))"

definition hl_ignore_line :: "byte \<Rightarrow> header_line \<Rightarrow> hl_action" where
  "hl_ignore_line ch r = Next (if ch = ch_LF then r\<lparr>hl_state := hl_sw_start\<rparr> else r)"

definition hl_almost_done :: "byte \<Rightarrow> header_line \<Rightarrow> hl_action" where
  "hl_almost_done ch r =
     (if ch = ch_LF then Stop r HL_done else if ch = ch_CR then Next r else Stop r HL_invalid)"

definition hl_header_almost_done :: "byte \<Rightarrow> header_line \<Rightarrow> hl_action" where
  "hl_header_almost_done ch r = (if ch = ch_LF then Stop r HL_header_done else Stop r HL_invalid)"

section \<open>The function\<close>

definition hl_step :: "bool \<Rightarrow> bytes \<Rightarrow> nat \<Rightarrow> byte \<Rightarrow> header_line \<Rightarrow> hl_action" where
  "hl_step allow_underscores mem p ch r =
     (case hl_state r of
        hl_sw_start \<Rightarrow> hl_start p ch r
      | hl_sw_name \<Rightarrow> hl_name allow_underscores mem p ch r
      | hl_sw_space_before_value \<Rightarrow> hl_space_before_value p ch r
      | hl_sw_value \<Rightarrow> hl_value p ch r
      | hl_sw_space_after_value \<Rightarrow> hl_space_after_value ch r
      | hl_sw_ignore_line \<Rightarrow> hl_ignore_line ch r
      | hl_sw_almost_done \<Rightarrow> hl_almost_done ch r
      | hl_sw_header_almost_done \<Rightarrow> hl_header_almost_done ch r)"

definition ngx_http_parse_header_line ::
  "bool \<Rightarrow> bytes \<Rightarrow> nat \<Rightarrow> nat \<Rightarrow> header_line \<Rightarrow> nat \<times> header_line \<times> http_parse_rc" where
  "ngx_http_parse_header_line allow_underscores mem pos lim r =
     (case scan (hl_step allow_underscores) mem pos lim r of
        (p, r', None) \<Rightarrow> (p, r', PARSE_AGAIN)
      | (p, r', Some HL_done) \<Rightarrow> (p + 1, r'\<lparr>hl_state := hl_sw_start\<rparr>, PARSE_OK)
      | (p, r', Some HL_header_done) \<Rightarrow>
          (p + 1, r'\<lparr>hl_state := hl_sw_start, header_hash := header_hash r, lowcase_index := lowcase_index r\<rparr>,
           PARSE_HEADER_DONE)
      | (p, r', Some HL_invalid) \<Rightarrow>
          (pos, r'\<lparr>hl_state := hl_state r, header_hash := header_hash r, lowcase_index := lowcase_index r\<rparr>,
           PARSE_INVALID_HEADER))"

definition hl_init :: header_line where
  "hl_init = \<lparr>hl_state = hl_sw_start, header_hash = 0, lowcase_index = 0,
     lowcase_header = replicate 32 0, header_name_start = None, header_name_end = None,
     header_start = None, header_end = None, invalid_header = False, has_upstream = False\<rparr>"

section \<open>The table and single steps\<close>

text \<open>The bytes of a valid header name other than the underscore.\<close>

definition is_token :: "byte \<Rightarrow> bool" where
  "is_token ch \<longleftrightarrow> ch = ch_minus \<or> (ch_0 \<le> ch \<and> ch \<le> ch_9) \<or> (ch_A \<le> ch \<and> ch \<le> ch_Z) \<or> (ch_a \<le> ch \<and> ch \<le> ch_z)"

lemma lowcase_tolower: "lowcase ! unat ch = (if is_token ch then ngx_tolower ch else 0)"
proof -
  have "\<forall>ch. lowcase ! unat ch = (if is_token ch then ngx_tolower ch else 0)"
    unfolding all_byte_iff by code_simp
  then show ?thesis by blast
qed

lemma token_not_zero: "is_token ch \<Longrightarrow> ngx_tolower ch \<noteq> 0"
  by (auto simp: is_token_def)

lemmas hl_step_defs = hl_start_def hl_name_def hl_space_before_value_def hl_value_def
  hl_space_after_value_def hl_ignore_line_def hl_almost_done_def hl_header_almost_done_def

lemma hl_step_arrived: "p < length mem \<Longrightarrow> hl_step allow (mem @ rest) p c r = hl_step allow mem p c r"
proof -
  assume "p < length mem"
  then have "subarray (mem @ rest) s p = subarray mem s p" for s by simp
  then show ?thesis by (simp only: hl_step_def hl_name_def)
qed

definition hl_leave ::
  "nat \<Rightarrow> header_line \<Rightarrow> nat \<Rightarrow> header_line \<Rightarrow> hl_exit \<Rightarrow> nat \<times> header_line \<times> http_parse_rc" where
  "hl_leave pos r p r' x =
     (case x of
        HL_done \<Rightarrow> (p + 1, r'\<lparr>hl_state := hl_sw_start\<rparr>, PARSE_OK)
      | HL_header_done \<Rightarrow>
          (p + 1, r'\<lparr>hl_state := hl_sw_start, header_hash := header_hash r, lowcase_index := lowcase_index r\<rparr>,
           PARSE_HEADER_DONE)
      | HL_invalid \<Rightarrow>
          (pos, r'\<lparr>hl_state := hl_state r, header_hash := header_hash r, lowcase_index := lowcase_index r\<rparr>,
           PARSE_INVALID_HEADER))"

definition hl_same_outcome ::
  "nat \<times> header_line \<times> http_parse_rc \<Rightarrow> nat \<times> header_line \<times> http_parse_rc \<Rightarrow> bool" where
  "hl_same_outcome a b =
     (case (a, b) of ((p, r, rc), (q, r', rc')) \<Rightarrow>
        rc = rc' \<and> (rc \<noteq> PARSE_INVALID_HEADER \<longrightarrow> p = q) \<and> (rc \<in> {PARSE_OK, PARSE_AGAIN} \<longrightarrow> r = r'))"

interpretation hl: chunked_parser "hl_step allow" "ngx_http_parse_header_line allow" PARSE_AGAIN
  hl_leave hl_same_outcome for allow
proof
  show "ngx_http_parse_header_line allow mem pos lim r =
      (case scan (hl_step allow) mem pos lim r of
         (p, r', None) \<Rightarrow> (p, r', PARSE_AGAIN)
       | (p, r', Some x) \<Rightarrow> hl_leave pos r p r' x)" for mem pos lim r
    by (auto simp: ngx_http_parse_header_line_def hl_leave_def split: prod.splits option.splits hl_exit.splits)
qed (auto simp: hl_step_arrived hl_leave_def hl_same_outcome_def split: hl_exit.splits)

text \<open>
  Independence of packet boundaries for header lines: feeding the input to
  \<open>ngx_http_parse_header_line\<close> in whatever chunks ends with the return code of one call on
  the whole input, with the same buffer position unless the header is invalid, and with the
  same request when a line was read or more input is needed.
\<close>

lemma header_line_chunks:
  "hl_same_outcome (parse_feed (ngx_http_parse_header_line allow) PARSE_AGAIN [] 0 r chunks)
     (ngx_http_parse_header_line allow (concat chunks) 0 (length (concat chunks)) r)"
  by (rule hl.parse_feed_same)

section \<open>What an accepted line is\<close>

definition name_ok :: "bool \<Rightarrow> bytes \<Rightarrow> bool" where
  "name_ok allow name \<longleftrightarrow> name \<noteq> [] \<and> is_token (hd name)
     \<and> list_all (\<lambda>c. is_token c \<or> allow \<and> c = ch_underscore) name"

definition name_read :: "bool \<Rightarrow> bytes \<Rightarrow> ngx_uint_t \<Rightarrow> nat \<Rightarrow> bytes \<Rightarrow> bool" where
  "name_read allow name hash i lc \<longleftrightarrow> name_ok allow name \<and> hash = ngx_hash_key_lc name
     \<and> i = length name mod 32
     \<and> (length name \<le> 32 \<longrightarrow> take (length name) lc = map ngx_tolower name)"

lemma ngx_hash_key_lc_snoc: "ngx_hash_key_lc (s @ [c]) = ngx_hash (ngx_hash_key_lc s) (ngx_tolower c)"
  by (simp add: ngx_hash_key_lc_def)

lemma name_read_start:
  "is_token c \<Longrightarrow> length lc = 32 \<Longrightarrow> name_read allow [c] (ngx_hash 0 (ngx_tolower c)) (Suc 0) (lc[0 := ngx_tolower c])"
  by (cases lc) (auto simp: name_read_def name_ok_def ngx_hash_key_lc_def)

lemma and_31: "n AND 31 = n mod (32 :: nat)"
  using take_bit_eq_mask [of 5 n] by (simp add: mask_eq_exp_minus_1 take_bit_eq_mod)

lemma name_read_push:
  assumes "name_read allow name hash i lc" and "is_token c \<or> allow \<and> c = ch_underscore" and "length lc = 32"
    and "c' = ngx_tolower c"
  shows "name_read allow (name @ [c]) (ngx_hash hash c') (Suc i AND 31) (lc[i := c'])"
proof -
  have "take (Suc (length name)) (lc[i := c']) = map ngx_tolower (name @ [c])" if "length name < 32"
  proof -
    have i: "i = length name" using assms(1) that by (simp add: name_read_def)
    have "take (length name) lc = map ngx_tolower name" using assms(1) that by (simp add: name_read_def)
    then show ?thesis using i that assms(3,4) by (simp add: take_Suc_conv_app_nth)
  qed
  then show ?thesis
    using assms unfolding and_31
    by (auto simp: name_read_def name_ok_def ngx_hash_key_lc_snoc mod_Suc_eq)
qed


lemma name_read_token:
  "name_read allow name hash i lc \<Longrightarrow> is_token c \<Longrightarrow> length lc = 32 \<Longrightarrow>
   name_read allow (name @ [c]) (ngx_hash hash (ngx_tolower c)) (Suc i AND 31) (lc[i := ngx_tolower c])"
  by (rule name_read_push) auto

lemma name_read_underscore:
  "name_read True name hash i lc \<Longrightarrow> length lc = 32 \<Longrightarrow>
   name_read True (name @ [ch_underscore]) (ngx_hash hash ch_underscore) (Suc i AND 31) (lc[i := ch_underscore])"
  by (rule name_read_push) (auto simp: ngx_tolower_def)

text \<open>The value: its bytes are not control bytes that end it, and it is trimmed.\<close>

definition value_bytes :: "bytes \<Rightarrow> nat \<Rightarrow> nat \<Rightarrow> bool" where
  "value_bytes mem a b \<longleftrightarrow> (\<forall>i\<in>{a..<b}. mem ! i \<notin> {ch_NUL, ch_LF, ch_CR})"

definition value_trimmed :: "bytes \<Rightarrow> nat \<Rightarrow> nat \<Rightarrow> bool" where
  "value_trimmed mem a b \<longleftrightarrow> a < b \<longrightarrow> mem ! a \<noteq> ch_SP \<and> mem ! (b - 1) \<noteq> ch_SP"

definition hl_named :: "bool \<Rightarrow> bytes \<Rightarrow> nat \<Rightarrow> nat \<Rightarrow> header_line \<Rightarrow> bool" where
  "hl_named allow mem pos e r \<longleftrightarrow>
     (\<exists>s. header_name_start r = Some s \<and> pos \<le> s \<and> s < e
        \<and> (invalid_header r \<or> name_read allow (subarray mem s e) (header_hash r) (lowcase_index r) (lowcase_header r)))"

definition hl_named_to :: "bool \<Rightarrow> bytes \<Rightarrow> nat \<Rightarrow> nat \<Rightarrow> header_line \<Rightarrow> bool" where
  "hl_named_to allow mem pos p r \<longleftrightarrow>
     (\<exists>e. header_name_end r = Some e \<and> e \<le> p \<and> hl_named allow mem pos e r)"

definition hl_value_from :: "bytes \<Rightarrow> nat \<Rightarrow> nat option \<Rightarrow> nat option \<Rightarrow> bool" where
  "hl_value_from mem p ne hs \<longleftrightarrow>
     (\<exists>e s. ne = Some e \<and> hs = Some s \<and> e < s \<and> s < p \<and> mem ! s \<noteq> ch_SP \<and> value_bytes mem s p)"

definition hl_value_to :: "bytes \<Rightarrow> nat \<Rightarrow> nat option \<Rightarrow> nat option \<Rightarrow> nat option \<Rightarrow> bool" where
  "hl_value_to mem p ne hs he \<longleftrightarrow>
     (\<exists>e s t. ne = Some e \<and> hs = Some s \<and> he = Some t \<and> e \<le> s \<and> s \<le> t \<and> t \<le> p
        \<and> value_bytes mem s t \<and> value_trimmed mem s t)"

definition hl_inv :: "bool \<Rightarrow> bytes \<Rightarrow> nat \<Rightarrow> nat \<Rightarrow> header_line \<Rightarrow> bool" where
  "hl_inv allow mem pos p r \<longleftrightarrow> pos \<le> p \<and> length (lowcase_header r) = 32 \<and>
     (case hl_state r of
        hl_sw_start \<Rightarrow> True
      | hl_sw_name \<Rightarrow> hl_named allow mem pos p r
      | hl_sw_space_before_value \<Rightarrow> hl_named_to allow mem pos (p - 1) r \<and> pos < p
      | hl_sw_value \<Rightarrow> hl_named_to allow mem pos p r
          \<and> hl_value_from mem p (header_name_end r) (header_start r) \<and> mem ! (p - 1) \<noteq> ch_SP
      | hl_sw_space_after_value \<Rightarrow> hl_named_to allow mem pos p r
          \<and> hl_value_from mem p (header_name_end r) (header_start r)
          \<and> hl_value_to mem p (header_name_end r) (header_start r) (header_end r)
      | hl_sw_ignore_line \<Rightarrow> True
      | hl_sw_almost_done \<Rightarrow> hl_named_to allow mem pos p r
          \<and> hl_value_to mem p (header_name_end r) (header_start r) (header_end r)
      | hl_sw_header_almost_done \<Rightarrow> True)"

lemma subarray_Suc: "a \<le> p \<Longrightarrow> p < length mem \<Longrightarrow> subarray mem a (Suc p) = subarray mem a p @ [mem ! p]"
  by (simp add: subarray_def Suc_diff_le take_Suc_conv_app_nth)

lemma subarray_one: "p < length mem \<Longrightarrow> subarray mem p (Suc p) = [mem ! p]"
  by (simp add: subarray_Suc) (simp add: subarray_def)

lemma value_bytes_Suc:
  "value_bytes mem a (Suc p) \<longleftrightarrow> value_bytes mem a p \<and> (a \<le> p \<longrightarrow> mem ! p \<notin> {ch_NUL, ch_LF, ch_CR})"
  by (auto simp: value_bytes_def less_Suc_eq)

lemma value_empty [simp]: "value_bytes mem p p" "value_trimmed mem p p"
  by (simp_all add: value_bytes_def value_trimmed_def)

text \<open>Fields that the tail of the line does not touch.\<close>

lemma hl_named_cong [simp]:
  "hl_named allow mem pos e (r\<lparr>hl_state := x\<rparr>) = hl_named allow mem pos e r"
  "hl_named allow mem pos e (r\<lparr>header_start := h\<rparr>) = hl_named allow mem pos e r"
  "hl_named allow mem pos e (r\<lparr>header_end := h\<rparr>) = hl_named allow mem pos e r"
  "hl_named allow mem pos e (r\<lparr>header_name_end := h\<rparr>) = hl_named allow mem pos e r"
  by (simp_all add: hl_named_def)

lemma hl_named_to_cong [simp]:
  "hl_named_to allow mem pos e (r\<lparr>hl_state := x\<rparr>) = hl_named_to allow mem pos e r"
  "hl_named_to allow mem pos e (r\<lparr>header_start := h\<rparr>) = hl_named_to allow mem pos e r"
  "hl_named_to allow mem pos e (r\<lparr>header_end := h\<rparr>) = hl_named_to allow mem pos e r"
  by (simp_all add: hl_named_to_def)

lemma hl_named_to_mono: "hl_named_to allow mem pos p r \<Longrightarrow> p \<le> q \<Longrightarrow> hl_named_to allow mem pos q r"
  by (auto simp: hl_named_to_def)

lemma hl_start_inv:
  assumes "hl_inv allow mem pos p r" "hl_state r = hl_sw_start" "p < length mem" "hl_start p (mem ! p) r = Next r'"
  shows "hl_inv allow mem pos (Suc p) r'"
  using assms
  by (auto simp: hl_start_def Let_def hl_inv_def hl_named_def lowcase_tolower subarray_one name_read_start
      split: if_splits)

lemma hl_name_inv:
  assumes "hl_inv allow mem pos p r" "hl_state r = hl_sw_name" "p < length mem" "hl_name allow mem p (mem ! p) r = Next r'"
  shows "hl_inv allow mem pos (Suc p) r'"
  using assms
  by (auto simp: hl_name_def Let_def hl_inv_def hl_named_def hl_push_def lowcase_tolower subarray_Suc
      hl_named_to_def hl_value_to_def name_read_underscore name_read_token
      split: if_splits)

lemma hl_value_from_Suc:
  "hl_value_from mem p ne hs \<Longrightarrow> mem ! p \<notin> {ch_NUL, ch_LF, ch_CR} \<Longrightarrow> hl_value_from mem (Suc p) ne hs"
  by (fastforce simp: hl_value_from_def value_bytes_Suc)

lemma hl_value_close:
  "hl_value_from mem p ne hs \<Longrightarrow> mem ! (p - 1) \<noteq> ch_SP \<Longrightarrow> p \<le> q \<Longrightarrow> hl_value_to mem q ne hs (Some p)"
  by (auto simp: hl_value_from_def hl_value_to_def value_trimmed_def)

lemma hl_value_to_mono: "hl_value_to mem p ne hs he \<Longrightarrow> p \<le> q \<Longrightarrow> hl_value_to mem q ne hs he"
  by (fastforce simp: hl_value_to_def)

lemmas hl_Suc = hl_named_to_mono [OF _ le_SucI [OF order.refl]] hl_value_to_mono [OF _ le_SucI [OF order.refl]]
  hl_value_from_Suc hl_value_close [OF _ _ le_SucI [OF order.refl], simplified] hl_value_close [OF _ _ order.refl, simplified]

lemma hl_tail_inv:
  assumes "hl_inv allow mem pos p r" "hl_state r \<notin> {hl_sw_start, hl_sw_name}" "p < length mem"
    and "hl_step allow mem p (mem ! p) r = Next r'"
  shows "hl_inv allow mem pos (Suc p) r'"
proof (cases "hl_state r")
  case hl_sw_space_before_value
  then show ?thesis using assms
    by (auto simp: hl_step_def hl_inv_def hl_space_before_value_def hl_named_to_def hl_value_from_def hl_value_to_def
       value_bytes_Suc split: if_splits)
next
  case hl_sw_value
  then show ?thesis using assms
    by (auto simp: hl_step_def hl_inv_def hl_value_def simp: hl_Suc split: if_splits)
next
  case hl_sw_space_after_value
  then show ?thesis using assms
    by (auto simp: hl_step_def hl_inv_def hl_space_after_value_def simp: hl_Suc split: if_splits)
next
  case hl_sw_almost_done
  then show ?thesis using assms
    by (auto simp: hl_step_def hl_inv_def hl_almost_done_def simp: hl_Suc split: if_splits)
qed (use assms in \<open>auto simp: hl_step_def hl_inv_def hl_ignore_line_def hl_header_almost_done_def split: if_splits\<close>)

lemma hl_inv_step:
  assumes "hl_inv allow mem pos p r" "p < length mem" "hl_step allow mem p (mem ! p) r = Next r'"
  shows "hl_inv allow mem pos (Suc p) r'"
  using hl_start_inv [of allow mem pos p r r'] hl_name_inv [of allow mem pos p r r'] hl_tail_inv [of allow mem pos p r r'] assms
  by (cases "hl_state r") (simp_all add: hl_step_def)

lemma hl_inv_done:
  assumes "hl_inv allow mem pos p r" "hl_step allow mem p (mem ! p) r = Stop r' HL_done"
  shows "hl_named_to allow mem pos p r' \<and> hl_value_to mem p (header_name_end r') (header_start r') (header_end r')"
  using assms
  by (cases "hl_state r")
    (auto simp: hl_step_def hl_step_defs Let_def hl_inv_def hl_named_to_def hl_Suc
      simp: hl_value_to_def hl_value_from_def value_trimmed_def split: if_splits)


text \<open>
  C12. An accepted header line. When \<open>ngx_http_parse_header_line\<close> returns \<open>NGX_OK\<close>, name and
  value lie in order inside the bytes read; the name is not empty; the value holds no NUL, CR
  or LF and neither starts nor ends with a space; and unless the header is flagged invalid,
  the name consists of letters, digits and minus signs (underscores if allowed, but not
  first), \<open>header_hash\<close> is \<open>ngx_hash_key_lc\<close> of the name, the key under which the header
  table is built, and for names of up to 32 bytes \<open>lowcase_header\<close> holds the lowered name.
\<close>

theorem header_line_ok:
  assumes "ngx_http_parse_header_line allow mem pos lim r = (n, r', PARSE_OK)"
    and "pos \<le> lim" and "lim \<le> length mem" and "hl_state r = hl_sw_start" and "length (lowcase_header r) = 32"
  shows "\<exists>s e a b. header_name_start r' = Some s \<and> header_name_end r' = Some e
    \<and> header_start r' = Some a \<and> header_end r' = Some b
    \<and> pos \<le> s \<and> s < e \<and> e \<le> a \<and> a \<le> b \<and> b < n \<and> n \<le> lim
    \<and> (\<forall>i\<in>{a..<b}. mem ! i \<notin> {ch_NUL, ch_LF, ch_CR})
    \<and> (a < b \<longrightarrow> mem ! a \<noteq> ch_SP \<and> mem ! (b - 1) \<noteq> ch_SP)
    \<and> (invalid_header r' \<or>
        name_ok allow (subarray mem s e) \<and> header_hash r' = ngx_hash_key_lc (subarray mem s e)
        \<and> (e - s \<le> 32 \<longrightarrow> take (e - s) (lowcase_header r') = map ngx_tolower (subarray mem s e)))"
proof -
  obtain q r1 x where sc: "scan (hl_step allow) mem pos lim r = (q, r1, x)" by (metis prod_cases3)
  have start: "hl_inv allow mem pos pos r" using assms(4,5) by (simp add: hl_inv_def)
  have inv: "case x of None \<Rightarrow> q = lim \<and> hl_inv allow mem pos q r1
    | Some e \<Rightarrow> pos \<le> q \<and> q < lim \<and> (\<exists>r0. hl_inv allow mem pos q r0 \<and> hl_step allow mem q (mem ! q) r0 = Stop r1 e)"
  proof (rule scan_invariant [OF sc, where I = "hl_inv allow mem pos", OF start assms(2)])
    show "p < lim \<Longrightarrow> hl_inv allow mem pos p r \<Longrightarrow> hl_step allow mem p (mem ! p) r = Next r'
        \<Longrightarrow> hl_inv allow mem pos (Suc p) r'" for p r r'
      using assms(3) by (intro hl_inv_step) simp_all
  qed
  have x: "x = Some HL_done" and n: "n = Suc q" and r': "r' = r1\<lparr>hl_state := hl_sw_start\<rparr>"
    using assms(1) sc by (auto simp: ngx_http_parse_header_line_def split: option.splits hl_exit.splits)
  with inv hl_inv_done have "hl_named_to allow mem pos q r1"
      "hl_value_to mem q (header_name_end r1) (header_start r1) (header_end r1)" and q: "q < lim" by auto
  then obtain s e a b where f: "header_name_end r1 = Some e" "header_name_start r1 = Some s" "header_start r1 = Some a" "header_end r1 = Some b"
      "pos \<le> s" "s < e" "e \<le> a" "a \<le> b" "b \<le> q" "value_bytes mem a b" "value_trimmed mem a b"
      "invalid_header r1 \<or> name_read allow (subarray mem s e) (header_hash r1) (lowcase_index r1) (lowcase_header r1)"
    unfolding hl_named_to_def hl_named_def hl_value_to_def by auto
  have len: "length (subarray mem s e) = e - s" using f(7-9) q assms(3) by simp
  have "invalid_header r' \<or>
      name_ok allow (subarray mem s e) \<and> header_hash r' = ngx_hash_key_lc (subarray mem s e)
      \<and> (e - s \<le> 32 \<longrightarrow> take (e - s) (lowcase_header r') = map ngx_tolower (subarray mem s e))"
    using f(12) unfolding name_read_def len r' by (simp; blast)
  moreover have "header_name_start r' = Some s" "header_name_end r' = Some e" "header_start r' = Some a"
      "header_end r' = Some b" "b < n" "n \<le> lim"
    using f(1-4,9) q n by (simp_all add: r')
  ultimately show ?thesis
    using f(5-8) f(10,11) unfolding value_bytes_def value_trimmed_def by blast
qed

theorem header_line_ok_witness:
  "\<exists>r' e. ngx_http_parse_header_line False (s2b ''Host:  a b '' @ [ch_CR, ch_LF]) 0 13 hl_init = (13, r', PARSE_OK)
     \<and> header_name_start r' = Some 0 \<and> header_name_end r' = Some e \<and> \<not> invalid_header r'
     \<and> header_hash r' = ngx_hash_key_lc (subarray (s2b ''Host:  a b '' @ [ch_CR, ch_LF]) 0 e)"
proof -
  let ?mem = "s2b ''Host:  a b '' @ [ch_CR, ch_LF]"
  let ?r = "hl_init\<lparr>header_hash := 3208616, lowcase_index := 4, lowcase_header := s2b ''host'' @ replicate 28 0,
    header_name_start := Some 0, header_name_end := Some 4, header_start := Some 7, header_end := Some 10\<rparr>"
  have run: "ngx_http_parse_header_line False ?mem 0 13 hl_init = (13, ?r, PARSE_OK)"
    by code_simp
  have pre: "0 \<le> (13 :: nat)" "13 \<le> length ?mem" "hl_state hl_init = hl_sw_start" "length (lowcase_header hl_init) = 32"
    by (simp_all add: hl_init_def)
  have "header_name_start ?r = Some 0" "\<not> invalid_header ?r" by (simp_all add: hl_init_def)
  with header_line_ok [OF run pre] show ?thesis using run by (metis option.inject)
qed

end
