(* ===== verification/HttpStatusLine.thy ===== *)
theory HttpStatusLine
  imports HttpRequestLine
begin

text \<open>
  \<open>ngx_http_parse_status_line\<close> of \<^verbatim>\<open>src/http/ngx_http_parse.c\<close>: the status line of an
  upstream response. The record holds the fields of the request (\<open>state\<close>, \<open>http_major\<close>,
  \<open>http_minor\<close>) and of \<open>ngx_http_status_t\<close> that the function uses.
\<close>

section \<open>Definitions\<close>

datatype sl_sw = sl_sw_start | sl_sw_H | sl_sw_HT | sl_sw_HTT | sl_sw_HTTP | sl_sw_first_major_digit
  | sl_sw_major_digit | sl_sw_first_minor_digit | sl_sw_minor_digit | sl_sw_status
  | sl_sw_space_after_status | sl_sw_status_text | sl_sw_almost_done

datatype status_rc = ST_OK | ST_AGAIN | ST_ERROR

record status_line =
  sl_state :: sl_sw
  sl_http_major :: "16 word"
  sl_http_minor :: "16 word"
  st_http_version :: ngx_uint_t
  st_code :: ngx_uint_t
  st_count :: ngx_uint_t
  st_start :: "nat option"
  st_end :: "nat option"

text \<open>\<open>Stop r True\<close> is \<^verbatim>\<open>goto done\<close>, \<open>Stop r False\<close> is \<^verbatim>\<open>return NGX_ERROR\<close>.\<close>

type_synonym sl_action = "(status_line, bool) action"

definition sl_expect :: "byte \<Rightarrow> sl_sw \<Rightarrow> byte \<Rightarrow> status_line \<Rightarrow> sl_action" where
  "sl_expect c st ch r = (if ch = c then Next (r\<lparr>sl_state := st\<rparr>) else Stop r False)"

definition sl_first_major_digit :: "byte \<Rightarrow> status_line \<Rightarrow> sl_action" where
  "sl_first_major_digit ch r =
     (if ch < ch_1 \<or> ch > ch_9 then Stop r False
      else Next (r\<lparr>sl_http_major := ucast ch - 0x30, sl_state := sl_sw_major_digit\<rparr>))"

definition sl_major_digit :: "byte \<Rightarrow> status_line \<Rightarrow> sl_action" where
  "sl_major_digit ch r =
     (if ch = ch_dot then Next (r\<lparr>sl_state := sl_sw_first_minor_digit\<rparr>)
      else if ch < ch_0 \<or> ch > ch_9 then Stop r False
      else Next (r\<lparr>sl_http_major := sl_http_major r * 10 + ucast ch - 0x30\<rparr>))"

definition sl_first_minor_digit :: "byte \<Rightarrow> status_line \<Rightarrow> sl_action" where
  "sl_first_minor_digit ch r =
     (if ch < ch_0 \<or> ch > ch_9 then Stop r False
      else Next (r\<lparr>sl_http_minor := ucast ch - 0x30, sl_state := sl_sw_minor_digit\<rparr>))"

definition sl_minor_digit :: "byte \<Rightarrow> status_line \<Rightarrow> sl_action" where
  "sl_minor_digit ch r =
     (if ch = ch_SP then Next (r\<lparr>sl_state := sl_sw_status\<rparr>)
      else if ch < ch_0 \<or> ch > ch_9 then Stop r False
      else Next (r\<lparr>sl_http_minor := sl_http_minor r * 10 + ucast ch - 0x30\<rparr>))"

definition sl_status :: "nat \<Rightarrow> byte \<Rightarrow> status_line \<Rightarrow> sl_action" where
  "sl_status p ch r =
     (if ch = ch_SP then Next r
      else if ch < ch_0 \<or> ch > ch_9 then Stop r False
      else let r' = r\<lparr>st_code := st_code r * 10 + ucast ch - 0x30, st_count := st_count r + 1\<rparr> in
        Next (if st_count r' = 3
              then r'\<lparr>sl_state := sl_sw_space_after_status, st_start := Some (p - 2)\<rparr> else r'))"

definition sl_space_after_status :: "byte \<Rightarrow> status_line \<Rightarrow> sl_action" where
  "sl_space_after_status ch r =
     (if ch = ch_SP \<or> ch = ch_dot then Next (r\<lparr>sl_state := sl_sw_status_text\<rparr>)
      else if ch = ch_CR then Next (r\<lparr>sl_state := sl_sw_almost_done\<rparr>)
      else if ch = ch_LF then Stop r True
      else Stop r False)"

definition sl_status_text :: "byte \<Rightarrow> status_line \<Rightarrow> sl_action" where
  "sl_status_text ch r =
     (if ch = ch_CR then Next (r\<lparr>sl_state := sl_sw_almost_done\<rparr>)
      else if ch = ch_LF then Stop r True
      else Next r)"

definition sl_almost_done :: "nat \<Rightarrow> byte \<Rightarrow> status_line \<Rightarrow> sl_action" where
  "sl_almost_done p ch r = Stop (r\<lparr>st_end := Some (p - 1)\<rparr>) (ch = ch_LF)"

definition sl_step :: "bytes \<Rightarrow> nat \<Rightarrow> byte \<Rightarrow> status_line \<Rightarrow> sl_action" where
  "sl_step mem p ch r =
     (case sl_state r of
        sl_sw_start \<Rightarrow> sl_expect ch_H sl_sw_H ch r
      | sl_sw_H \<Rightarrow> sl_expect ch_T sl_sw_HT ch r
      | sl_sw_HT \<Rightarrow> sl_expect ch_T sl_sw_HTT ch r
      | sl_sw_HTT \<Rightarrow> sl_expect ch_P sl_sw_HTTP ch r
      | sl_sw_HTTP \<Rightarrow> sl_expect ch_slash sl_sw_first_major_digit ch r
      | sl_sw_first_major_digit \<Rightarrow> sl_first_major_digit ch r
      | sl_sw_major_digit \<Rightarrow> sl_major_digit ch r
      | sl_sw_first_minor_digit \<Rightarrow> sl_first_minor_digit ch r
      | sl_sw_minor_digit \<Rightarrow> sl_minor_digit ch r
      | sl_sw_status \<Rightarrow> sl_status p ch r
      | sl_sw_space_after_status \<Rightarrow> sl_space_after_status ch r
      | sl_sw_status_text \<Rightarrow> sl_status_text ch r
      | sl_sw_almost_done \<Rightarrow> sl_almost_done p ch r)"

definition sl_done :: "nat \<Rightarrow> status_line \<Rightarrow> status_line" where
  "sl_done p r =
     r\<lparr>st_end := Some (case st_end r of None \<Rightarrow> p | Some e \<Rightarrow> e),
       st_http_version := ucast (sl_http_major r) * 1000 + ucast (sl_http_minor r),
       sl_state := sl_sw_start\<rparr>"

definition ngx_http_parse_status_line ::
  "bytes \<Rightarrow> nat \<Rightarrow> nat \<Rightarrow> status_line \<Rightarrow> nat \<times> status_line \<times> status_rc" where
  "ngx_http_parse_status_line mem pos lim r =
     (case scan sl_step mem pos lim r of
        (p, r', None) \<Rightarrow> (p, r', ST_AGAIN)
      | (p, r', Some True) \<Rightarrow> (p + 1, sl_done p r', ST_OK)
      | (p, r', Some False) \<Rightarrow> (pos, r'\<lparr>sl_state := sl_state r\<rparr>, ST_ERROR))"

definition sl_init :: status_line where
  "sl_init = \<lparr>sl_state = sl_sw_start, sl_http_major = 0, sl_http_minor = 0, st_http_version = 0,
     st_code = 0, st_count = 0, st_start = None, st_end = None\<rparr>"

section \<open>Packet boundaries\<close>

definition sl_leave :: "nat \<Rightarrow> status_line \<Rightarrow> nat \<Rightarrow> status_line \<Rightarrow> bool \<Rightarrow> nat \<times> status_line \<times> status_rc" where
  "sl_leave pos r p r' x =
     (if x then (p + 1, sl_done p r', ST_OK) else (pos, r'\<lparr>sl_state := sl_state r\<rparr>, ST_ERROR))"

definition sl_same_outcome ::
  "nat \<times> status_line \<times> status_rc \<Rightarrow> nat \<times> status_line \<times> status_rc \<Rightarrow> bool" where
  "sl_same_outcome a b = (snd (snd a) = snd (snd b) \<and> (snd (snd a) \<noteq> ST_ERROR \<longrightarrow> a = b))"

interpretation sl: chunked_parser sl_step ngx_http_parse_status_line ST_AGAIN sl_leave sl_same_outcome
proof
  show "ngx_http_parse_status_line mem pos lim r =
      (case scan sl_step mem pos lim r of
         (p, r', None) \<Rightarrow> (p, r', ST_AGAIN)
       | (p, r', Some x) \<Rightarrow> sl_leave pos r p r' x)" for mem pos lim r
    by (auto simp: ngx_http_parse_status_line_def sl_leave_def split: prod.splits option.splits bool.splits)
qed (simp_all add: sl_step_def sl_leave_def sl_same_outcome_def)

text \<open>
  Independence of packet boundaries for the status line of an upstream: the same return
  code as one call on the whole input, and except on an error the same result altogether.
\<close>

lemma status_line_chunks:
  "sl_same_outcome (parse_feed ngx_http_parse_status_line ST_AGAIN [] 0 r chunks)
     (ngx_http_parse_status_line (concat chunks) 0 (length (concat chunks)) r)"
  by (rule sl.parse_feed_same)

section \<open>Accepted lines\<close>

definition digit_byte :: "nat \<Rightarrow> byte" where
  "digit_byte d = of_nat (48 + d)"

definition status_line_of :: "nat \<Rightarrow> nat \<Rightarrow> nat \<Rightarrow> nat \<Rightarrow> nat \<Rightarrow> bytes \<Rightarrow> bytes" where
  "status_line_of major minor a b c tx =
     s2b ''HTTP/'' @ [digit_byte major, ch_dot, digit_byte minor, ch_SP, digit_byte a, digit_byte b, digit_byte c, ch_SP]
       @ tx @ [ch_CR, ch_LF]"

lemma digit_byte_unat: "d \<le> 9 \<Longrightarrow> unat (digit_byte d) = 48 + d"
  by (simp only: digit_byte_def unat_of_nat) simp

lemma digit_byte_cmp:
  "d \<le> 9 \<Longrightarrow> \<not> digit_byte d < ch_0 \<and> \<not> ch_9 < digit_byte d \<and> digit_byte d \<noteq> ch_dot \<and> digit_byte d \<noteq> ch_SP"
  "1 \<le> d \<Longrightarrow> d \<le> 9 \<Longrightarrow> \<not> digit_byte d < ch_1"
  by (auto simp: word_less_nat_alt word_unat_eq_iff digit_byte_unat)

lemma digit_byte_value:
  "d \<le> 9 \<Longrightarrow> (ucast (digit_byte d) :: 64 word) = of_nat (48 + d)" "d \<le> 9 \<Longrightarrow> (ucast (digit_byte d) :: 16 word) = of_nat (48 + d)"
  by (simp_all only: word_unat_eq_iff unat_ucast_byte digit_byte_unat unat_of_nat) simp_all

lemma status_text_scan:
  "sl_state r = sl_sw_status_text \<Longrightarrow> ch_CR \<notin> set tx \<Longrightarrow> ch_LF \<notin> set tx \<Longrightarrow>
   scan_on sl_step mem p r (tx @ rs) = scan_on sl_step mem (p + length tx) r rs"
  by (induction tx arbitrary: p) (auto simp: sl_step_def sl_status_text_def)

lemma status_head_scan:
  assumes "1 \<le> major" "major \<le> 9" "minor \<le> 9" "a \<le> 9" "b \<le> 9" "c \<le> 9"
  shows "scan_on sl_step mem 0 sl_init (s2b ''HTTP/'' @ [digit_byte major, ch_dot, digit_byte minor, ch_SP,
      digit_byte a, digit_byte b, digit_byte c, ch_SP] @ rs) =
    scan_on sl_step mem 13 (sl_init\<lparr>sl_http_major := of_nat major, sl_http_minor := of_nat minor,
       st_code := of_nat (100 * a + 10 * b + c), st_count := 3,
       st_start := Some 9, sl_state := sl_sw_status_text\<rparr>) rs"
  using digit_byte_cmp(1) [OF assms(2)] digit_byte_cmp(2) [OF assms(1,2)] digit_byte_cmp(1) [OF assms(3)]
    digit_byte_cmp(1) [OF assms(4)] digit_byte_cmp(1) [OF assms(5)] digit_byte_cmp(1) [OF assms(6)]
    digit_byte_value(2) [OF assms(2)] digit_byte_value(2) [OF assms(3)]
    digit_byte_value(1) [OF assms(4)] digit_byte_value(1) [OF assms(5)] digit_byte_value(1) [OF assms(6)]
  by (simp add: sl_step_def sl_expect_def sl_first_major_digit_def sl_major_digit_def sl_first_minor_digit_def
      sl_minor_digit_def sl_status_def sl_space_after_status_def Let_def sl_init_def algebra_simps) (simp add: numeral_eq_Suc)

text \<open>
  A status line \<open>HTTP/x.y abc text\<close> with a three-digit code and any text without CR and LF
  is accepted; the version and the code are those written, \<open>start\<close> and \<open>end\<close> delimit code and
  text, and the position is behind the line feed.
\<close>

lemma status_line_accepted:
  assumes "1 \<le> major" "major \<le> 9" "minor \<le> 9" "a \<le> 9" "b \<le> 9" "c \<le> 9" "ch_CR \<notin> set tx" "ch_LF \<notin> set tx"
  shows "ngx_http_parse_status_line (status_line_of major minor a b c tx) 0
      (length (status_line_of major minor a b c tx)) sl_init =
    (15 + length tx,
     sl_init\<lparr>sl_http_major := of_nat major, sl_http_minor := of_nat minor,
       st_http_version := of_nat (1000 * major + minor), st_code := of_nat (100 * a + 10 * b + c), st_count := 3,
       st_start := Some 9, st_end := Some (13 + length tx)\<rparr>, ST_OK)"
proof -
  let ?mem = "status_line_of major minor a b c tx"
  have "scan sl_step ?mem 0 (length ?mem) sl_init = scan_on sl_step ?mem 0 sl_init ?mem"
    using scan_eq_scan_on [of 0 ?mem sl_step sl_init] by simp
  also have "\<dots> = (14 + length tx, sl_init\<lparr>sl_http_major := of_nat major, sl_http_minor := of_nat minor,
       st_code := of_nat (100 * a + 10 * b + c), st_count := 3,
       st_start := Some 9, sl_state := sl_sw_almost_done, st_end := Some (13 + length tx)\<rparr>, Some True)"
    by (subst (2) status_line_of_def, subst status_head_scan [OF assms(1-6)], subst status_text_scan)
      (use assms in \<open>simp_all add: sl_step_def sl_status_text_def sl_almost_done_def\<close>)
  finally show ?thesis
    using assms(2,3)
    by (simp add: ngx_http_parse_status_line_def sl_done_def sl_init_def word_unat_eq_iff unat_of_nat unat_word_ariths)
qed

lemma status_line_accepted_example:
  "ngx_http_parse_status_line (status_line_of 1 1 2 0 0 (s2b ''OK'')) 0 17 sl_init =
    (17, sl_init\<lparr>sl_http_major := 1, sl_http_minor := 1, st_http_version := 1001, st_code := 200, st_count := 3,
       st_start := Some 9, st_end := Some 15\<rparr>, ST_OK)"
proof -
  have len: "length (status_line_of 1 1 2 0 0 (s2b ''OK'')) = 17" by (simp add: status_line_of_def)
  show ?thesis
    using status_line_accepted [of 1 1 2 0 0 "s2b ''OK''"] unfolding len by simp
qed

end
