(* ===== verification/HttpArgs.thy ===== *)
theory HttpArgs
  imports HttpComplexUri NgxString
begin

text \<open>
  The functions of \<^verbatim>\<open>src/http/ngx_http_parse.c\<close> that look into a complete URI, argument
  string or header value: \<open>ngx_http_parse_unsafe_uri\<close>, \<open>ngx_http_split_args\<close>,
  \<open>ngx_http_arg\<close> and \<open>ngx_http_parse_multi_header_lines\<close>. \<open>None\<close> stands for a read
  outside the given memory.
\<close>

section \<open>Unsafe URIs\<close>

definition peek :: "bytes \<Rightarrow> nat \<Rightarrow> byte option" where
  "peek mem i = (if i < length mem then Some (mem ! i) else None)"

text \<open>\<^verbatim>\<open>p[0] == '.' && p[1] == '.' && p[2] == '/'\<close>, evaluated from left to right.\<close>

definition at_dot_dot_slash :: "bytes \<Rightarrow> nat \<Rightarrow> bool option" where
  "at_dot_dot_slash mem i =
     (case peek mem i of
        None \<Rightarrow> None
      | Some a \<Rightarrow> if a \<noteq> ch_dot then Some False
          else case peek mem (i + 1) of
            None \<Rightarrow> None
          | Some b \<Rightarrow> if b \<noteq> ch_dot then Some False
              else map_option (\<lambda>c. c = ch_slash) (peek mem (i + 2)))"

text \<open>
  The result of the parser: \<open>Inl ()\<close> is \<open>NGX_ERROR\<close>, \<open>Inr\<close> the new length of the URI and the
  arguments (start and length) if there are any.
\<close>

type_synonym unsafe_result = "unit + nat \<times> (nat \<times> nat) option"

function unsafe_uri_loop :: "bytes \<Rightarrow> nat \<Rightarrow> nat \<Rightarrow> nat \<Rightarrow> unsafe_result option" where
  "unsafe_uri_loop mem uri_len p len =
     (if len = 0 then Some (Inr (uri_len, None))
      else case peek mem p of
        None \<Rightarrow> None
      | Some ch \<Rightarrow>
          if is_usual ch then unsafe_uri_loop mem uri_len (p + 1) (len - 1)
          else if ch = ch_qmark then Some (Inr (uri_len - len, Some (p + 1, len - 1)))
          else if ch = ch_NUL then Some (Inl ())
          else if ch = ch_slash \<and> len > 2 then
            (case at_dot_dot_slash mem (p + 1) of
               None \<Rightarrow> None
             | Some True \<Rightarrow> Some (Inl ())
             | Some False \<Rightarrow> unsafe_uri_loop mem uri_len (p + 1) (len - 1))
          else unsafe_uri_loop mem uri_len (p + 1) (len - 1))"
  by pat_completeness auto
termination
  by (relation "measure (\<lambda>(mem, uri_len, p, len). len)") auto

declare unsafe_uri_loop.simps [simp del]

definition ngx_http_parse_unsafe_uri :: "bytes \<Rightarrow> nat \<Rightarrow> unsafe_result option" where
  "ngx_http_parse_unsafe_uri mem len =
     (if len = 0 then Some (Inl ())
      else case peek mem 0 of
        None \<Rightarrow> None
      | Some c0 \<Rightarrow>
          if c0 = ch_qmark then Some (Inl ())
          else if c0 = ch_dot \<and> len = 3 \<and> mem ! 1 = ch_dot \<and> mem ! 2 = ch_slash then Some (Inl ())
          else unsafe_uri_loop mem len 0 len)"

section \<open>Arguments\<close>

text \<open>\<open>ngx_http_split_args\<close>: the length of the URI and the arguments.\<close>

definition ngx_http_split_args :: "bytes \<Rightarrow> nat \<times> (nat \<times> nat) option" where
  "ngx_http_split_args uri =
     (case ngx_strlchr uri ch_qmark of
        Some p \<Rightarrow> (p, Some (p + 1, length uri - (p + 1)))
      | None \<Rightarrow> (length uri, None))"

text \<open>
  \<open>ngx_http_arg\<close>: \<open>Some None\<close> is \<open>NGX_DECLINED\<close>, \<open>Some (Some (start, len))\<close> the value. The loop
  goes on behind the start of an occurrence that is not an argument name.
\<close>

function http_arg_loop :: "bytes \<Rightarrow> bytes \<Rightarrow> nat \<Rightarrow> (nat \<times> nat) option option" where
  "http_arg_loop args name p =
     (if p < length args then
        (case ngx_strlcasestrn (drop p args) (int (length args - p) - 1) name (length name - 1) of
           None \<Rightarrow> None
         | Some None \<Rightarrow> Some None
         | Some (Some k) \<Rightarrow>
             let q = p + k in
             if (q = 0 \<or> args ! (q - 1) = ch_amp) \<and> args ! (q + length name) = ch_equals then
               let start = q + length name + 1;
                   e = (case ngx_strlchr (drop q args) ch_amp of None \<Rightarrow> length args | Some j \<Rightarrow> q + j)
               in Some (Some (start, e - start))
             else http_arg_loop args name (q + 1))
      else Some None)"
  by pat_completeness auto
termination
  by (relation "measure (\<lambda>(args, name, p). length args - p)") auto

declare http_arg_loop.simps [simp del]

definition ngx_http_arg :: "bytes \<Rightarrow> bytes \<Rightarrow> (nat \<times> nat) option option" where
  "ngx_http_arg args name = (if length args = 0 then Some None else http_arg_loop args name 0)"

section \<open>Multi-line headers\<close>

primrec skip_spaces :: "bytes \<Rightarrow> bytes" where
  "skip_spaces [] = []"
| "skip_spaces (c # s) = (if c = ch_SP then skip_spaces s else c # s)"

text \<open>The code at the label \<open>skip\<close>: behind the next separator and the spaces after it.\<close>

primrec skip_item :: "bytes \<Rightarrow> bytes" where
  "skip_item [] = []"
| "skip_item (c # s) = (if c = ch_semicolon \<or> c = ch_comma then skip_spaces s else skip_item s)"

lemma skip_spaces_shorter: "length (skip_spaces s) \<le> length s"
  by (induction s) auto

lemma skip_item_shorter: "length (skip_item s) \<le> length s - 1"
proof (induction s)
  case (Cons c s)
  then show ?case using skip_spaces_shorter [of s] by auto
qed simp

lemma skip_item_less: "length xs \<le> length s \<Longrightarrow> s \<noteq> [] \<Longrightarrow> length (skip_item xs) < length s"
  using skip_item_shorter [of xs] by (cases s) auto

text \<open>
  One header value: \<open>s\<close> are the bytes from \<open>start\<close> to \<open>end\<close>, \<open>beyond\<close> those behind \<open>end\<close>
  that \<open>ngx_strncasecmp\<close> may reach; a match that reaches beyond \<open>end\<close> would go on reading
  there. The result is the value found, \<open>Some None\<close> for none; with \<open>want = False\<close> (a null
  \<open>value\<close>) only the presence of the name is asked for.
\<close>

function multi_header_value :: "bool \<Rightarrow> bytes \<Rightarrow> bytes \<Rightarrow> bytes \<Rightarrow> bytes option option" where
  "multi_header_value want name beyond s =
     (if s = [] then Some None
      else case ngx_strncasecmp (s @ beyond) name (length name) of
        None \<Rightarrow> None
      | Some m \<Rightarrow>
          if m \<noteq> 0 then multi_header_value want name beyond (skip_item s)
          else if length name > length s then None
          else let s1 = skip_spaces (drop (length name) s) in
            if \<not> want then
              if s1 = [] \<or> hd s1 = ch_comma then Some (Some [])
              else multi_header_value want name beyond (skip_item s1)
            else if s1 = [] then Some None
            else if hd s1 \<noteq> ch_equals then multi_header_value want name beyond (skip_item (tl s1))
            else Some (Some (takeWhile (\<lambda>c. c \<noteq> ch_semicolon) (skip_spaces (tl s1)))))"
  by pat_completeness auto
termination
proof (relation "measure (\<lambda>(want, name, beyond, s). length s)", goal_cases)
  case (3 want name beyond s x2 x)
  then show ?case
    using skip_item_less [of x s] skip_spaces_shorter [of "drop (length name) s"] by simp
next
  case (4 want name beyond s x2 x)
  then show ?case
    using skip_item_less [of "tl x" s] skip_spaces_shorter [of "drop (length name) s"] by simp
qed (use skip_item_less in auto)

declare multi_header_value.simps [simp del]

text \<open>The loop over the headers, each given by its value and the bytes behind it.\<close>

primrec multi_header_lines_from ::
  "bool \<Rightarrow> bytes \<Rightarrow> nat \<Rightarrow> (bytes \<times> bytes) list \<Rightarrow> (nat \<times> bytes) option option" where
  "multi_header_lines_from want name i [] = Some None"
| "multi_header_lines_from want name i (h # hs) =
     (if length name > length (fst h) then multi_header_lines_from want name (i + 1) hs
      else case multi_header_value want name (snd h) (fst h) of
        None \<Rightarrow> None
      | Some (Some v) \<Rightarrow> Some (Some (i, v))
      | Some None \<Rightarrow> multi_header_lines_from want name (i + 1) hs)"

definition ngx_http_parse_multi_header_lines ::
  "(bytes \<times> bytes) list \<Rightarrow> bytes \<Rightarrow> bool \<Rightarrow> (nat \<times> bytes) option option" where
  "ngx_http_parse_multi_header_lines headers name want = multi_header_lines_from want name 0 headers"

section \<open>Properties of the URI check\<close>

definition dotdot_at :: "bytes \<Rightarrow> nat \<Rightarrow> bool" where
  "dotdot_at mem i \<longleftrightarrow> mem ! i = ch_slash \<and> mem ! (i + 1) = ch_dot \<and> mem ! (i + 2) = ch_dot \<and> mem ! (i + 3) = ch_slash"

lemma peek_some [simp]: "i < length mem \<Longrightarrow> peek mem i = Some (mem ! i)"
  by (simp add: peek_def)

lemma at_dot_dot_slash_eq:
  "i + 2 < length mem \<Longrightarrow> at_dot_dot_slash mem i =
     Some (mem ! i = ch_dot \<and> mem ! (i + 1) = ch_dot \<and> mem ! (i + 2) = ch_slash)"
  by (simp add: at_dot_dot_slash_def)

definition safe_upto :: "bytes \<Rightarrow> nat \<Rightarrow> nat \<Rightarrow> bool" where
  "safe_upto mem p n \<longleftrightarrow> (\<forall>i. p \<le> i \<and> i < n \<longrightarrow> mem ! i \<noteq> ch_NUL \<and> mem ! i \<noteq> ch_qmark \<and> (i + 3 < n \<longrightarrow> \<not> dotdot_at mem i))"

lemma safe_upto_step:
  "safe_upto mem (Suc p) n \<Longrightarrow> mem ! p \<noteq> ch_NUL \<Longrightarrow> mem ! p \<noteq> ch_qmark \<Longrightarrow> (p + 3 < n \<longrightarrow> \<not> dotdot_at mem p)
   \<Longrightarrow> safe_upto mem p n"
  unfolding safe_upto_def by (metis Suc_leI le_neq_implies_less)

text \<open>What a result says, for a loop that has come to \<open>p\<close>; no result means an overread.\<close>

definition unsafe_ok :: "bytes \<Rightarrow> nat \<Rightarrow> nat \<Rightarrow> unsafe_result option \<Rightarrow> bool" where
  "unsafe_ok mem uri_len p res =
     (case res of
        None \<Rightarrow> False
      | Some (Inl _) \<Rightarrow> True
      | Some (Inr (n, args)) \<Rightarrow> p \<le> n \<and> n \<le> uri_len \<and> safe_upto mem p n
          \<and> args = (if n = uri_len then None else Some (n + 1, uri_len - (n + 1)))
          \<and> (n < uri_len \<longrightarrow> mem ! n = ch_qmark))"

lemma unsafe_ok_step:
  assumes "unsafe_ok mem uri_len (Suc p) res" and "mem ! p \<noteq> ch_NUL" "mem ! p \<noteq> ch_qmark"
    and "p + 3 < uri_len \<longrightarrow> \<not> dotdot_at mem p"
  shows "unsafe_ok mem uri_len p res"
  using assms by (auto simp: unsafe_ok_def intro!: safe_upto_step split: option.splits sum.splits)

lemma unsafe_uri_loop_correct:
  "p + len = uri_len \<Longrightarrow> uri_len < length mem \<Longrightarrow> unsafe_ok mem uri_len p (unsafe_uri_loop mem uri_len p len)"
proof (induction mem uri_len p len rule: unsafe_uri_loop.induct)
  case (1 mem uri_len p len)
  note IH = 1(1-3) and prems = 1(4,5)
  note [simp] = unsafe_uri_loop.simps [of mem uri_len p len]
  show ?case
  proof (cases "len = 0")
    case True
    then show ?thesis using prems by (auto simp: unsafe_ok_def safe_upto_def unsafe_uri_loop.simps [of _ _ _ 0])
  next
    case False
    then have p: "p < length mem" "p < uri_len" "uri_len - len = p" "Suc p + (len - 1) = uri_len"
      using prems by simp_all
    consider "is_usual (mem ! p)" | "mem ! p = ch_qmark" "\<not> is_usual (mem ! p)" | "mem ! p = ch_NUL" "\<not> is_usual (mem ! p)"
      | "\<not> is_usual (mem ! p)" "mem ! p \<noteq> ch_NUL" "mem ! p \<noteq> ch_qmark" by blast
    then show ?thesis
    proof cases
      case 1
      then have "mem ! p \<noteq> ch_slash" "mem ! p \<noteq> ch_NUL" "mem ! p \<noteq> ch_qmark" by (auto simp: is_usual_iff)
      then show ?thesis
        using IH(1) [of "mem ! p"] 1 p prems False by (intro unsafe_ok_step [of mem uri_len p]) (simp_all add: dotdot_at_def)
    next
      case 2
      then show ?thesis using p prems by (auto simp: unsafe_ok_def safe_upto_def)
    next
      case 3
      then show ?thesis using p False by (simp add: unsafe_ok_def)
    next
      case 4
      show ?thesis
      proof (cases "mem ! p = ch_slash \<and> len > 2")
        case True
        then have "p + 3 < length mem" using prems by simp
        then have at: "at_dot_dot_slash mem (p + 1) = Some (mem ! (p + 1) = ch_dot \<and> mem ! (p + 2) = ch_dot \<and> mem ! (p + 3) = ch_slash)"
          using at_dot_dot_slash_eq [of "p + 1" mem] by (simp add: numeral_eq_Suc)
        show ?thesis
        proof (cases "dotdot_at mem p")
          case hit: True
          then have "unsafe_uri_loop mem uri_len p len = Some (Inl ())"
            using 4 True p False at by (simp add: dotdot_at_def)
          then show ?thesis by (simp only: unsafe_ok_def option.case sum.case)
        next
          case no: False
          then have at': "at_dot_dot_slash mem (p + 1) = Some False" using True at by (simp add: dotdot_at_def)
          then have "unsafe_uri_loop mem uri_len p len = unsafe_uri_loop mem uri_len (p + 1) (len - 1)"
            using 4 True p False by simp
          moreover have "unsafe_ok mem uri_len (p + 1) (unsafe_uri_loop mem uri_len (p + 1) (len - 1))"
            using IH(2) [OF False, of "mem ! p" False] 4 True p prems at' by simp
          ultimately show ?thesis using 4 no by (simp only: Suc_eq_plus1 [symmetric]) (rule unsafe_ok_step, simp_all)
        qed
      next
        case no: False
        then have "p + 3 < uri_len \<longrightarrow> \<not> dotdot_at mem p" using prems by (auto simp: dotdot_at_def)
        then show ?thesis
          using IH(3) [of "mem ! p"] 4 no p prems False by (intro unsafe_ok_step [of mem uri_len p]) auto
      qed
    qed
  qed
qed


text \<open>
  C35. A URI that \<open>ngx_http_parse_unsafe_uri\<close> lets pass has a path without NUL and without a
  parent segment \<open>/../\<close> inside it; the path ends at the first question mark, and what
  follows it are the arguments. The function reads at most one byte behind the URI (with one
  readable byte there it always returns).
\<close>

theorem unsafe_uri_safe:
  assumes "len < length mem"
  shows "\<exists>res. ngx_http_parse_unsafe_uri mem len = Some res \<and>
    (\<forall>n args. res = Inr (n, args) \<longrightarrow>
       0 < n \<and> n \<le> len \<and> (\<forall>i<n. mem ! i \<notin> {ch_NUL, ch_qmark})
       \<and> (\<forall>i. i + 3 < n \<longrightarrow> \<not> dotdot_at mem i)
       \<and> args = (if n = len then None else Some (n + 1, len - (n + 1))) \<and> (n < len \<longrightarrow> mem ! n = ch_qmark))"
proof (cases "len = 0 \<or> mem ! 0 = ch_qmark")
  case True
  then have "ngx_http_parse_unsafe_uri mem len = Some (Inl ())"
    using assms by (auto simp: ngx_http_parse_unsafe_uri_def peek_def)
  then show ?thesis by simp
next
  case False
  have ok: "unsafe_ok mem len 0 (unsafe_uri_loop mem len 0 len)"
    using assms by (intro unsafe_uri_loop_correct) simp_all
  have "0 < n" if "n \<le> len" "n < len \<longrightarrow> mem ! n = ch_qmark" for n
    using that False by (cases n) auto
  with ok False show ?thesis
    using assms by (auto simp: ngx_http_parse_unsafe_uri_def unsafe_ok_def safe_upto_def peek_def split: option.splits sum.splits)
qed

theorem unsafe_uri_safe_witness:
  "\<exists>n args. ngx_http_parse_unsafe_uri (s2b ''/a/..b?c/../d '') 13 = Some (Inr (n, args)) \<and> n = 6 \<and> args = Some (7, 6)
     \<and> (\<forall>i. i + 3 < n \<longrightarrow> \<not> dotdot_at (s2b ''/a/..b?c/../d '') i)"
proof -
  have len: "13 < length (s2b ''/a/..b?c/../d '')" by simp
  have run: "ngx_http_parse_unsafe_uri (s2b ''/a/..b?c/../d '') 13 = Some (Inr (6, Some (7, 6)))" by code_simp
  from unsafe_uri_safe [OF len] run show ?thesis by (metis option.inject)
qed

text \<open>
  The guard against a leading parent segment compares the length for equality: \<open>../\<close> alone
  is refused, \<open>../\<close> followed by a name passes, and so does a path that ends in \<open>/..\<close>.
\<close>

lemma unsafe_uri_leading_dots:
  "ngx_http_parse_unsafe_uri (s2b ''../ '') 3 = Some (Inl ())
   \<and> ngx_http_parse_unsafe_uri (s2b ''../etc/passwd '') 13 = Some (Inr (13, None))
   \<and> ngx_http_parse_unsafe_uri (s2b ''/a/.. '') 5 = Some (Inr (5, None))"
  by (intro conjI) code_simp+

section \<open>Argument lookup\<close>

lemma takeWhile_notin: "c \<notin> set a \<Longrightarrow> takeWhile (\<lambda>x. x \<noteq> c) (a @ b) = a @ takeWhile (\<lambda>x. x \<noteq> c) b"
  by (induction a) auto

lemma ngx_strlchr_eq:
  "ngx_strlchr xs c = (if c \<in> set xs then Some (length (takeWhile (\<lambda>x. x \<noteq> c) xs)) else None)"
  by (induction xs) auto

text \<open>
  \<open>ngx_http_split_args\<close> cuts a URI at its first question mark.
\<close>

lemma split_args_first:
  "case ngx_http_split_args uri of
     (n, None) \<Rightarrow> ch_qmark \<notin> set uri \<and> n = length uri
   | (n, Some (s, l)) \<Rightarrow> uri = take n uri @ ch_qmark # subarray uri s (s + l) \<and> ch_qmark \<notin> set (take n uri)"
proof (cases "ch_qmark \<in> set uri")
  case True
  then obtain a b where uri: "uri = a @ ch_qmark # b" "ch_qmark \<notin> set a"
    by (metis split_list_first)
  then have "takeWhile (\<lambda>x. x \<noteq> ch_qmark) uri = a" by (simp add: takeWhile_notin)
  then show ?thesis using uri by (simp add: ngx_http_split_args_def ngx_strlchr_eq subarray_def)
qed (simp add: ngx_http_split_args_def ngx_strlchr_eq)

definition arg_at :: "bytes \<Rightarrow> bytes \<Rightarrow> nat \<Rightarrow> bool" where
  "arg_at args name p \<longleftrightarrow> (p = 0 \<or> args ! (p - 1) = ch_amp) \<and> p + length name < length args
     \<and> map ngx_tolower (take (length name) (drop p args)) = map ngx_tolower name
     \<and> args ! (p + length name) = ch_equals"

lemma prefix_iff_take: "prefix u s \<longleftrightarrow> take (length u) s = u"
  by (metis append_eq_conv_conj append_take_drop_id prefix_def)

lemma occurrence:
  assumes "pat \<noteq> []"
  shows "prefix (map ngx_tolower pat) (drop k (map ngx_tolower (butlast (drop p args)))) \<longleftrightarrow>
    p + k + length pat < length args \<and> map ngx_tolower (take (length pat) (drop (p + k) args)) = map ngx_tolower pat"
    (is "?l \<longleftrightarrow> ?r")
proof -
  let ?m = "length args - p - 1 - k"
  have "?l \<longleftrightarrow> map ngx_tolower (take (length pat) (take ?m (drop (p + k) args))) = map ngx_tolower pat"
    by (simp add: prefix_iff_take drop_map take_map butlast_conv_take drop_take add.commute)
  also have "\<dots> \<longleftrightarrow> ?r"
  proof (cases "length pat \<le> ?m")
    case True
    then show ?thesis using assms by (cases pat) (auto simp: min_def)
  next
    case False
    then have "length (take (length pat) (take ?m (drop (p + k) args))) \<noteq> length pat"
      using assms by auto
    then have "map ngx_tolower (take (length pat) (take ?m (drop (p + k) args))) \<noteq> map ngx_tolower pat"
      by (metis length_map)
    then show ?thesis using False by auto
  qed
  finally show ?thesis .
qed

lemma search_step:
  assumes "0 \<notin> set name" and "name \<noteq> []" and "p < length args"
  obtains r where "ngx_strlcasestrn (drop p args) (int (length args - p) - 1) name (length name - 1) = Some r"
    and "first_at (map ngx_tolower name) (map ngx_tolower (butlast (drop p args))) r"
proof -
  obtain c nm where name: "name = c # nm" using assms(2) by (cases name) auto
  have args: "drop p args = butlast (drop p args) @ [List.last (drop p args)]"
    using assms(3) by (metis append_butlast_last_id drop_eq_Nil not_le)
  have "finds (strlcasestrn_loop (ucast (ngx_tolower c)) nm (length nm)
      (int (length (butlast (drop p args))) - int (length nm)) (drop p args) 0) 0
      (map ngx_tolower (c # nm)) (map ngx_tolower (butlast (drop p args)))"
    using strlcasestrn_loop_finds [of c nm "[]" 0 "butlast (drop p args)" "[List.last (drop p args)]"] assms(1) args name by simp
  moreover have "int (length (butlast (drop p args))) = int (length args - p) - 1" using assms(3) by simp
  ultimately have "finds (ngx_strlcasestrn (drop p args) (int (length args - p) - 1) name (length name - 1)) 0
      (map ngx_tolower name) (map ngx_tolower (butlast (drop p args)))"
    by (simp only: name ngx_strlcasestrn_def list.case uint_lower_ucast) simp
  then show thesis using that unfolding finds_zero by blast
qed

definition arg_result :: "bytes \<Rightarrow> bytes \<Rightarrow> (nat \<times> nat) option \<Rightarrow> bool" where
  "arg_result args name r =
     (case r of
        None \<Rightarrow> \<forall>p. \<not> arg_at args name p
      | Some (s, l) \<Rightarrow> \<exists>p. arg_at args name p \<and> (\<forall>q<p. \<not> arg_at args name q) \<and> s = p + length name + 1
          \<and> subarray args s (s + l) = takeWhile (\<lambda>c. c \<noteq> ch_amp) (drop s args))"

lemma tolower_amp: "ngx_tolower c = ch_amp \<longleftrightarrow> c = ch_amp"
  using unat_tolower [of c] by (auto simp: word_unat_eq_iff split: if_splits)

lemma arg_at_split:
  assumes "arg_at args name q" and "ch_amp \<notin> set name"
  obtains nm where "drop q args = nm @ ch_equals # drop (q + length name + 1) args" and "length nm = length name"
    and "ch_amp \<notin> set nm"
proof
  let ?nm = "take (length name) (drop q args)"
  have len: "q + length name < length args" and eq: "args ! (q + length name) = ch_equals"
    and low: "map ngx_tolower ?nm = map ngx_tolower name" using assms(1) by (simp_all add: arg_at_def)
  show "drop q args = ?nm @ ch_equals # drop (q + length name + 1) args"
    using len eq by (metis Cons_nth_drop_Suc Suc_eq_plus1 append_take_drop_id drop_drop add.commute)
  show "length ?nm = length name" using len by simp
  have "ngx_tolower ch_amp \<notin> set (map ngx_tolower name)"
    using assms(2) by (auto simp: tolower_amp tolower_amp [THEN iffD2, OF refl] dest: sym)
  then show "ch_amp \<notin> set ?nm" unfolding low [symmetric] by auto
qed

lemma arg_value:
  assumes "arg_at args name q" and "ch_amp \<notin> set name" and "s = q + length name + 1"
    and "e = (case ngx_strlchr (drop q args) ch_amp of None \<Rightarrow> length args | Some j \<Rightarrow> q + j)"
  shows "subarray args s e = takeWhile (\<lambda>c. c \<noteq> ch_amp) (drop s args) \<and> s \<le> e"
proof -
  obtain nm where nm: "drop q args = nm @ ch_equals # drop s args" "length nm = length name" "ch_amp \<notin> set nm"
    using arg_at_split [OF assms(1,2)] assms(3) by metis
  let ?tw = "takeWhile (\<lambda>c. c \<noteq> ch_amp) (drop s args)"
  have tw: "takeWhile (\<lambda>c. c \<noteq> ch_amp) (drop q args) = nm @ ch_equals # ?tw"
    using nm(3) by (simp add: nm(1) takeWhile_notin)
  have take_tw: "take (length ?tw) (drop s args) = ?tw" by (rule takeWhile_eq_take [symmetric])
  have "s \<le> length args" using nm assms(1,3) by (simp add: arg_at_def)
  show ?thesis
  proof (cases "ch_amp \<in> set (drop q args)")
    case True
    then have "e = s + length ?tw" using assms(3,4) tw nm(2) by (simp add: ngx_strlchr_eq)
    then show ?thesis using take_tw by (simp add: subarray_def)
  next
    case False
    then have all: "?tw = drop s args" unfolding nm(1) by (simp add: takeWhile_eq_all_conv) metis
    have "e = length args" using False assms(4) by (simp add: ngx_strlchr_eq)
    then show ?thesis unfolding all using \<open>s \<le> length args\<close> by (simp add: subarray_def)
  qed
qed

lemma http_arg_loop_correct:
  "0 \<notin> set name \<Longrightarrow> name \<noteq> [] \<Longrightarrow> ch_amp \<notin> set name \<Longrightarrow> (\<forall>q<p. \<not> arg_at args name q) \<Longrightarrow>
   \<exists>r. http_arg_loop args name p = Some r \<and> arg_result args name r"
proof (induction args name p rule: http_arg_loop.induct)
  case (1 args name p)
  show ?case
  proof (cases "p < length args")
    case False
    then have "\<not> arg_at args name q" for q using 1(5) [rule_format, of q] by (cases "q < p") (auto simp: arg_at_def)
    then show ?thesis using False by (simp add: http_arg_loop.simps arg_result_def)
  next
    case True
    obtain r where r: "ngx_strlcasestrn (drop p args) (int (length args - p) - 1) name (length name - 1) = Some r"
        "first_at (map ngx_tolower name) (map ngx_tolower (butlast (drop p args))) r"
      using search_step [OF 1(2,3) True] .
    have occ: "arg_at args name (p + k) \<Longrightarrow> prefix (map ngx_tolower name) (drop k (map ngx_tolower (butlast (drop p args))))" for k
      using occurrence [OF 1(3), of k p args] by (simp add: arg_at_def)
    show ?thesis
    proof (cases r)
      case None
      have "\<not> arg_at args name q" for q
      proof (cases "q < p")
        case False
        then obtain k where "q = p + k" by (metis le_Suc_ex not_less)
        then show ?thesis
          using occ [of k] r(2) None by (auto simp: first_at_def sublist_def prefix_def) (metis append_take_drop_id)
      qed (use 1(5) in simp)
      then show ?thesis using True r(1) None by (simp add: http_arg_loop.simps arg_result_def)
    next
      case (Some k)
      have before: "\<not> arg_at args name q" if "q < p + k" for q
      proof (cases "q < p")
        case False
        then obtain j where "q = p + j" by (metis le_Suc_ex not_less)
        moreover from this have "j < k" using that by simp
        ultimately show ?thesis using occ [of j] r(2) Some by (auto simp: first_at_def)
      qed (use 1(5) in simp)
      have here: "p + k + length name < length args"
          "map ngx_tolower (take (length name) (drop (p + k) args)) = map ngx_tolower name"
        using r(2) Some occurrence [OF 1(3), of k p args] by (simp_all add: first_at_def)
      show ?thesis
      proof (cases "(p + k = 0 \<or> args ! (p + k - 1) = ch_amp) \<and> args ! (p + k + length name) = ch_equals")
        case hit: True
        then have at: "arg_at args name (p + k)" using here by (simp add: arg_at_def)
        let ?s = "p + k + length name + 1"
        let ?e = "case ngx_strlchr (drop (p + k) args) ch_amp of None \<Rightarrow> length args | Some j \<Rightarrow> p + k + j"
        have "http_arg_loop args name p = Some (Some (?s, ?e - ?s))"
          using True r(1) Some hit by (subst http_arg_loop.simps) (simp add: Let_def)
        moreover have "arg_result args name (Some (?s, ?e - ?s))"
          using arg_value [OF at 1(4) refl refl] at before unfolding arg_result_def
          by (simp del: add_Suc_right)
        ultimately show ?thesis by blast
      next
        case miss: False
        then have "http_arg_loop args name p = http_arg_loop args name (p + k + 1)"
          using True r(1) Some by (subst http_arg_loop.simps) (auto simp: Let_def)
        moreover have "\<forall>q<p + k + 1. \<not> arg_at args name q"
          using before miss by (auto simp: less_Suc_eq arg_at_def)
        ultimately show ?thesis
          using 1(1) [OF True r(1) Some refl miss 1(2-4)] by simp
      qed
    qed
  qed
qed


text \<open>
  \<open>ngx_http_arg\<close> finds an argument: for a non-empty name without NUL and ampersand it never
  reads outside the argument string; when the answer is positive the value is that of the
  first argument, at the start or behind an ampersand, whose name equals the given one up to
  case and is followed by an equals sign, and it extends to the next ampersand or the end;
  when it declines there is no such argument.
\<close>

lemma http_arg_first:
  assumes "0 \<notin> set name" and "name \<noteq> []" and "ch_amp \<notin> set name"
  shows "\<exists>r. ngx_http_arg args name = Some r \<and> arg_result args name r"
proof (cases "args = []")
  case True
  then show ?thesis by (simp add: ngx_http_arg_def arg_result_def arg_at_def)
qed (use http_arg_loop_correct [OF assms, of 0 args] in \<open>simp add: ngx_http_arg_def\<close>)

lemma http_arg_first_example:
  "\<exists>r. ngx_http_arg (s2b ''xsid=1&SID=a%20&sid=2'') (s2b ''sid'') = Some r \<and> r = Some (11, 4)
     \<and> arg_result (s2b ''xsid=1&SID=a%20&sid=2'') (s2b ''sid'') r"
proof -
  have name: "0 \<notin> set (s2b ''sid'')" "s2b ''sid'' \<noteq> []" "ch_amp \<notin> set (s2b ''sid'')" by simp_all
  have run: "ngx_http_arg (s2b ''xsid=1&SID=a%20&sid=2'') (s2b ''sid'') = Some (Some (11, 4))" by code_simp
  from http_arg_first [OF name, of "s2b ''xsid=1&SID=a%20&sid=2''"] run show ?thesis by (metis option.inject)
qed

section \<open>Multi-line headers\<close>

text \<open>Where an item of a header value may start: at the beginning, or behind a separator and spaces.\<close>

definition item_start :: "bytes \<Rightarrow> bool" where
  "item_start pre \<longleftrightarrow>
     pre = [] \<or> (\<exists>a sep n. pre = a @ sep # replicate n ch_SP \<and> (sep = ch_semicolon \<or> sep = ch_comma))"

lemma skip_spaces_split: "\<exists>n. s = replicate n ch_SP @ skip_spaces s"
proof (induction s)
  case (Cons c s)
  then obtain n where "s = replicate n ch_SP @ skip_spaces s" by blast
  then show ?case by (cases "c = ch_SP") (auto intro: exI [of _ "Suc n"] exI [of _ 0])
qed simp

lemma skip_item_split: "\<exists>pre. s = pre @ skip_item s \<and> (skip_item s = [] \<or> item_start (a @ pre))"
proof (induction s arbitrary: a)
  case (Cons c s)
  show ?case
  proof (cases "c = ch_semicolon \<or> c = ch_comma")
    case True
    obtain n where n: "s = replicate n ch_SP @ skip_spaces s" using skip_spaces_split by blast
    then have "c # s = (c # replicate n ch_SP) @ skip_item (c # s)" using True by auto
    moreover have "item_start (a @ c # replicate n ch_SP)"
      using True unfolding item_start_def by blast
    ultimately show ?thesis by blast
  next
    case False
    obtain pre where "s = pre @ skip_item s \<and> (skip_item s = [] \<or> item_start ((a @ [c]) @ pre))"
      using Cons.IH by blast
    then show ?thesis using False by (intro exI [of _ "c # pre"]) auto
  qed
qed simp

text \<open>A value found in a header: an item \<open>name = value\<close> up to case and spaces.\<close>

definition header_item :: "bytes \<Rightarrow> bytes \<Rightarrow> bytes \<Rightarrow> bool" where
  "header_item name h v \<longleftrightarrow>
     (\<exists>pre nm i j post. h = pre @ nm @ replicate i ch_SP @ ch_equals # replicate j ch_SP @ v @ post
        \<and> item_start pre \<and> map ngx_tolower nm = map ngx_tolower name
        \<and> ch_semicolon \<notin> set v \<and> (post = [] \<or> hd post = ch_semicolon))"

text \<open>At an item: the comparison either fails or the item starts with the name.\<close>

lemma strncasecmp_item:
  assumes "0 \<notin> set name"
  obtains m where "ngx_strncasecmp (s @ 0 # x) name (length name) = Some m"
    and "m = 0 \<longleftrightarrow> length name \<le> length s \<and> map ngx_tolower (take (length name) s) = map ngx_tolower name"
proof -
  obtain m where m: "ngx_strncasecmp (s @ 0 # x) name (length name) = Some m"
      "m = 0 \<longleftrightarrow> prefix (map ngx_tolower name) (map ngx_tolower (s @ 0 # x))"
    using ngx_strncasecmp_prefix [of name "s @ 0 # x" "[]"] assms by auto
  have "length name \<le> length s" if "prefix (map ngx_tolower name) (map ngx_tolower (s @ 0 # x))"
  proof (rule ccontr)
    assume *: "\<not> length name \<le> length s"
    then have "map ngx_tolower name ! length s = map ngx_tolower (s @ 0 # x) ! length s"
      using that by (metis length_map not_le nth_append prefix_def)
    then have "name ! length s = 0" using * by (simp add: nth_append)
    then show False using assms * by (metis not_le nth_mem)
  qed
  moreover have "prefix (map ngx_tolower name) (map ngx_tolower (s @ 0 # x)) \<longleftrightarrow>
      map ngx_tolower (take (length name) s) = map ngx_tolower name" if "length name \<le> length s"
    using that by (simp add: prefix_iff_take take_map)
  ultimately have "m = 0 \<longleftrightarrow> length name \<le> length s \<and> map ngx_tolower (take (length name) s) = map ngx_tolower name"
    using m(2) by blast
  with m(1) show thesis by (rule that)
qed

lemma multi_header_value_sound:
  "0 \<notin> set name \<Longrightarrow> h = pre @ s \<Longrightarrow> s = [] \<or> item_start pre \<Longrightarrow>
   \<exists>r. multi_header_value True name (0 # x) s = Some r \<and> (\<forall>v. r = Some v \<longrightarrow> header_item name h v)"
proof (induction "length s" arbitrary: s pre rule: less_induct)
  case less
  note prems = less.prems
  show ?case
  proof (cases "s = []")
    case False
    obtain m where m: "ngx_strncasecmp (s @ 0 # x) name (length name) = Some m"
      "m = 0 \<longleftrightarrow> length name \<le> length s \<and> map ngx_tolower (take (length name) s) = map ngx_tolower name"
      using strncasecmp_item [OF prems(1)] .
    have again: "\<exists>r. multi_header_value True name (0 # x) (skip_item t) = Some r \<and> (\<forall>v. r = Some v \<longrightarrow> header_item name h v)"
      if "h = q @ t" "length t \<le> length s" for q t
    proof -
      obtain pre' where "t = pre' @ skip_item t" "skip_item t = [] \<or> item_start (q @ pre')"
        using skip_item_split by blast
      then show ?thesis
        using less.hyps [of "skip_item t" "q @ pre'"] skip_item_less [OF that(2) False] prems(1) that(1) by simp
    qed
    show ?thesis
    proof (cases "m = 0")
      case no: False
      then show ?thesis
        using again [OF prems(2) order.refl] m(1) False by (subst multi_header_value.simps) simp
    next
      case yes: True
      let ?nm = "take (length name) s" and ?s1 = "skip_spaces (drop (length name) s)"
      obtain i where i: "drop (length name) s = replicate i ch_SP @ ?s1" using skip_spaces_split by blast
      have s: "s = ?nm @ replicate i ch_SP @ ?s1" using i by (metis append_take_drop_id)
      show ?thesis
      proof (cases "?s1 = []")
        case True
        then show ?thesis using m yes False by (subst multi_header_value.simps) (auto simp: Let_def)
      next
        case s1: False
        then have tl: "?s1 = hd ?s1 # tl ?s1" by simp
        show ?thesis
        proof (cases "hd ?s1 = ch_equals")
          case eq: True
          obtain j where j: "tl ?s1 = replicate j ch_SP @ skip_spaces (tl ?s1)" using skip_spaces_split by blast
          let ?v = "takeWhile (\<lambda>c. c \<noteq> ch_semicolon) (skip_spaces (tl ?s1))"
          let ?post = "dropWhile (\<lambda>c. c \<noteq> ch_semicolon) (skip_spaces (tl ?s1))"
          have "multi_header_value True name (0 # x) s = Some (Some ?v)"
            using m yes False s1 eq by (subst multi_header_value.simps) (auto simp: Let_def)
          moreover have "header_item name h ?v"
          proof -
            have "h = pre @ ?nm @ replicate i ch_SP @ ch_equals # replicate j ch_SP @ ?v @ ?post"
              using prems(2) s tl eq j by (metis append_Cons append.left_neutral takeWhile_dropWhile_id)
            moreover have "?post = [] \<or> hd ?post = ch_semicolon" using hd_dropWhile by blast
            moreover have "ch_semicolon \<notin> set ?v" using set_takeWhileD by metis
            ultimately show ?thesis
              using prems(3) False m(2) yes unfolding header_item_def by blast
          qed
          ultimately show ?thesis by blast
        next
          case ne: False
          have step: "multi_header_value True name (0 # x) s = multi_header_value True name (0 # x) (skip_item (tl ?s1))"
            using m yes False s1 ne by (subst multi_header_value.simps) (simp add: Let_def)
          have "h = (pre @ ?nm @ replicate i ch_SP @ [hd ?s1]) @ tl ?s1"
            using prems(2) s tl by (metis append.assoc append_Cons append_Nil)
          moreover have "length (tl ?s1) \<le> length s"
            using skip_spaces_shorter [of "drop (length name) s"] by simp
          ultimately show ?thesis unfolding step by (rule again)
        qed
      qed
    qed
  qed (simp add: multi_header_value.simps)
qed

text \<open>
  C36. Looking up a cookie or another list-valued header: over header values that are followed by
  a NUL, \<open>ngx_http_parse_multi_header_lines\<close> with a \<open>value\<close> argument always returns without
  reading behind that NUL, and a value it finds is that of an item \<open>name = value\<close> of the header
  whose index it returns: the item starts the header or follows a separator, the names agree up
  to case, and the value ends at a semicolon or with the header.
\<close>

theorem multi_header_lines_sound:
  assumes "0 \<notin> set name" and "\<forall>h\<in>set headers. snd h \<noteq> [] \<and> hd (snd h) = ch_NUL"
  shows "\<exists>r. ngx_http_parse_multi_header_lines headers name True = Some r
    \<and> (\<forall>i v. r = Some (i, v) \<longrightarrow> i < length headers \<and> header_item name (fst (headers ! i)) v)"
proof -
  have "\<exists>r. multi_header_lines_from True name k hs = Some r
      \<and> (\<forall>i v. r = Some (i, v) \<longrightarrow> k \<le> i \<and> i < k + length hs \<and> header_item name (fst (hs ! (i - k))) v)"
    if "\<forall>h\<in>set hs. snd h \<noteq> [] \<and> hd (snd h) = ch_NUL" for k hs
    using that
  proof (induction hs arbitrary: k)
    case (Cons h hs)
    obtain x where x: "snd h = 0 # x" using Cons.prems by (cases "snd h") auto
    obtain r where r: "multi_header_value True name (snd h) (fst h) = Some r" "\<forall>v. r = Some v \<longrightarrow> header_item name (fst h) v"
      using multi_header_value_sound [OF assms(1), of "fst h" "[]" "fst h" x] x by (auto simp: item_start_def)
    obtain r' where r': "multi_header_lines_from True name (k + 1) hs = Some r'"
        "\<forall>i v. r' = Some (i, v) \<longrightarrow> k + 1 \<le> i \<and> i < k + 1 + length hs \<and> header_item name (fst (hs ! (i - (k + 1)))) v"
      using Cons by fastforce
    have tail: "\<forall>i v. r' = Some (i, v) \<longrightarrow> k \<le> i \<and> i < k + length (h # hs) \<and> header_item name (fst ((h # hs) ! (i - k))) v"
    proof (intro allI impI)
      fix i v assume "r' = Some (i, v)"
      with r'(2) have "k + 1 \<le> i \<and> i < k + 1 + length hs \<and> header_item name (fst (hs ! (i - (k + 1)))) v" by blast
      moreover from this have "(h # hs) ! (i - k) = hs ! (i - (k + 1))" by (simp add: nth_Cons')
      ultimately show "k \<le> i \<and> i < k + length (h # hs) \<and> header_item name (fst ((h # hs) ! (i - k))) v" by simp
    qed
    show ?case
    proof (cases "length name > length (fst h) \<or> r = None")
      case True
      then have "multi_header_lines_from True name k (h # hs) = Some r'" using r(1) r'(1) by auto
      then show ?thesis using tail by blast
    next
      case False
      then obtain v where "r = Some v" by blast
      then have "multi_header_lines_from True name k (h # hs) = Some (Some (k, v))" using r(1) False by simp
      then show ?thesis using r(2) \<open>r = Some v\<close> by simp
    qed
  qed simp
  from this [OF assms(2), of 0] show ?thesis by (simp add: ngx_http_parse_multi_header_lines_def)
qed

theorem multi_header_lines_sound_witness:
  "\<exists>r. ngx_http_parse_multi_header_lines [(s2b ''a=1'', [0]), (s2b ''x; B = 2;c'', [0])] (s2b ''b'') True = Some r
    \<and> r = Some (1, s2b ''2'') \<and> header_item (s2b ''b'') (s2b ''x; B = 2;c'') (s2b ''2'')"
proof -
  have hyp: "0 \<notin> set (s2b ''b'')" "\<forall>h\<in>set [(s2b ''a=1'', [0]), (s2b ''x; B = 2;c'', [0])]. snd h \<noteq> [] \<and> hd (snd h) = ch_NUL"
    by simp_all
  have run: "ngx_http_parse_multi_header_lines [(s2b ''a=1'', [0]), (s2b ''x; B = 2;c'', [0])] (s2b ''b'') True = Some (Some (1, s2b ''2''))"
    by code_simp
  from multi_header_lines_sound [OF hyp] run have "header_item (s2b ''b'') (fst ([(s2b ''a=1'', [0]), (s2b ''x; B = 2;c'', [0::byte])] ! 1)) (s2b ''2'')"
    by (metis option.inject)
  then show ?thesis using run by simp
qed

end
