(* ===== verification/AccessKeys.thy ===== *)
theory AccessKeys
  imports NgxString
begin

text \<open>
  The key tables of the access control module,
  \<^verbatim>\<open>src/http/modules/ngx_http_access_control_module.c\<close>: the rows that the database returns,
  the tables that \<open>ngx_http_limit_init_keypool\<close> builds from them, and the searches in the tables.
  A string of the tables is a piece of pool memory: its bytes are followed by others that the
  comparisons may read. What stands behind a copy is a part of the row, since it depends on the
  allocations; a comparison that would leave the memory is \<open>None\<close>.
\<close>

section \<open>Definitions\<close>

record pool_str =
  ps_data :: bytes
  ps_len :: nat

record ac_hash_key =
  hk_key :: pool_str
  hk_hash :: ngx_uint_t
  hk_value :: ngx_uint_t

record ac_tables =
  keyarray :: "pool_str list"
  urisidarray :: "pool_str list"
  hashkeyarray :: "ac_hash_key list"

text \<open>
  The buffers of 33, 65 and 7 bytes at the start of a round of the loop, the number, and the
  memory behind the three copies that are kept.
\<close>

record keylimit_row =
  kl_key :: bytes
  kl_uri :: bytes
  kl_sid :: bytes
  kl_maxtps :: ngx_uint_t
  kl_behind_key :: bytes
  kl_behind_urisid :: bytes
  kl_behind_hashkey :: bytes

text \<open>The loops that look for the end of a value in its buffer.\<close>

primrec cut_at_space :: "nat \<Rightarrow> bytes \<Rightarrow> bytes option" where
  "cut_at_space 0 data = Some []"
| "cut_at_space (Suc n) data =
     (case data of [] \<Rightarrow> None | c # rest \<Rightarrow> if c = ch_SP then Some [] else map_option ((#) c) (cut_at_space n rest))"

fun key_known :: "pool_str list \<Rightarrow> bytes \<Rightarrow> bool option" where
  "key_known [] key = Some False"
| "key_known (elt # elts) key =
     (case ngx_strncmp (ps_data elt) key (ps_len elt) of
        None \<Rightarrow> None
      | Some m \<Rightarrow> if m = 0 then Some True else key_known elts key)"

text \<open>The search for a URI followed by a service id, the same in the loop of the rows and in the handler.\<close>

fun urisid_known :: "pool_str list \<Rightarrow> bytes \<Rightarrow> nat \<Rightarrow> bytes \<Rightarrow> nat \<Rightarrow> bool option" where
  "urisid_known [] uri ulen sid slen = Some False"
| "urisid_known (elt # elts) uri ulen sid slen =
     (case ngx_strncmp (ps_data elt) uri ulen of
        None \<Rightarrow> None
      | Some m \<Rightarrow>
          if m \<noteq> 0 then urisid_known elts uri ulen sid slen
          else case ngx_strncmp (drop ulen (ps_data elt)) sid slen of
                 None \<Rightarrow> None
               | Some m' \<Rightarrow> if m' = 0 then Some True else urisid_known elts uri ulen sid slen)"

definition ac_add_row :: "keylimit_row \<Rightarrow> ac_tables \<Rightarrow> ac_tables option" where
  "ac_add_row row ctx =
     (case (cut_at_space 33 (kl_key row), cut_at_space 65 (kl_uri row), cut_at_space 7 (kl_sid row)) of
        (Some key, Some uri, Some sid) \<Rightarrow>
          (case (key_known (keyarray ctx) (key @ kl_behind_key row),
                 urisid_known (urisidarray ctx) uri (length uri) sid (length sid)) of
             (Some k1, Some k2) \<Rightarrow>
               let ctx = (if k1 then ctx
                          else ctx\<lparr>keyarray := keyarray ctx @ [\<lparr>ps_data = key @ kl_behind_key row, ps_len = length key\<rparr>]\<rparr>);
                   ctx = (if k2 then ctx
                          else ctx\<lparr>urisidarray := urisidarray ctx
                                     @ [\<lparr>ps_data = uri @ sid @ kl_behind_urisid row, ps_len = length uri + length sid\<rparr>]\<rparr>)
               in Some (ctx\<lparr>hashkeyarray := hashkeyarray ctx
                     @ [\<lparr>hk_key = \<lparr>ps_data = key @ sid @ kl_behind_hashkey row, ps_len = length key + length sid\<rparr>,
                         hk_hash = ngx_hash_key_lc (key @ sid), hk_value = kl_maxtps row\<rparr>]\<rparr>)
           | _ \<Rightarrow> None)
      | _ \<Rightarrow> None)"

text \<open>
  \<open>ngx_http_limit_init_keypool\<close>: \<open>connected\<close> says that the environment and the handles were made,
  \<open>rows\<close> holds the buffers of each round. The loop runs at least once, with buffers of zeros
  when the statement returned no row.
\<close>

fun ac_add_rows :: "keylimit_row list \<Rightarrow> ac_tables \<Rightarrow> ac_tables option" where
  "ac_add_rows [] ctx = Some ctx"
| "ac_add_rows (row # rows) ctx = (case ac_add_row row ctx of None \<Rightarrow> None | Some ctx' \<Rightarrow> ac_add_rows rows ctx')"

definition no_tables :: ac_tables where
  "no_tables = \<lparr>keyarray = [], urisidarray = [], hashkeyarray = []\<rparr>"

definition ngx_http_limit_init_keypool :: "bool \<Rightarrow> keylimit_row list \<Rightarrow> (ngx_rc \<times> ac_tables) option" where
  "ngx_http_limit_init_keypool connected rows =
     (if \<not> connected then Some (NGX_ERROR, no_tables)
      else case ac_add_rows rows no_tables of None \<Rightarrow> None | Some ctx \<Rightarrow> Some (NGX_OK, ctx))"

text \<open>The searches of the handler for a token and for a token followed by a service id.\<close>

fun key_listed :: "pool_str list \<Rightarrow> bytes \<Rightarrow> nat \<Rightarrow> bool option" where
  "key_listed [] token tlen = Some False"
| "key_listed (elt # elts) token tlen =
     (case ngx_strncmp (ps_data elt) token (ps_len elt) of
        None \<Rightarrow> None
      | Some m \<Rightarrow>
          if m \<noteq> 0 then key_listed elts token tlen
          else case ngx_strncmp (ps_data elt) token tlen of
                 None \<Rightarrow> None
               | Some m' \<Rightarrow> if m' = 0 then Some True else key_listed elts token tlen)"

fun hashkey_find :: "ac_hash_key list \<Rightarrow> bytes \<Rightarrow> nat \<Rightarrow> ac_hash_key option option" where
  "hashkey_find [] hashkey hlen = Some None"
| "hashkey_find (elt # elts) hashkey hlen =
     (case ngx_strncmp (ps_data (hk_key elt)) hashkey (ps_len (hk_key elt)) of
        None \<Rightarrow> None
      | Some m \<Rightarrow>
          if m \<noteq> 0 then hashkey_find elts hashkey hlen
          else case ngx_strncmp (ps_data (hk_key elt)) hashkey hlen of
                 None \<Rightarrow> None
               | Some m' \<Rightarrow> if m' = 0 then Some (Some elt) else hashkey_find elts hashkey hlen)"

section \<open>What the tables hold\<close>

definition row_key :: "keylimit_row \<Rightarrow> bytes" where
  "row_key row = takeWhile (\<lambda>c. c \<noteq> ch_SP) (take 33 (kl_key row))"

definition row_uri :: "keylimit_row \<Rightarrow> bytes" where
  "row_uri row = takeWhile (\<lambda>c. c \<noteq> ch_SP) (take 65 (kl_uri row))"

definition row_sid :: "keylimit_row \<Rightarrow> bytes" where
  "row_sid row = takeWhile (\<lambda>c. c \<noteq> ch_SP) (take 7 (kl_sid row))"

lemma cut_at_space_eq: "cut_at_space n data = Some s \<Longrightarrow> s = takeWhile (\<lambda>c. c \<noteq> ch_SP) (take n data)"
  by (induction n arbitrary: data s) (auto split: list.splits if_splits)

text \<open>The entries that a row makes.\<close>

definition key_entry :: "keylimit_row \<Rightarrow> pool_str" where
  "key_entry row = \<lparr>ps_data = row_key row @ kl_behind_key row, ps_len = length (row_key row)\<rparr>"

definition urisid_entry :: "keylimit_row \<Rightarrow> pool_str" where
  "urisid_entry row =
     \<lparr>ps_data = row_uri row @ row_sid row @ kl_behind_urisid row, ps_len = length (row_uri row) + length (row_sid row)\<rparr>"

definition hashkey_entry :: "keylimit_row \<Rightarrow> ac_hash_key" where
  "hashkey_entry row =
     \<lparr>hk_key = \<lparr>ps_data = row_key row @ row_sid row @ kl_behind_hashkey row, ps_len = length (row_key row) + length (row_sid row)\<rparr>,
      hk_hash = ngx_hash_key_lc (row_key row @ row_sid row), hk_value = kl_maxtps row\<rparr>"

lemma add_row_entries:
  assumes "ac_add_row row ctx = Some ctx'"
  shows "set (keyarray ctx') \<subseteq> insert (key_entry row) (set (keyarray ctx))"
    and "set (urisidarray ctx') \<subseteq> insert (urisid_entry row) (set (urisidarray ctx))"
    and "hashkeyarray ctx' = hashkeyarray ctx @ [hashkey_entry row]"
proof -
  obtain key uri sid where "cut_at_space 33 (kl_key row) = Some key" "cut_at_space 65 (kl_uri row) = Some uri" "cut_at_space 7 (kl_sid row) = Some sid"
    using assms by (auto simp: ac_add_row_def split: option.splits)
  moreover from this have "key = row_key row" "uri = row_uri row" "sid = row_sid row"
    using cut_at_space_eq unfolding row_key_def row_uri_def row_sid_def by blast+
  ultimately have "set (keyarray ctx') \<subseteq> insert (key_entry row) (set (keyarray ctx))
      \<and> set (urisidarray ctx') \<subseteq> insert (urisid_entry row) (set (urisidarray ctx))
      \<and> hashkeyarray ctx' = hashkeyarray ctx @ [hashkey_entry row]"
    using assms by (auto simp: ac_add_row_def key_entry_def urisid_entry_def hashkey_entry_def Let_def split: option.splits if_splits)
  then show "set (keyarray ctx') \<subseteq> insert (key_entry row) (set (keyarray ctx))"
    "set (urisidarray ctx') \<subseteq> insert (urisid_entry row) (set (urisidarray ctx))"
    "hashkeyarray ctx' = hashkeyarray ctx @ [hashkey_entry row]" by blast+
qed

lemma add_rows_entries:
  "ac_add_rows rows ctx = Some ctx' \<Longrightarrow>
     set (keyarray ctx') \<subseteq> set (keyarray ctx) \<union> key_entry ` set rows
   \<and> set (urisidarray ctx') \<subseteq> set (urisidarray ctx) \<union> urisid_entry ` set rows
   \<and> hashkeyarray ctx' = hashkeyarray ctx @ map hashkey_entry rows"
proof (induction rows arbitrary: ctx)
  case (Cons row rows)
  then obtain ctx1 where 1: "ac_add_row row ctx = Some ctx1" "ac_add_rows rows ctx1 = Some ctx'" by (auto split: option.splits)
  show ?case using Cons.IH [OF 1(2)] add_row_entries [OF 1(1)] by auto
qed simp

lemma keypool_entries:
  assumes "ngx_http_limit_init_keypool True rows = Some (NGX_OK, ctx)"
  shows "set (keyarray ctx) \<subseteq> key_entry ` set rows" "set (urisidarray ctx) \<subseteq> urisid_entry ` set rows"
    "hashkeyarray ctx = map hashkey_entry rows"
  using assms add_rows_entries [of rows no_tables ctx]
  by (auto simp: ngx_http_limit_init_keypool_def no_tables_def split: option.splits)

section \<open>What the searches find\<close>

lemma strncmp_equal:
  "ngx_strncmp s t n = Some 0 \<Longrightarrow> 0 \<notin> set (take n s) \<or> 0 \<notin> set (take n t) \<Longrightarrow>
     n \<le> length s \<and> n \<le> length t \<and> take n s = take n t"
proof (induction s t n rule: ngx_strncmp.induct)
  case (2 a s1 b s2 n)
  then show ?case by (auto split: if_splits)
qed auto

lemma urisid_known_elt:
  "urisid_known elts uri ulen sid slen = Some True \<Longrightarrow>
     \<exists>elt\<in>set elts. ngx_strncmp (ps_data elt) uri ulen = Some 0 \<and> ngx_strncmp (drop ulen (ps_data elt)) sid slen = Some 0"
  by (induction elts uri ulen sid slen rule: urisid_known.induct) (auto split: option.splits if_splits)

lemma key_listed_elt:
  "key_listed elts token tlen = Some True \<Longrightarrow>
     \<exists>elt\<in>set elts. ngx_strncmp (ps_data elt) token (ps_len elt) = Some 0 \<and> ngx_strncmp (ps_data elt) token tlen = Some 0"
  by (induction elts token tlen rule: key_listed.induct) (auto split: option.splits if_splits)

lemma hashkey_find_elt:
  "hashkey_find elts hashkey hlen = Some (Some elt) \<Longrightarrow>
     elt \<in> set elts \<and> ngx_strncmp (ps_data (hk_key elt)) hashkey (ps_len (hk_key elt)) = Some 0
       \<and> ngx_strncmp (ps_data (hk_key elt)) hashkey hlen = Some 0"
  by (induction elts hashkey hlen rule: hashkey_find.induct) (auto split: option.splits if_splits)

text \<open>
  Two strings that agree over the length of either are equal when the byte behind each of the two, if there is one, does not occur in
  the other.
\<close>

definition apart :: "bytes \<Rightarrow> bytes \<Rightarrow> bool" where
  "apart behind t \<longleftrightarrow> (\<forall>x b. behind = x # b \<longrightarrow> x \<notin> set t)"

lemma apart_longer:
  assumes "take (length t) (s @ b) = t" "length s < length t" "apart b t"
  shows False
proof (cases b)
  case Nil
  then show ?thesis using assms(2) arg_cong [OF assms(1), of length] by simp
next
  case (Cons x b')
  then have "take (length t) (s @ b) ! length s = x" using assms(2) by (simp add: nth_append)
  then have "x \<in> set t" using assms(1,2) by (metis nth_mem)
  then show ?thesis using assms(3) Cons by (simp add: apart_def)
qed

lemma both_prefixes_equal:
  assumes "ngx_strncmp (s @ b) (t @ c) (length s) = Some 0" and "ngx_strncmp (s @ b) (t @ c) (length t) = Some 0"
    and "0 \<notin> set s" and "0 \<notin> set t" and "apart b t" and "apart c s"
  shows "s = t"
proof -
  have eq: "take (length s) (t @ c) = s" "take (length t) (s @ b) = t"
    using strncmp_equal [OF assms(1)] strncmp_equal [OF assms(2)] assms(3,4) by auto
  have "\<not> length s < length t" using apart_longer [OF eq(2) _ assms(5)] by blast
  moreover have "\<not> length t < length s" using apart_longer [OF eq(1) _ assms(6)] by blast
  ultimately have "length s = length t" by simp
  then show ?thesis using eq(1) by simp
qed

end
