(* ===== verification/AccessLimit.thy ===== *)
theory AccessLimit
  imports NgxRbtree NgxQueue AccessKeys
begin

text \<open>
  The rate limiter of the access control module,
  \<^verbatim>\<open>src/http/modules/ngx_http_access_control_module.c\<close>: the nodes of a shared memory zone, their
  red-black tree and their queue in the order of last use, and the functions
  \<open>ngx_http_access_control_lookup\<close>, \<open>ngx_http_access_control_account\<close> and
  \<open>ngx_http_access_control_expire\<close>. A node is an address; the store gives its fields, the tree
  holds addresses, and the queue links are those of the theory of queues. The slab allocator is a
  parameter: it gets the addresses in use and the size, and returns an address or fails. The
  clock is an argument. Arithmetic is that of 64-bit words.
\<close>

section \<open>Definitions\<close>

text \<open>\<open>ngx_http_access_control_node_t\<close> with the key of its tree node.\<close>

record ac_node =
  an_key :: ngx_uint_t
  an_len :: "16 word"
  an_data :: bytes
  an_last :: ngx_uint_t
  an_excess :: ngx_uint_t
  an_count :: ngx_uint_t

text \<open>\<open>ngx_http_access_control_shctx_t\<close> with the store; \<open>sh_queue\<close> is the address of the queue.\<close>

record ac_shctx =
  sh_nodes :: "ptr \<Rightarrow> ac_node"
  sh_rbtree :: "ptr rbtree"
  sh_links :: qheap
  sh_queue :: ptr

text \<open>
  \<open>ngx_http_access_control_ctx_t\<close>: the shared part, the node counted by this request and the
  key tables.
\<close>

record ac_ctx =
  ctx_sh :: ac_shctx
  ctx_node :: "ptr option"
  ctx_tables :: ac_tables

type_synonym slab_alloc = "ptr list \<Rightarrow> nat \<Rightarrow> ptr option"

definition an_str :: "ac_node \<Rightarrow> bytes" where
  "an_str lr = take (unat (an_len lr)) (an_data lr)"

definition ac_node_left :: "(ptr \<Rightarrow> ac_node) \<Rightarrow> ptr \<Rightarrow> ptr \<Rightarrow> bool" where
  "ac_node_left nodes node temp \<longleftrightarrow>
     (if an_key (nodes node) < an_key (nodes temp) then True
      else if an_key (nodes node) > an_key (nodes temp) then False
      else ngx_memn2cmp (an_str (nodes node)) (an_str (nodes temp)) <s 0)"

definition ngx_http_access_control_rbtree_insert_value ::
  "(ptr \<Rightarrow> ac_node) \<Rightarrow> ptr \<Rightarrow> ptr rbtree \<Rightarrow> ptr crumb list \<Rightarrow> ptr zipper" where
  "ngx_http_access_control_rbtree_insert_value nodes = rb_descend (ac_node_left nodes)"

text \<open>The search loop of the lookup.\<close>

fun ac_search :: "(ptr \<Rightarrow> ac_node) \<Rightarrow> ngx_uint_t \<Rightarrow> bytes \<Rightarrow> ptr rbtree \<Rightarrow> ptr option" where
  "ac_search nodes hash data Sentinel = None"
| "ac_search nodes hash data (Node c left node right) =
     (if hash < an_key (nodes node) then ac_search nodes hash data left
      else if hash > an_key (nodes node) then ac_search nodes hash data right
      else let rc = ngx_memn2cmp data (an_str (nodes node))
           in if rc = 0 then Some node
              else ac_search nodes hash data (if rc <s 0 then left else right))"

definition ngx_abs :: "ngx_int_t \<Rightarrow> ngx_int_t" where
  "ngx_abs v = (if v <s 0 then - v else v)"

text \<open>
  The excess of a node at time \<open>now\<close>, counting one more request; 1 stands for 0.001 requests.
\<close>

definition ac_next_excess :: "ac_node \<Rightarrow> ngx_uint_t \<Rightarrow> ngx_uint_t \<Rightarrow> ngx_int_t" where
  "ac_next_excess lr maxtps now =
     (let ms = now - an_last lr;
          excess = an_excess lr - maxtps * ngx_abs ms div 1000 + 1000
      in if excess <s 0 then 0 else excess)"

text \<open>
  \<open>ngx_http_access_control_expire\<close>; \<open>None\<close> is a failure inside the tree. The loop runs while
  \<open>n < 3\<close> and increments \<open>n\<close> in every round that does not return.
\<close>

definition ac_idle :: "ac_node \<Rightarrow> ngx_uint_t \<Rightarrow> ngx_uint_t \<Rightarrow> bool" where
  "ac_idle lr maxtps now \<longleftrightarrow>
     (let ms = ngx_abs (now - an_last lr)
      in \<not> ms <s 60000 \<and> \<not> 0 <s an_excess lr - maxtps * ms div 1000)"

function ngx_http_access_control_expire ::
  "ngx_uint_t \<Rightarrow> ngx_uint_t \<Rightarrow> nat \<Rightarrow> ac_shctx \<Rightarrow> ac_shctx option" where
  "ngx_http_access_control_expire now maxtps n sh =
     (if n \<ge> 3 then Some sh
      else if ngx_queue_empty (sh_queue sh) (sh_links sh) then Some sh
      else let q = ngx_queue_last (sh_queue sh) (sh_links sh);
               lr = sh_nodes sh q
           in if an_count lr \<noteq> 0 then Some sh
              else if n \<noteq> 0 \<and> \<not> ac_idle lr maxtps now then Some sh
              else case rb_locate q (sh_rbtree sh) [] of
                     None \<Rightarrow> None
                   | Some z \<Rightarrow>
                       (case ngx_rbtree_delete z of
                          None \<Rightarrow> None
                        | Some t \<Rightarrow>
                            ngx_http_access_control_expire now maxtps (n + 1)
                              (sh\<lparr>sh_links := ngx_queue_remove q (sh_links sh), sh_rbtree := t\<rparr>)))"
  by pat_completeness auto
termination by (relation "measure (\<lambda>(now, maxtps, n, sh). 3 - n)") auto

declare ngx_http_access_control_expire.simps [simp del]

text \<open>The size of a node: the tree node up to its colour, the limiter's part up to the data, the data.\<close>

definition AC_NODE_SIZE :: nat where
  "AC_NODE_SIZE = 32 + 48"

text \<open>The part of the lookup that enters a new node at address \<open>p\<close>.\<close>

definition ac_enter ::
  "ngx_uint_t \<Rightarrow> ac_ctx \<Rightarrow> ptr \<Rightarrow> ngx_uint_t \<Rightarrow> bytes \<Rightarrow> bool \<Rightarrow> (ngx_rc \<times> ngx_uint_t \<times> ac_ctx) option" where
  "ac_enter now ctx p hash data account =
     (let sh = ctx_sh ctx;
          lr = \<lparr>an_key = hash, an_len = ucast (of_nat (length data) :: byte), an_data = data,
                an_last = (if account then now else 0), an_excess = 0, an_count = (if account then 0 else 1)\<rparr>;
          nodes = (sh_nodes sh)(p := lr)
      in case ngx_rbtree_insert (ngx_http_access_control_rbtree_insert_value nodes) (sh_rbtree sh) p of
           None \<Rightarrow> None
         | Some t \<Rightarrow>
             let sh' = sh\<lparr>sh_nodes := nodes, sh_rbtree := t,
                          sh_links := ngx_queue_insert_head (sh_queue sh) p (sh_links sh)\<rparr>
             in if account then Some (NGX_OK, 0, ctx\<lparr>ctx_sh := sh'\<rparr>)
                else Some (NGX_AGAIN, 0, ctx\<lparr>ctx_sh := sh', ctx_node := Some p\<rparr>))"

text \<open>The part of the lookup for a node that has been found.\<close>

definition ac_found ::
  "ngx_uint_t \<Rightarrow> ngx_uint_t \<Rightarrow> ac_ctx \<Rightarrow> ptr \<Rightarrow> bool \<Rightarrow> ngx_uint_t \<Rightarrow> ngx_rc \<times> ngx_uint_t \<times> ac_ctx" where
  "ac_found now burst ctx p account maxtps =
     (let sh = ctx_sh ctx;
          lr = sh_nodes sh p;
          sh = sh\<lparr>sh_links := ngx_queue_insert_head (sh_queue sh) p (ngx_queue_remove p (sh_links sh))\<rparr>;
          excess = ac_next_excess lr maxtps now
      in if excess > burst * maxtps then (NGX_BUSY, excess, ctx\<lparr>ctx_sh := sh\<rparr>)
         else if account
         then (NGX_OK, excess, ctx\<lparr>ctx_sh := sh\<lparr>sh_nodes := (sh_nodes sh)(p := lr\<lparr>an_excess := excess, an_last := now\<rparr>)\<rparr>\<rparr>)
         else (NGX_AGAIN, excess,
               ctx\<lparr>ctx_sh := sh\<lparr>sh_nodes := (sh_nodes sh)(p := lr\<lparr>an_count := an_count lr + 1\<rparr>)\<rparr>, ctx_node := Some p\<rparr>))"

definition ngx_http_access_control_lookup ::
  "slab_alloc \<Rightarrow> ngx_uint_t \<Rightarrow> ngx_uint_t \<Rightarrow> ac_ctx \<Rightarrow> ngx_uint_t \<Rightarrow> bytes \<Rightarrow> bool \<Rightarrow> ngx_uint_t
   \<Rightarrow> (ngx_rc \<times> ngx_uint_t \<times> ac_ctx) option" where
  "ngx_http_access_control_lookup alloc now burst ctx hash data account maxtps =
     (case ac_search (sh_nodes (ctx_sh ctx)) hash data (sh_rbtree (ctx_sh ctx)) of
        Some p \<Rightarrow> Some (ac_found now burst ctx p account maxtps)
      | None \<Rightarrow>
          let size = AC_NODE_SIZE + length data
          in case ngx_http_access_control_expire now maxtps 1 (ctx_sh ctx) of
               None \<Rightarrow> None
             | Some sh \<Rightarrow>
                 (case alloc (inorder (sh_rbtree sh)) size of
                    Some p \<Rightarrow> ac_enter now (ctx\<lparr>ctx_sh := sh\<rparr>) p hash data account
                  | None \<Rightarrow>
                      (case ngx_http_access_control_expire now maxtps 0 sh of
                         None \<Rightarrow> None
                       | Some sh \<Rightarrow>
                           (case alloc (inorder (sh_rbtree sh)) size of
                              Some p \<Rightarrow> ac_enter now (ctx\<lparr>ctx_sh := sh\<rparr>) p hash data account
                            | None \<Rightarrow> Some (NGX_ERROR, 0, ctx\<lparr>ctx_sh := sh\<rparr>)))))"

text \<open>
  \<open>ngx_http_access_control_account\<close> walks the limits before the one that was looked up last,
  from the end. A limit is its burst, the \<open>nodelay\<close> flag and the context of its zone. The result
  is the delay, the excess and the zones. The excess and the limit that are kept for the log are
  \<open>*ep\<close>; the index of the limit is not used later.
\<close>

record ac_limit =
  al_burst :: ngx_uint_t
  al_nodelay :: bool
  al_ctx :: ac_ctx

definition ac_charge :: "ngx_uint_t \<Rightarrow> ngx_uint_t \<Rightarrow> ac_ctx \<Rightarrow> ptr \<Rightarrow> ngx_int_t \<times> ac_ctx" where
  "ac_charge now maxtps ctx p =
     (let sh = ctx_sh ctx;
          lr = sh_nodes sh p;
          excess = ac_next_excess lr maxtps now;
          lr' = lr\<lparr>an_last := now, an_excess := excess, an_count := an_count lr - 1\<rparr>
      in (excess, ctx\<lparr>ctx_sh := sh\<lparr>sh_nodes := (sh_nodes sh)(p := lr')\<rparr>, ctx_node := None\<rparr>))"

fun ac_account_loop ::
  "ngx_uint_t \<Rightarrow> ngx_uint_t \<Rightarrow> ac_limit list \<Rightarrow> ngx_uint_t \<Rightarrow> ngx_uint_t \<Rightarrow> ngx_uint_t \<times> ngx_uint_t \<times> ac_limit list" where
  "ac_account_loop now maxtps [] max_delay ep = (max_delay, ep, [])"
| "ac_account_loop now maxtps (limit # limits) max_delay ep =
     (case ctx_node (al_ctx limit) of
        None \<Rightarrow>
          (let (d, e, ls) = ac_account_loop now maxtps limits max_delay ep in (d, e, limit # ls))
      | Some p \<Rightarrow>
          (let (excess, ctx) = ac_charge now maxtps (al_ctx limit) p;
               limit' = limit\<lparr>al_ctx := ctx\<rparr>;
               delay = excess * 1000 div maxtps;
               (max_delay', ep') =
                 (if \<not> al_nodelay limit \<and> delay > max_delay then (delay, excess) else (max_delay, ep));
               (d, e, ls) = ac_account_loop now maxtps limits max_delay' ep'
           in (d, e, limit' # ls)))"

definition ngx_http_access_control_account ::
  "ngx_uint_t \<Rightarrow> ngx_uint_t \<Rightarrow> ac_limit list \<Rightarrow> nat \<Rightarrow> ngx_uint_t \<Rightarrow> bool \<Rightarrow> ngx_uint_t \<times> ngx_uint_t \<times> ac_limit list" where
  "ngx_http_access_control_account now maxtps limits n ep nodelay =
     (let max_delay = (if ep = 0 \<or> nodelay then 0 else ep * 1000 div maxtps);
          (d, e, ls) = ac_account_loop now maxtps (rev (take n limits)) max_delay ep
      in (d, e, rev ls @ drop n limits))"

section \<open>The zone\<close>

text \<open>
  The nodes of a zone are ordered by hash and string. A zone is in order when its tree is a
  red-black search tree of distinct nodes and its queue holds the same nodes, here in the order
  \<open>xs\<close> from the one used last to the oldest.
\<close>

definition ac_key :: "(ptr \<Rightarrow> ac_node) \<Rightarrow> ptr \<Rightarrow> ngx_uint_t \<times> bytes" where
  "ac_key nodes p = (an_key (nodes p), an_str (nodes p))"

interpretation by_ac: tree_order "ac_node_left nodes" "ac_key nodes" UNIV for nodes :: "ptr \<Rightarrow> ac_node"
  by unfold_locales (auto simp: ac_node_left_def ac_key_def ngx_memn2cmp_order)

definition zone :: "ac_shctx \<Rightarrow> ptr list \<Rightarrow> bool" where
  "zone sh xs \<longleftrightarrow> is_queue (sh_links sh) (sh_queue sh) xs \<and> set xs = set (inorder (sh_rbtree sh))
     \<and> distinct (inorder (sh_rbtree sh)) \<and> rb_inv (sh_rbtree sh)
     \<and> sorted (map (ac_key (sh_nodes sh)) (inorder (sh_rbtree sh)))"

lemma zone_search_tree: "zone sh xs \<Longrightarrow> by_ac.search_tree (sh_nodes sh) (sh_rbtree sh)"
  by (simp add: zone_def by_ac.search_tree_def)

lemma ac_search_key_find: "ac_search nodes hash data t = key_find (ac_key nodes) (hash, data) t"
proof (induction t)
  case (Node c l n r)
  then show ?case using ngx_memn2cmp_order [of data "an_str (nodes n)"] by (auto simp: ac_key_def Let_def)
qed simp

lemma ac_search_cases:
  assumes "zone sh xs"
  shows "case ac_search (sh_nodes sh) hash data (sh_rbtree sh) of
      None \<Rightarrow> (hash, data) \<notin> ac_key (sh_nodes sh) ` set xs
    | Some p \<Rightarrow> p \<in> set xs \<and> ac_key (sh_nodes sh) p = (hash, data)"
  using assms key_find_sorted [of "ac_key (sh_nodes sh)" "sh_rbtree sh" "(hash, data)"]
  by (auto simp: zone_def ac_search_key_find split: option.splits)

lemma zone_remove:
  assumes "zone sh xs" and "xs \<noteq> []"
  obtains z t where "rb_locate (List.last xs) (sh_rbtree sh) [] = Some z" "ngx_rbtree_delete z = Some t"
    "zone (sh\<lparr>sh_links := ngx_queue_remove (List.last xs) (sh_links sh), sh_rbtree := t\<rparr>) (butlast xs)"
proof -
  let ?p = "List.last xs"
  have "?p \<in> set (inorder (sh_rbtree sh))" using last_in_set [OF assms(2)] assms(1) by (simp only: zone_def)
  then obtain c l r path where loc: "rb_locate ?p (sh_rbtree sh) [] = Some (Node c l ?p r, path)"
    and zip: "zip_up (Node c l ?p r) path = sh_rbtree sh" by (rule rb_locate_member)
  obtain t where del: "ngx_rbtree_delete (Node c l ?p r, path) = Some t" "by_ac.search_tree (sh_nodes sh) t"
    and nodes: "inorder t = before path @ inorder l @ inorder r @ behind path"
    using by_ac.delete_search_tree [of "sh_nodes sh" c l ?p r path] zone_search_tree [OF assms(1)] unfolding zip by blast
  have "inorder (sh_rbtree sh) = before path @ inorder l @ ?p # inorder r @ behind path" by (simp flip: zip)
  then obtain A B where all: "inorder (sh_rbtree sh) = A @ ?p # B" and nodes: "inorder t = A @ B"
    using nodes that by (metis append.assoc)
  have q: "is_queue (sh_links sh) (sh_queue sh) xs" using assms(1) by (simp add: zone_def)
  have "distinct (butlast xs @ [?p])" using q assms(2) by (simp add: is_queue_def append_butlast_last_id del: distinct_append)
  moreover have "set (butlast xs @ [?p]) = set (inorder (sh_rbtree sh))" "distinct (inorder (sh_rbtree sh))"
    unfolding append_butlast_last_id [OF assms(2)] using assms(1) by (simp_all add: zone_def)
  ultimately have "insert ?p (set (butlast xs)) = insert ?p (set (inorder t))" "?p \<notin> set (butlast xs)" "?p \<notin> set (inorder t)"
    and t: "distinct (inorder t)" by (auto simp: all nodes)
  then have "set (butlast xs) = set (inorder t)" by (simp add: insert_ident)
  then have "zone (sh\<lparr>sh_links := ngx_queue_remove ?p (sh_links sh), sh_rbtree := t\<rparr>) (butlast xs)"
    using t nq.repr_drop_oldest [OF q assms(2)] nq.repr_oldest [OF q assms(2)] del(2)
    by (simp add: zone_def by_ac.search_tree_def)
  then show ?thesis using that loc del(1) by blast
qed

lemma zone_enter:
  assumes "zone sh xs" and "p \<notin> set xs" and "p \<noteq> sh_queue sh"
  shows "\<exists>t. ngx_rbtree_insert (ngx_http_access_control_rbtree_insert_value ((sh_nodes sh)(p := lr))) (sh_rbtree sh) p = Some t
    \<and> zone (sh\<lparr>sh_nodes := (sh_nodes sh)(p := lr), sh_rbtree := t,
              sh_links := ngx_queue_insert_head (sh_queue sh) p (sh_links sh)\<rparr>) (p # xs)"
proof -
  let ?nodes = "(sh_nodes sh)(p := lr)"
  have p: "p \<notin> set (inorder (sh_rbtree sh))" using assms by (simp add: zone_def)
  then have "map (ac_key ?nodes) (inorder (sh_rbtree sh)) = map (ac_key (sh_nodes sh)) (inorder (sh_rbtree sh))"
    by (auto simp: ac_key_def)
  then have "by_ac.search_tree ?nodes (sh_rbtree sh)" using assms(1) by (simp only: zone_def by_ac.search_tree_def) simp
  from by_ac.insert_search_tree [OF this UNIV_I, of p]
  obtain t where t: "ngx_rbtree_insert (rb_descend (ac_node_left ?nodes)) (sh_rbtree sh) p = Some t" "by_ac.search_tree ?nodes t"
    and nodes: "inorder t = [y \<leftarrow> inorder (sh_rbtree sh). ac_key ?nodes y \<le> ac_key ?nodes p] @ p # [y \<leftarrow> inorder (sh_rbtree sh). ac_key ?nodes p < ac_key ?nodes y]"
    by blast
  have "set (inorder t) = insert p (set (inorder (sh_rbtree sh)))" "distinct (inorder t)"
    using assms(1) p unfolding nodes by (fastforce simp: zone_def)+
  moreover have "is_queue (ngx_queue_insert_head (sh_queue sh) p (sh_links sh)) (sh_queue sh) (p # xs)"
    using nq.repr_insert_head [of "sh_links sh" "sh_queue sh" xs p] assms by (simp add: zone_def)
  ultimately show ?thesis
    using t assms(1) by (simp add: zone_def by_ac.search_tree_def ngx_http_access_control_rbtree_insert_value_def)
qed

text \<open>Changing the counters of a node leaves the order.\<close>

lemma zone_update:
  assumes "zone sh xs" and "\<And>p. ac_key nodes p = ac_key (sh_nodes sh) p"
  shows "zone (sh\<lparr>sh_nodes := nodes\<rparr>) xs"
proof -
  have "ac_key nodes = ac_key (sh_nodes sh)" using assms(2) by auto
  then show ?thesis using assms(1) by (simp add: zone_def)
qed

text \<open>
  \<open>ngx_http_access_control_expire\<close> drops a tail of the queue: at most \<open>3 - n\<close> nodes, none of them
  counted by a request.
\<close>

definition ac_oldest_goes :: "ngx_uint_t \<Rightarrow> ngx_uint_t \<Rightarrow> nat \<Rightarrow> ac_shctx \<Rightarrow> ptr list \<Rightarrow> bool" where
  "ac_oldest_goes now maxtps n sh xs \<longleftrightarrow> n < 3 \<and> xs \<noteq> [] \<and> an_count (sh_nodes sh (List.last xs)) = 0
     \<and> (n \<noteq> 0 \<longrightarrow> ac_idle (sh_nodes sh (List.last xs)) maxtps now)"

lemma expire_stop:
  assumes "zone sh xs" and "\<not> ac_oldest_goes now maxtps n sh xs"
  shows "ngx_http_access_control_expire now maxtps n sh = Some sh"
proof -
  have q: "is_queue (sh_links sh) (sh_queue sh) xs" using assms(1) by (simp add: zone_def)
  show ?thesis using assms(2) nq.repr_empty [OF q] nq.repr_oldest [OF q]
    by (subst ngx_http_access_control_expire.simps) (auto simp: Let_def ac_oldest_goes_def)
qed

lemma expire_step:
  assumes "zone sh xs" and "ac_oldest_goes now maxtps n sh xs"
  obtains sh' where "zone sh' (butlast xs)" "sh_nodes sh' = sh_nodes sh" "sh_queue sh' = sh_queue sh"
    "ngx_http_access_control_expire now maxtps n sh = ngx_http_access_control_expire now maxtps (n + 1) sh'"
proof -
  have q: "is_queue (sh_links sh) (sh_queue sh) xs" and ne: "xs \<noteq> []" using assms by (simp_all add: zone_def ac_oldest_goes_def)
  obtain z t where z: "rb_locate (List.last xs) (sh_rbtree sh) [] = Some z" "ngx_rbtree_delete z = Some t"
    and ok: "zone (sh\<lparr>sh_links := ngx_queue_remove (List.last xs) (sh_links sh), sh_rbtree := t\<rparr>) (butlast xs)"
    using zone_remove [OF assms(1) ne] by blast
  have "ngx_http_access_control_expire now maxtps n sh = ngx_http_access_control_expire now maxtps (n + 1)
    (sh\<lparr>sh_links := ngx_queue_remove (List.last xs) (sh_links sh), sh_rbtree := t\<rparr>)"
    using assms(2) z nq.repr_empty [OF q] nq.repr_oldest [OF q ne]
    by (subst ngx_http_access_control_expire.simps) (auto simp: Let_def ac_oldest_goes_def)
  then show ?thesis using that ok by auto
qed

lemma zone_expire:
  assumes "zone sh xs"
  shows "\<exists>sh' ys zs. ngx_http_access_control_expire now maxtps n sh = Some sh' \<and> xs = ys @ zs \<and> zone sh' ys
    \<and> length zs \<le> 3 - n \<and> (\<forall>p\<in>set zs. an_count (sh_nodes sh p) = 0)
    \<and> (n \<noteq> 0 \<longrightarrow> (\<forall>p\<in>set zs. ac_idle (sh_nodes sh p) maxtps now))
    \<and> sh_nodes sh' = sh_nodes sh \<and> sh_queue sh' = sh_queue sh"
  using assms
proof (induction "3 - n" arbitrary: n sh xs rule: less_induct)
  case less
  show ?case
  proof (cases "ac_oldest_goes now maxtps n sh xs")
    case False
    then have "ngx_http_access_control_expire now maxtps n sh = Some sh" using expire_stop less.prems by blast
    then show ?thesis using less.prems by (intro exI [of _ sh] exI [of _ xs] exI [of _ "[]"]) simp
  next
    case True
    note goes = True [unfolded ac_oldest_goes_def]
    have fewer: "3 - (n + 1) < 3 - n" using goes by linarith
    obtain sh1 where sh1: "zone sh1 (butlast xs)" "sh_nodes sh1 = sh_nodes sh" "sh_queue sh1 = sh_queue sh"
      "ngx_http_access_control_expire now maxtps n sh = ngx_http_access_control_expire now maxtps (n + 1) sh1"
      using expire_step [OF less.prems True] by blast
    then obtain sh' ys zs where "ngx_http_access_control_expire now maxtps n sh = Some sh'" "zone sh' ys"
      and split: "butlast xs = ys @ zs" and rest: "length zs \<le> 3 - (n + 1)" "\<forall>p\<in>set zs. an_count (sh_nodes sh p) = 0"
      "\<forall>p\<in>set zs. ac_idle (sh_nodes sh p) maxtps now" "sh_nodes sh' = sh_nodes sh" "sh_queue sh' = sh_queue sh"
      using less.hyps [of "n + 1" sh1 "butlast xs", OF _ sh1(1)] fewer by auto
    moreover have "xs = ys @ zs @ [List.last xs]" using append_butlast_last_id [of xs] goes split by simp
    ultimately show ?thesis using goes
      by (intro exI [of _ sh'] exI [of _ ys] exI [of _ "zs @ [List.last xs]"]) auto
  qed
qed

lemma zone_touch:
  assumes "zone sh xs" and "p \<in> set xs"
  shows "zone (sh\<lparr>sh_links := ngx_queue_insert_head (sh_queue sh) p (ngx_queue_remove p (sh_links sh))\<rparr>) (p # remove1 p xs)"
proof -
  have q: "is_queue (sh_links sh) (sh_queue sh) xs" using assms by (simp add: zone_def)
  have "distinct xs" using q by (simp add: is_queue_def)
  then show ?thesis using nq.repr_touch [OF q assms(2)] assms by (auto simp: zone_def)
qed


text \<open>What the slab allocator promises: an address that no node has and that is not the queue's.\<close>

definition fresh_alloc :: "slab_alloc \<Rightarrow> ptr \<Rightarrow> bool" where
  "fresh_alloc alloc queue \<longleftrightarrow> (\<forall>used n p. alloc used n = Some p \<longrightarrow> p \<notin> set used \<and> p \<noteq> queue)"

lemma an_str_short:
  "length data < 256 \<Longrightarrow> an_len lr = ucast (of_nat (length data) :: byte) \<Longrightarrow> an_data lr = data \<Longrightarrow> an_str lr = data"
  by (simp add: an_str_def unat_ucast_widen unat_of_nat)

text \<open>What a lookup leaves: the zone in order, the nodes that requests count still in it.\<close>

definition zone_step :: "ac_shctx \<Rightarrow> ptr list \<Rightarrow> ac_shctx \<Rightarrow> ptr list \<Rightarrow> bool" where
  "zone_step sh xs sh' ys \<longleftrightarrow> zone sh' ys \<and> sh_queue sh' = sh_queue sh
     \<and> (\<forall>p\<in>set xs. an_count (sh_nodes sh p) \<noteq> 0 \<longrightarrow> p \<in> set ys \<and> ac_key (sh_nodes sh') p = ac_key (sh_nodes sh) p)
     \<and> (\<forall>p\<in>set (tl ys). p \<in> set xs \<and> sh_nodes sh' p = sh_nodes sh p)"

lemma in_set_tl: "x \<in> set (tl xs) \<Longrightarrow> x \<in> set xs"
  by (cases xs) auto

lemma found_step:
  assumes "zone (ctx_sh ctx) xs" and "p \<in> set xs" and "ac_found now burst ctx p account maxtps = (rc, ep, ctx')"
  shows "zone_step (ctx_sh ctx) xs (ctx_sh ctx') (p # remove1 p xs)
    \<and> ac_key (sh_nodes (ctx_sh ctx')) p = ac_key (sh_nodes (ctx_sh ctx)) p"
proof -
  let ?sh = "(ctx_sh ctx)\<lparr>sh_links := ngx_queue_insert_head (sh_queue (ctx_sh ctx)) p (ngx_queue_remove p (sh_links (ctx_sh ctx)))\<rparr>"
  have d: "distinct xs" using assms(1) by (simp add: zone_def is_queue_def)
  have z: "zone ?sh (p # remove1 p xs)" by (rule zone_touch [OF assms(1,2)])
  have "\<exists>nodes. ctx_sh ctx' = ?sh\<lparr>sh_nodes := nodes\<rparr> \<and> (\<forall>q. ac_key nodes q = ac_key (sh_nodes (ctx_sh ctx)) q)
      \<and> (\<forall>q. q \<noteq> p \<longrightarrow> nodes q = sh_nodes (ctx_sh ctx) q)"
    using assms(3) by (auto simp: ac_found_def Let_def ac_key_def an_str_def split: if_splits
      intro: exI [of _ "sh_nodes (ctx_sh ctx)"])
  then obtain nodes where "ctx_sh ctx' = ?sh\<lparr>sh_nodes := nodes\<rparr>" "\<And>q. ac_key nodes q = ac_key (sh_nodes (ctx_sh ctx)) q"
    "\<And>q. q \<noteq> p \<Longrightarrow> nodes q = sh_nodes (ctx_sh ctx) q" by blast
  then show ?thesis using zone_update [OF z, of nodes] assms(2) d by (auto simp: zone_step_def)
qed

lemma enter_step:
  assumes "zone (ctx_sh ctx) xs" and "p \<notin> set xs" and "p \<noteq> sh_queue (ctx_sh ctx)"
  shows "\<exists>ctx' lr. ac_enter now ctx p hash data account = Some (if account then NGX_OK else NGX_AGAIN, 0, ctx')
    \<and> zone (ctx_sh ctx') (p # xs) \<and> sh_queue (ctx_sh ctx') = sh_queue (ctx_sh ctx) 
    \<and> sh_nodes (ctx_sh ctx') = (sh_nodes (ctx_sh ctx))(p := lr) \<and> an_key lr = hash
    \<and> (length data < 256 \<longrightarrow> an_str lr = data) \<and> (account \<longrightarrow> an_last lr = now \<and> an_excess lr = 0)"
proof -
  define lr where "lr = \<lparr>an_key = hash, an_len = ucast (of_nat (length data) :: byte), an_data = data,
    an_last = (if account then now else 0), an_excess = 0, an_count = (if account then 0 else 1)\<rparr>"
  obtain t where t: "ngx_rbtree_insert (ngx_http_access_control_rbtree_insert_value ((sh_nodes (ctx_sh ctx))(p := lr))) (sh_rbtree (ctx_sh ctx)) p = Some t"
    "zone ((ctx_sh ctx)\<lparr>sh_nodes := (sh_nodes (ctx_sh ctx))(p := lr), sh_rbtree := t,
              sh_links := ngx_queue_insert_head (sh_queue (ctx_sh ctx)) p (sh_links (ctx_sh ctx))\<rparr>) (p # xs)"
    using zone_enter [OF assms, of lr] by blast
  have "an_key lr = hash" "length data < 256 \<longrightarrow> an_str lr = data" "account \<longrightarrow> an_last lr = now \<and> an_excess lr = 0"
    by (auto simp: lr_def intro: an_str_short)
  then show ?thesis using t unfolding ac_enter_def Let_def lr_def [symmetric]
    by (cases account) (auto intro!: exI [of _ lr])
qed


text \<open>The two rounds of allocation.\<close>

lemma lookup_new:
  assumes "zone (ctx_sh ctx) xs" and "fresh_alloc alloc (sh_queue (ctx_sh ctx))"
    and "ac_search (sh_nodes (ctx_sh ctx)) hash data (sh_rbtree (ctx_sh ctx)) = None"
    and "L = ngx_http_access_control_lookup alloc now burst ctx hash data account maxtps"
  obtains (enter) sh ys p where "zone_step (ctx_sh ctx) xs sh ys" "set ys \<subseteq> set xs" "sh_nodes sh = sh_nodes (ctx_sh ctx)"
      "p \<notin> set ys" "p \<noteq> sh_queue sh" "L = ac_enter now (ctx\<lparr>ctx_sh := sh\<rparr>) p hash data account"
    | (full) sh ys where "zone_step (ctx_sh ctx) xs sh ys" "set ys \<subseteq> set xs" "sh_nodes sh = sh_nodes (ctx_sh ctx)"
      "L = Some (NGX_ERROR, 0, ctx\<lparr>ctx_sh := sh\<rparr>)"
proof -
  let ?nodes = "sh_nodes (ctx_sh ctx)" and ?size = "AC_NODE_SIZE + length data"
  obtain sh1 ys1 zs1 where e1: "ngx_http_access_control_expire now maxtps 1 (ctx_sh ctx) = Some sh1" "xs = ys1 @ zs1" "zone sh1 ys1"
    "\<forall>p\<in>set zs1. an_count (?nodes p) = 0" "sh_nodes sh1 = ?nodes" "sh_queue sh1 = sh_queue (ctx_sh ctx)"
    using zone_expire [OF assms(1), of now maxtps 1] by auto
  obtain sh2 ys2 zs2 where e2: "ngx_http_access_control_expire now maxtps 0 sh1 = Some sh2" "ys1 = ys2 @ zs2" "zone sh2 ys2"
    "\<forall>p\<in>set zs2. an_count (?nodes p) = 0" "sh_nodes sh2 = ?nodes" "sh_queue sh2 = sh_queue (ctx_sh ctx)"
    using zone_expire [OF e1(3), of now maxtps 0] e1(5,6) by auto
  have steps: "zone_step (ctx_sh ctx) xs sh1 ys1" "zone_step (ctx_sh ctx) xs sh2 ys2"
    using e1 e2 by (auto simp: zone_step_def ac_key_def dest: in_set_tl)
  have fresh: "p \<notin> set ys \<and> p \<noteq> sh_queue sh" if "alloc (inorder (sh_rbtree sh)) ?size = Some p" "zone_step (ctx_sh ctx) xs sh ys" for p sh ys
    using that assms(2) by (auto simp: fresh_alloc_def zone_def zone_step_def)
  have L: "L = (case alloc (inorder (sh_rbtree sh1)) ?size of
      Some p \<Rightarrow> ac_enter now (ctx\<lparr>ctx_sh := sh1\<rparr>) p hash data account
    | None \<Rightarrow> (case alloc (inorder (sh_rbtree sh2)) ?size of
                Some p \<Rightarrow> ac_enter now (ctx\<lparr>ctx_sh := sh2\<rparr>) p hash data account
              | None \<Rightarrow> Some (NGX_ERROR, 0, ctx\<lparr>ctx_sh := sh2\<rparr>)))"
    unfolding assms(4) ngx_http_access_control_lookup_def Let_def assms(3) option.case e1(1) e2(1) by simp
  show ?thesis
  proof (cases "alloc (inorder (sh_rbtree sh1)) ?size")
    case (Some p)
    then show ?thesis using enter [OF steps(1)] fresh [OF Some steps(1)] e1 L by auto
  next
    case None
    then show ?thesis using enter [OF steps(2)] full [OF steps(2)] fresh [OF _ steps(2)] e1 e2 L
      by (cases "alloc (inorder (sh_rbtree sh2)) ?size") auto
  qed
qed

text \<open>A zone with one node and an allocator that returns the first free address.\<close>

definition ac_example :: ac_ctx where
  "ac_example = \<lparr>ctx_sh = \<lparr>sh_nodes = (\<lambda>_. \<lparr>an_key = 7, an_len = 1, an_data = s2b ''k'', an_last = 5000, an_excess = 0, an_count = 0\<rparr>),
     sh_rbtree = Node False Sentinel 2 Sentinel,
     sh_links = ngx_queue_insert_head 1 2 (ngx_queue_init 1 \<lparr>q_prev = (\<lambda>_. 0), q_next = (\<lambda>_. 0)\<rparr>), sh_queue = 1\<rparr>,
     ctx_node = None, ctx_tables = no_tables\<rparr>"

definition first_free :: slab_alloc where
  "first_free used n = (if n \<le> 4096 then Some (Suc (Max (insert 1 (set used)))) else None)"

lemma ac_example_zone: "zone (ctx_sh ac_example) [2]"
  by (simp add: ac_example_def zone_def is_queue_def ngx_queue_insert_head_def ngx_queue_init_def Let_def rb_inv_def)

lemma first_free_fresh: "fresh_alloc first_free (sh_queue (ctx_sh ac_example))"
proof -
  have "Suc (Max (insert 1 (set used))) \<notin> insert 1 (set used)" for used
    using Max_ge [of "insert 1 (set used)"] by (metis List.finite_set Suc_n_not_le_n finite_insert)
  then show ?thesis by (auto simp: fresh_alloc_def first_free_def ac_example_def)
qed

text \<open>
  C2. A lookup in a zone that is in order always returns: it does not follow a bad link of the
  tree, and it leaves the zone in order, whatever the branch (found, busy, entered, expired, no
  memory). No node that a request counts is freed, the nodes behind the queue's head keep all
  their fields, and unless the lookup fails for lack of memory the queue's head is the node of the key looked up,
  so that the next lookup of the key finds it.
\<close>

theorem access_zone_invariant:
  assumes "zone (ctx_sh ctx) xs" and "fresh_alloc alloc (sh_queue (ctx_sh ctx))" and "length data < 256"
  shows "\<exists>rc ep ctx' ys. ngx_http_access_control_lookup alloc now burst ctx hash data account maxtps = Some (rc, ep, ctx')
    \<and> zone_step (ctx_sh ctx) xs (ctx_sh ctx') ys
    \<and> (rc \<noteq> NGX_ERROR \<longrightarrow> ys \<noteq> [] \<and> ac_key (sh_nodes (ctx_sh ctx')) (hd ys) = (hash, data))"
proof (cases "ac_search (sh_nodes (ctx_sh ctx)) hash data (sh_rbtree (ctx_sh ctx))")
  case (Some p)
  then have p: "p \<in> set xs" "ac_key (sh_nodes (ctx_sh ctx)) p = (hash, data)" using ac_search_cases [OF assms(1), of hash data] by auto
  obtain rc ep ctx' where f: "ac_found now burst ctx p account maxtps = (rc, ep, ctx')" by (metis prod_cases3)
  show ?thesis using found_step [OF assms(1) p(1) f] p f Some
    by (intro exI [of _ rc] exI [of _ ep] exI [of _ ctx'] exI [of _ "p # remove1 p xs"])
      (auto simp: ngx_http_access_control_lookup_def)
next
  case None
  show ?thesis
  proof (rule lookup_new [OF assms(1,2) None refl])
    fix sh ys p
    assume z: "zone_step (ctx_sh ctx) xs sh ys" "set ys \<subseteq> set xs" "sh_nodes sh = sh_nodes (ctx_sh ctx)" and p: "p \<notin> set ys" "p \<noteq> sh_queue sh"
      and L: "ngx_http_access_control_lookup alloc now burst ctx hash data account maxtps = ac_enter now (ctx\<lparr>ctx_sh := sh\<rparr>) p hash data account"
    obtain ctx' lr where e: "ac_enter now (ctx\<lparr>ctx_sh := sh\<rparr>) p hash data account = Some (if account then NGX_OK else NGX_AGAIN, 0, ctx')"
      "zone (ctx_sh ctx') (p # ys)" "sh_queue (ctx_sh ctx') = sh_queue sh" "sh_nodes (ctx_sh ctx') = (sh_nodes sh)(p := lr)"
      "an_key lr = hash" "an_str lr = data"
      using enter_step [of "ctx\<lparr>ctx_sh := sh\<rparr>" ys p now hash data account] z p assms(3) by (auto simp: zone_step_def)
    have "zone_step (ctx_sh ctx) xs (ctx_sh ctx') (p # ys)" using e z p by (auto simp: zone_step_def ac_key_def)
    moreover have "ac_key (sh_nodes (ctx_sh ctx')) (hd (p # ys)) = (hash, data)" using e by (simp add: ac_key_def)
    ultimately show ?thesis unfolding L e(1) by blast
  qed auto
qed


theorem access_zone_invariant_witness:
  "\<exists>rc ep ctx' ys. ngx_http_access_control_lookup first_free 70000 1 ac_example 9 (s2b ''new'') True 1000 = Some (rc, ep, ctx')
    \<and> zone (ctx_sh ctx') ys"
  using access_zone_invariant [OF ac_example_zone first_free_fresh, where data = "s2b ''new''" and now = 70000 and burst = 1
      and hash = 9 and account = True and maxtps = 1000]
  by (auto simp: zone_step_def)

section \<open>The rate\<close>

text \<open>Without overflow the excess drains at \<open>maxtps\<close> per second and a request adds 1000.\<close>

lemma unat_clip:
  fixes a q :: "64 word"
  assumes "unat a < 2 ^ 63" and "unat q < 2 ^ 63"
  shows "unat (if a - q <s 0 then 0 else a - q) = unat a - unat q"
  using assms by (auto simp: sless_zero_iff unat_sub_if')

lemma next_excess_unat:
  assumes "an_last lr \<le> now" and "m = unat now - unat (an_last lr)" and "unat maxtps * m < 2 ^ 63" and "m < 2 ^ 63"
    and "unat (an_excess lr) + 1000 < 2 ^ 63"
  shows "unat (ac_next_excess lr maxtps now) = unat (an_excess lr) + 1000 - unat maxtps * m div 1000"
proof -
  have ms: "unat (now - an_last lr) = m" using assms(1,2) by (simp add: unat_sub)
  then have abs: "ngx_abs (now - an_last lr) = now - an_last lr" using assms(4) by (simp add: ngx_abs_def sless_zero_iff)
  have "unat (maxtps * (now - an_last lr)) = unat maxtps * m"
    using assms(3) unat_mult_lem [of maxtps "now - an_last lr"] by (simp add: ms)
  then obtain q where q: "q = maxtps * (now - an_last lr) div 1000" "unat q = unat maxtps * m div 1000" by (simp add: unat_div)
  have e: "unat (an_excess lr + 1000) = unat (an_excess lr) + 1000" using assms(5) by (simp add: unat_plus_if')
  have "ac_next_excess lr maxtps now = (if an_excess lr + 1000 - q <s 0 then 0 else an_excess lr + 1000 - q)"
    unfolding ac_next_excess_def Let_def abs q(1) [symmetric] by (simp add: algebra_simps)
  moreover have "unat q < 2 ^ 63" using assms(3) unfolding q(2) by simp
  ultimately show ?thesis using unat_clip [of "an_excess lr + 1000" q] assms(5) e q(2) by simp
qed

text \<open>The lookup of a key that has a node, for the last limit, as an update of that node.\<close>

definition ac_at :: "ac_ctx \<Rightarrow> ngx_uint_t \<Rightarrow> bytes \<Rightarrow> ptr \<Rightarrow> ac_node \<Rightarrow> bool" where
  "ac_at ctx hash data p lr \<longleftrightarrow>
     ac_search (sh_nodes (ctx_sh ctx)) hash data (sh_rbtree (ctx_sh ctx)) = Some p \<and> sh_nodes (ctx_sh ctx) p = lr"

lemma ac_example_at: "ac_at ac_example 7 (s2b ''k'') 2 (sh_nodes (ctx_sh ac_example) 2)"
  by (simp add: ac_at_def ac_example_def an_str_def ngx_memn2cmp_order Let_def)

lemma lookup_hit:
  assumes "ac_at ctx hash data p lr" and "e = ac_next_excess lr maxtps now"
  shows "\<exists>ctx'. ngx_http_access_control_lookup alloc now burst ctx hash data True maxtps =
      Some (if e > burst * maxtps then NGX_BUSY else NGX_OK, e, ctx')
    \<and> ac_at ctx' hash data p (if e > burst * maxtps then lr else lr\<lparr>an_excess := e, an_last := now\<rparr>)"
proof -
  have key: "ac_key (nodes(p := (nodes p)\<lparr>an_excess := x, an_last := now\<rparr>)) = ac_key nodes" for nodes x
    by (auto simp: ac_key_def an_str_def)
  show ?thesis using assms
    by (auto simp: ac_at_def ngx_http_access_control_lookup_def ac_found_def Let_def ac_search_key_find key)
qed












text \<open>
  C25. No key is starved: a request that comes a second or more after the last admitted one of
  its key is admitted, whatever was refused in between.
\<close>

theorem access_admitted_after_second:
  assumes "ac_at ctx hash data p lr" and "an_excess lr \<le> burst * maxtps"
    and "unat (an_last lr) + 1000 \<le> unat now" and "unat now < 2 ^ 63"
    and "1000 \<le> unat maxtps" and "unat maxtps * (unat now - unat (an_last lr)) < 2 ^ 63" and "unat (burst * maxtps) + 1000 < 2 ^ 63"
  shows "\<exists>ep ctx'. ngx_http_access_control_lookup alloc now burst ctx hash data True maxtps = Some (NGX_OK, ep, ctx') \<and> ep \<le> burst * maxtps"
proof -
  define e where "e = ac_next_excess lr maxtps now"
  define m where "m = unat now - unat (an_last lr)"
  have "unat e = unat (an_excess lr) + 1000 - unat maxtps * m div 1000"
    unfolding e_def by (rule next_excess_unat) (use assms in \<open>simp_all add: m_def word_le_nat_alt\<close>)
  moreover have "1000 * 1000 \<le> unat maxtps * m" using assms(3,5) unfolding m_def by (intro mult_le_mono) auto
  ultimately have "e \<le> burst * maxtps" using assms(2) by (simp add: word_le_nat_alt)
  then show ?thesis using lookup_hit [OF assms(1) e_def, of alloc burst] by auto
qed


theorem access_admitted_after_second_witness:
  "\<exists>ep ctx'. ngx_http_access_control_lookup first_free 6000 0 ac_example 7 (s2b ''k'') True 1000 = Some (NGX_OK, ep, ctx')"
  using access_admitted_after_second [OF ac_example_at, where burst = 0 and maxtps = 1000 and now = 6000 and alloc = first_free]
  by (auto simp: ac_example_def)

end
