(* ===== verification/AccessRequest.thy ===== *)
theory AccessRequest
  imports AccessKeys HttpRequestLine
begin

text \<open>
  The checks of the access control module's handler,
  \<^verbatim>\<open>src/http/modules/ngx_http_access_control_module.c\<close>: the URI, the service id and the key of a
  request against the tables, and the rate of the key. The request is a piece of memory with
  offsets into it. Reading the client's body is a parameter: its return code and the buffer it
  leaves. \<open>None\<close> is an access outside the memory.
\<close>

section \<open>Definitions\<close>

record ac_body =
  body_rc :: ngx_int_t
  request_body :: "(nat \<times> nat) option option"

record ac_request =
  rq_mem :: bytes
  rq_method :: http_method
  rq_uri_data :: nat
  rq_uri_len :: nat
  rq_uri_start :: nat
  rq_uri_end :: nat
  rq_body :: ac_body
  rq_behind_hashkey :: bytes
  access_control_set :: bool
  request_sid :: "nat \<times> ngx_uint_t"
  request_key :: "nat \<times> ngx_uint_t"
  rq_finalized :: "ngx_int_t list"

abbreviation "NGX_HTTP_SPECIAL_RESPONSE \<equiv> (300 :: ngx_int_t)"
abbreviation "NGX_HTTP_BAD_REQUEST \<equiv> (400 :: ngx_int_t)"
abbreviation "NGX_HTTP_UNAUTHORIZED \<equiv> (401 :: ngx_int_t)"
abbreviation "NGX_HTTP_FORBIDDEN \<equiv> (403 :: ngx_int_t)"
abbreviation "NGX_HTTP_NOT_FOUND \<equiv> (404 :: ngx_int_t)"
abbreviation "NGX_HTTP_NOT_ALLOWED \<equiv> (405 :: ngx_int_t)"
abbreviation "NGX_HTTP_INTERNAL_SERVER_ERROR \<equiv> (500 :: ngx_int_t)"
abbreviation "NGX_HTTP_SERVICE_UNAVAILABLE \<equiv> (503 :: ngx_int_t)"

text \<open>
  The value of a parameter: \<open>pat\<close> is searched without regard to case from \<open>start\<close> up to a NUL, and
  the value ends at the next ampersand before \<open>stop\<close> or at \<open>stop\<close>. The length is a difference of
  pointers, which wraps when \<open>pat\<close> was found behind \<open>stop\<close>.
\<close>

definition ac_param :: "bytes \<Rightarrow> nat \<Rightarrow> nat \<Rightarrow> bytes \<Rightarrow> (nat \<times> ngx_uint_t) option option" where
  "ac_param mem start stop pat =
     (case ngx_strcasestrn (drop start mem) (pat @ [0]) (length pat - 1) of
        None \<Rightarrow> None
      | Some None \<Rightarrow> Some None
      | Some (Some i) \<Rightarrow>
          let s = start + i;
              p = (if hd pat = ch_amp then s + 1 else s);
              e = (case ngx_strlchr (subarray mem p stop) ch_amp of None \<Rightarrow> stop | Some j \<Rightarrow> p + j)
          in Some (Some (s + length pat, of_nat e - of_nat s - of_nat (length pat))))"

definition ac_sid :: "bytes \<Rightarrow> nat \<Rightarrow> nat \<Rightarrow> (nat \<times> ngx_uint_t) option option" where
  "ac_sid mem start stop =
     (case ac_param mem start stop (s2b ''sid='') of
        Some None \<Rightarrow> ac_param mem start stop (s2b ''&sid='')
      | res \<Rightarrow> res)"

definition ac_tokenkey :: "bytes \<Rightarrow> nat \<Rightarrow> nat \<Rightarrow> (nat \<times> ngx_uint_t) option option" where
  "ac_tokenkey mem start stop =
     (case ac_param mem start stop (s2b ''&key='') of
        Some None \<Rightarrow> ac_param mem start stop (s2b ''key='')
      | res \<Rightarrow> res)"

text \<open>
  The checks of the service id and the key, which the handler has once for the arguments and
  once for the body: \<open>Inl\<close> is the status that is returned.
\<close>

definition ac_check_params ::
  "ac_request \<Rightarrow> ac_tables \<Rightarrow> nat \<Rightarrow> nat \<Rightarrow> nat \<Rightarrow> (ac_request \<times> (ngx_int_t + (nat \<times> ngx_uint_t) \<times> (nat \<times> ngx_uint_t))) option" where
  "ac_check_params r ctx ulen start stop =
     (case ac_sid (rq_mem r) start stop of
        None \<Rightarrow> None
      | Some None \<Rightarrow> Some (r, Inl NGX_HTTP_BAD_REQUEST)
      | Some (Some (sid, slen)) \<Rightarrow>
          let r = r\<lparr>request_sid := (sid, slen)\<rparr> in
          case urisid_known (urisidarray ctx) (drop (rq_uri_data r) (rq_mem r)) ulen (drop sid (rq_mem r)) (unat slen) of
            None \<Rightarrow> None
          | Some False \<Rightarrow> Some (r, Inl NGX_HTTP_BAD_REQUEST)
          | Some True \<Rightarrow>
              (case ac_tokenkey (rq_mem r) start stop of
                 None \<Rightarrow> None
               | Some None \<Rightarrow> Some (r, Inl NGX_HTTP_UNAUTHORIZED)
               | Some (Some (tokenkey, tlen)) \<Rightarrow>
                   let r = r\<lparr>request_key := (tokenkey, tlen)\<rparr> in
                   case key_listed (keyarray ctx) (drop tokenkey (rq_mem r)) (unat tlen) of
                     None \<Rightarrow> None
                   | Some False \<Rightarrow> Some (r, Inl NGX_HTTP_UNAUTHORIZED)
                   | Some True \<Rightarrow> Some (r, Inr ((tokenkey, tlen), (sid, slen)))))"

definition ac_post ::
  "ac_request \<Rightarrow> ac_tables \<Rightarrow> (ac_request \<times> (ngx_int_t + (nat \<times> ngx_uint_t) \<times> (nat \<times> ngx_uint_t))) option" where
  "ac_post r ctx =
     (let rc2 = body_rc (rq_body r) in
      if \<not> rc2 <s NGX_HTTP_SPECIAL_RESPONSE then Some (r, Inl rc2)
      else let r = r\<lparr>rq_finalized := rq_finalized r @ [rc2]\<rparr> in
           case request_body (rq_body r) of
             None \<Rightarrow> Some (r, Inl NGX_HTTP_INTERNAL_SERVER_ERROR)
           | Some None \<Rightarrow> Some (r, Inl NGX_HTTP_BAD_REQUEST)
           | Some (Some (pos, stop)) \<Rightarrow>
               let ulen = (case ngx_strlchr (subarray (rq_mem r) (rq_uri_start r) (rq_uri_end r)) ch_qmark of
                             Some i \<Rightarrow> i | None \<Rightarrow> rq_uri_len r)
               in ac_check_params r ctx ulen pos stop)"

definition ac_get ::
  "ac_request \<Rightarrow> ac_tables \<Rightarrow> (ac_request \<times> (ngx_int_t + (nat \<times> ngx_uint_t) \<times> (nat \<times> ngx_uint_t))) option" where
  "ac_get r ctx =
     (case ngx_strlchr (subarray (rq_mem r) (rq_uri_start r) (rq_uri_end r)) ch_qmark of
        None \<Rightarrow> Some (r, Inl NGX_HTTP_NOT_FOUND)
      | Some ulen \<Rightarrow> ac_check_params r ctx ulen (rq_uri_data r) (rq_uri_end r))"

text \<open>The token and the service id side by side in fresh memory.\<close>

definition ac_hashkey :: "bytes \<Rightarrow> nat \<times> ngx_uint_t \<Rightarrow> nat \<times> ngx_uint_t \<Rightarrow> bytes option" where
  "ac_hashkey mem tokenkey sid =
     (if fst tokenkey + unat (snd tokenkey) \<le> length mem \<and> fst sid + unat (snd sid) \<le> length mem
      then Some (subarray mem (fst tokenkey) (fst tokenkey + unat (snd tokenkey))
                 @ subarray mem (fst sid) (fst sid + unat (snd sid)))
      else None)"

definition NGX_MAX_TPS_MS :: ngx_uint_t where
  "NGX_MAX_TPS_MS = 100000 * 1000"

text \<open>The rate of a key in thousandths of a request per second, from the requests per hour of its row.\<close>

definition ac_maxtps :: "ngx_int_t \<Rightarrow> ngx_uint_t option" where
  "ac_maxtps fm =
     (if \<not> 0 <s fm then None
      else if \<not> 3600 <s fm then Some (1 * 1000)
      else let maxtps = (fm div 3600 + 1) * 1000
           in Some (if maxtps < NGX_MAX_TPS_MS then maxtps else NGX_MAX_TPS_MS))"

definition ac_request_params ::
  "ac_request \<Rightarrow> ac_tables \<Rightarrow> (ac_request \<times> (ngx_int_t + (nat \<times> ngx_uint_t) \<times> (nat \<times> ngx_uint_t))) option" where
  "ac_request_params r ctx =
     (if rq_method r = NGX_HTTP_POST then ac_post r ctx
      else if rq_method r = NGX_HTTP_GET then ac_get r ctx
      else Some (r, Inl NGX_HTTP_NOT_ALLOWED))"

text \<open>The part of the handler's loop before the limiter: the hash, the key and the rate, or a status.\<close>

definition ac_authorize ::
  "ac_request \<Rightarrow> ac_tables \<Rightarrow> (ac_request \<times> (ngx_int_t + u32 \<times> bytes \<times> ngx_uint_t)) option" where
  "ac_authorize r ctx =
     (if rq_uri_len r \<le> 1 then Some (r, Inl NGX_HTTP_BAD_REQUEST)
      else case ac_request_params r ctx of
             None \<Rightarrow> None
           | Some (r, Inl status) \<Rightarrow> Some (r, Inl status)
           | Some (r, Inr (tokenkey, sid)) \<Rightarrow>
               (case ac_hashkey (rq_mem r) tokenkey sid of
                  None \<Rightarrow> None
                | Some hashkey \<Rightarrow>
                    (case hashkey_find (hashkeyarray ctx) (hashkey @ rq_behind_hashkey r) (length hashkey) of
                       None \<Rightarrow> None
                     | Some found \<Rightarrow>
                         let fm = (case found of None \<Rightarrow> 0 | Some elt \<Rightarrow> hk_value elt);
                             hash = (case found of None \<Rightarrow> 0 | Some elt \<Rightarrow> ucast (hk_hash elt))
                         in case ac_maxtps fm of
                              None \<Rightarrow> Some (r, Inl NGX_HTTP_FORBIDDEN)
                            | Some maxtps \<Rightarrow> Some (r, Inr (hash, hashkey, maxtps)))))"

section \<open>Parameters\<close>

lemma strcasestrn_bound: "ngx_strcasestrn s pat n = Some (Some i) \<Longrightarrow> i < length s"
proof -
  have loop: "strcasestrn_loop c p n s k = Some (Some i) \<Longrightarrow> i < k + length s" for c p k
    by (induction s arbitrary: k) (fastforce split: option.splits if_splits)+
  show "ngx_strcasestrn s pat n = Some (Some i) \<Longrightarrow> i < length s"
    using loop [where k = 0] by (auto simp: ngx_strcasestrn_def split: list.splits)
qed

lemma strlchr_Some: "ngx_strlchr s c = Some j \<Longrightarrow> j < length s \<and> s ! j = c"
  by (induction s arbitrary: j) (auto split: if_splits)

lemma unat_pointer_diff:
  assumes "a < 2 ^ 63" and "n < 2 ^ 63"
  shows "unat (of_nat a - of_nat n :: 64 word) = (if n \<le> a then a - n else 2 ^ 64 + a - n)"
  using assms by (auto simp: unat_sub_if' unat_of_nat64)

text \<open>A value that lies in the memory lies between the bounds and ends at an ampersand or at the end.\<close>

lemma param_value:
  assumes "ac_param mem start stop pat = Some (Some (v, len))" and "pat \<noteq> []" and "length pat \<le> 5"
    and "length mem < 2 ^ 61" and "stop \<le> length mem" and "v + unat len \<le> length mem"
  shows "start \<le> v \<and> v + unat len \<le> stop \<and> (v + unat len = stop \<or> mem ! (v + unat len) = ch_amp)"
proof -
  obtain i where i: "ngx_strcasestrn (drop start mem) (pat @ [0]) (length pat - 1) = Some (Some i)"
    using assms(1) by (auto simp: ac_param_def split: option.splits)
  then have "i < length (drop start mem)" by (rule strcasestrn_bound)
  then have s: "start + i < length mem" by simp
  define p where "p = (if hd pat = ch_amp then start + i + 1 else start + i)"
  define e where "e = (case ngx_strlchr (subarray mem p stop) ch_amp of None \<Rightarrow> stop | Some j \<Rightarrow> p + j)"
  have v: "v = start + i + length pat" and len: "len = of_nat e - of_nat (start + i) - of_nat (length pat)"
    using assms(1) unfolding ac_param_def Let_def i option.case p_def [symmetric] e_def [symmetric] by simp_all
  have e: "e \<le> stop \<and> (e = stop \<or> mem ! e = ch_amp)"
  proof (cases "ngx_strlchr (subarray mem p stop) ch_amp")
    case (Some j)
    then have "j < length (subarray mem p stop) \<and> subarray mem p stop ! j = ch_amp" by (rule strlchr_Some)
    then show ?thesis using Some assms(5) by (auto simp: e_def)
  qed (simp add: e_def)
  have "unat len = (if v \<le> e then e - v else 2 ^ 64 + e - v)"
    using unat_pointer_diff [of e v] e s assms(3-5) by (simp add: len v algebra_simps)
  moreover have "v < 2 ^ 62" using s v assms(3,4) by simp
  ultimately have "v \<le> e" "v + unat len = e" using assms(4,6) by (auto split: if_splits)
  then show ?thesis using e v by auto
qed


lemmas param_splits = option.splits prod.splits sum.splits if_splits bool.splits

lemma sid_value:
  assumes "ac_sid mem start stop = Some (Some (v, len))" and "length mem < 2 ^ 61" and "stop \<le> length mem" and "v + unat len \<le> length mem"
  shows "start \<le> v \<and> v + unat len \<le> stop \<and> (v + unat len = stop \<or> mem ! (v + unat len) = ch_amp)"
  using assms(1) param_value [OF _ _ _ assms(2-4), of start "s2b ''sid=''"] param_value [OF _ _ _ assms(2-4), of start "s2b ''&sid=''"]
  by (auto simp: ac_sid_def split: param_splits)

lemma tokenkey_value:
  assumes "ac_tokenkey mem start stop = Some (Some (v, len))" and "length mem < 2 ^ 61" and "stop \<le> length mem" and "v + unat len \<le> length mem"
  shows "start \<le> v \<and> v + unat len \<le> stop \<and> (v + unat len = stop \<or> mem ! (v + unat len) = ch_amp)"
  using assms(1) param_value [OF _ _ _ assms(2-4), of start "s2b ''key=''"] param_value [OF _ _ _ assms(2-4), of start "s2b ''&key=''"]
  by (auto simp: ac_tokenkey_def split: param_splits)

section \<open>Authorisation\<close>

text \<open>Where a request has its parameters, and its path.\<close>

definition params_at :: "ac_request \<Rightarrow> nat \<Rightarrow> nat \<Rightarrow> bool" where
  "params_at r start stop \<longleftrightarrow>
     (if rq_method r = NGX_HTTP_POST then request_body (rq_body r) = Some (Some (start, stop))
      else start = rq_uri_data r \<and> stop = rq_uri_end r)"

definition path_len :: "ac_request \<Rightarrow> nat" where
  "path_len r = (case ngx_strlchr (subarray (rq_mem r) (rq_uri_start r) (rq_uri_end r)) ch_qmark of
     Some i \<Rightarrow> i | None \<Rightarrow> rq_uri_len r)"

definition request_path :: "ac_request \<Rightarrow> bytes" where
  "request_path r = take (path_len r) (drop (rq_uri_data r) (rq_mem r))"

definition value_of :: "ac_request \<Rightarrow> nat \<times> ngx_uint_t \<Rightarrow> bytes" where
  "value_of r v = subarray (rq_mem r) (fst v) (fst v + unat (snd v))"

text \<open>
  A request of the usual form: its memory is no greater than an address space, and no NUL stands in
  its parameters or its path.
\<close>

definition usual_request :: "ac_request \<Rightarrow> bool" where
  "usual_request r \<longleftrightarrow> length (rq_mem r) < 2 ^ 61 \<and> 0 \<notin> set (request_path r)
     \<and> (\<forall>start stop. params_at r start stop \<longrightarrow> stop \<le> length (rq_mem r) \<and> 0 \<notin> set (subarray (rq_mem r) start stop))"

text \<open>A row of the usual form: a key of \<open>n\<close> bytes without NUL and ampersand, and a service id without NUL.\<close>

definition usual_row :: "nat \<Rightarrow> keylimit_row \<Rightarrow> bool" where
  "usual_row n row \<longleftrightarrow> length (row_key row) = n \<and> 0 \<notin> set (row_key row) \<and> ch_amp \<notin> set (row_key row) \<and> 0 \<notin> set (row_sid row)"

text \<open>
  The comparisons may read one byte behind a string. The code does not put a NUL there: a copy in the pool is followed by the next allocation, so a key
  of 32 bytes is followed by the slash of the URI. It is enough that the byte behind a string does not occur in what the string is compared
  with, as a NUL never does, nor a slash in a key without slashes. This is said here of the three copies of a row, of the parameters of the request and of
  the request's own key and id.
\<close>

definition memory_apart :: "ac_request \<Rightarrow> bytes \<Rightarrow> bytes \<Rightarrow> keylimit_row \<Rightarrow> bool" where
  "memory_apart r token sid row \<longleftrightarrow>
     apart (kl_behind_key row) token \<and> apart (kl_behind_urisid row) (request_path r @ sid) \<and> apart (kl_behind_hashkey row) (token @ sid)
     \<and> apart (rq_behind_hashkey r) (row_key row @ row_sid row)
     \<and> (\<forall>start stop. params_at r start stop \<longrightarrow> apart (drop stop (rq_mem r)) (row_key row))"

text \<open>What the checks have read when they pass.\<close>

lemma authorize_passed:
  assumes "ac_authorize r ctx = Some (r', Inr (hash, hashkey, maxtps))"
  obtains start stop sid token elt where "params_at r start stop"
    "rq_mem r' = rq_mem r" "request_sid r' = sid" "request_key r' = token"
    "ac_sid (rq_mem r) start stop = Some (Some sid)" "ac_tokenkey (rq_mem r) start stop = Some (Some token)"
    "urisid_known (urisidarray ctx) (drop (rq_uri_data r) (rq_mem r)) (path_len r) (drop (fst sid) (rq_mem r)) (unat (snd sid)) = Some True"
    "key_listed (keyarray ctx) (drop (fst token) (rq_mem r)) (unat (snd token)) = Some True"
    "ac_hashkey (rq_mem r) token sid = Some hashkey"
    "hashkey_find (hashkeyarray ctx) (hashkey @ rq_behind_hashkey r) (length hashkey) = Some (Some elt)"
    "hash = ucast (hk_hash elt)" "ac_maxtps (hk_value elt) = Some maxtps"
proof -
  obtain r1 token sid where 1: "ac_request_params r ctx = Some (r1, Inr (token, sid))"
    and "ac_hashkey (rq_mem r1) token sid = Some hashkey" "r' = r1"
    and find: "\<exists>found. hashkey_find (hashkeyarray ctx) (hashkey @ rq_behind_hashkey r1) (length hashkey) = Some found
       \<and> ac_maxtps (case found of None \<Rightarrow> 0 | Some elt \<Rightarrow> hk_value elt) = Some maxtps
       \<and> hash = (case found of None \<Rightarrow> 0 | Some elt \<Rightarrow> ucast (hk_hash elt))"
    using assms by (auto simp: ac_authorize_def Let_def split: param_splits)
  obtain start stop r0 where 2: "params_at r start stop" "ac_check_params r0 ctx (path_len r) start stop = Some (r1, Inr (token, sid))"
    "rq_mem r0 = rq_mem r" "rq_uri_data r0 = rq_uri_data r" "rq_behind_hashkey r0 = rq_behind_hashkey r"
    using 1 by (auto simp: ac_request_params_def ac_post_def ac_get_def params_at_def path_len_def Let_def split: param_splits)
  have "ac_maxtps 0 = None" by (simp add: ac_maxtps_def)
  then obtain elt where "hashkey_find (hashkeyarray ctx) (hashkey @ rq_behind_hashkey r1) (length hashkey) = Some (Some elt)"
    "ac_maxtps (hk_value elt) = Some maxtps" "hash = ucast (hk_hash elt)"
    using find by (auto split: option.splits)
  then show ?thesis using that [of start stop sid token elt] 2 \<open>r' = r1\<close> \<open>ac_hashkey _ _ _ = _\<close>
    by (auto simp: ac_check_params_def Let_def split: param_splits)
qed


lemma subarray_sub:
  assumes "a \<le> b" and "c \<le> d"
  shows "set (subarray xs b c) \<subseteq> set (subarray xs a d)"
proof
  fix x
  assume "x \<in> set (subarray xs b c)"
  then obtain i where i: "i < min (c - b) (length xs - b)" "x = xs ! (b + i)"
    by (auto simp: in_set_conv_nth subarray_def)
  then have "b + i - a < length (subarray xs a d)" "subarray xs a d ! (b + i - a) = x"
    using assms by (auto simp: subarray_def)
  then show "x \<in> set (subarray xs a d)" by (metis nth_mem)
qed

text \<open>A value of the request, split from the memory behind it.\<close>

lemma value_split:
  assumes "fst v + unat (snd v) \<le> length (rq_mem r)"
  shows "drop (fst v) (rq_mem r) = value_of r v @ drop (fst v + unat (snd v)) (rq_mem r)"
    and "length (value_of r v) = unat (snd v)"
proof -
  show "drop (fst v) (rq_mem r) = value_of r v @ drop (fst v + unat (snd v)) (rq_mem r)"
    by (metis add.commute add_diff_cancel_left' append_take_drop_id drop_drop subarray_def value_of_def)
  show "length (value_of r v) = unat (snd v)" using assms by (simp add: value_of_def)
qed

lemma listed_key_row:
  assumes "key_listed elts (token @ c) (length token) = Some True" and "set elts \<subseteq> key_entry ` set rows"
    and "\<forall>row\<in>set rows. usual_row n row \<and> apart (kl_behind_key row) token \<and> apart c (row_key row)" and "0 \<notin> set token"
  shows "\<exists>row\<in>set rows. token = row_key row"
proof -
  obtain row where row: "row \<in> set rows" "ngx_strncmp (ps_data (key_entry row)) (token @ c) (ps_len (key_entry row)) = Some 0"
    "ngx_strncmp (ps_data (key_entry row)) (token @ c) (length token) = Some 0"
    using key_listed_elt [OF assms(1)] assms(2) by blast
  then have "row_key row = token"
    using both_prefixes_equal [of "row_key row" "kl_behind_key row" token c] assms(3,4) by (simp add: key_entry_def usual_row_def)
  then show ?thesis using row(1) by blast
qed

lemma found_hashkey_row:
  assumes "hashkey_find (map hashkey_entry rows) (hashkey @ c) (length hashkey) = Some (Some elt)"
    and "\<forall>row\<in>set rows. usual_row n row \<and> apart (kl_behind_hashkey row) hashkey \<and> apart c (row_key row @ row_sid row)" and "0 \<notin> set hashkey"
  shows "\<exists>row\<in>set rows. elt = hashkey_entry row \<and> hashkey = row_key row @ row_sid row"
proof -
  obtain row where row: "row \<in> set rows" "elt = hashkey_entry row"
    "ngx_strncmp (ps_data (hk_key elt)) (hashkey @ c) (ps_len (hk_key elt)) = Some 0"
    "ngx_strncmp (ps_data (hk_key elt)) (hashkey @ c) (length hashkey) = Some 0"
    using hashkey_find_elt [OF assms(1)] by auto
  then have "row_key row @ row_sid row = hashkey"
    using both_prefixes_equal [of "row_key row @ row_sid row" "kl_behind_hashkey row" hashkey c] assms(2,3)
    by (simp add: hashkey_entry_def usual_row_def)
  then show ?thesis using row by blast
qed

lemma known_urisid_row:
  assumes "urisid_known elts uri ulen sid slen = Some True" and "set elts \<subseteq> urisid_entry ` set rows"
    and "\<forall>row\<in>set rows. apart (kl_behind_urisid row) (take ulen uri @ take slen sid)" and "0 \<notin> set (take ulen uri)" and "0 \<notin> set (take slen sid)"
  shows "\<exists>row\<in>set rows. prefix (take ulen uri @ take slen sid) (row_uri row @ row_sid row)"
proof -
  obtain row where row: "row \<in> set rows" "ngx_strncmp (ps_data (urisid_entry row)) uri ulen = Some 0"
    "ngx_strncmp (drop ulen (ps_data (urisid_entry row))) sid slen = Some 0"
    using urisid_known_elt [OF assms(1)] assms(2) by blast
  let ?t = "row_uri row @ row_sid row" and ?q = "take ulen uri @ take slen sid"
  have data: "ps_data (urisid_entry row) = ?t @ kl_behind_urisid row" by (simp add: urisid_entry_def)
  have eq: "?q = take (ulen + slen) (?t @ kl_behind_urisid row)" and len: "length ?q = ulen + slen"
    unfolding take_add data [symmetric] using strncmp_equal [OF row(2)] strncmp_equal [OF row(3)] assms(4,5) by auto
  have "ulen + slen \<le> length ?t"
    using apart_longer [of ?q ?t "kl_behind_urisid row"] assms(3) row(1) unfolding len eq [symmetric] by (metis not_le)
  then have "?q = take (ulen + slen) ?t" unfolding eq by simp
  then have "prefix ?q ?t" by (metis take_is_prefix)
  then show ?thesis using row(1) by blast
qed

text \<open>
  C1. No access without a row, on these conditions: the tables were read from rows with keys of one length, without NUL and ampersand in the keys and without NUL in the
  service ids; the request has no NUL in its parameters and its path; and the byte that stands in memory behind each of the compared strings does not
  occur in the string it is compared with. The code does not guarantee these conditions. When they hold and the checks let the request pass, then the key and the
  service id that the request names are those of a row with a positive number of requests, the
  limiter gets exactly this key and id, their hash and the rate of the row, and the path and
  the id together are the beginning of the URI and id of a row.
\<close>

theorem access_authorized_sound:
  assumes "ngx_http_limit_init_keypool True rows = Some (NGX_OK, ctx)" and "\<forall>row\<in>set rows. usual_row n row"
    and "usual_request r" and "ac_authorize r ctx = Some (r', Inr (hash, hashkey, maxtps))"
    and "\<forall>row\<in>set rows. memory_apart r (value_of r (request_key r')) (value_of r (request_sid r')) row"
  shows "\<exists>row\<in>set rows. value_of r (request_key r') = row_key row \<and> value_of r (request_sid r') = row_sid row
    \<and> hashkey = row_key row @ row_sid row \<and> hash = ucast (ngx_hash_key_lc hashkey)
    \<and> 0 <s kl_maxtps row \<and> ac_maxtps (kl_maxtps row) = Some maxtps
    \<and> (\<exists>row'\<in>set rows. prefix (request_path r @ row_sid row) (row_uri row' @ row_sid row'))"
proof -
  note tables = keypool_entries [OF assms(1)]
  obtain start stop sid token elt where p: "params_at r start stop" "request_sid r' = sid" "request_key r' = token"
    and vals: "ac_sid (rq_mem r) start stop = Some (Some sid)" "ac_tokenkey (rq_mem r) start stop = Some (Some token)"
    and us: "urisid_known (urisidarray ctx) (drop (rq_uri_data r) (rq_mem r)) (path_len r) (drop (fst sid) (rq_mem r)) (unat (snd sid)) = Some True"
    and kl: "key_listed (keyarray ctx) (drop (fst token) (rq_mem r)) (unat (snd token)) = Some True"
    and hk: "ac_hashkey (rq_mem r) token sid = Some hashkey"
    and elt: "hashkey_find (hashkeyarray ctx) (hashkey @ rq_behind_hashkey r) (length hashkey) = Some (Some elt)"
      "hash = ucast (hk_hash elt)" "ac_maxtps (hk_value elt) = Some maxtps"
    using assms(4) by (rule authorize_passed) blast
  have u: "length (rq_mem r) < 2 ^ 61" "stop \<le> length (rq_mem r)" "0 \<notin> set (subarray (rq_mem r) start stop)" "0 \<notin> set (request_path r)"
    using assms(3) p(1) by (auto simp: usual_request_def)
  have in_mem: "fst token + unat (snd token) \<le> length (rq_mem r)" "fst sid + unat (snd sid) \<le> length (rq_mem r)" and hashkey: "hashkey = value_of r token @ value_of r sid"
    using hk by (auto simp: ac_hashkey_def value_of_def split: if_splits)
  then have t: "start \<le> fst token" "fst token + unat (snd token) \<le> stop"
      "fst token + unat (snd token) = stop \<or> rq_mem r ! (fst token + unat (snd token)) = ch_amp"
    and s: "start \<le> fst sid" "fst sid + unat (snd sid) \<le> stop"
    using tokenkey_value [of "rq_mem r" start stop "fst token" "snd token"] sid_value [of "rq_mem r" start stop "fst sid" "snd sid"] vals u by auto
  have nul: "0 \<notin> set (value_of r token)" "0 \<notin> set (value_of r sid)"
    using u(3) subarray_sub [OF t(1,2), of "rq_mem r"] subarray_sub [OF s, of "rq_mem r"] by (auto simp: value_of_def)
  have ap: "memory_apart r (value_of r token) (value_of r sid) row" if "row \<in> set rows" for row using assms(5) that p by simp
  have "apart (drop (fst token + unat (snd token)) (rq_mem r)) (row_key row)" if row: "row \<in> set rows" for row
  proof (cases "fst token + unat (snd token) = stop")
    case True
    then show ?thesis using ap [OF row] p(1) by (simp add: memory_apart_def)
  next
    case False
    then have "hd (drop (fst token + unat (snd token)) (rq_mem r)) = ch_amp" using t(2,3) u(2) by (simp add: hd_drop_conv_nth)
    then show ?thesis using assms(2) row by (auto simp: apart_def usual_row_def)
  qed
  then obtain k where k: "k \<in> set rows" "value_of r token = row_key k"
    using listed_key_row [of "keyarray ctx" "value_of r token" "drop (fst token + unat (snd token)) (rq_mem r)" rows n] tables(1) assms(2) nul(1)
      kl value_split [OF in_mem(1)] ap by (auto simp: memory_apart_def)
  obtain row where row: "row \<in> set rows" "elt = hashkey_entry row" "hashkey = row_key row @ row_sid row"
    using found_hashkey_row [of rows hashkey "rq_behind_hashkey r" elt n] elt(1) assms(2) nul ap by (auto simp: tables(3) hashkey memory_apart_def)
  have "row_key row = value_of r token \<and> row_sid row = value_of r sid"
    using row(1,3) k hashkey assms(2) by (simp add: usual_row_def)
  moreover have "\<exists>row'\<in>set rows. prefix (request_path r @ value_of r sid) (row_uri row' @ row_sid row')"
    using known_urisid_row [OF us tables(2)] ap u(4) nul(2) s by (simp add: request_path_def value_of_def subarray_def memory_apart_def)
  moreover have "0 <s kl_maxtps row" using elt(3) row(2) by (auto simp: ac_maxtps_def hashkey_entry_def split: if_splits)
  moreover have "hash = ucast (ngx_hash_key_lc hashkey)" "ac_maxtps (kl_maxtps row) = Some maxtps"
    using elt(2,3) row(2,3) by (simp_all add: hashkey_entry_def)
  ultimately show ?thesis using row(1,3) p(2,3) by (intro bexI [of _ row]) simp_all
qed

text \<open>
  Rows whose values are padded with spaces, as the database returns them, and a request line. In memory the URI follows the key.
\<close>

definition mk_row :: "string \<Rightarrow> string \<Rightarrow> string \<Rightarrow> ngx_uint_t \<Rightarrow> keylimit_row" where
  "mk_row key uri sid n =
     (let padded = \<lambda>k s. s2b s @ replicate (k - length s) ch_SP
      in \<lparr>kl_key = padded 33 key, kl_uri = padded 65 uri, kl_sid = padded 7 sid, kl_maxtps = n,
          kl_behind_key = s2b uri @ [0], kl_behind_urisid = [0], kl_behind_hashkey = [0]\<rparr>)"

definition mk_get :: "string \<Rightarrow> string \<Rightarrow> ac_request" where
  "mk_get path args = \<lparr>rq_mem = s2b (''GET '' @ path @ ''?'' @ args @ '' HTTP/1.0'') @ [0], rq_method = NGX_HTTP_GET,
     rq_uri_data = 4, rq_uri_len = length path, rq_uri_start = 4, rq_uri_end = 5 + length path + length args,
     rq_body = \<lparr>body_rc = 0, request_body = None\<rparr>, rq_behind_hashkey = [0], access_control_set = False,
     request_sid = (0, 0), request_key = (0, 0), rq_finalized = []\<rparr>"

definition two_services :: "keylimit_row list" where
  "two_services = [mk_row ''K2'' ''/a'' ''12'' 7200, mk_row ''K1'' ''/b'' ''1'' 7200]"

definition two_tables :: ac_tables where
  "two_tables = \<lparr>keyarray = [\<lparr>ps_data = s2b ''K2/a'' @ [0], ps_len = 2\<rparr>, \<lparr>ps_data = s2b ''K1/b'' @ [0], ps_len = 2\<rparr>],
     urisidarray = [\<lparr>ps_data = s2b ''/a12'' @ [0], ps_len = 4\<rparr>, \<lparr>ps_data = s2b ''/b1'' @ [0], ps_len = 3\<rparr>],
     hashkeyarray = [\<lparr>hk_key = \<lparr>ps_data = s2b ''K212'' @ [0], ps_len = 4\<rparr>, hk_hash = ngx_hash_key_lc (s2b ''K212''), hk_value = 7200\<rparr>,
       \<lparr>hk_key = \<lparr>ps_data = s2b ''K11'' @ [0], ps_len = 3\<rparr>, hk_hash = ngx_hash_key_lc (s2b ''K11''), hk_value = 7200\<rparr>]\<rparr>"

lemma two_services_tables: "ngx_http_limit_init_keypool True two_services = Some (NGX_OK, two_tables)"
  by code_simp

lemma two_services_usual: "\<forall>row\<in>set two_services. usual_row 2 row"
proof -
  have "map row_key two_services = [s2b ''K2'', s2b ''K1'']" "map row_sid two_services = [s2b ''12'', s2b ''1'']" by code_simp+
  then show ?thesis by (simp add: two_services_def usual_row_def)
qed

definition get_b :: ac_request where "get_b = mk_get ''/b'' ''sid=1&key=K1''"

lemma get_b_usual: "usual_request get_b"
proof -
  have "length (rq_mem get_b) = 29" "request_path get_b = s2b ''/b''" "rq_uri_data get_b = 4" "rq_uri_end get_b = 19"
    "subarray (rq_mem get_b) 4 19 = s2b ''/b?sid=1&key=K1''" "rq_method get_b = NGX_HTTP_GET" by code_simp+
  then show ?thesis by (simp add: usual_request_def params_at_def)
qed

lemma get_b_apart: "\<forall>row\<in>set two_services. memory_apart get_b (s2b ''K1'') (s2b ''1'') row"
proof -
  have r: "request_path get_b = s2b ''/b''" "rq_behind_hashkey get_b = [0]" "rq_uri_data get_b = 4" "rq_uri_end get_b = 19"
    "drop 19 (rq_mem get_b) = s2b '' HTTP/1.0'' @ [0]" "rq_method get_b = NGX_HTTP_GET" by code_simp+
  have "map row_key two_services = [s2b ''K2'', s2b ''K1'']" "map row_sid two_services = [s2b ''12'', s2b ''1'']"
    "map kl_behind_key two_services = [s2b ''/a'' @ [0], s2b ''/b'' @ [0]]"
    "map kl_behind_urisid two_services = [[0], [0]]" "map kl_behind_hashkey two_services = [[0], [0]]" by code_simp+
  then show ?thesis unfolding memory_apart_def params_at_def r using r(5) by (simp add: two_services_def apart_def)
qed

theorem access_authorized_sound_witness:
  "\<exists>r' hash. ac_authorize get_b two_tables = Some (r', Inr (hash, s2b ''K11'', 3000))
    \<and> (\<exists>row\<in>set two_services. value_of get_b (request_key r') = row_key row)"
proof -
  have "map_option (\<lambda>(r', res). (value_of get_b (request_key r'), value_of get_b (request_sid r'), res)) (ac_authorize get_b two_tables)
    = Some (s2b ''K1'', s2b ''1'', Inr (ucast (ngx_hash_key_lc (s2b ''K11'')), s2b ''K11'', 3000))" by code_simp
  then obtain r' where r': "ac_authorize get_b two_tables = Some (r', Inr (ucast (ngx_hash_key_lc (s2b ''K11'')), s2b ''K11'', 3000))"
    and v: "value_of get_b (request_key r') = s2b ''K1''" "value_of get_b (request_sid r') = s2b ''1''"
    by (auto simp: map_option_case split: option.splits prod.splits)
  have "\<forall>row\<in>set two_services. memory_apart get_b (value_of get_b (request_key r')) (value_of get_b (request_sid r')) row"
    unfolding v by (rule get_b_apart)
  then show ?thesis using r' access_authorized_sound [OF two_services_tables two_services_usual get_b_usual r'] by blast
qed

text \<open>
  The check of the URI is one of prefixes: with a row for the service 12 at \<^verbatim>\<open>/a\<close> and a row that
  gives the key K1 the service 1 at \<^verbatim>\<open>/b\<close>, a request for \<^verbatim>\<open>/a\<close> with the key K1 passes when it
  names the service 1, because \<^verbatim>\<open>/a1\<close> begins \<^verbatim>\<open>/a12\<close>, although no row gives the key K1 the URI \<^verbatim>\<open>/a\<close>.
\<close>

lemma access_service_confusion:
  "ngx_http_limit_init_keypool True two_services = Some (NGX_OK, two_tables)
    \<and> map_option snd (ac_authorize (mk_get ''/a'' ''sid=1&key=K1'') two_tables)
        = Some (Inr (ucast (ngx_hash_key_lc (s2b ''K11'')), s2b ''K11'', 3000))
    \<and> (s2b ''K1'', s2b ''/a'') \<notin> (\<lambda>row. (row_key row, row_uri row)) ` set two_services"
proof -
  have "map (\<lambda>row. (row_key row, row_uri row)) two_services = [(s2b ''K2'', s2b ''/a''), (s2b ''K1'', s2b ''/b'')]" by code_simp
  then have "(s2b ''K1'', s2b ''/a'') \<notin> set (map (\<lambda>row. (row_key row, row_uri row)) two_services)" by simp
  moreover have "map_option snd (ac_authorize (mk_get ''/a'' ''sid=1&key=K1'') two_tables)
        = Some (Inr (ucast (ngx_hash_key_lc (s2b ''K11'')), s2b ''K11'', 3000))" by code_simp
  ultimately show ?thesis using two_services_tables by simp
qed

text \<open>
  The condition on the memory is needed: with the URI \<^verbatim>\<open>/b\<close> behind the key K1, the key \<^verbatim>\<open>K1/b\<close> passes the check of the keys, though
  no row has it.
\<close>

lemma access_key_memory_read:
  "key_listed (keyarray two_tables) (s2b ''K1/b HTTP/1.0'' @ [0]) (length (s2b ''K1/b'')) = Some True"
  by code_simp

text \<open>
  A key that extends a key read before is not entered in the table of keys, so that requests
  with it are refused although the row grants them.
\<close>

lemma access_key_extension_refused:
  "(case ngx_http_limit_init_keypool True [mk_row ''ab'' ''/a'' ''1'' 7200, mk_row ''abc'' ''/b'' ''2'' 7200] of
      Some (NGX_OK, ctx) \<Rightarrow> map_option snd (ac_authorize (mk_get ''/b'' ''sid=2&key=abc'') ctx)
    | _ \<Rightarrow> None) = Some (Inl NGX_HTTP_UNAUTHORIZED)"
  by code_simp

end
