(* ===== verification/AccessConf.thy ===== *)
theory AccessConf
  imports AccessLimit AccessRequest NgxParse
begin

text \<open>
  The configuration of the access control module,
  \<^verbatim>\<open>src/http/modules/ngx_http_access_control_module.c\<close>: the directive \<open>access_control\<close> with
  \<open>ngx_shared_memory_add\<close> of \<^verbatim>\<open>src/core/ngx_cycle.c\<close>, the start of a zone, and the creation and
  merging of the configuration of a location.
\<close>

section \<open>Definitions\<close>

record ac_conf =
  limit_list :: "ac_limit list"
  limit_log_level :: ngx_uint_t
  delay_log_level :: ngx_uint_t
  status_code :: ngx_uint_t

text \<open>
  \<open>ngx_http_access_control_create_conf\<close> and \<open>ngx_http_access_control_merge_conf\<close>; an empty list of
  limits is the null pointer. \<open>NGX_CONF_UNSET_UINT\<close> is the greatest number.
\<close>

definition NGX_LOG_ERR :: ngx_uint_t where "NGX_LOG_ERR = 4"
definition NGX_LOG_INFO :: ngx_uint_t where "NGX_LOG_INFO = 7"
definition NGX_CONF_UNSET_UINT :: ngx_uint_t where "NGX_CONF_UNSET_UINT = - 1"

definition ngx_conf_merge_uint_value :: "ngx_uint_t \<Rightarrow> ngx_uint_t \<Rightarrow> ngx_uint_t \<Rightarrow> ngx_uint_t" where
  "ngx_conf_merge_uint_value conf prev dflt =
     (if conf = NGX_CONF_UNSET_UINT then if prev = NGX_CONF_UNSET_UINT then dflt else prev else conf)"

definition ngx_http_access_control_create_conf :: ac_conf where
  "ngx_http_access_control_create_conf =
     \<lparr>limit_list = [], limit_log_level = NGX_CONF_UNSET_UINT, delay_log_level = 0, status_code = NGX_CONF_UNSET_UINT\<rparr>"

definition ngx_http_access_control_merge_conf :: "ac_conf \<Rightarrow> ac_conf \<Rightarrow> ac_conf" where
  "ngx_http_access_control_merge_conf prev conf =
     (let level = ngx_conf_merge_uint_value (limit_log_level conf) (limit_log_level prev) NGX_LOG_ERR
      in \<lparr>limit_list = (if limit_list conf = [] then limit_list prev else limit_list conf),
          limit_log_level = level,
          delay_log_level = (if level = NGX_LOG_INFO then NGX_LOG_INFO else level + 1),
          status_code = ngx_conf_merge_uint_value (status_code conf) (status_code prev) NGX_HTTP_SERVICE_UNAVAILABLE\<rparr>)"

text \<open>
  \<open>ngx_http_access_control_init_zone\<close>: \<open>octx\<close> is the context of the zone in the old configuration,
  with its variable, \<open>existing\<close> the shared part that an existing segment holds, \<open>mem1\<close> and \<open>mem2\<close>
  say whether the two allocations succeed, \<open>queue\<close> is the address of the queue.
\<close>

definition ngx_http_access_control_init_zone ::
  "bytes \<Rightarrow> (bytes \<times> ac_shctx) option \<Rightarrow> ac_shctx option \<Rightarrow> bool \<Rightarrow> bool \<Rightarrow> ptr \<Rightarrow> (ptr \<Rightarrow> ac_node) \<Rightarrow> qheap
   \<Rightarrow> ac_shctx option" where
  "ngx_http_access_control_init_zone var octx existing mem1 mem2 queue nodes heap =
     (case octx of
        Some (ovar, osh) \<Rightarrow> if cstr var \<noteq> cstr ovar then None else Some osh
      | None \<Rightarrow>
          (case existing of
             Some sh \<Rightarrow> Some sh
           | None \<Rightarrow>
               if \<not> mem1 then None
               else let sh = \<lparr>sh_nodes = nodes, sh_rbtree = Sentinel, sh_links = ngx_queue_init queue heap, sh_queue = queue\<rparr>
                    in if \<not> mem2 then None else Some sh))"

text \<open>
  The zones of shared memory of a configuration, \<open>ngx_shm_zone_t\<close> in \<^verbatim>\<open>src/core/ngx_cycle.h\<close>;
  \<open>zn_data\<close> says that the zone has a context. \<open>ngx_shared_memory_add\<close> returns the position of the
  zone in the list, or nothing; \<open>room\<close> says whether the list can grow.
\<close>

record shm_zone =
  zn_name :: bytes
  zn_size :: ngx_uint_t
  zn_tag :: nat
  zn_data :: bool

fun shm_zone_index :: "shm_zone list \<Rightarrow> bytes \<Rightarrow> nat option" where
  "shm_zone_index [] name = None"
| "shm_zone_index (zn # zones) name = (if zn_name zn = name then Some 0 else map_option Suc (shm_zone_index zones name))"

definition ngx_shared_memory_add :: "bool \<Rightarrow> shm_zone list \<Rightarrow> bytes \<Rightarrow> ngx_uint_t \<Rightarrow> nat \<Rightarrow> (nat \<times> shm_zone list) option" where
  "ngx_shared_memory_add room zones name sz tag =
     (case shm_zone_index zones name of
        Some i \<Rightarrow>
          if tag \<noteq> zn_tag (zones ! i) then None
          else if sz \<noteq> 0 \<and> sz \<noteq> zn_size (zones ! i) then None
          else Some (i, zones)
      | None \<Rightarrow>
          if room then Some (length zones, zones @ [\<lparr>zn_name = name, zn_size = sz, zn_tag = tag, zn_data = False\<rparr>])
          else None)"

text \<open>
  The directive \<open>access_control\<close>. A value ends with a NUL behind its length. The state of its
  loop is the zones of the configuration, the position of the zone named, the burst and the flag.
\<close>

datatype conf_error = Bad_zone_size | Zone_too_small | No_zone_memory | Already_bound | Bad_burst | Bad_parameter | No_zone | Is_duplicate | No_keypool

record ac_directive =
  dr_zones :: "shm_zone list"
  dr_zone :: "nat option"
  dr_burst :: ngx_int_t
  dr_nodelay :: bool

definition ac_zone_param :: "ngx_uint_t \<Rightarrow> bool \<Rightarrow> nat \<Rightarrow> bytes \<Rightarrow> ac_directive \<Rightarrow> (conf_error + ac_directive) option" where
  "ac_zone_param pagesize room tag name_size d =
     (case ngx_strlchr name_size ch_colon of
        None \<Rightarrow> Some (Inl Bad_zone_size)
      | Some i \<Rightarrow>
          case ngx_parse_size (drop (i + 1) name_size) of
            None \<Rightarrow> None
          | Some sz \<Rightarrow>
              if sz = - 1 then Some (Inl Bad_zone_size)
              else if sz <s 8 * pagesize then Some (Inl Zone_too_small)
              else case ngx_shared_memory_add room (dr_zones d) (take i name_size) sz tag of
                     None \<Rightarrow> Some (Inl No_zone_memory)
                   | Some (z, zones) \<Rightarrow>
                       if zn_data (zones ! z) then Some (Inl Already_bound)
                       else Some (Inr (d\<lparr>dr_zones := zones[z := (zones ! z)\<lparr>zn_data := True\<rparr>], dr_zone := Some z\<rparr>)))"

fun ac_params :: "ngx_uint_t \<Rightarrow> bool \<Rightarrow> nat \<Rightarrow> bytes list \<Rightarrow> ac_directive \<Rightarrow> (conf_error + ac_directive) option" where
  "ac_params pagesize room tag [] d = Some (Inr d)"
| "ac_params pagesize room tag (value # values) d =
     (if prefix (s2b ''aczone='') value
      then case ac_zone_param pagesize room tag (drop 7 value) d of
             None \<Rightarrow> None
           | Some (Inl err) \<Rightarrow> Some (Inl err)
           | Some (Inr d) \<Rightarrow> ac_params pagesize room tag values d
      else if prefix (s2b ''burst='') value
      then let burst = ngx_atoi (drop 6 value)
           in if \<not> 0 <s burst then Some (Inl Bad_burst) else ac_params pagesize room tag values (d\<lparr>dr_burst := burst\<rparr>)
      else if prefix (s2b ''nodelay'') value then ac_params pagesize room tag values (d\<lparr>dr_nodelay := True\<rparr>)
      else Some (Inl Bad_parameter))"

definition NGX_MAX_BURST_MULTIPLE :: ngx_int_t where
  "NGX_MAX_BURST_MULTIPLE = 100"

text \<open>A limit of the configuration: the position of the zone, the burst and the flag.\<close>

record conf_limit =
  cl_zone :: nat
  cl_burst :: ngx_uint_t
  cl_nodelay :: bool

definition ngx_http_access_control ::
  "ngx_uint_t \<Rightarrow> bool \<Rightarrow> nat \<Rightarrow> (ngx_rc \<times> ac_tables) option \<Rightarrow> bytes list \<Rightarrow> shm_zone list \<Rightarrow> conf_limit list
   \<Rightarrow> (conf_error + shm_zone list \<times> conf_limit list) option" where
  "ngx_http_access_control pagesize room tag keypool values zones limits =
     (case keypool of
        None \<Rightarrow> None
      | Some (rc, tables) \<Rightarrow>
          if rc \<noteq> NGX_OK then Some (Inl No_keypool)
          else case ac_params pagesize room tag values \<lparr>dr_zones = zones, dr_zone = None, dr_burst = 0, dr_nodelay = False\<rparr> of
                 None \<Rightarrow> None
               | Some (Inl err) \<Rightarrow> Some (Inl err)
               | Some (Inr d) \<Rightarrow>
                   (case dr_zone d of
                      None \<Rightarrow> Some (Inl No_zone)
                    | Some z \<Rightarrow>
                        if z \<in> cl_zone ` set limits then Some (Inl Is_duplicate)
                        else let burst = (if dr_burst d <s NGX_MAX_BURST_MULTIPLE then dr_burst d else NGX_MAX_BURST_MULTIPLE)
                             in Some (Inr (dr_zones d, limits @ [\<lparr>cl_zone = z, cl_burst = burst, cl_nodelay = dr_nodelay d\<rparr>]))))"

section \<open>The limits of a configuration\<close>

definition limits_ok :: "shm_zone list \<Rightarrow> conf_limit list \<Rightarrow> bool" where
  "limits_ok zones limits \<longleftrightarrow> distinct (map cl_zone limits)
     \<and> (\<forall>l\<in>set limits. cl_zone l < length zones \<and> zn_data (zones ! cl_zone l) \<and> cl_burst l \<le> 100)"

lemma shm_zone_index_Some: "shm_zone_index zones name = Some i \<Longrightarrow> i < length zones \<and> zn_name (zones ! i) = name"
  by (induction zones arbitrary: i) (auto split: if_splits)

text \<open>Zones are only added, and what has a context keeps it.\<close>

definition zones_grow :: "shm_zone list \<Rightarrow> shm_zone list \<Rightarrow> bool" where
  "zones_grow zones zones' \<longleftrightarrow> length zones \<le> length zones' \<and> (\<forall>i<length zones. zn_data (zones ! i) \<longrightarrow> zn_data (zones' ! i))"

lemma zones_grow_trans: "zones_grow a b \<Longrightarrow> zones_grow b c \<Longrightarrow> zones_grow a c"
  by (auto simp: zones_grow_def)

definition directive_ok :: "ac_directive \<Rightarrow> bool" where
  "directive_ok d \<longleftrightarrow> (case dr_zone d of None \<Rightarrow> True | Some z \<Rightarrow> z < length (dr_zones d) \<and> zn_data (dr_zones d ! z)) \<and> \<not> dr_burst d <s 0"

lemma zone_param_ok:
  assumes "ac_zone_param pagesize room tag value d = Some (Inr d')" and "directive_ok d"
  shows "directive_ok d' \<and> zones_grow (dr_zones d) (dr_zones d')"
proof -
  obtain z zones i sz where z: "ngx_shared_memory_add room (dr_zones d) (take i value) sz tag = Some (z, zones)"
    and d': "d' = d\<lparr>dr_zones := zones[z := (zones ! z)\<lparr>zn_data := True\<rparr>], dr_zone := Some z\<rparr>"
    using assms(1) by (auto simp: ac_zone_param_def split: option.splits if_splits)
  have "z < length zones \<and> zones_grow (dr_zones d) zones"
    using z by (auto simp: ngx_shared_memory_add_def zones_grow_def nth_append dest: shm_zone_index_Some split: option.splits if_splits)
  then show ?thesis using assms(2) by (auto simp: d' directive_ok_def zones_grow_def nth_list_update)
qed

lemma params_ok:
  "ac_params pagesize room tag values d = Some (Inr d') \<Longrightarrow> directive_ok d \<Longrightarrow> directive_ok d' \<and> zones_grow (dr_zones d) (dr_zones d')"
proof (induction pagesize room tag "values" d rule: ac_params.induct)
  case (1 pagesize room tag d)
  then show ?case by (simp add: zones_grow_def)
next
  case (2 pagesize room tag val vals d)
  consider (zone) "prefix (s2b ''aczone='') val" | (burst) "\<not> prefix (s2b ''aczone='') val" "prefix (s2b ''burst='') val"
    | (nodelay) "\<not> prefix (s2b ''aczone='') val" "\<not> prefix (s2b ''burst='') val" "prefix (s2b ''nodelay'') val"
    using 2(4) by (auto split: if_splits)
  then show ?case
  proof cases
    case zone
    then obtain d1 where d1: "ac_zone_param pagesize room tag (drop 7 val) d = Some (Inr d1)" "ac_params pagesize room tag vals d1 = Some (Inr d')"
      using 2(4) by (auto split: option.splits sum.splits)
    show ?thesis using 2(1) [OF zone d1(1) refl d1(2)] zone_param_ok [OF d1(1) 2(5)] zones_grow_trans by blast
  next
    case burst
    let ?b = "ngx_atoi (drop 6 val)"
    have b: "0 <s ?b" "ac_params pagesize room tag vals (d\<lparr>dr_burst := ?b\<rparr>) = Some (Inr d')" using burst 2(4) by (auto simp: Let_def split: if_splits)
    then have "directive_ok (d\<lparr>dr_burst := ?b\<rparr>)" using 2(5) by (auto simp: directive_ok_def zero_sless_iff split: option.splits)
    then show ?thesis using 2(2) [OF burst refl _ b(2)] b(1) by simp
  next
    case nodelay
    then show ?thesis using 2(3) [OF nodelay] 2(4,5) by (auto simp: directive_ok_def split: option.splits)
  qed
qed

lemma rate_range:
  assumes "3600 <s (fm :: 64 word)"
  shows "1000 \<le> (fm div 3600 + 1) * 1000"
proof -
  have "\<not> fm <s 0" using assms by (auto simp: word_sless_alt)
  then have fm: "unat fm < 2 ^ 63" by (simp add: sless_zero_iff)
  then have q: "unat (fm div 3600) < 2 ^ 53" by (simp add: unat_div)
  then have "unat (fm div 3600 + 1) = unat (fm div 3600) + 1" by (simp add: unat_plus_if')
  then have "unat ((fm div 3600 + 1) * 1000) = (unat (fm div 3600) + 1) * 1000"
    using unat_mult_lem [of "fm div 3600 + 1" 1000] q by simp
  then show ?thesis by (simp add: word_le_nat_alt)
qed

text \<open>
  C26. The numbers that reach the limiter are in range: a limit that the directive adds has a
  burst of at most 100 and a zone of its own that has a context, and the limits before it keep
  theirs; the rate that the handler computes from a row lies between one and 100000 requests per
  second. These are the ranges in which the limiter's arithmetic does not overflow.
\<close>

theorem access_limits_typed:
  assumes "ngx_http_access_control pagesize room tag keypool values zones limits = Some (Inr (zones', limits'))" and "limits_ok zones limits"
  shows "limits_ok zones' limits' \<and> length limits' = Suc (length limits)
    \<and> (\<forall>fm maxtps. ac_maxtps fm = Some maxtps \<longrightarrow> 1000 \<le> maxtps \<and> maxtps \<le> 100000 * 1000)"
proof -
  let ?d = "\<lparr>dr_zones = zones, dr_zone = None, dr_burst = 0, dr_nodelay = False\<rparr>"
  obtain d z where d: "ac_params pagesize room tag values ?d = Some (Inr d)" "dr_zone d = Some z" "z \<notin> cl_zone ` set limits" "zones' = dr_zones d"
    and l: "limits' = limits @ [\<lparr>cl_zone = z, cl_burst = if dr_burst d <s NGX_MAX_BURST_MULTIPLE then dr_burst d else NGX_MAX_BURST_MULTIPLE, cl_nodelay = dr_nodelay d\<rparr>]"
    using assms(1) by (auto simp: ngx_http_access_control_def Let_def split: option.splits sum.splits if_splits)
  have ok: "directive_ok d \<and> zones_grow zones zones'" using params_ok [OF d(1)] d(4) by (simp add: directive_ok_def)
  then have "\<not> dr_burst d <s 0" by (simp add: directive_ok_def)
  then have "(if dr_burst d <s NGX_MAX_BURST_MULTIPLE then dr_burst d else NGX_MAX_BURST_MULTIPLE) \<le> 100"
    using sless_unat [of "dr_burst d" 100] by (auto simp: NGX_MAX_BURST_MULTIPLE_def word_le_nat_alt sless_zero_iff)
  then have "limits_ok zones' limits'"
    using assms(2) d ok unfolding l by (auto simp: limits_ok_def directive_ok_def zones_grow_def)
  moreover have "1000 \<le> maxtps \<and> maxtps \<le> 100000 * 1000" if "ac_maxtps fm = Some maxtps" for fm maxtps
    using that rate_range [of fm] by (auto simp: ac_maxtps_def Let_def NGX_MAX_TPS_MS_def split: if_splits)
  ultimately show ?thesis by (simp add: l)
qed


theorem access_limits_typed_witness:
  "\<exists>zones limits. ngx_http_access_control 4096 True 1 (Some (NGX_OK, no_tables)) [s2b ''aczone=z:1m'', s2b ''burst=500''] [] [] = Some (Inr (zones, limits))
    \<and> limits_ok zones limits \<and> map cl_burst limits = [100]"
proof -
  have run: "ngx_http_access_control 4096 True 1 (Some (NGX_OK, no_tables)) [s2b ''aczone=z:1m'', s2b ''burst=500''] [] []
    = Some (Inr ([\<lparr>zn_name = s2b ''z'', zn_size = 1048576, zn_tag = 1, zn_data = True\<rparr>], [\<lparr>cl_zone = 0, cl_burst = 100, cl_nodelay = False\<rparr>]))"
    by code_simp
  show ?thesis using access_limits_typed [OF run] run by (simp add: limits_ok_def)
qed

text \<open>A zone that is set up for the first time is empty and in order.\<close>

lemma init_zone_ok:
  assumes "ngx_http_access_control_init_zone var None None mem1 mem2 queue nodes heap = Some sh"
  shows "zone sh [] \<and> sh_queue sh = queue"
  using assms init_queue [of queue heap] by (auto simp: ngx_http_access_control_init_zone_def zone_def rb_inv_def Let_def split: if_splits)

end
