(* ===== verification/AccessControl.thy ===== *)
theory AccessControl
  imports AccessConf
begin

text \<open>
  The handler of the access control module in the preaccess phase,
  \<^verbatim>\<open>src/http/modules/ngx_http_access_control_module.c\<close>: the loop over the limits of the location
  with the checks and the limiter, the release or the accounting of the nodes, and the delay.
\<close>

section \<open>Definitions\<close>

text \<open>
  The handler's loop over the limits of the location, with the number \<open>n\<close> of the limit. \<open>Inl\<close> is
  a status returned from inside the loop.
\<close>

function ac_limits_loop ::
  "slab_alloc \<Rightarrow> ngx_uint_t \<Rightarrow> nat \<Rightarrow> ac_limit list \<Rightarrow> ac_request \<Rightarrow> ngx_rc \<Rightarrow> ngx_uint_t \<Rightarrow> ngx_uint_t
   \<Rightarrow> (ac_request \<times> ac_limit list \<times> (ngx_int_t + ngx_rc \<times> nat \<times> ngx_uint_t \<times> ngx_uint_t)) option" where
  "ac_limits_loop alloc now n limits r rc excess maxtps =
     (if n \<ge> length limits then Some (r, limits, Inr (rc, n, excess, maxtps))
      else let limit = limits ! n; ctx = al_ctx limit in
           case ac_authorize r (ctx_tables ctx) of
             None \<Rightarrow> None
           | Some (r, Inl status) \<Rightarrow> Some (r, limits, Inl status)
           | Some (r, Inr (hash, hashkey, maxtps)) \<Rightarrow>
               (case ngx_http_access_control_lookup alloc now (al_burst limit) ctx (ucast hash) hashkey
                       (n = length limits - 1) maxtps of
                  None \<Rightarrow> None
                | Some (rc, excess, ctx) \<Rightarrow>
                    let limits = limits[n := limit\<lparr>al_ctx := ctx\<rparr>] in
                    if rc \<noteq> NGX_AGAIN then Some (r, limits, Inr (rc, n, excess, maxtps))
                    else ac_limits_loop alloc now (n + 1) limits r rc excess maxtps))"
  by pat_completeness auto
termination by (relation "measure (\<lambda>(alloc, now, n, limits, r, rc, excess, maxtps). length limits - n)") auto

declare ac_limits_loop.simps [simp del]

text \<open>The counts taken by the limits before the one that refused are given back.\<close>

definition ac_release :: "ac_limit \<Rightarrow> ac_limit" where
  "ac_release limit =
     (let ctx = al_ctx limit; sh = ctx_sh ctx in
      case ctx_node ctx of
        None \<Rightarrow> limit
      | Some p \<Rightarrow>
          let lr = sh_nodes sh p
          in limit\<lparr>al_ctx := ctx\<lparr>ctx_sh := sh\<lparr>sh_nodes := (sh_nodes sh)(p := lr\<lparr>an_count := an_count lr - 1\<rparr>)\<rparr>, ctx_node := None\<rparr>\<rparr>)"

text \<open>
  The outcome of the handler: a return code or a status, and with \<open>NGX_AGAIN\<close> the delay of the
  timer that was added. \<open>read_event\<close> is the result of \<open>ngx_handle_read_event\<close>.
\<close>

datatype ac_outcome = Declined | Status ngx_int_t | Delayed ngx_uint_t

definition ngx_http_access_control_handler ::
  "slab_alloc \<Rightarrow> ngx_uint_t \<Rightarrow> ngx_rc \<Rightarrow> ac_conf \<Rightarrow> ac_request \<Rightarrow> (ac_outcome \<times> ac_request \<times> ac_limit list) option" where
  "ngx_http_access_control_handler alloc now read_event lrcf r =
     (if access_control_set r then Some (Declined, r, limit_list lrcf)
      else case ac_limits_loop alloc now 0 (limit_list lrcf) r NGX_DECLINED 0 0 of
             None \<Rightarrow> None
           | Some (r, limits, Inl status) \<Rightarrow> Some (Status status, r, limits)
           | Some (r, limits, Inr (rc, n, excess, maxtps)) \<Rightarrow>
               if rc = NGX_DECLINED then Some (Declined, r, limits)
               else let r = r\<lparr>access_control_set := True\<rparr> in
                    if rc = NGX_BUSY \<or> rc = NGX_ERROR
                    then Some (Status (status_code lrcf), r, map ac_release (take n limits) @ drop n limits)
                    else let excess = (if rc = NGX_AGAIN then 0 else excess);
                             nodelay = al_nodelay (limits ! (if n < length limits then n else n - 1));
                             (delay, excess, limits) = ngx_http_access_control_account now maxtps limits n excess nodelay
                         in if delay = 0 then Some (Declined, r, limits)
                            else if read_event \<noteq> NGX_OK then Some (Status NGX_HTTP_INTERNAL_SERVER_ERROR, r, limits)
                            else Some (Delayed delay, r, limits))"

text \<open>
  \<open>ngx_http_access_control_delay\<close>, run when the connection becomes writable: the finalisation with
  an error, waiting on, or the phases of the request going on. The arguments are the timer's
  flag and the results of the two event functions.
\<close>

datatype ac_delay_step = Finalize ngx_int_t | Keep_waiting | Run_phases

definition ngx_http_access_control_delay :: "bool \<Rightarrow> ngx_rc \<Rightarrow> ngx_rc \<Rightarrow> ac_delay_step" where
  "ngx_http_access_control_delay timedout write_event read_event =
     (if \<not> timedout then if write_event \<noteq> NGX_OK then Finalize NGX_HTTP_INTERNAL_SERVER_ERROR else Keep_waiting
      else if read_event \<noteq> NGX_OK then Finalize NGX_HTTP_INTERNAL_SERVER_ERROR
      else Run_phases)"

section \<open>The counts of the nodes\<close>

text \<open>
  The counts of a zone against those it had before the request: every node that is left has
  its count, one that was entered has 0, and the node that the context holds has one more.
\<close>

definition counts_ok :: "ac_ctx \<Rightarrow> ac_ctx \<Rightarrow> bool" where
  "counts_ok ctx0 ctx \<longleftrightarrow> ctx_tables ctx = ctx_tables ctx0 \<and>
     (\<forall>p\<in>set (inorder (sh_rbtree (ctx_sh ctx))). an_count (sh_nodes (ctx_sh ctx) p) =
        (if p \<in> set (inorder (sh_rbtree (ctx_sh ctx0))) then an_count (sh_nodes (ctx_sh ctx0) p) else 0)
        + (if ctx_node ctx = Some p then 1 else 0))"

definition zone_ok :: "slab_alloc \<Rightarrow> ac_ctx \<Rightarrow> bool" where
  "zone_ok alloc ctx \<longleftrightarrow> (\<exists>xs. zone (ctx_sh ctx) xs) \<and> fresh_alloc alloc (sh_queue (ctx_sh ctx))"

lemma counts_refl: "ctx_node ctx = None \<Longrightarrow> counts_ok ctx ctx"
  by (simp add: counts_ok_def)

lemma found_counts:
  assumes "ac_found now burst ctx p account maxtps = (rc, ep, ctx')" and "ctx_node ctx = None"
  shows "counts_ok ctx ctx' \<and> (rc \<noteq> NGX_AGAIN \<longrightarrow> ctx_node ctx' = None) \<and> (rc = NGX_AGAIN \<longrightarrow> \<not> account) \<and> (rc = NGX_OK \<longrightarrow> account)"
  using assms by (auto simp: ac_found_def Let_def counts_ok_def split: if_splits)

lemma enter_counts:
  assumes "ac_enter now (ctx\<lparr>ctx_sh := sh\<rparr>) p hash data account = Some (rc, ep, ctx')" and "ctx_node ctx = None"
    and "zone_step (ctx_sh ctx) xs sh ys" and "zone (ctx_sh ctx) xs" and "sh_nodes sh = sh_nodes (ctx_sh ctx)" and "set ys \<subseteq> set xs"
    and "p \<notin> set ys" and "zone (ctx_sh ctx') (p # ys)"
  shows "counts_ok ctx ctx' \<and> (rc \<noteq> NGX_AGAIN \<longrightarrow> ctx_node ctx' = None) \<and> (rc = NGX_AGAIN \<longrightarrow> \<not> account) \<and> (rc = NGX_OK \<longrightarrow> account)"
proof -
  have new: "set (inorder (sh_rbtree (ctx_sh ctx'))) = insert p (set ys)" using assms(8) by (simp add: zone_def)
  have old: "set (inorder (sh_rbtree (ctx_sh ctx))) = set xs" using assms(4) by (simp add: zone_def)
  have p: "p \<in> set xs \<longrightarrow> an_count (sh_nodes (ctx_sh ctx) p) = 0" using assms(3,7) by (auto simp: zone_step_def)
  have "ctx_tables ctx' = ctx_tables ctx" "\<forall>q\<in>set ys. sh_nodes (ctx_sh ctx') q = sh_nodes (ctx_sh ctx) q"
    "an_count (sh_nodes (ctx_sh ctx') p) = (if account then 0 else 1)" "ctx_node ctx' = (if account then None else Some p)"
    "rc = (if account then NGX_OK else NGX_AGAIN)"
    using assms(1,2,5,7) by (auto simp: ac_enter_def Let_def split: option.splits if_splits)
  then show ?thesis using p assms(6,7) unfolding counts_ok_def new old by (auto split: if_splits)
qed

lemma lookup_counts:
  assumes "zone_ok alloc ctx" and "ctx_node ctx = None"
  shows "\<exists>rc ep ctx'. ngx_http_access_control_lookup alloc now burst ctx hash data account maxtps = Some (rc, ep, ctx')
    \<and> zone_ok alloc ctx' \<and> counts_ok ctx ctx' \<and> (rc \<noteq> NGX_AGAIN \<longrightarrow> ctx_node ctx' = None)
    \<and> (rc = NGX_AGAIN \<longrightarrow> \<not> account) \<and> (rc = NGX_OK \<longrightarrow> account) \<and> rc \<in> {NGX_OK, NGX_AGAIN, NGX_BUSY, NGX_ERROR}"
proof -
  obtain xs where z: "zone (ctx_sh ctx) xs" and f: "fresh_alloc alloc (sh_queue (ctx_sh ctx))" using assms(1) by (auto simp: zone_ok_def)
  show ?thesis
  proof (cases "ac_search (sh_nodes (ctx_sh ctx)) hash data (sh_rbtree (ctx_sh ctx))")
    case (Some p)
    obtain rc ep ctx' where r: "ac_found now burst ctx p account maxtps = (rc, ep, ctx')" by (metis prod_cases3)
    have "p \<in> set xs" using ac_search_cases [OF z, of hash data] Some by simp
    then have "zone_ok alloc ctx'" using found_step [OF z _ r] f by (auto simp: zone_step_def zone_ok_def)
    moreover have "rc \<in> {NGX_OK, NGX_AGAIN, NGX_BUSY, NGX_ERROR}" using r by (auto simp: ac_found_def Let_def split: if_splits)
    ultimately show ?thesis using found_counts [OF r assms(2)] r Some by (auto simp: ngx_http_access_control_lookup_def)
  next
    case None
    show ?thesis
    proof (rule lookup_new [OF z f None refl, of now burst account maxtps])
      fix sh ys p
      assume s: "zone_step (ctx_sh ctx) xs sh ys" "set ys \<subseteq> set xs" "sh_nodes sh = sh_nodes (ctx_sh ctx)" and p: "p \<notin> set ys" "p \<noteq> sh_queue sh"
        and L: "ngx_http_access_control_lookup alloc now burst ctx hash data account maxtps = ac_enter now (ctx\<lparr>ctx_sh := sh\<rparr>) p hash data account"
      obtain ctx' where e: "ac_enter now (ctx\<lparr>ctx_sh := sh\<rparr>) p hash data account = Some (if account then NGX_OK else NGX_AGAIN, 0, ctx')"
        "zone (ctx_sh ctx') (p # ys)" "sh_queue (ctx_sh ctx') = sh_queue sh"
        using enter_step [of "ctx\<lparr>ctx_sh := sh\<rparr>" ys p now hash data account] s p by (auto simp: zone_step_def)
      have "zone_ok alloc ctx'" using e s f by (auto simp: zone_ok_def zone_step_def)
      then show ?thesis using enter_counts [OF e(1) assms(2) s(1) z s(3,2) p(1) e(2)] e(1) L by (auto split: if_splits)
    next
      fix sh ys
      assume s: "zone_step (ctx_sh ctx) xs sh ys" "set ys \<subseteq> set xs" "sh_nodes sh = sh_nodes (ctx_sh ctx)"
        and L: "ngx_http_access_control_lookup alloc now burst ctx hash data account maxtps = Some (NGX_ERROR, 0, ctx\<lparr>ctx_sh := sh\<rparr>)"
      have "zone_ok alloc (ctx\<lparr>ctx_sh := sh\<rparr>)" using s f by (auto simp: zone_ok_def zone_step_def)
      moreover have "counts_ok ctx (ctx\<lparr>ctx_sh := sh\<rparr>)" using s z assms(2) by (auto simp: counts_ok_def zone_step_def zone_def)
      ultimately show ?thesis using L assms(2) by auto
    qed
  qed
qed

text \<open>Giving the count back, at the end of the limiter or when a limit refuses.\<close>

lemma give_back:
  assumes "zone_ok alloc ctx" and "counts_ok ctx0 ctx" and "ctx_node ctx = Some p"
    and "lr = sh_nodes (ctx_sh ctx) p" and "an_key lr' = an_key lr" and "an_str lr' = an_str lr" and "an_count lr' = an_count lr - 1"
    and "ctx' = ctx\<lparr>ctx_sh := (ctx_sh ctx)\<lparr>sh_nodes := (sh_nodes (ctx_sh ctx))(p := lr')\<rparr>, ctx_node := None\<rparr>"
  shows "zone_ok alloc ctx' \<and> counts_ok ctx0 ctx'"
proof -
  obtain xs where "zone (ctx_sh ctx) xs" "fresh_alloc alloc (sh_queue (ctx_sh ctx))" using assms(1) by (auto simp: zone_ok_def)
  moreover from this have "zone ((ctx_sh ctx)\<lparr>sh_nodes := (sh_nodes (ctx_sh ctx))(p := lr')\<rparr>) xs"
    by (intro zone_update) (use assms(4-6) in \<open>auto simp: ac_key_def\<close>)
  ultimately have "zone_ok alloc ctx'" by (auto simp: zone_ok_def assms(8))
  moreover have "counts_ok ctx0 ctx'" using assms(2-4,7) by (auto simp: counts_ok_def assms(8))
  ultimately show ?thesis by simp
qed

lemma release_ok:
  assumes "zone_ok alloc (al_ctx l)" and "counts_ok ctx0 (al_ctx l)"
  shows "zone_ok alloc (al_ctx (ac_release l)) \<and> counts_ok ctx0 (al_ctx (ac_release l)) \<and> ctx_node (al_ctx (ac_release l)) = None"
proof (cases "ctx_node (al_ctx l)")
  case (Some p)
  then show ?thesis using give_back [OF assms Some refl _ _ _ refl, of "(sh_nodes (ctx_sh (al_ctx l)) p)\<lparr>an_count := an_count (sh_nodes (ctx_sh (al_ctx l)) p) - 1\<rparr>"]
    by (simp add: ac_release_def Let_def an_str_def)
qed (use assms in \<open>simp add: ac_release_def\<close>)

lemma charge_ok:
  assumes "zone_ok alloc ctx" and "counts_ok ctx0 ctx" and "ctx_node ctx = Some p" and "ac_charge now maxtps ctx p = (e, ctx')"
  shows "zone_ok alloc ctx' \<and> counts_ok ctx0 ctx' \<and> ctx_node ctx' = None"
proof -
  have "ctx' = ctx\<lparr>ctx_sh := (ctx_sh ctx)\<lparr>sh_nodes := (sh_nodes (ctx_sh ctx))(p := (sh_nodes (ctx_sh ctx) p)\<lparr>an_last := now, an_excess := e,
      an_count := an_count (sh_nodes (ctx_sh ctx) p) - 1\<rparr>)\<rparr>, ctx_node := None\<rparr>"
    using assms(4) by (auto simp: ac_charge_def Let_def)
  then show ?thesis using give_back [OF assms(1-3) refl _ _ _ \<open>ctx' = _\<close>] by (simp add: an_str_def)
qed

definition limit_kept :: "slab_alloc \<Rightarrow> ac_limit \<Rightarrow> ac_limit \<Rightarrow> bool" where
  "limit_kept alloc l0 l \<longleftrightarrow> zone_ok alloc (al_ctx l) \<and> counts_ok (al_ctx l0) (al_ctx l)"

abbreviation idle :: "ac_limit \<Rightarrow> bool" where
  "idle l \<equiv> ctx_node (al_ctx l) = None"

lemma account_loop_ok:
  "list_all2 (limit_kept alloc) ls0 ls \<Longrightarrow> ac_account_loop now maxtps ls d e = (d', e', ls') \<Longrightarrow>
     list_all2 (limit_kept alloc) ls0 ls' \<and> list_all idle ls'"
proof (induction ls arbitrary: ls0 d e ls')
  case (Cons l ls)
  obtain l0 ls0' where ls0: "ls0 = l0 # ls0'" "limit_kept alloc l0 l" "list_all2 (limit_kept alloc) ls0' ls" using Cons.prems(1) by (auto simp: list_all2_Cons2)
  show ?case
  proof (cases "ctx_node (al_ctx l)")
    case None
    then show ?thesis using Cons.IH [OF ls0(3)] Cons.prems(2) ls0 by (auto split: prod.splits)
  next
    case (Some p)
    obtain ex ctx where c: "ac_charge now maxtps (al_ctx l) p = (ex, ctx)" by fastforce
    have "limit_kept alloc l0 (l\<lparr>al_ctx := ctx\<rparr>) \<and> ctx_node ctx = None"
      using charge_ok [OF _ _ Some c, of alloc "al_ctx l0"] ls0(2) by (simp add: limit_kept_def)
    then show ?thesis using Cons.IH [OF ls0(3)] Cons.prems(2) ls0 Some c by (auto simp: Let_def split: prod.splits if_splits)
  qed
qed simp


section \<open>The handler\<close>

text \<open>The checks write only what is logged, and do not read it.\<close>

definition same_request :: "ac_request \<Rightarrow> ac_request \<Rightarrow> bool" where
  "same_request r r' \<longleftrightarrow> r' = r\<lparr>request_sid := request_sid r', request_key := request_key r', rq_finalized := rq_finalized r'\<rparr>"

lemma same_request_sel:
  assumes "same_request r r'"
  shows "rq_mem r' = rq_mem r" "rq_method r' = rq_method r" "rq_uri_data r' = rq_uri_data r" "rq_uri_len r' = rq_uri_len r"
    "rq_uri_start r' = rq_uri_start r" "rq_uri_end r' = rq_uri_end r" "rq_body r' = rq_body r" "rq_behind_hashkey r' = rq_behind_hashkey r"
    "access_control_set r' = access_control_set r"
  by (subst assms [unfolded same_request_def], simp)+

lemma same_request_trans: "same_request a b \<Longrightarrow> same_request b c \<Longrightarrow> same_request a c"
  by (cases a, cases b, cases c) (simp add: same_request_def)

lemma check_params_same: "ac_check_params r ctx ulen start stop = Some (r', out) \<Longrightarrow> same_request r r'"
  by (auto simp: ac_check_params_def same_request_def Let_def split: param_splits)

lemma check_params_snd:
  assumes "same_request r r'"
  shows "map_option snd (ac_check_params r' ctx ulen start stop) = map_option snd (ac_check_params r ctx ulen start stop)"
  by (simp add: ac_check_params_def Let_def same_request_sel [OF assms] split: param_splits)


lemma params_of_same: "ac_request_params r ctx = Some (r1, y) \<Longrightarrow> same_request r r1"
proof -
  have "same_request r r1" if "same_request (r\<lparr>rq_finalized := f\<rparr>) r1" for f
    using that by (cases r, cases r1) (simp add: same_request_def)
  moreover have "same_request r r" by (simp add: same_request_def)
  ultimately show "ac_request_params r ctx = Some (r1, y) \<Longrightarrow> same_request r r1"
    by (auto simp: ac_request_params_def ac_post_def ac_get_def Let_def same_request_def dest!: check_params_same split: param_splits)
qed

lemma params_of_snd:
  assumes "same_request r r'"
  shows "map_option snd (ac_request_params r' ctx) = map_option snd (ac_request_params r ctx)"
proof -
  have "same_request (r\<lparr>rq_finalized := a\<rparr>) (r'\<lparr>rq_finalized := b\<rparr>)" for a b
    using assms by (cases r, cases r') (simp add: same_request_def)
  then have "map_option snd (ac_post r' ctx) = map_option snd (ac_post r ctx)"
    by (simp add: ac_post_def Let_def check_params_snd same_request_sel [OF assms] split: param_splits)
  moreover have "map_option snd (ac_get r' ctx) = map_option snd (ac_get r ctx)"
    by (simp add: ac_get_def check_params_snd [OF assms] same_request_sel [OF assms] split: param_splits)
  ultimately show ?thesis by (simp add: ac_request_params_def same_request_sel [OF assms])
qed

lemma authorize_snd:
  assumes "same_request r r'"
  shows "map_option snd (ac_authorize r' ctx) = map_option snd (ac_authorize r ctx)"
proof (cases "ac_request_params r ctx")
  case None
  then have "ac_request_params r' ctx = None" using params_of_snd [OF assms, of ctx] by simp
  then show ?thesis using None by (simp add: ac_authorize_def same_request_sel [OF assms])
next
  case (Some a)
  then obtain r1 y where 1: "ac_request_params r ctx = Some (r1, y)" by (cases a) auto
  then obtain r2 where 2: "ac_request_params r' ctx = Some (r2, y)" using params_of_snd [OF assms, of ctx] by auto
  have eq: "rq_mem r2 = rq_mem r1" "rq_behind_hashkey r2 = rq_behind_hashkey r1"
    using same_request_sel [OF params_of_same [OF 1]] same_request_sel [OF params_of_same [OF 2]] same_request_sel [OF assms] by simp_all
  show ?thesis
    unfolding ac_authorize_def 1 2 Let_def
    by (simp add: same_request_sel [OF assms] eq split: param_splits)
qed


lemma authorize_same: "ac_authorize r ctx = Some (r', out) \<Longrightarrow> same_request r r'"
proof -
  have "same_request r r" by (simp add: same_request_def)
  then show "ac_authorize r ctx = Some (r', out) \<Longrightarrow> same_request r r'"
    by (auto simp: ac_authorize_def Let_def dest: params_of_same split: param_splits)
qed

text \<open>A limit whose tables let a request pass.\<close>

definition passes :: "ac_request \<Rightarrow> ac_limit \<Rightarrow> bool" where
  "passes r l \<longleftrightarrow> (\<exists>hash hashkey maxtps. map_option snd (ac_authorize r (ctx_tables (al_ctx l))) = Some (Inr (hash, hashkey, maxtps)))"

text \<open>
  The loop: all limits keep their zones and counts, those from the one that ended it on hold no
  count, and unless one refused the request has passed the checks of all that were left.
\<close>

lemma limits_loop_ok:
  assumes "ac_limits_loop alloc now n limits r rc e m = Some (r', limits', Inr (rc', n', e', m'))"
    and "list_all2 (limit_kept alloc) ls0 limits" and "drop n limits = drop n ls0" and "list_all idle (drop n limits)" and "n \<le> length limits"
  shows "list_all2 (limit_kept alloc) ls0 limits' \<and> list_all idle (drop n' limits') \<and> n' \<le> length limits' \<and> same_request r r'
    \<and> (n < length limits \<and> rc' \<notin> {NGX_BUSY, NGX_ERROR} \<longrightarrow> list_all (passes r) (drop n limits))
    \<and> (n < length limits \<longrightarrow> rc' \<noteq> NGX_DECLINED)"
  using assms
proof (induction alloc now n limits r rc e m rule: ac_limits_loop.induct)
  case (1 alloc now n limits r rc e m)
  show ?case
  proof (cases "n < length limits")
    case False
    then show ?thesis using 1(2-6) by (auto simp: ac_limits_loop.simps same_request_def)
  next
    case True
    let ?l = "limits ! n"
    have len: "length ls0 = length limits" using 1(3) by (rule list_all2_lengthD)
    have "drop n limits = ?l # drop (n + 1) limits" "drop n ls0 = ls0 ! n # drop (n + 1) ls0" using True len by (simp_all add: Cons_nth_drop_Suc)
    then have l: "ls0 ! n = ?l" "idle ?l" "list_all idle (drop (n + 1) limits)" "drop (n + 1) limits = drop (n + 1) ls0" and split: "drop n limits = ?l # drop (n + 1) limits"
      using 1(4,5) by auto
    have "zone_ok alloc (al_ctx ?l)" using 1(3) True by (auto simp: list_all2_conv_all_nth limit_kept_def)
    obtain r1 hash key mt where a: "ac_authorize r (ctx_tables (al_ctx ?l)) = Some (r1, Inr (hash, key, mt))"
      using 1(2) True by (auto simp: ac_limits_loop.simps [of alloc now n] Let_def split: param_splits)
    obtain rc1 ep ctx1 where k: "ngx_http_access_control_lookup alloc now (al_burst ?l) (al_ctx ?l) (ucast hash) key (n = length limits - 1) mt = Some (rc1, ep, ctx1)"
      and c: "zone_ok alloc ctx1" "counts_ok (al_ctx ?l) ctx1" "rc1 \<noteq> NGX_AGAIN \<longrightarrow> ctx_node ctx1 = None"
      "rc1 = NGX_AGAIN \<longrightarrow> n \<noteq> length limits - 1" "rc1 = NGX_OK \<longrightarrow> n = length limits - 1" "rc1 \<in> {NGX_OK, NGX_AGAIN, NGX_BUSY, NGX_ERROR}"
      using lookup_counts [OF \<open>zone_ok alloc (al_ctx ?l)\<close> l(2), of now "al_burst ?l" "ucast hash" key "n = length limits - 1" mt]
      by (elim exE conjE) (rule that)
    let ?ls = "limits[n := ?l\<lparr>al_ctx := ctx1\<rparr>]"
    have kept: "list_all2 (limit_kept alloc) ls0 ?ls"
      using 1(3) c(1,2) True l(1) by (auto simp: list_all2_conv_all_nth nth_list_update limit_kept_def)
    have p: "passes r ?l" using a by (simp add: passes_def)
    have same: "same_request r r1" using authorize_same [OF a] .
    show ?thesis
    proof (cases "rc1 = NGX_AGAIN")
      case again: True
      have loop: "ac_limits_loop alloc now (n + 1) ?ls r1 rc1 ep mt = Some (r', limits', Inr (rc', n', e', m'))"
        using 1(2) True a k again by (simp add: ac_limits_loop.simps [of alloc now n] Let_def)
      have "passes r1 = passes r" by (auto simp: passes_def authorize_snd [OF same])
      moreover have "n + 1 < length limits" using again c(4) True by linarith
      ultimately show ?thesis
        using 1(1) [OF _ refl refl a refl refl refl refl k refl refl refl _ loop kept] True again l p split same_request_trans [OF same] by simp
    next
      case False
      then have res: "limits' = ?ls" "n' = n" "rc' = rc1" "r' = r1"
        using 1(2) True a k by (auto simp: ac_limits_loop.simps [of alloc now n] Let_def)
      have "drop n ?ls = ?l\<lparr>al_ctx := ctx1\<rparr> # drop (n + 1) limits" using True by (simp add: Cons_nth_drop_Suc [symmetric])
      moreover have "rc1 \<notin> {NGX_BUSY, NGX_ERROR} \<longrightarrow> drop n limits = [?l]" using c(5,6) False split True by auto
      ultimately show ?thesis using kept l c p same False True unfolding res by auto
    qed
  qed
qed


lemma account_ok:
  assumes "list_all2 (limit_kept alloc) ls0 ls" and "list_all idle (drop n ls)"
    and "ngx_http_access_control_account now maxtps ls n ep nodelay = (d, e, ls')"
  shows "list_all2 (limit_kept alloc) ls0 ls' \<and> list_all idle ls'"
proof -
  obtain d0 e1 ls1 where a: "ac_account_loop now maxtps (rev (take n ls)) d0 ep = (d, e1, ls1)" and ls': "ls' = rev ls1 @ drop n ls"
    using assms(3) by (auto simp: ngx_http_access_control_account_def Let_def split: prod.splits)
  have "list_all2 (limit_kept alloc) (rev (take n ls0)) (rev (take n ls))" using assms(1) by (simp add: list_all2_takeI)
  from account_loop_ok [OF this a] have "list_all2 (limit_kept alloc) (take n ls0) (rev ls1)" "list_all idle (rev ls1)" by (auto simp: list_all2_rev1 list_all_iff)
  then show ?thesis using list_all2_appendI [of "limit_kept alloc" "take n ls0" "rev ls1" "drop n ls0" "drop n ls"] assms(1,2)
    by (simp add: ls' list_all2_dropI)
qed

lemma release_limits:
  assumes "list_all2 (limit_kept alloc) ls0 ls" and "list_all idle (drop n ls)"
  shows "list_all2 (limit_kept alloc) ls0 (map ac_release (take n ls) @ drop n ls) \<and> list_all idle (map ac_release (take n ls) @ drop n ls)"
proof -
  have r: "limit_kept alloc l0 (ac_release l)" if "limit_kept alloc l0 l" for l0 l
    using release_ok [of alloc l "al_ctx l0"] that by (simp add: limit_kept_def)
  have "idle (ac_release l)" for l by (simp add: ac_release_def Let_def split: option.splits)
  then have i: "list_all idle (map ac_release (take n ls))" by (simp add: list_all_iff)
  have "list_all2 (limit_kept alloc) (take n ls0) (take n ls)" using assms(1) by (rule list_all2_takeI)
  then have "list_all2 (limit_kept alloc) (take n ls0) (map ac_release (take n ls))"
    unfolding list_all2_map2 by (rule list_all2_mono) (rule r)
  then show ?thesis using i list_all2_appendI [of "limit_kept alloc" "take n ls0" _ "drop n ls0" "drop n ls"] assms
    by (simp add: list_all2_dropI)
qed

lemma limits_loop_same:
  "ac_limits_loop alloc now n limits r rc e m = Some (r', limits', out) \<Longrightarrow> access_control_set r' = access_control_set r"
proof (induction alloc now n limits r rc e m rule: ac_limits_loop.induct)
  case (1 alloc now n limits r rc e m)
  show ?case
  proof (cases "n < length limits")
    case False
    then show ?thesis using 1(2) by (simp add: ac_limits_loop.simps)
  next
    case True
    then obtain r1 y where a: "ac_authorize r (ctx_tables (al_ctx (limits ! n))) = Some (r1, y)"
      using 1(2) by (auto simp: ac_limits_loop.simps [of alloc now n] Let_def split: option.splits)
    then have sel: "access_control_set r1 = access_control_set r" by (rule same_request_sel(9) [OF authorize_same])
    note step = 1(2) [unfolded ac_limits_loop.simps [of alloc now n] Let_def a option.case prod.case]
    show ?thesis
    proof (cases y)
      case (Inr v)
      obtain hash key mt where v: "v = (hash, key, mt)" by (cases v)
      obtain rc1 ep ctx1 where k: "ngx_http_access_control_lookup alloc now (al_burst (limits ! n)) (al_ctx (limits ! n)) (ucast hash) key (n = length limits - 1) mt = Some (rc1, ep, ctx1)"
        using step True Inr v by (auto split: option.splits)
      show ?thesis
      proof (cases "rc1 = NGX_AGAIN")
        case again: True
        show ?thesis using 1(1) [OF _ refl refl a refl Inr [unfolded v] refl refl k refl refl refl] step True Inr v k again sel by simp
      qed (use step True Inr v k sel in auto)
    qed (use step True sel in auto)
  qed
qed

text \<open>What the handler does behind the loop.\<close>

lemma handler_cases:
  assumes "ngx_http_access_control_handler alloc now read_event lrcf r = Some (out, r', limits')" and "\<not> access_control_set r"
    and "\<forall>l\<in>set (limit_list lrcf). zone_ok alloc (al_ctx l) \<and> idle l"
  obtains (status) status where "out = Status status" "\<not> access_control_set r'"
    | (none) "limit_list lrcf = []" "out = Declined"
    | (limited) "list_all2 (limit_kept alloc) (limit_list lrcf) limits'" "list_all idle limits'" "access_control_set r'"
        "(\<forall>status. out \<noteq> Status status) \<longrightarrow> list_all (passes r) (limit_list lrcf)"
proof -
  let ?ls = "limit_list lrcf"
  obtain r1 ls res where loop: "ac_limits_loop alloc now 0 ?ls r NGX_DECLINED 0 0 = Some (r1, ls, res)"
    using assms(1,2) by (auto simp: ngx_http_access_control_handler_def split: option.splits)
  note handler = assms(1) [unfolded ngx_http_access_control_handler_def loop]
  show ?thesis
  proof (cases res)
    case (Inl st)
    then show ?thesis using handler assms(2) limits_loop_same [OF loop] status [of st] by simp
  next
    case (Inr v)
    obtain rc n e m where v: "v = (rc, n, e, m)" by (cases v)
    have "list_all2 (limit_kept alloc) ?ls ?ls" using assms(3) by (auto simp: list_all2_same limit_kept_def counts_refl)
    then have k: "list_all2 (limit_kept alloc) ?ls ls" "list_all idle (drop n ls)" "n \<le> length ls"
      "?ls \<noteq> [] \<and> rc \<notin> {NGX_BUSY, NGX_ERROR} \<longrightarrow> list_all (passes r) ?ls" "?ls \<noteq> [] \<longrightarrow> rc \<noteq> NGX_DECLINED"
      using limits_loop_ok [OF loop [unfolded Inr v], of ?ls] assms(3) by (auto simp: list_all_iff)
    show ?thesis
    proof (cases "?ls = []")
      case True
      then have "rc = NGX_DECLINED" using loop Inr v by (simp add: ac_limits_loop.simps)
      then show ?thesis using none True handler assms(2) Inr v by simp
    next
      case False
      show ?thesis
      proof (cases "rc = NGX_BUSY \<or> rc = NGX_ERROR")
        case True
        then have "out = Status (status_code lrcf)" "limits' = map ac_release (take n ls) @ drop n ls" "access_control_set r'"
          using handler assms(2) Inr v False k(5) by auto
        then show ?thesis using limited release_limits [OF k(1,2)] by simp
      next
        case ok: False
        define e0 where "e0 = (if rc = NGX_AGAIN then 0 else e)"
        define nd where "nd = al_nodelay (ls ! (if n < length ls then n else n - 1))"
        obtain d e2 ls2 where a: "ngx_http_access_control_account now m ls n e0 nd = (d, e2, ls2)" by (metis prod_cases3)
        then have "limits' = ls2" "access_control_set r'"
          using handler assms(2) Inr v False k(5) ok by (auto simp: e0_def nd_def Let_def split: if_splits)
        then show ?thesis using limited account_ok [OF k(1,2) a] k(4) ok False by simp
      qed
    qed
  qed
qed

text \<open>
  C5. The limiter gives back what it takes: when the handler has gone through the limits, in
  any outcome, every zone is in order, no context holds a node any more, and every node of a
  zone has the count it had before; a node that was entered has none.
\<close>

theorem access_counts_balanced:
  assumes "ngx_http_access_control_handler alloc now read_event lrcf r = Some (out, r', limits')"
    and "\<forall>l\<in>set (limit_list lrcf). zone_ok alloc (al_ctx l) \<and> ctx_node (al_ctx l) = None"
    and "\<not> access_control_set r" and "access_control_set r'"
  shows "list_all2 (limit_kept alloc) (limit_list lrcf) limits' \<and> list_all (\<lambda>l. ctx_node (al_ctx l) = None) limits'"
  using assms(1,3,2)
proof (cases rule: handler_cases)
  case none
  then show ?thesis using assms by (auto simp: ngx_http_access_control_handler_def ac_limits_loop.simps)
qed (use assms(4) in simp_all)

text \<open>
  C4. The handler is closed by default: a request that it lets go on, at once or after a delay,
  has passed the checks of every limit of the location; only a request that was limited before,
  as after an internal redirect, or a location without limits goes on unchecked.
\<close>

theorem access_handler_checked:
  assumes "ngx_http_access_control_handler alloc now read_event lrcf r = Some (out, r', limits')"
    and "\<forall>l\<in>set (limit_list lrcf). zone_ok alloc (al_ctx l) \<and> ctx_node (al_ctx l) = None"
    and "\<not> access_control_set r" and "\<forall>status. out \<noteq> Status status"
  shows "list_all (passes r) (limit_list lrcf)"
  using assms(1,3,2) by (cases rule: handler_cases) (use assms(4) in simp_all)


text \<open>A location with the limits of the tables given, each with a zone of one node.\<close>

definition ex_conf :: "ac_tables list \<Rightarrow> ac_conf" where
  "ex_conf tables = \<lparr>limit_list = map (\<lambda>t. \<lparr>al_burst = 1, al_nodelay = False, al_ctx = ac_example\<lparr>ctx_tables := t\<rparr>\<rparr>) tables,
     limit_log_level = 4, delay_log_level = 5, status_code = 503\<rparr>"

lemma ex_conf_ok: "\<forall>l\<in>set (limit_list (ex_conf tables)). zone_ok first_free (al_ctx l) \<and> ctx_node (al_ctx l) = None"
  using ac_example_zone first_free_fresh by (auto simp: ex_conf_def zone_ok_def ac_example_def)

definition zone_counts :: "ac_limit \<Rightarrow> ngx_uint_t list" where
  "zone_counts l = map (\<lambda>p. an_count (sh_nodes (ctx_sh (al_ctx l)) p)) (inorder (sh_rbtree (ctx_sh (al_ctx l))))"

lemma ex_conf_run:
  "map_option (\<lambda>(out, r', ls). (out, access_control_set r')) (ngx_http_access_control_handler first_free 6000 NGX_OK (ex_conf [two_tables]) get_b)
     = Some (Declined, True)"
  by code_simp

lemma ex_conf_run2: "\<exists>r' ls. ngx_http_access_control_handler first_free 6000 NGX_OK (ex_conf [two_tables]) get_b = Some (Declined, r', ls) \<and> access_control_set r'"
  using ex_conf_run by (auto simp: map_option_case split: option.splits prod.splits)

theorem access_counts_balanced_witness:
  "\<exists>r' ls. ngx_http_access_control_handler first_free 6000 NGX_OK (ex_conf [two_tables]) get_b = Some (Declined, r', ls)
     \<and> list_all2 (limit_kept first_free) (limit_list (ex_conf [two_tables])) ls"
proof -
  obtain r' ls where run: "ngx_http_access_control_handler first_free 6000 NGX_OK (ex_conf [two_tables]) get_b = Some (Declined, r', ls)" "access_control_set r'"
    using ex_conf_run2 by blast
  have "\<not> access_control_set get_b" by code_simp
  then show ?thesis using access_counts_balanced [OF run(1) ex_conf_ok _ run(2)] run(1) by blast
qed

theorem access_handler_checked_witness:
  "list_all (passes get_b) (limit_list (ex_conf [two_tables]))"
proof -
  obtain r' ls where run: "ngx_http_access_control_handler first_free 6000 NGX_OK (ex_conf [two_tables]) get_b = Some (Declined, r', ls)"
    using ex_conf_run2 by blast
  have "\<not> access_control_set get_b" by code_simp
  then show ?thesis using access_handler_checked [OF run ex_conf_ok] by simp
qed

text \<open>
  A return from inside the loop gives nothing back: with a second limit whose tables refuse the
  request, the node that the first limit counted keeps its count, so it is never expired.
\<close>

lemma access_count_leak:
  "map_option (\<lambda>(out, r', ls). (out, map zone_counts ls))
     (ngx_http_access_control_handler first_free 6000 NGX_OK (ex_conf [two_tables, no_tables]) get_b)
   = Some (Status NGX_HTTP_BAD_REQUEST, [[0, 1], [0]])"
  by code_simp

end
