(* ===== verification/HttpUpstream.thy ===== *)
theory HttpUpstream
  imports NgxSort
begin

text \<open>
  The choice of upstream servers, \<^verbatim>\<open>src/http/ngx_http_upstream_round_robin.c\<close>: the peers made from
  the configuration, the weighted round robin, its tries for one request over the main and the
  backup servers, and the bookkeeping of failures. The groups of peers (the main one, then its
  \<^verbatim>\<open>next\<close>) are a list, and a request holds the number of its group. Weights, counts and
  times are 64-bit words as in the code, compared as signed or unsigned numbers by their C types; sums of weights wrap,
  and the theorem on fairness has the bound under which they do not. The clock, the resolver and the allocator are
  arguments.
\<close>

unbundle bit_operations_syntax

section \<open>Definitions\<close>

text \<open>
  \<open>ngx_http_upstream_rr_peer_t\<close> and \<open>ngx_http_upstream_rr_peers_t\<close>. A socket address is the one
  the resolver gave (a number stands for its bytes) or one made of a resolved IPv4 address and
  a port; the names of the peers are only logged.
\<close>

type_synonym time_t = "64 word"

datatype sockaddr = Sockaddr nat | Sockaddr_in "32 word" "16 word" | Sockaddr_null

record rr_peer =
  pr_sockaddr :: sockaddr
  current_weight :: ngx_int_t
  effective_weight :: ngx_int_t
  pr_weight :: ngx_int_t
  fails :: ngx_uint_t
  accessed :: time_t
  checked :: time_t
  max_fails :: ngx_uint_t
  fail_timeout :: time_t
  down :: bool

record rr_peers =
  rr_peer_array :: "rr_peer list"
  last_cached :: nat
  cached_conns :: "nat \<Rightarrow> nat"
  rr_single :: bool
  rr_weighted :: bool
  total_weight :: ngx_uint_t

text \<open>\<open>ngx_http_upstream_rr_peer_data_t\<close> of a request, and its \<open>ngx_peer_connection_t\<close>.\<close>

record rr_data =
  rrp_peers :: nat
  rrp_current :: nat
  rrp_tried :: "ngx_uint_t list"

record peer_connection =
  pc_connection :: "nat option"
  pc_sockaddr :: "sockaddr option"
  pc_tries :: nat
  pc_cached :: bool

text \<open>The bit of a peer in the bitmap of those that were tried.\<close>

definition tried_test :: "ngx_uint_t list \<Rightarrow> nat \<Rightarrow> bool" where
  "tried_test tried i \<longleftrightarrow> tried ! (i div 64) AND push_bit (i mod 64) 1 \<noteq> 0"

definition tried_mark :: "nat \<Rightarrow> ngx_uint_t list \<Rightarrow> ngx_uint_t list" where
  "tried_mark i tried = tried[i div 64 := tried ! (i div 64) OR push_bit (i mod 64) 1]"

text \<open>A peer that the loop passes over.\<close>

definition rr_skip :: "time_t \<Rightarrow> ngx_uint_t list \<Rightarrow> nat \<Rightarrow> rr_peer \<Rightarrow> bool" where
  "rr_skip now tried i peer \<longleftrightarrow>
     tried_test tried i \<or> down peer
     \<or> max_fails peer \<noteq> 0 \<and> fails peer \<ge> max_fails peer \<and> now - checked peer \<le>s fail_timeout peer"

text \<open>The loop: the peers from number \<open>i\<close> on, the best so far with its weight, and the total weight.\<close>

fun get_peer_loop ::
  "time_t \<Rightarrow> ngx_uint_t list \<Rightarrow> nat \<Rightarrow> rr_peer list \<Rightarrow> (nat \<times> ngx_int_t) option \<Rightarrow> ngx_int_t
   \<Rightarrow> rr_peer list \<times> (nat \<times> ngx_int_t) option \<times> ngx_int_t" where
  "get_peer_loop now tried i [] best tw = ([], best, tw)"
| "get_peer_loop now tried i (peer # peers) best tw =
     (if rr_skip now tried i peer
      then let (ps, best, tw) = get_peer_loop now tried (i + 1) peers best tw in (peer # ps, best, tw)
      else let cw = current_weight peer + effective_weight peer;
               tw = tw + effective_weight peer;
               peer = peer\<lparr>current_weight := cw,
                 effective_weight := (if effective_weight peer <s pr_weight peer then effective_weight peer + 1
                                      else effective_weight peer)\<rparr>;
               best = (case best of
                         None \<Rightarrow> Some (i, cw)
                       | Some (j, b) \<Rightarrow> if b <s cw then Some (i, cw) else Some (j, b));
               (ps, best, tw) = get_peer_loop now tried (i + 1) peers best tw
           in (peer # ps, best, tw))"

definition ngx_http_upstream_get_peer ::
  "time_t \<Rightarrow> rr_peer list \<Rightarrow> rr_data \<Rightarrow> nat option \<times> rr_peer list \<times> rr_data" where
  "ngx_http_upstream_get_peer now peers rrp =
     (case get_peer_loop now (rrp_tried rrp) 0 peers None 0 of
        (peers, None, tw) \<Rightarrow> (None, peers, rrp)
      | (peers, Some (i, _), tw) \<Rightarrow>
          let best = peers ! i
          in (Some i, peers[i := best\<lparr>current_weight := current_weight best - tw, checked := now\<rparr>],
              rrp\<lparr>rrp_current := i, rrp_tried := tried_mark i (rrp_tried rrp)\<rparr>))"

text \<open>The words of the bitmap that a group of peers takes.\<close>

definition tried_words :: "nat \<Rightarrow> nat" where
  "tried_words number = (number + (64 - 1)) div 64"

function ngx_http_upstream_get_round_robin_peer ::
  "time_t \<Rightarrow> rr_peers list \<Rightarrow> rr_data \<Rightarrow> peer_connection \<Rightarrow> ngx_rc \<times> rr_peers list \<times> rr_data \<times> peer_connection" where
  "ngx_http_upstream_get_round_robin_peer now groups rrp pc =
     (let k = rrp_peers rrp; peers = groups ! k in
      if k \<ge> length groups then (NGX_BUSY, groups, rrp, pc)
      else if last_cached peers \<noteq> 0
      then (NGX_OK, groups[k := peers\<lparr>last_cached := last_cached peers - 1\<rparr>], rrp,
            pc\<lparr>pc_connection := Some (cached_conns peers (last_cached peers)), pc_cached := True\<rparr>)
      else let pc = pc\<lparr>pc_cached := False, pc_connection := None\<rparr>;
               (found, ps, rrp') =
                 (if rr_single peers
                  then (if down (rr_peer_array peers ! 0) then None else Some 0, rr_peer_array peers, rrp)
                  else ngx_http_upstream_get_peer now (rr_peer_array peers) rrp);
               groups = groups[k := peers\<lparr>rr_peer_array := ps\<rparr>]
           in case found of
                Some i \<Rightarrow>
                  let pc = pc\<lparr>pc_sockaddr := Some (pr_sockaddr (ps ! i))\<rparr>;
                      pc = (if pc_tries pc = 1 \<and> k + 1 < length groups
                            then pc\<lparr>pc_tries := pc_tries pc + length (rr_peer_array (groups ! (k + 1)))\<rparr> else pc)
                  in (NGX_OK, groups, rrp', pc)
              | None \<Rightarrow>
                  let (rc, groups, rrp', pc) =
                        (if k + 1 < length groups
                         then let number = length (rr_peer_array (groups ! (k + 1)));
                                  n = tried_words number
                              in ngx_http_upstream_get_round_robin_peer now groups
                                   (rrp'\<lparr>rrp_peers := k + 1, rrp_tried := replicate n 0 @ drop n (rrp_tried rrp')\<rparr>)
                                   (pc\<lparr>pc_tries := number\<rparr>)
                         else (NGX_BUSY, groups, rrp', pc))
                  in if rc \<noteq> NGX_BUSY then (rc, groups, rrp', pc)
                     else (NGX_BUSY,
                           groups[k := (groups ! k)\<lparr>rr_peer_array := map (\<lambda>p. p\<lparr>fails := 0\<rparr>) (rr_peer_array (groups ! k))\<rparr>], rrp', pc))"
  by pat_completeness auto
termination by (relation "measure (\<lambda>(now, groups, rrp, pc). length groups - rrp_peers rrp)") (auto simp: ngx_http_upstream_get_peer_def Let_def split: prod.splits option.splits if_splits)

declare ngx_http_upstream_get_round_robin_peer.simps [simp del]

text \<open>\<open>ngx_http_upstream_free_round_robin_peer\<close>; \<open>failed\<close> is the bit \<open>NGX_PEER_FAILED\<close> of the state. The
  weight, a signed number, is divided by an unsigned one, so the division is unsigned.\<close>

definition rr_failed :: "time_t \<Rightarrow> rr_peer \<Rightarrow> rr_peer" where
  "rr_failed now peer =
     (let ew = (if max_fails peer \<noteq> 0 then effective_weight peer - pr_weight peer div max_fails peer
                else effective_weight peer)
      in peer\<lparr>fails := fails peer + 1, accessed := now, checked := now, effective_weight := (if ew <s 0 then 0 else ew)\<rparr>)"

definition rr_passed :: "rr_peer \<Rightarrow> rr_peer" where
  "rr_passed peer = (if accessed peer <s checked peer then peer\<lparr>fails := 0\<rparr> else peer)"

definition ngx_http_upstream_free_round_robin_peer ::
  "time_t \<Rightarrow> bool \<Rightarrow> rr_peers list \<Rightarrow> rr_data \<Rightarrow> peer_connection \<Rightarrow> rr_peers list \<times> peer_connection" where
  "ngx_http_upstream_free_round_robin_peer now failed groups rrp pc =
     (let k = rrp_peers rrp; peers = groups ! k; i = rrp_current rrp in
      if rr_single peers then (groups, pc\<lparr>pc_tries := 0\<rparr>)
      else let peer = (if failed then rr_failed now (rr_peer_array peers ! i) else rr_passed (rr_peer_array peers ! i))
           in (groups[k := peers\<lparr>rr_peer_array := (rr_peer_array peers)[i := peer]\<rparr>],
               if pc_tries pc \<noteq> 0 then pc\<lparr>pc_tries := pc_tries pc - 1\<rparr> else pc))"

text \<open>The start of a request.\<close>

definition ngx_http_upstream_init_round_robin_peer :: "rr_peers list \<Rightarrow> rr_data \<times> nat" where
  "ngx_http_upstream_init_round_robin_peer groups =
     (let number = length (rr_peer_array (groups ! 0));
          n = (if 1 < length groups \<and> length (rr_peer_array (groups ! 1)) > number then length (rr_peer_array (groups ! 1)) else number);
          tried = (if n \<le> 64 then [0] else replicate (tried_words n) 0)
      in (\<lparr>rrp_peers = 0, rrp_current = 0, rrp_tried = tried\<rparr>, number))"

text \<open>A peer in its first state, and the one of a server that was only resolved.\<close>

definition zero_peer :: rr_peer where
  "zero_peer = \<lparr>pr_sockaddr = Sockaddr_null, current_weight = 0, effective_weight = 0, pr_weight = 0, fails = 0,
     accessed = 0, checked = 0, max_fails = 0, fail_timeout = 0, down = False\<rparr>"

definition default_peer :: "sockaddr \<Rightarrow> rr_peer" where
  "default_peer addr =
     zero_peer\<lparr>pr_sockaddr := addr, pr_weight := 1, effective_weight := 1, max_fails := 1, fail_timeout := 10\<rparr>"

definition zero_peers :: rr_peers where
  "zero_peers = \<lparr>rr_peer_array = [], last_cached = 0, cached_conns = (\<lambda>_. 0), rr_single = False,
     rr_weighted = False, total_weight = 0\<rparr>"

text \<open>The peers of an upstream whose addresses were resolved for the request.\<close>

record upstream_resolved =
  ur_naddrs :: nat
  ur_addrs :: "32 word list"
  ur_port :: "16 word"
  ur_sockaddr :: "sockaddr option"

definition ngx_http_upstream_create_round_robin_peer :: "upstream_resolved \<Rightarrow> rr_peers \<times> rr_data \<times> nat" where
  "ngx_http_upstream_create_round_robin_peer ur =
     (let number = ur_naddrs ur;
          peers = zero_peers\<lparr>rr_single := (number = 1),
            rr_peer_array :=
              (case ur_sockaddr ur of
                 Some addr \<Rightarrow> (replicate number zero_peer)[0 := default_peer addr]
               | None \<Rightarrow> map (\<lambda>i. default_peer (Sockaddr_in (ur_addrs ur ! i) (ur_port ur))) [0..<number])\<rparr>;
          tried = (if number \<le> 64 then [0] else replicate (tried_words number) 0)
      in (peers, \<lparr>rrp_peers = 0, rrp_current = 0, rrp_tried = tried\<rparr>, number))"

section \<open>Configuration\<close>

record upstream_server =
  us_addrs :: "sockaddr list"
  us_weight :: ngx_uint_t
  us_max_fails :: ngx_uint_t
  us_fail_timeout :: time_t
  us_down :: bool
  us_backup :: bool

text \<open>What \<open>ngx_http_upstream_srv_conf_t\<close> says of an upstream.\<close>

record upstream_conf =
  us_servers :: "upstream_server list option"
  us_host :: bytes
  us_port :: "16 word"
  us_default_port :: "16 word"

definition ngx_http_upstream_cmp_servers :: "rr_peer \<Rightarrow> rr_peer \<Rightarrow> ngx_int_t" where
  "ngx_http_upstream_cmp_servers one two = (if pr_weight one <s pr_weight two then 1 else 0)"

definition server_peers :: "upstream_server \<Rightarrow> rr_peer list" where
  "server_peers server =
     map (\<lambda>addr. zero_peer\<lparr>pr_sockaddr := addr, max_fails := us_max_fails server,
                  fail_timeout := us_fail_timeout server, down := us_down server,
                  pr_weight := us_weight server, effective_weight := us_weight server,
                  current_weight := 0\<rparr>)
         (us_addrs server)"

text \<open>The peers of the main servers or of the backup servers; \<open>allocated\<close> is that \<open>ngx_sort\<close> got its temporary.\<close>

definition make_peers :: "bool \<Rightarrow> upstream_server list \<Rightarrow> rr_peers" where
  "make_peers allocated servers =
     (let n = (\<Sum>s\<leftarrow>servers. length (us_addrs s));
          w = (\<Sum>s\<leftarrow>servers. of_nat (length (us_addrs s)) * us_weight s)
      in zero_peers\<lparr>rr_single := (n = 1), rr_weighted := (w \<noteq> of_nat n), total_weight := w,
           rr_peer_array := ngx_sort allocated ngx_http_upstream_cmp_servers (concat (map server_peers servers))\<rparr>)"

text \<open>
  \<open>ngx_http_upstream_init_round_robin\<close>. An upstream without a block of servers takes the addresses
  of its host: \<open>resolve\<close> is \<open>ngx_inet_resolve_host\<close>, \<open>None\<close> its failure.
\<close>

definition ngx_http_upstream_init_round_robin ::
  "(bytes \<Rightarrow> 16 word \<Rightarrow> sockaddr list option) \<Rightarrow> bool \<Rightarrow> upstream_conf \<Rightarrow> rr_peers list option" where
  "ngx_http_upstream_init_round_robin resolve allocated us =
     (case us_servers us of
        Some servers \<Rightarrow>
          (let main = filter (\<lambda>s. \<not> us_backup s) servers; backup = filter us_backup servers in
           if (\<Sum>s\<leftarrow>main. length (us_addrs s)) = 0 then None
           else if (\<Sum>s\<leftarrow>backup. length (us_addrs s)) = 0 then Some [make_peers allocated main]
           else Some [(make_peers allocated main)\<lparr>rr_single := False\<rparr>,
                      (make_peers allocated backup)\<lparr>rr_single := False\<rparr>])
      | None \<Rightarrow>
          (if us_port us = 0 \<and> us_default_port us = 0 then None
           else case resolve (us_host us) (if us_port us \<noteq> 0 then us_port us else us_default_port us) of
                  None \<Rightarrow> None
                | Some addrs \<Rightarrow>
                    Some [zero_peers\<lparr>rr_single := (length addrs = 1), rr_weighted := False,
                            total_weight := of_nat (length addrs), rr_peer_array := map default_peer addrs\<rparr>]))"

section \<open>A request and its retries\<close>

abbreviation "NGX_HTTP_UPSTREAM_FT_ERROR \<equiv> 0x00000002 :: ngx_uint_t"
abbreviation "NGX_HTTP_UPSTREAM_FT_TIMEOUT \<equiv> 0x00000004 :: ngx_uint_t"
abbreviation "NGX_HTTP_UPSTREAM_FT_HTTP_500 \<equiv> 0x00000010 :: ngx_uint_t"
abbreviation "NGX_HTTP_UPSTREAM_FT_HTTP_404 \<equiv> 0x00000100 :: ngx_uint_t"
abbreviation "NGX_HTTP_UPSTREAM_FT_NOLIVE \<equiv> 0x40000000 :: ngx_uint_t"

text \<open>
  \<open>ngx_http_upstream_next\<close> without the cache: the peer is given back, and the request is finalized
  with a status (\<open>Some\<close>) or connects to another peer (\<open>None\<close>). \<open>error\<close> is the error bit of the
  client's connection, \<open>next_upstream\<close> the mask of the configuration.
\<close>

definition ngx_http_upstream_next ::
  "ngx_uint_t \<Rightarrow> time_t \<Rightarrow> bool \<Rightarrow> ngx_uint_t \<Rightarrow> rr_peers list \<Rightarrow> rr_data \<Rightarrow> peer_connection
   \<Rightarrow> nat option \<times> rr_peers list \<times> peer_connection" where
  "ngx_http_upstream_next next_upstream now error ft_type groups rrp pc =
     (let (groups, pc) =
            (if pc_sockaddr pc \<noteq> None
             then let (groups, pc) = ngx_http_upstream_free_round_robin_peer now
                        (ft_type \<noteq> NGX_HTTP_UPSTREAM_FT_HTTP_404) groups rrp pc
                  in (groups, pc\<lparr>pc_sockaddr := None\<rparr>)
             else (groups, pc));
          cached = (pc_cached pc \<and> ft_type = NGX_HTTP_UPSTREAM_FT_ERROR);
          status = (if ft_type = NGX_HTTP_UPSTREAM_FT_TIMEOUT then 504
                    else if ft_type = NGX_HTTP_UPSTREAM_FT_HTTP_500 then 500
                    else if ft_type = NGX_HTTP_UPSTREAM_FT_HTTP_404 then 404 else 502);
          pc = (if cached then pc\<lparr>pc_tries := pc_tries pc + 1\<rparr> else pc)
      in if error then (Some 499, groups, pc)
         else if \<not> cached \<and> (pc_tries pc = 0 \<or> next_upstream AND ft_type = 0) then (Some status, groups, pc)
         else (None, groups, pc\<lparr>pc_connection := None\<rparr>))"

text \<open>
  The attempts of one request, from \<open>ngx_http_upstream_connect\<close> on. Each takes an event: the time, the
  error bit of the client's connection, and how the connection to the peer ended (\<open>None\<close> for a
  response that was served, otherwise the failure). The result lists the peers that were tried, with their
  groups.
\<close>

type_synonym upstream_event = "time_t \<times> bool \<times> ngx_uint_t option"

fun upstream_attempts ::
  "ngx_uint_t \<Rightarrow> upstream_event list \<Rightarrow> rr_peers list \<Rightarrow> rr_data \<Rightarrow> peer_connection
   \<Rightarrow> (nat \<times> nat) list \<times> rr_peers list" where
  "upstream_attempts nu [] groups rrp pc = ([], groups)"
| "upstream_attempts nu ((now, error, outcome) # evs) groups rrp pc =
     (let (rc, groups, rrp, pc) = ngx_http_upstream_get_round_robin_peer now groups rrp pc;
          tried = (if rc = NGX_OK then [(rrp_peers rrp, rrp_current rrp)] else []);
          ended = (if rc = NGX_OK then outcome else Some NGX_HTTP_UPSTREAM_FT_NOLIVE)
      in case ended of
           None \<Rightarrow> (tried, fst (ngx_http_upstream_free_round_robin_peer now False groups rrp pc))
         | Some ft_type \<Rightarrow>
             (case ngx_http_upstream_next nu now error ft_type groups rrp pc of
                (Some status, groups, pc) \<Rightarrow> (tried, groups)
              | (None, groups, pc) \<Rightarrow>
                  let (picks, groups) = upstream_attempts nu evs groups rrp pc in (tried @ picks, groups)))"

definition upstream_request :: "ngx_uint_t \<Rightarrow> upstream_event list \<Rightarrow> rr_peers list \<Rightarrow> (nat \<times> nat) list \<times> rr_peers list" where
  "upstream_request nu evs groups =
     (let (rrp, tries) = ngx_http_upstream_init_round_robin_peer groups
      in upstream_attempts nu evs groups rrp
           \<lparr>pc_connection = None, pc_sockaddr = None, pc_tries = tries, pc_cached = False\<rparr>)"

text \<open>The requests that a worker serves one after another.\<close>

fun upstream_requests :: "ngx_uint_t \<Rightarrow> upstream_event list list \<Rightarrow> rr_peers list \<Rightarrow> (nat \<times> nat) list list \<times> rr_peers list" where
  "upstream_requests nu [] groups = ([], groups)"
| "upstream_requests nu (evs # reqs) groups =
     (let (picks, groups) = upstream_request nu evs groups; (rest, groups) = upstream_requests nu reqs groups
      in (picks # rest, groups))"

section \<open>The choice of one peer\<close>

text \<open>What the loop does to a peer it considers.\<close>

definition charged :: "rr_peer \<Rightarrow> rr_peer" where
  "charged p = p\<lparr>current_weight := current_weight p + effective_weight p,
     effective_weight := (if effective_weight p <s pr_weight p then effective_weight p + 1 else effective_weight p)\<rparr>"

definition visit :: "time_t \<Rightarrow> ngx_uint_t list \<Rightarrow> nat \<Rightarrow> rr_peer \<Rightarrow> rr_peer" where
  "visit now tried i p = (if rr_skip now tried i p then p else charged p)"

definition load :: "time_t \<Rightarrow> ngx_uint_t list \<Rightarrow> nat \<Rightarrow> rr_peer \<Rightarrow> ngx_int_t" where
  "load now tried i p = (if rr_skip now tried i p then 0 else effective_weight p)"

lemma charged_sel [simp]:
  "current_weight (charged p) = current_weight p + effective_weight p"
  "pr_weight (charged p) = pr_weight p" "pr_sockaddr (charged p) = pr_sockaddr p"
  "max_fails (charged p) = max_fails p" "fails (charged p) = fails p" "down (charged p) = down p"
  "checked (charged p) = checked p" "accessed (charged p) = accessed p" "fail_timeout (charged p) = fail_timeout p"
  "effective_weight (charged p) = (if effective_weight p <s pr_weight p then effective_weight p + 1 else effective_weight p)"
  by (simp_all add: charged_def)

lemma visit_sel [simp]:
  "current_weight (visit now tried i p) = current_weight p + load now tried i p"
  "pr_weight (visit now tried i p) = pr_weight p" "pr_sockaddr (visit now tried i p) = pr_sockaddr p"
  "max_fails (visit now tried i p) = max_fails p" "fails (visit now tried i p) = fails p"
  "down (visit now tried i p) = down p" "accessed (visit now tried i p) = accessed p"
  by (simp_all add: visit_def load_def)

definition better :: "time_t \<Rightarrow> ngx_uint_t list \<Rightarrow> nat \<Rightarrow> rr_peer \<Rightarrow> (nat \<times> ngx_int_t) option \<Rightarrow> (nat \<times> ngx_int_t) option" where
  "better now tried i p best =
     (if rr_skip now tried i p then best
      else case best of
             None \<Rightarrow> Some (i, current_weight p + effective_weight p)
           | Some (j, b) \<Rightarrow>
               if b <s current_weight p + effective_weight p then Some (i, current_weight p + effective_weight p)
               else Some (j, b))"

lemma get_peer_loop_Cons:
  "get_peer_loop now tried i (peer # peers) best tw =
     (case get_peer_loop now tried (Suc i) peers (better now tried i peer best) (tw + load now tried i peer) of
        (ps, r) \<Rightarrow> (visit now tried i peer # ps, r))"
  by (simp add: visit_def load_def better_def charged_def Let_def split: prod.split)

lemma get_peer_loop_peers:
  "get_peer_loop now tried i peers best tw = (ps, best', tw') \<Longrightarrow>
   length ps = length peers \<and> (\<forall>j<length peers. ps ! j = visit now tried (i + j) (peers ! j))
   \<and> tw' = tw + (\<Sum>j<length peers. load now tried (i + j) (peers ! j))"
proof (induction peers arbitrary: i best tw ps best' tw')
  case (Cons peer peers)
  obtain ps2 where r: "get_peer_loop now tried (Suc i) peers (better now tried i peer best) (tw + load now tried i peer)
      = (ps2, best', tw')" and ps: "ps = visit now tried i peer # ps2"
    using Cons.prems by (auto simp: get_peer_loop_Cons simp del: get_peer_loop.simps split: prod.splits)
  show ?case using Cons.IH [OF r]
    by (simp add: ps All_less_Suc2 sum.lessThan_Suc_shift del: sum.lessThan_Suc)
qed simp

text \<open>The best peer is one of those considered, and none of them has a larger weight.\<close>

lemma get_peer_loop_best:
  "get_peer_loop now tried i peers best tw = (ps, best', tw') \<Longrightarrow>
   (\<forall>j<length peers. \<not> rr_skip now tried (i + j) (peers ! j)
      \<longrightarrow> (\<exists>k b. best' = Some (k, b) \<and> current_weight (peers ! j) + effective_weight (peers ! j) \<le>s b))
   \<and> (\<forall>k b. best = Some (k, b) \<longrightarrow> (\<exists>k' b'. best' = Some (k', b') \<and> b \<le>s b'))
   \<and> (\<forall>k b. best' = Some (k, b) \<longrightarrow> best = Some (k, b)
      \<or> (\<exists>j<length peers. k = i + j \<and> \<not> rr_skip now tried (i + j) (peers ! j)
           \<and> b = current_weight (peers ! j) + effective_weight (peers ! j)))"
  (is "_ \<Longrightarrow> ?all i peers best' \<and> ?old best best' \<and> ?new i peers best best'")
proof (induction peers arbitrary: i best tw ps best' tw')
  case (Cons peer peers)
  let ?cw = "current_weight peer + effective_weight peer" and ?b = "better now tried i peer best"
  obtain ps2 where "get_peer_loop now tried (Suc i) peers ?b (tw + load now tried i peer) = (ps2, best', tw')"
    using Cons.prems by (auto simp: get_peer_loop_Cons simp del: get_peer_loop.simps split: prod.splits)
  then have IH: "?all (Suc i) peers best'" "?old ?b best'" "?new (Suc i) peers ?b best'"
    using Cons.IH by blast+
  have 1: "\<not> rr_skip now tried i peer \<Longrightarrow> \<exists>k b. ?b = Some (k, b) \<and> ?cw \<le>s b"
    by (auto simp: better_def signed.not_less split: option.splits prod.splits)
  have 2: "\<exists>k' b'. ?b = Some (k', b') \<and> b \<le>s b'" if "best = Some (k, b)" for k b
    using that by (auto simp: better_def signed.less_imp_le)
  have 3: "?b = best \<or> ?b = Some (i, ?cw) \<and> \<not> rr_skip now tried i peer"
    by (auto simp: better_def split: option.splits prod.splits)
  have "\<exists>k b. best' = Some (k, b) \<and> ?cw \<le>s b" if ns: "\<not> rr_skip now tried i peer"
  proof -
    obtain k b where kb: "?b = Some (k, b)" "?cw \<le>s b" using 1 [OF ns] by blast
    then obtain k' b' where "best' = Some (k', b')" "b \<le>s b'" using IH(2) by blast
    then show ?thesis using signed.order_trans [OF kb(2)] by blast
  qed
  then have "?all i (peer # peers) best'"
    using IH(1) by (simp add: All_less_Suc2)
  moreover have "?old best best'"
  proof (intro allI impI)
    fix k b assume "best = Some (k, b)"
    then obtain k1 b1 where kb: "?b = Some (k1, b1)" "b \<le>s b1" using 2 by blast
    then obtain k' b' where "best' = Some (k', b')" "b1 \<le>s b'" using IH(2) by blast
    then show "\<exists>k' b'. best' = Some (k', b') \<and> b \<le>s b'" using signed.order_trans [OF kb(2)] by blast
  qed
  moreover have "?new i (peer # peers) best best'"
  proof (intro allI impI)
    fix k b assume "best' = Some (k, b)"
    then consider "?b = Some (k, b)" | j where "j < length peers" "k = Suc i + j" "\<not> rr_skip now tried (Suc i + j) (peers ! j)"
        "b = current_weight (peers ! j) + effective_weight (peers ! j)"
      using IH(3) by blast
    then show "best = Some (k, b) \<or> (\<exists>j<length (peer # peers). k = i + j \<and> \<not> rr_skip now tried (i + j) ((peer # peers) ! j)
           \<and> b = current_weight ((peer # peers) ! j) + effective_weight ((peer # peers) ! j))"
    proof cases
      case 1
      then show ?thesis using 3 by auto
    next
      case (2 j)
      then show ?thesis by (intro disjI2 exI [of _ "Suc j"]) simp
    qed
  qed
  ultimately show ?case by blast
qed simp

abbreviation (input) eligible :: "time_t \<Rightarrow> rr_data \<Rightarrow> rr_peer list \<Rightarrow> nat \<Rightarrow> bool" where
  "eligible now rrp peers i \<equiv> \<not> rr_skip now (rrp_tried rrp) i (peers ! i)"

definition all_load :: "time_t \<Rightarrow> ngx_uint_t list \<Rightarrow> rr_peer list \<Rightarrow> ngx_int_t" where
  "all_load now tried peers = (\<Sum>j<length peers. load now tried j (peers ! j))"

lemma get_peer_None:
  assumes "ngx_http_upstream_get_peer now peers rrp = (None, ps, rrp')"
  shows "ps = peers \<and> rrp' = rrp \<and> (\<forall>j<length peers. \<not> eligible now rrp peers j)"
proof -
  obtain tw' where r: "get_peer_loop now (rrp_tried rrp) 0 peers None 0 = (ps, None, tw')" and "rrp' = rrp"
    using assms by (auto simp: ngx_http_upstream_get_peer_def Let_def split: prod.splits option.splits)
  have skip: "\<forall>j<length peers. \<not> eligible now rrp peers j" using get_peer_loop_best [OF r] by auto
  then have "ps = peers"
    using get_peer_loop_peers [OF r] by (intro nth_equalityI) (simp_all add: visit_def)
  with skip \<open>rrp' = rrp\<close> show ?thesis by blast
qed

lemma get_peer_Some:
  assumes "ngx_http_upstream_get_peer now peers rrp = (Some i, ps, rrp')"
  shows "i < length peers \<and> eligible now rrp peers i \<and> length ps = length peers
    \<and> (\<forall>j<length peers. eligible now rrp peers j
         \<longrightarrow> current_weight (peers ! j) + effective_weight (peers ! j)
             \<le>s current_weight (peers ! i) + effective_weight (peers ! i))
    \<and> ps ! i = (charged (peers ! i))\<lparr>current_weight := current_weight (peers ! i) + effective_weight (peers ! i)
                     - all_load now (rrp_tried rrp) peers, checked := now\<rparr>
    \<and> (\<forall>j<length peers. j \<noteq> i \<longrightarrow> ps ! j = visit now (rrp_tried rrp) j (peers ! j))
    \<and> rrp' = rrp\<lparr>rrp_current := i, rrp_tried := tried_mark i (rrp_tried rrp)\<rparr>"
proof -
  obtain b tw' ps0 where r: "get_peer_loop now (rrp_tried rrp) 0 peers None 0 = (ps0, Some (i, b), tw')"
    and ps: "ps = ps0[i := (ps0 ! i)\<lparr>current_weight := current_weight (ps0 ! i) - tw', checked := now\<rparr>]"
    and "rrp' = rrp\<lparr>rrp_current := i, rrp_tried := tried_mark i (rrp_tried rrp)\<rparr>"
    using assms by (auto simp: ngx_http_upstream_get_peer_def Let_def split: prod.splits option.splits)
  moreover have i: "i < length peers" "eligible now rrp peers i" "b = current_weight (peers ! i) + effective_weight (peers ! i)"
    using get_peer_loop_best [OF r] by auto
  moreover have "\<forall>j<length peers. eligible now rrp peers j \<longrightarrow> current_weight (peers ! j) + effective_weight (peers ! j) \<le>s b"
    using get_peer_loop_best [OF r] by auto
  moreover have "tw' = all_load now (rrp_tried rrp) peers" using get_peer_loop_peers [OF r] by (simp add: all_load_def)
  ultimately show ?thesis
    using get_peer_loop_peers [OF r] by (auto simp: visit_def charged_def)
qed

lemma get_peer_length: "ngx_http_upstream_get_peer now peers rrp = (r, ps, rrp') \<Longrightarrow> length ps = length peers"
  using get_peer_None get_peer_Some by (cases r) blast+

text \<open>The sum of the current weights never changes: what the chosen peer gives up is what the others gained.\<close>

lemma get_peer_sum:
  assumes "ngx_http_upstream_get_peer now peers rrp = (r, ps, rrp')"
  shows "(\<Sum>j<length ps. current_weight (ps ! j)) = (\<Sum>j<length peers. current_weight (peers ! j))"
proof (cases r)
  case None
  then show ?thesis using get_peer_None [of now peers rrp ps rrp'] assms by simp
next
  case (Some i)
  note g = get_peer_Some [OF assms [unfolded Some]]
  let ?l = "\<lambda>j. load now (rrp_tried rrp) j (peers ! j)" and ?n = "length peers"
  have "current_weight (ps ! j) = current_weight (peers ! j) + ?l j - (if j = i then all_load now (rrp_tried rrp) peers else 0)"
    if "j < ?n" for j using g that by (auto simp: load_def)
  then have "(\<Sum>j<?n. current_weight (ps ! j))
      = (\<Sum>j<?n. current_weight (peers ! j) + ?l j - (if j = i then all_load now (rrp_tried rrp) peers else 0))"
    by (intro sum.cong) auto
  also have "\<dots> = (\<Sum>j<?n. current_weight (peers ! j)) + (\<Sum>j<?n. ?l j) - all_load now (rrp_tried rrp) peers"
    using g by (simp add: sum_subtractf sum.distrib)
  finally show ?thesis using g by (simp add: all_load_def)
qed

text \<open>Weights stay in their range: with a configured weight that is not negative, an effective weight is never negative
  and never above it.\<close>

definition peer_ok :: "rr_peer \<Rightarrow> bool" where
  "peer_ok p \<longleftrightarrow> (0 \<le>s pr_weight p \<longrightarrow> 0 \<le>s effective_weight p \<and> effective_weight p \<le>s pr_weight p)"

text \<open>Signed addition and subtraction that stay in 64 bits.\<close>

lemma sint_in_range: "- (2 ^ 63) \<le> k \<Longrightarrow> k < 2 ^ 63 \<Longrightarrow> sint (word_of_int k :: 64 word) = k"
  by (simp add: signed_of_int signed_take_bit_int_eq_self)

lemma sint_plus: "- (2 ^ 63) \<le> sint a + sint b \<Longrightarrow> sint a + sint b < 2 ^ 63 \<Longrightarrow> sint (a + b :: 64 word) = sint a + sint b"
  using sint_in_range [of "sint a + sint b"] by simp

lemma sint_minus: "- (2 ^ 63) \<le> sint a - sint b \<Longrightarrow> sint a - sint b < 2 ^ 63 \<Longrightarrow> sint (a - b :: 64 word) = sint a - sint b"
  using sint_in_range [of "sint a - sint b"] by simp

lemma sint_range: "- (2 ^ 63) \<le> sint (a :: 64 word)" "sint (a :: 64 word) < 2 ^ 63"
  using sint_greater_eq [of a] sint_less [of a] by simp_all

lemma sint_sum:
  fixes f :: "nat \<Rightarrow> 64 word"
  assumes "\<forall>j<n. 0 \<le> sint (f j)" "(\<Sum>j<n. sint (f j)) < 2 ^ 63"
  shows "sint (\<Sum>j<n. f j) = (\<Sum>j<n. sint (f j))"
  using assms
proof (induction n)
  case (Suc n)
  have "0 \<le> (\<Sum>j<n. sint (f j))" using Suc.prems(1) by (intro sum_nonneg) auto
  have "0 \<le> sint (f n)" using Suc.prems(1) by simp
  then have "(\<Sum>j<n. sint (f j)) < 2 ^ 63" using Suc.prems(2) \<open>0 \<le> sint (f n)\<close> by simp
  then have "sint (\<Sum>j<n. f j) = (\<Sum>j<n. sint (f j))" using Suc.IH Suc.prems(1) by simp
  moreover have "- (2 ^ 63) \<le> (\<Sum>j<n. sint (f j)) + sint (f n)"
    using \<open>0 \<le> (\<Sum>j<n. sint (f j))\<close> \<open>0 \<le> sint (f n)\<close> by (intro order_trans [OF _ add_nonneg_nonneg]) simp_all
  ultimately show ?case using Suc.prems(2) sint_plus [of "\<Sum>j<n. f j" "f n"] by simp
qed simp

lemma sless_step:
  fixes a b :: "64 word"
  assumes "a <s b" shows "sint (a + 1) = sint a + 1" "a + 1 \<le>s b" "0 \<le>s a \<Longrightarrow> 0 \<le>s a + 1"
proof -
  show s: "sint (a + 1) = sint a + 1"
    using assms sint_range [of a] sint_range [of b] sint_plus [of a 1] by (simp add: word_sless_alt)
  then show "a + 1 \<le>s b" "0 \<le>s a \<Longrightarrow> 0 \<le>s a + 1" using assms by (simp_all add: word_sless_alt word_sle_eq)
qed

lemma sint_small: "uint (w :: 64 word) < 2 ^ 63 \<Longrightarrow> sint w = uint w"
proof -
  have "- (2 ^ 63) \<le> (0 :: int)" by simp
  also have "0 \<le> uint w" by (rule uint_ge_0)
  finally have "- (2 ^ 63) \<le> uint w" .
  then show "uint w < 2 ^ 63 \<Longrightarrow> sint w = uint w" using sint_in_range [of "uint w"] by simp
qed

text \<open>A weight that is not negative stays so when it is divided as an unsigned number, and does not grow.\<close>

lemma sint_udiv:
  fixes a b :: "64 word"
  assumes "0 \<le>s a" shows "0 \<le> sint (a div b)" "sint (a div b) \<le> sint a"
proof -
  have u: "sint w = int (unat w)" if "unat w < 2 ^ 63" for w :: "64 word"
    using that of_nat_less_iff [of "unat w" "2 ^ 63", where 'a = int] sint_small [of w] by simp
  have "\<not> a <s 0" using assms by (simp add: signed.not_less)
  then have a: "unat a < 2 ^ 63" by (simp add: sless_zero_iff not_le)
  moreover have "unat (a div b) \<le> unat a" by (simp add: unat_div)
  ultimately have "unat (a div b) < 2 ^ 63" by (rule order_le_less_trans [rotated])
  note s = u [OF a] u [OF this]
  show "0 \<le> sint (a div b)" unfolding s by (rule of_nat_0_le_iff)
  show "sint (a div b) \<le> sint a" unfolding s of_nat_le_iff by fact
qed

lemma get_peer_ok:
  assumes "ngx_http_upstream_get_peer now peers rrp = (r, ps, rrp')" "\<forall>p\<in>set peers. peer_ok p"
  shows "\<forall>p\<in>set ps. peer_ok p"
proof (cases r)
  case None
  then show ?thesis using get_peer_None [of now peers rrp ps rrp'] assms by simp
next
  case (Some i)
  note g = get_peer_Some [OF assms(1) [unfolded Some]]
  have "peer_ok (ps ! j)" if "j < length peers" for j
    using g that assms(2) sless_step by (cases "j = i") (auto simp: peer_ok_def visit_def)
  then show ?thesis using g by (metis in_set_conv_nth)
qed

lemma free_peer_ok: "peer_ok p \<Longrightarrow> peer_ok (rr_failed now p) \<and> peer_ok (rr_passed p)"
proof -
  assume p: "peer_ok p"
  let ?d = "pr_weight p div max_fails p"
  have "effective_weight p - ?d \<le>s pr_weight p" if w: "0 \<le>s pr_weight p"
  proof -
    have e: "0 \<le> sint (effective_weight p)" "sint (effective_weight p) \<le> sint (pr_weight p)"
      using p w by (simp_all add: peer_ok_def word_sle_eq)
    then have "sint (effective_weight p - ?d) = sint (effective_weight p) - sint ?d"
      using sint_udiv [OF w, of "max_fails p"] sint_range [of "pr_weight p"] by (intro sint_minus) simp_all
    then show ?thesis using e sint_udiv [OF w, of "max_fails p"] by (simp add: word_sle_eq)
  qed
  then show ?thesis using p by (auto simp: peer_ok_def rr_failed_def rr_passed_def Let_def signed.not_less)
qed

section \<open>The bitmap of the peers tried\<close>

lemma tried_test_bit: "tried_test tried i \<longleftrightarrow> bit (tried ! (i div 64)) (i mod 64)"
  by (simp add: tried_test_def push_bit_eq_mult and_exp_eq_0_iff_not_bit)

lemma tried_test_mark:
  "i div 64 < length tried \<Longrightarrow> tried_test (tried_mark i tried) j \<longleftrightarrow> j = i \<or> tried_test tried j"
proof -
  assume i: "i div 64 < length tried"
  have "j = i \<longleftrightarrow> j div 64 = i div 64 \<and> j mod 64 = i mod 64" by (metis div_mult_mod_eq)
  then show ?thesis
    using i by (cases "j div 64 = i div 64") (auto simp: tried_test_bit tried_mark_def bit_or_iff push_bit_eq_mult bit_exp_iff)
qed

lemma length_tried_mark [simp]: "length (tried_mark i tried) = length tried"
  by (simp add: tried_mark_def)

lemma tried_test_zero: "i < 64 * n \<Longrightarrow> \<not> tried_test (replicate n 0 @ tried) i"
  by (simp add: tried_test_def nth_append less_mult_imp_div_less mult.commute)

lemma tried_words_room: "n \<le> 64 * tried_words n"
  by (simp add: tried_words_def)

lemma tried_words_le: "n \<le> 64 * m \<Longrightarrow> tried_words n \<le> m"
  by (simp add: tried_words_def)

text \<open>There is a bit for every peer of every group, and a group marked as single has one peer and no backup.\<close>

definition groups_ok :: "rr_peers list \<Rightarrow> bool" where
  "groups_ok groups \<longleftrightarrow> groups \<noteq> []
     \<and> (\<forall>g\<in>set groups. last_cached g = 0 \<and> rr_peer_array g \<noteq> [] \<and> (\<forall>p\<in>set (rr_peer_array g). peer_ok p)
          \<and> (rr_single g \<longrightarrow> length groups = 1 \<and> length (rr_peer_array g) = 1))"

definition room :: "rr_peers list \<Rightarrow> rr_data \<Rightarrow> bool" where
  "room groups rrp \<longleftrightarrow> rrp_peers rrp < length groups
     \<and> (\<forall>g\<in>set groups. length (rr_peer_array g) \<le> 64 * length (rrp_tried rrp))"

definition same_shape :: "rr_peers list \<Rightarrow> rr_peers list \<Rightarrow> bool" where
  "same_shape groups groups' \<longleftrightarrow>
     map (\<lambda>g. (length (rr_peer_array g), rr_single g)) groups = map (\<lambda>g. (length (rr_peer_array g), rr_single g)) groups'"

lemma same_shape_refl [simp]: "same_shape g g"
  by (simp add: same_shape_def)

lemma same_shape_trans [trans]: "same_shape a b \<Longrightarrow> same_shape b c \<Longrightarrow> same_shape a c"
  by (simp add: same_shape_def)

lemma same_shape_nth:
  "same_shape a b \<Longrightarrow> length a = length b
     \<and> (\<forall>k<length a. length (rr_peer_array (b ! k)) = length (rr_peer_array (a ! k)) \<and> rr_single (b ! k) = rr_single (a ! k))"
  unfolding same_shape_def by (metis (no_types, lifting) length_map nth_map prod.inject)

lemma room_shape: "same_shape a b \<Longrightarrow> room a rrp \<Longrightarrow> room b rrp"
  using same_shape_nth [of a b] by (fastforce simp: room_def in_set_conv_nth)

lemma groups_ok_update:
  assumes "groups_ok groups" "k < length groups" "length ps = length (rr_peer_array (groups ! k))" "\<forall>p\<in>set ps. peer_ok p"
  shows "groups_ok (groups[k := (groups ! k)\<lparr>rr_peer_array := ps\<rparr>]) \<and> same_shape groups (groups[k := (groups ! k)\<lparr>rr_peer_array := ps\<rparr>])"
proof -
  let ?g = "(groups ! k)\<lparr>rr_peer_array := ps\<rparr>"
  have gk: "groups ! k \<in> set groups" using assms by simp
  have "set (groups[k := ?g]) \<subseteq> insert ?g (set groups)" by (rule set_update_subset_insert)
  then have "groups_ok (groups[k := ?g])"
    using assms bspec [OF conjunct2 [OF assms(1) [unfolded groups_ok_def]] gk]
    by (fastforce simp: groups_ok_def)
  moreover have "same_shape groups (groups[k := ?g])"
    unfolding same_shape_def
    by (rule nth_equalityI) (use assms in \<open>auto simp: nth_list_update\<close>)
  ultimately show ?thesis by blast
qed

section \<open>Getting a peer over the groups\<close>

text \<open>What one group gives, single or not.\<close>

definition group_pick :: "time_t \<Rightarrow> rr_peers \<Rightarrow> rr_data \<Rightarrow> nat option \<times> rr_peer list \<times> rr_data" where
  "group_pick now peers rrp =
     (if rr_single peers then (if down (rr_peer_array peers ! 0) then None else Some 0, rr_peer_array peers, rrp)
      else ngx_http_upstream_get_peer now (rr_peer_array peers) rrp)"

lemma group_pick_shape:
  assumes "group_pick now g rrp = (r, ps, rrp')"
  shows "length ps = length (rr_peer_array g) \<and> rrp_peers rrp' = rrp_peers rrp
    \<and> length (rrp_tried rrp') = length (rrp_tried rrp)
    \<and> ((\<forall>p\<in>set (rr_peer_array g). peer_ok p) \<longrightarrow> (\<forall>p\<in>set ps. peer_ok p)) \<and> (r = None \<longrightarrow> rrp' = rrp \<and> ps = rr_peer_array g)"
proof (cases "rr_single g")
  case False
  then have g: "ngx_http_upstream_get_peer now (rr_peer_array g) rrp = (r, ps, rrp')"
    using assms by (simp add: group_pick_def)
  then show ?thesis
    using get_peer_ok [OF g] get_peer_None [of now "rr_peer_array g" rrp ps rrp'] get_peer_Some [of now "rr_peer_array g" rrp _ ps rrp']
    by (cases r) auto
qed (use assms in \<open>auto simp: group_pick_def\<close>)

text \<open>The step over one group, with the recursive call for the next group left as it is.\<close>

lemma get_round_robin_step:
  assumes ok: "groups_ok groups" and k: "rrp_peers rrp < length groups"
  and pick: "group_pick now (groups ! rrp_peers rrp) rrp = (r, ps, rrp1)"
  shows "ngx_http_upstream_get_round_robin_peer now groups rrp pc =
     (let k = rrp_peers rrp; pc = pc\<lparr>pc_cached := False, pc_connection := None\<rparr>;
          groups = groups[k := (groups ! k)\<lparr>rr_peer_array := ps\<rparr>] in
      case r of
        Some i \<Rightarrow> (NGX_OK, groups, rrp1,
           (let pc = pc\<lparr>pc_sockaddr := Some (pr_sockaddr (ps ! i))\<rparr> in
            if pc_tries pc = 1 \<and> k + 1 < length groups
            then pc\<lparr>pc_tries := pc_tries pc + length (rr_peer_array (groups ! (k + 1)))\<rparr> else pc))
      | None \<Rightarrow>
          let (rc, groups, rrp', pc) =
                (if k + 1 < length groups
                 then let number = length (rr_peer_array (groups ! (k + 1)));
                          n = tried_words number
                      in ngx_http_upstream_get_round_robin_peer now groups
                           (rrp1\<lparr>rrp_peers := k + 1, rrp_tried := replicate n 0 @ drop n (rrp_tried rrp1)\<rparr>)
                           (pc\<lparr>pc_tries := number\<rparr>)
                 else (NGX_BUSY, groups, rrp1, pc))
          in if rc \<noteq> NGX_BUSY then (rc, groups, rrp', pc)
             else (NGX_BUSY,
                   groups[k := (groups ! k)\<lparr>rr_peer_array := map (\<lambda>p. p\<lparr>fails := 0\<rparr>) (rr_peer_array (groups ! k))\<rparr>], rrp', pc))"
proof -
  have "last_cached (groups ! rrp_peers rrp) = 0" using ok k by (auto simp: groups_ok_def)
  then show ?thesis
    using k pick by (subst ngx_http_upstream_get_round_robin_peer.simps) (simp add: group_pick_def [symmetric] Let_def split: option.split)
qed

text \<open>
  What a call gives: the groups keep their shape, the request moves to a later group or stays, the peers marked in its
  group stay marked, and a peer that is given is a live one of its group that was not marked before and is marked now.
\<close>

definition get_post :: "rr_peers list \<Rightarrow> rr_data \<Rightarrow> ngx_rc \<Rightarrow> rr_peers list \<Rightarrow> rr_data \<Rightarrow> peer_connection \<Rightarrow> bool" where
  "get_post groups rrp rc groups' rrp' pc' \<longleftrightarrow>
     groups_ok groups' \<and> same_shape groups groups' \<and> room groups' rrp' \<and> rrp_peers rrp \<le> rrp_peers rrp'
     \<and> \<not> pc_cached pc' \<and> (rc = NGX_OK \<or> rc = NGX_BUSY)
     \<and> (rrp_peers rrp' = rrp_peers rrp \<longrightarrow> (\<forall>j. tried_test (rrp_tried rrp) j \<longrightarrow> tried_test (rrp_tried rrp') j))
     \<and> (rc = NGX_OK \<longrightarrow> pc_sockaddr pc' \<noteq> None
          \<and> rrp_current rrp' < length (rr_peer_array (groups' ! rrp_peers rrp')) \<and> tried_test (rrp_tried rrp') (rrp_current rrp')
          \<and> \<not> down (rr_peer_array (groups' ! rrp_peers rrp') ! rrp_current rrp')
          \<and> (rrp_peers rrp' = rrp_peers rrp \<longrightarrow> \<not> tried_test (rrp_tried rrp) (rrp_current rrp')))"

lemma room_index: "room groups rrp \<Longrightarrow> i < length (rr_peer_array (groups ! rrp_peers rrp)) \<Longrightarrow> i div 64 < length (rrp_tried rrp)"
proof -
  assume r: "room groups rrp" and i: "i < length (rr_peer_array (groups ! rrp_peers rrp))"
  have "length (rr_peer_array (groups ! rrp_peers rrp)) \<le> 64 * length (rrp_tried rrp)" using r by (simp add: room_def)
  then show ?thesis using i by (simp add: less_mult_imp_div_less mult.commute)
qed

lemma fails_reset_ok: "\<forall>p\<in>set ps. peer_ok p \<Longrightarrow> \<forall>p\<in>set (map (\<lambda>p. p\<lparr>fails := 0\<rparr>) ps). peer_ok p"
  by (simp add: peer_ok_def)

lemma groups_ok_nth:
  "groups_ok groups \<Longrightarrow> k < length groups \<Longrightarrow>
   rr_peer_array (groups ! k) \<noteq> [] \<and> (\<forall>p\<in>set (rr_peer_array (groups ! k)). peer_ok p)"
  by (auto simp: groups_ok_def)

lemma get_round_robin_found:
  assumes ok: "groups_ok groups" and rm: "room groups rrp" and ns: "\<not> rr_single (groups ! rrp_peers rrp)"
  and pick: "ngx_http_upstream_get_peer now (rr_peer_array (groups ! rrp_peers rrp)) rrp = (Some i, ps, rrp1)"
  and k: "k = rrp_peers rrp" and s: "pc_sockaddr pc' \<noteq> None" "\<not> pc_cached pc'"
  shows "get_post groups rrp NGX_OK (groups[k := (groups ! k)\<lparr>rr_peer_array := ps\<rparr>]) rrp1 pc'"
proof -
  note g = get_peer_Some [OF pick]
  have kl: "rrp_peers rrp < length groups" using rm by (simp add: room_def)
  have "\<forall>p\<in>set ps. peer_ok p" using get_peer_ok [OF pick] groups_ok_nth [OF ok kl] by blast
  then have u: "groups_ok (groups[k := (groups ! k)\<lparr>rr_peer_array := ps\<rparr>])" 
      "same_shape groups (groups[k := (groups ! k)\<lparr>rr_peer_array := ps\<rparr>])"
    using groups_ok_update [OF ok kl, of ps] g k by simp_all
  have rrp1: "rrp1 = rrp\<lparr>rrp_current := i, rrp_tried := tried_mark i (rrp_tried rrp)\<rparr>" and i: "i < length (rr_peer_array (groups ! k))"
    and e: "eligible now rrp (rr_peer_array (groups ! k)) i" and len: "length ps = length (rr_peer_array (groups ! k))"
    using g k by blast+
  have "down (ps ! i) = down (rr_peer_array (groups ! k) ! i)" using g k by simp
  then have "\<not> down (ps ! i)" "\<not> tried_test (rrp_tried rrp) i" using e by (simp_all add: rr_skip_def)
  moreover have "room (groups[k := (groups ! k)\<lparr>rr_peer_array := ps\<rparr>]) rrp1"
    using room_shape [OF u(2) rm] by (simp add: room_def rrp1)
  ultimately show ?thesis
    using u s i len kl k tried_test_mark [of i "rrp_tried rrp"] room_index [OF rm, of i] by (simp add: get_post_def rrp1)
qed

lemma fails_reset_post:
  assumes post: "get_post groups rrp rc gs rrp' pc'" and k: "k < length groups"
  shows "get_post groups rrp NGX_BUSY
     (gs[k := (gs ! k)\<lparr>rr_peer_array := map (\<lambda>p. p\<lparr>fails := 0\<rparr>) (rr_peer_array (gs ! k))\<rparr>]) rrp' pc'"
  (is "get_post _ _ _ ?gs _ _")
proof -
  have k1: "groups_ok gs" "k < length gs" "same_shape groups gs"
    using post k same_shape_nth [of groups gs] by (auto simp: get_post_def)
  note u = groups_ok_update [OF k1(1,2) _ fails_reset_ok]
  have "groups_ok ?gs" "same_shape groups ?gs" "room ?gs rrp'"
    using u groups_ok_nth [OF k1(1,2)] same_shape_trans [OF k1(3)] post by (auto simp: get_post_def intro: room_shape)
  then show ?thesis using post by (simp add: get_post_def)
qed

lemma get_round_robin_post:
  assumes "groups_ok groups" "room groups rrp" "\<forall>g\<in>set groups. \<not> rr_single g"
  and "ngx_http_upstream_get_round_robin_peer now groups rrp pc = (rc, groups', rrp', pc')"
  shows "get_post groups rrp rc groups' rrp' pc'"
  using assms
proof (induction "length groups - rrp_peers rrp" arbitrary: groups rrp pc rc groups' rrp' pc' rule: less_induct)
  case less
  define k where "k = rrp_peers rrp"
  have kl: "k < length groups" using less.prems(2) by (simp add: room_def k_def)
  have ns: "\<not> rr_single (groups ! k)" using less.prems(3) kl by simp
  obtain r ps rrp1 where pick: "group_pick now (groups ! k) rrp = (r, ps, rrp1)" by (metis prod_cases3)
  note step = get_round_robin_step [OF less.prems(1) kl [unfolded k_def] pick [unfolded k_def], of pc, folded k_def]
  show ?case
  proof (cases r)
    case (Some i)
    then have "ngx_http_upstream_get_peer now (rr_peer_array (groups ! k)) rrp = (Some i, ps, rrp1)"
      using pick ns by (simp add: group_pick_def)
    note f = get_round_robin_found [OF less.prems(1,2) _ this [unfolded k_def] k_def, folded k_def, OF ns]
    moreover have "rc = NGX_OK" "groups' = groups[k := (groups ! k)\<lparr>rr_peer_array := ps\<rparr>]" "rrp' = rrp1"
        "pc_sockaddr pc' \<noteq> None" "\<not> pc_cached pc'"
      using less.prems(4) unfolding step Some by (auto simp: Let_def split: if_splits)
    ultimately show ?thesis by simp
  next
    case None
    have rrp1: "rrp1 = rrp" and ps: "ps = rr_peer_array (groups ! k)" using group_pick_shape [OF pick] None by auto
    define g2 rrp2 where "g2 = length (rr_peer_array (groups ! (k + 1)))"
      and "rrp2 = rrp\<lparr>rrp_peers := k + 1, rrp_tried := replicate (tried_words g2) 0 @ drop (tried_words g2) (rrp_tried rrp)\<rparr>"
    have post: "get_post groups rrp rc1 gs1 rrp3 pc1"
      if "(if k + 1 < length groups
           then ngx_http_upstream_get_round_robin_peer now groups rrp2 (pc\<lparr>pc_cached := False, pc_connection := None, pc_tries := g2\<rparr>)
           else (NGX_BUSY, groups, rrp, pc\<lparr>pc_cached := False, pc_connection := None\<rparr>)) = (rc1, gs1, rrp3, pc1)" for rc1 gs1 rrp3 pc1
    proof (cases "k + 1 < length groups")
      case True
      have "tried_words g2 \<le> length (rrp_tried rrp)"
        using less.prems(2) True by (auto simp: room_def g2_def intro: tried_words_le)
      then have "room groups rrp2" using less.prems(2) True by (simp add: room_def rrp2_def)
      then have "get_post groups rrp2 rc1 gs1 rrp3 pc1"
        using less.hyps [of groups rrp2 "pc\<lparr>pc_cached := False, pc_connection := None, pc_tries := g2\<rparr>" rc1 gs1 rrp3 pc1]
          less.prems(1,3) that True kl by (simp add: rrp2_def k_def)
      then show ?thesis by (auto simp: get_post_def rrp2_def k_def)
    qed (use that less.prems in \<open>auto simp: get_post_def\<close>)
    obtain rc1 gs1 rrp3 pc1 where rec: "(if k + 1 < length groups
           then ngx_http_upstream_get_round_robin_peer now groups rrp2 (pc\<lparr>pc_cached := False, pc_connection := None, pc_tries := g2\<rparr>)
           else (NGX_BUSY, groups, rrp, pc\<lparr>pc_cached := False, pc_connection := None\<rparr>)) = (rc1, gs1, rrp3, pc1)" (is "?rec = _")
      by (metis prod_cases4)
    let ?gs = "gs1[k := (gs1 ! k)\<lparr>rr_peer_array := map (\<lambda>p. p\<lparr>fails := 0\<rparr>) (rr_peer_array (gs1 ! k))\<rparr>]"
    have res: "(rc, groups', rrp', pc') = (if rc1 \<noteq> NGX_BUSY then (rc1, gs1, rrp3, pc1) else (NGX_BUSY, ?gs, rrp3, pc1))"
      using less.prems(4) rec unfolding step None
      by (auto simp: Let_def ps rrp1 g2_def rrp2_def split: if_splits)
    show ?thesis using res post [OF rec] fails_reset_post [OF post [OF rec] kl] by (cases "rc1 = NGX_BUSY") auto
  qed
qed

section \<open>Retries\<close>

lemma free_groups:
  assumes ok: "groups_ok groups" and k: "rrp_peers rrp < length groups"
  shows "groups_ok (fst (ngx_http_upstream_free_round_robin_peer now failed groups rrp pc))
    \<and> same_shape groups (fst (ngx_http_upstream_free_round_robin_peer now failed groups rrp pc))"
proof -
  let ?g = "groups ! rrp_peers rrp"
  let ?f = "\<lambda>p. if failed then rr_failed now p else rr_passed p"
  have "\<forall>p\<in>set ((rr_peer_array ?g)[rrp_current rrp := ?f (rr_peer_array ?g ! rrp_current rrp)]). peer_ok p"
  proof (cases "rrp_current rrp < length (rr_peer_array ?g)")
    case True
    then have "peer_ok (?f (rr_peer_array ?g ! rrp_current rrp))"
      using groups_ok_nth [OF ok k] free_peer_ok nth_mem [OF True] by auto
    then show ?thesis using groups_ok_nth [OF ok k] set_update_subset_insert by fastforce
  qed (use groups_ok_nth [OF ok k] in \<open>simp add: list_update_beyond\<close>)
  then show ?thesis
    using ok groups_ok_update [OF ok k, of "(rr_peer_array ?g)[rrp_current rrp := ?f (rr_peer_array ?g ! rrp_current rrp)]"]
    by (auto simp: ngx_http_upstream_free_round_robin_peer_def Let_def)
qed

lemma next_groups:
  assumes ok: "groups_ok groups" and k: "rrp_peers rrp < length groups"
  and n: "ngx_http_upstream_next nu now error ft groups rrp pc = (r, groups', pc')"
  shows "groups_ok groups' \<and> same_shape groups groups'"
proof -
  have "groups' = (if pc_sockaddr pc \<noteq> None
      then fst (ngx_http_upstream_free_round_robin_peer now (ft \<noteq> NGX_HTTP_UPSTREAM_FT_HTTP_404) groups rrp pc) else groups)"
    using n by (auto simp: ngx_http_upstream_next_def Let_def split: prod.splits if_splits)
  then show ?thesis using free_groups [OF ok k] ok by auto
qed

text \<open>A group of one server is left after its first failure.\<close>

lemma next_single:
  "rr_single (groups ! rrp_peers rrp) \<Longrightarrow> pc_sockaddr pc \<noteq> None \<Longrightarrow> \<not> pc_cached pc \<Longrightarrow>
   \<exists>status. fst (ngx_http_upstream_next nu now error ft groups rrp pc) = Some status"
  by (auto simp: ngx_http_upstream_next_def ngx_http_upstream_free_round_robin_peer_def Let_def split: prod.splits)

text \<open>The peers tried before: those of earlier groups, and those of the present one that are marked.\<close>

definition tried_before :: "rr_data \<Rightarrow> (nat \<times> nat) set" where
  "tried_before rrp = {(k, i). k < rrp_peers rrp \<or> k = rrp_peers rrp \<and> tried_test (rrp_tried rrp) i}"

definition peer_index :: "rr_peers list \<Rightarrow> (nat \<times> nat) set" where
  "peer_index groups = {(k, i). k < length groups \<and> i < length (rr_peer_array (groups ! k))}"

lemma peer_index_shape: "same_shape a b \<Longrightarrow> peer_index b = peer_index a"
  using same_shape_nth [of a b] by (auto simp: peer_index_def)

lemma get_post_before:
  assumes "get_post groups rrp rc groups' rrp' pc'"
  shows "tried_before rrp \<subseteq> tried_before rrp'
    \<and> (rc = NGX_OK \<longrightarrow> (rrp_peers rrp', rrp_current rrp') \<in> peer_index groups' - tried_before rrp
         \<and> (rrp_peers rrp', rrp_current rrp') \<in> tried_before rrp')"
  using assms by (auto simp: get_post_def tried_before_def peer_index_def room_def)

lemma attempts_distinct:
  assumes "groups_ok groups" "room groups rrp" "\<forall>g\<in>set groups. \<not> rr_single g"
  and "upstream_attempts nu evs groups rrp pc = (picks, groups')"
  shows "distinct picks \<and> set picks \<subseteq> peer_index groups - tried_before rrp \<and> groups_ok groups' \<and> same_shape groups groups'"
  using assms
proof (induction nu evs groups rrp pc arbitrary: picks groups' rule: upstream_attempts.induct)
  case (2 nu now error outcome evs groups rrp pc)
  obtain rc gs1 rrp1 pc1 where get: "ngx_http_upstream_get_round_robin_peer now groups rrp pc = (rc, gs1, rrp1, pc1)"
    by (metis prod_cases4)
  note post = get_round_robin_post [OF "2.prems"(1-3) get]
  have gs1: "groups_ok gs1" "same_shape groups gs1" "room gs1 rrp1" "rrp_peers rrp1 < length gs1"
    using post by (auto simp: get_post_def room_def)
  define tried where "tried = (if rc = NGX_OK then [(rrp_peers rrp1, rrp_current rrp1)] else [])"
  have t: "set tried \<subseteq> peer_index groups - tried_before rrp" "set tried \<subseteq> tried_before rrp1" "tried_before rrp \<subseteq> tried_before rrp1"
      "distinct tried"
    using get_post_before [OF post] peer_index_shape [OF gs1(2)] by (auto simp: tried_def)
  show ?case
  proof (cases "if rc = NGX_OK then outcome else Some NGX_HTTP_UPSTREAM_FT_NOLIVE")
    case None
    then have "picks = tried" "groups' = fst (ngx_http_upstream_free_round_robin_peer now False gs1 rrp1 pc1)"
      using "2.prems"(4) get by (auto simp: Let_def tried_def)
    then show ?thesis using t free_groups [OF gs1(1,4)] gs1(2) same_shape_trans by blast
  next
    case (Some ft)
    obtain r gs2 pc2 where nx: "ngx_http_upstream_next nu now error ft gs1 rrp1 pc1 = (r, gs2, pc2)" by (metis prod_cases3)
    have gs2: "groups_ok gs2" "same_shape groups gs2" "room gs2 rrp1"
      using next_groups [OF gs1(1,4) nx] gs1 same_shape_trans room_shape by blast+
    show ?thesis
    proof (cases r)
      case None
      obtain rest where rec: "upstream_attempts nu evs gs2 rrp1 pc2 = (rest, groups')" and picks: "picks = tried @ rest"
        using "2.prems"(4) get nx Some None by (auto simp: Let_def tried_def split: prod.splits)
      have "\<forall>g\<in>set gs2. \<not> rr_single g"
        using "2.prems"(3) same_shape_nth [OF gs2(2)] by (metis in_set_conv_nth)
      then have IH: "distinct rest \<and> set rest \<subseteq> peer_index gs2 - tried_before rrp1 \<and> groups_ok groups' \<and> same_shape gs2 groups'"
        using "2.IH" [OF get [symmetric] refl refl refl tried_def refl Some nx [symmetric] None refl gs2(1,3) _ rec] by simp
      then show ?thesis
        using t gs2 peer_index_shape [OF gs2(2)] same_shape_trans unfolding picks by (simp add: disjoint_iff) blast
    next
      case (Some status)
      then have "picks = tried" "groups' = gs2"
        using "2.prems"(4) get nx \<open>_ = Some ft\<close> by (auto simp: Let_def tried_def)
      then show ?thesis using t gs2 by simp
    qed
  qed
qed (auto)

text \<open>A request that starts has room for the marks of every group, and none is set.\<close>

lemma init_round_robin_peer_room:
  assumes ok: "groups_ok groups" and n: "length groups \<le> 2"
  and i: "ngx_http_upstream_init_round_robin_peer groups = (rrp, tries)"
  shows "room groups rrp \<and> rrp_peers rrp = 0 \<and> rrp_current rrp = 0 \<and> tries = length (rr_peer_array (groups ! 0))
    \<and> (\<forall>i<length (rr_peer_array (groups ! 0)). \<not> tried_test (rrp_tried rrp) i)"
proof -
  define n where "n = (if 1 < length groups \<and> length (rr_peer_array (groups ! 1)) > length (rr_peer_array (groups ! 0))
      then length (rr_peer_array (groups ! 1)) else length (rr_peer_array (groups ! 0)))"
  define w where "w = (if n \<le> 64 then 1 else tried_words n)"
  have rrp: "rrp_peers rrp = 0" "rrp_current rrp = 0" "tries = length (rr_peer_array (groups ! 0))" "rrp_tried rrp = replicate w 0 @ []"
    using i by (auto simp: ngx_http_upstream_init_round_robin_peer_def Let_def n_def w_def)
  have w: "n \<le> 64 * w" using tried_words_room [of n] by (simp add: w_def)
  have "length (rr_peer_array (groups ! k)) \<le> n" if "k < length groups" for k
  proof -
    have "k = 0 \<or> k = 1" using that assms(2) by auto
    then show ?thesis using that by (auto simp: n_def)
  qed
  then have "\<forall>g\<in>set groups. length (rr_peer_array g) \<le> n" by (metis in_set_conv_nth)
  then have "room groups rrp" using ok w rrp by (fastforce simp: room_def groups_ok_def)
  moreover have "length (rr_peer_array (groups ! 0)) \<le> n" by (simp add: n_def)
  ultimately show ?thesis using rrp w tried_test_zero [of _ w "[]"] by simp
qed

lemma attempts_single:
  assumes ok: "groups_ok groups" and s: "rr_single (groups ! 0)" and k: "rrp_peers rrp = 0" "rrp_current rrp = 0"
  and r: "upstream_attempts nu evs groups rrp pc = (picks, groups')"
  shows "distinct picks \<and> set picks \<subseteq> peer_index groups \<and> groups_ok groups' \<and> same_shape groups groups'"
  using assms
proof (induction nu evs groups rrp pc arbitrary: picks groups' rule: upstream_attempts.induct)
  case (2 nu now error outcome evs groups rrp pc)
  define d where "d = down (rr_peer_array (groups ! 0) ! 0)"
  have g: "length groups = 1" "length (rr_peer_array (groups ! 0)) = 1" using 2 by (auto simp: groups_ok_def)
  have pick: "group_pick now (groups ! rrp_peers rrp) rrp = (if d then None else Some 0, rr_peer_array (groups ! 0), rrp)"
    using 2 by (simp add: group_pick_def d_def)
  obtain rc gs1 pc1 where get: "ngx_http_upstream_get_round_robin_peer now groups rrp pc = (rc, gs1, rrp, pc1)"
    and rc: "rc = (if d then NGX_BUSY else NGX_OK)" and c: "\<not> pc_cached pc1" "rc = NGX_OK \<longrightarrow> pc_sockaddr pc1 \<noteq> None"
    and gs: "gs1 = (if d then groups[0 := (groups ! 0)\<lparr>rr_peer_array := map (\<lambda>p. p\<lparr>fails := 0\<rparr>) (rr_peer_array (groups ! 0))\<rparr>] else groups)"
    using get_round_robin_step [OF "2.prems"(1) _ pick, of pc] g "2.prems"(3) by (cases d) (simp_all add: Let_def)
  have gs1: "groups_ok gs1" "same_shape groups gs1" "rrp_peers rrp < length gs1" "rr_single (gs1 ! 0)"
    using groups_ok_update [OF "2.prems"(1) _ _ fails_reset_ok, of 0 "rr_peer_array (groups ! 0)"] groups_ok_nth [OF "2.prems"(1), of 0]
      g "2.prems" unfolding gs by auto
  define tried where "tried = (if rc = NGX_OK then [(rrp_peers rrp, rrp_current rrp)] else [])"
  have t: "set tried \<subseteq> peer_index groups" "distinct tried"
    using g "2.prems"(3,4) by (auto simp: tried_def peer_index_def)
  show ?case
  proof (cases "if rc = NGX_OK then outcome else Some NGX_HTTP_UPSTREAM_FT_NOLIVE")
    case None
    then have "picks = tried" "groups' = fst (ngx_http_upstream_free_round_robin_peer now False gs1 rrp pc1)"
      using "2.prems"(5) get by (auto simp: Let_def tried_def)
    then show ?thesis using t free_groups [OF gs1(1,3)] gs1(2) same_shape_trans by blast
  next
    case (Some ft)
    obtain r gs2 pc2 where nx: "ngx_http_upstream_next nu now error ft gs1 rrp pc1 = (r, gs2, pc2)" by (metis prod_cases3)
    have gs2: "groups_ok gs2" "same_shape groups gs2"
      using next_groups [OF gs1(1,3) nx] gs1 same_shape_trans by blast+
    show ?thesis
    proof (cases r)
      case None
      then have tr: "tried = []" using next_single [of gs1 rrp pc1 nu now error ft] nx c gs1(4) "2.prems"(3) by (auto simp: tried_def)
      have rec: "upstream_attempts nu evs gs2 rrp pc2 = (picks, groups')"
        using "2.prems"(5) get nx Some None tr by (auto simp: Let_def tried_def split: prod.splits if_splits)
      have "rr_single (gs2 ! 0)" using "2.prems"(2) same_shape_nth [OF gs2(2)] g by simp
      then show ?thesis
        using "2.IH" [OF get [symmetric] refl refl refl tried_def refl Some nx [symmetric] None refl gs2(1) _ "2.prems"(3,4) rec]
          gs2(2) same_shape_trans peer_index_shape [OF gs2(2)] by blast
    next
      case (Some status)
      then have "picks = tried" "groups' = gs2"
        using "2.prems"(5) get nx \<open>_ = Some ft\<close> by (auto simp: Let_def tried_def)
      then show ?thesis using t gs2 by simp
    qed
  qed
qed auto

lemma request_distinct:
  assumes ok: "groups_ok groups" and n: "length groups \<le> 2" and r: "upstream_request nu evs groups = (picks, groups')"
  shows "distinct picks \<and> set picks \<subseteq> peer_index groups \<and> groups_ok groups' \<and> same_shape groups groups'"
proof -
  obtain rrp tries where i: "ngx_http_upstream_init_round_robin_peer groups = (rrp, tries)" by fastforce
  note rm = init_round_robin_peer_room [OF ok n i]
  obtain pc where a: "upstream_attempts nu evs groups rrp pc = (picks, groups')"
    using r i by (simp add: upstream_request_def)
  show ?thesis
  proof (cases "rr_single (groups ! 0)")
    case True
    then show ?thesis using attempts_single [OF ok _ _ _ a] rm by simp
  next
    case False
    have "\<not> rr_single g" if "g \<in> set groups" for g
    proof
      assume "rr_single g"
      then have "length groups = 1" using ok that by (simp add: groups_ok_def)
      then have "g = groups ! 0" using that by (cases groups) auto
      then show False using False \<open>rr_single g\<close> by simp
    qed
    then have "distinct picks \<and> set picks \<subseteq> peer_index groups - tried_before rrp \<and> groups_ok groups' \<and> same_shape groups groups'"
      using attempts_distinct [OF ok _ _ a] rm by simp
    then show ?thesis by blast
  qed
qed

lemma requests_distinct:
  "groups_ok groups \<Longrightarrow> length groups \<le> 2 \<Longrightarrow> upstream_requests nu reqs groups = (picks, groups') \<Longrightarrow>
   (\<forall>ps\<in>set picks. distinct ps \<and> set ps \<subseteq> peer_index groups) \<and> groups_ok groups' \<and> same_shape groups groups'"
proof (induction reqs arbitrary: groups picks)
  case (Cons evs reqs)
  obtain ps gs1 rest where r: "upstream_request nu evs groups = (ps, gs1)" "upstream_requests nu reqs gs1 = (rest, groups')"
    and picks: "picks = ps # rest" using Cons.prems(3) by (auto split: prod.splits)
  note d = request_distinct [OF Cons.prems(1,2) r(1)]
  have "length gs1 \<le> 2" using d same_shape_nth [of groups gs1] Cons.prems(2) by simp
  then show ?case
    using Cons.IH [OF _ _ r(2)] d peer_index_shape [of groups gs1] same_shape_trans unfolding picks by auto
qed simp

section \<open>The configured peers\<close>

interpretation server_order: comparison ngx_http_upstream_cmp_servers "\<lambda>p. - sint (pr_weight p)" "\<lambda>_ _. True"
  by unfold_locales (auto simp: ngx_http_upstream_cmp_servers_def word_sless_alt)

lemma sorted_wrt_True [simp]: "sorted_wrt (\<lambda>_ _. True) xs"
  by (induction xs) simp_all

lemma sorted_peers: "ngx_sort True ngx_http_upstream_cmp_servers ps = sort_key (\<lambda>p. - sint (pr_weight p)) ps"
  by (rule server_order.ngx_sort_sort_key) simp

lemma mset_peers: "mset (ngx_sort allocated ngx_http_upstream_cmp_servers ps) = mset ps"
  by (cases allocated) (simp_all add: sorted_peers, simp add: ngx_sort_def)

lemma length_server_peers [simp]: "length (concat (map server_peers servers)) = (\<Sum>s\<leftarrow>servers. length (us_addrs s))"
  by (induction servers) (simp_all add: server_peers_def)

lemma server_peers_ok: "p \<in> set (server_peers s) \<Longrightarrow> peer_ok p \<and> current_weight p = 0 \<and> effective_weight p = pr_weight p \<and> fails p = 0"
  by (auto simp: server_peers_def zero_peer_def peer_ok_def)

lemma make_peers_array:
  "set (rr_peer_array (make_peers allocated servers)) = (\<Union>s\<in>set servers. set (server_peers s))"
  "length (rr_peer_array (make_peers allocated servers)) = (\<Sum>s\<leftarrow>servers. length (us_addrs s))"
  using mset_eq_setD [OF mset_peers, of allocated "concat (map server_peers servers)"]
    mset_eq_length [OF mset_peers, of allocated "concat (map server_peers servers)"]
  by (simp_all add: make_peers_def Let_def)

lemma make_peers_sel [simp]:
  "last_cached (make_peers allocated servers) = 0"
  "rr_single (make_peers allocated servers) \<longleftrightarrow> length (rr_peer_array (make_peers allocated servers)) = 1"
  using make_peers_array [of allocated servers] by (simp_all add: make_peers_def Let_def zero_peers_def)

lemma default_peer_ok [simp]: "peer_ok (default_peer a)"
  by (simp add: default_peer_def zero_peer_def peer_ok_def)

lemma make_peers_ok: "\<forall>p\<in>set (rr_peer_array (make_peers allocated servers)). peer_ok p"
  using server_peers_ok by (auto simp: make_peers_array)

lemma init_round_robin_ok:
  assumes "\<And>h p. resolve h p \<noteq> Some []" "ngx_http_upstream_init_round_robin resolve allocated us = Some groups"
  shows "groups_ok groups \<and> length groups \<le> 2"
proof (cases "us_servers us")
  case None
  then obtain addrs where "resolve (us_host us) (if us_port us \<noteq> 0 then us_port us else us_default_port us) = Some addrs"
    "groups = [zero_peers\<lparr>rr_single := (length addrs = 1), rr_weighted := False,
                            total_weight := of_nat (length addrs), rr_peer_array := map default_peer addrs\<rparr>]"
    using assms(2) by (auto simp: ngx_http_upstream_init_round_robin_def split: if_splits option.splits)
  then show ?thesis using assms(1) by (auto simp: groups_ok_def zero_peers_def)
next
  case (Some servers)
  let ?main = "make_peers allocated (filter (\<lambda>s. \<not> us_backup s) servers)" and ?backup = "make_peers allocated (filter us_backup servers)"
  have "(if length (rr_peer_array ?main) = 0 then None
      else if length (rr_peer_array ?backup) = 0 then Some [?main]
      else Some [?main\<lparr>rr_single := False\<rparr>, ?backup\<lparr>rr_single := False\<rparr>]) = Some groups"
    unfolding make_peers_array(2) using assms(2) Some by (simp only: ngx_http_upstream_init_round_robin_def Let_def option.case)
  then have "rr_peer_array ?main \<noteq> []"
    "groups = [?main] \<or> rr_peer_array ?backup \<noteq> [] \<and> groups = [?main\<lparr>rr_single := False\<rparr>, ?backup\<lparr>rr_single := False\<rparr>]"
    by (simp_all split: if_splits)
  then show ?thesis using make_peers_ok by (auto simp: groups_ok_def)
qed

text \<open>
  C14. Whatever an upstream's configuration and whatever happens to the connections, a request never tries a server twice:
  the attempts that \<open>ngx_http_upstream_next\<close> makes after failures are to different peers of the configured groups,
  so a request has at most as many attempts as there are servers; this stays so for every request that the worker
  serves after any number of others. The resolver is assumed not to succeed without an address.
\<close>

theorem upstream_never_twice:
  assumes "\<And>h p. resolve h p \<noteq> Some []" "ngx_http_upstream_init_round_robin resolve allocated us = Some groups"
  and "upstream_requests nu reqs groups = (picks, groups')"
  shows "\<forall>ps\<in>set picks. distinct ps \<and> (\<forall>(k, i)\<in>set ps. k < length groups \<and> i < length (rr_peer_array (groups ! k)))"
proof -
  have "distinct ps \<and> set ps \<subseteq> peer_index groups" if "ps \<in> set picks" for ps
    using requests_distinct [of groups nu reqs picks groups'] init_round_robin_ok [OF assms(1,2)] assms(3) that by blast
  then show ?thesis by (simp add: peer_index_def subset_eq)
qed

theorem upstream_never_twice_witness:
  "let us = \<lparr>us_servers = Some [\<lparr>us_addrs = [Sockaddr 1, Sockaddr 2], us_weight = 1, us_max_fails = 1, us_fail_timeout = 10, us_down = False, us_backup = False\<rparr>,
       \<lparr>us_addrs = [Sockaddr 3], us_weight = 1, us_max_fails = 1, us_fail_timeout = 10, us_down = False, us_backup = True\<rparr>],
       us_host = [], us_port = 0, us_default_port = 0\<rparr>;
       groups = the (ngx_http_upstream_init_round_robin (\<lambda>_ _. None) True us);
       failed = (1, False, Some NGX_HTTP_UPSTREAM_FT_ERROR);
       picks = fst (upstream_requests NGX_HTTP_UPSTREAM_FT_ERROR [[failed, failed, failed, failed], [failed, failed]] groups)
   in picks = [[(0, 0), (0, 1), (1, 0)], []]
      \<and> (\<forall>ps\<in>set picks. distinct ps \<and> (\<forall>(k, i)\<in>set ps. k < length groups \<and> i < length (rr_peer_array (groups ! k))))"
  (is "let us = ?us; groups = ?gs us; failed = ?failed; picks = ?picks groups failed in picks = ?p \<and> ?Q picks groups")
proof -
  let ?g = "?gs ?us" and ?r = "upstream_requests NGX_HTTP_UPSTREAM_FT_ERROR [[?failed, ?failed, ?failed, ?failed], [?failed, ?failed]] (?gs ?us)"
  have "\<not> Option.is_none (ngx_http_upstream_init_round_robin (\<lambda>_ _. None) True ?us)" by code_simp
  then have g: "ngx_http_upstream_init_round_robin (\<lambda>_ _. None) True ?us = Some ?g" by (auto simp: Option.is_none_def)
  have p: "fst ?r = ?p" by code_simp
  have "?Q (fst ?r) ?g" by (rule upstream_never_twice [OF _ g surjective_pairing]) simp
  then show ?thesis unfolding Let_def using p by blast
qed

section \<open>Fairness\<close>

abbreviation (input) weights :: "rr_peer list \<Rightarrow> int" where
  "weights ps \<equiv> \<Sum>j<length ps. sint (pr_weight (ps ! j))"

text \<open>
  Peers that all may be chosen, with their configured weights, and current weights that add up to zero with none as low
  as minus the sum of the weights. The bound on the weights keeps all sums in 64 bits.
\<close>

definition healthy :: "rr_peer \<Rightarrow> bool" where
  "healthy p \<longleftrightarrow> 0 <s pr_weight p \<and> effective_weight p = pr_weight p \<and> \<not> down p \<and> (max_fails p = 0 \<or> fails p < max_fails p)"

definition balanced :: "rr_peer list \<Rightarrow> bool" where
  "balanced ps \<longleftrightarrow> ps \<noteq> [] \<and> (\<forall>j<length ps. healthy (ps ! j)) \<and> (\<Sum>j<length ps. sint (current_weight (ps ! j))) = 0
     \<and> (\<forall>j<length ps. - weights ps < sint (current_weight (ps ! j))) \<and> int (length ps) * weights ps < 2 ^ 63"

text \<open>One choice out of balanced peers: everyone gains its weight, and the chosen one pays the sum.\<close>

definition paid :: "rr_peer list \<Rightarrow> nat \<Rightarrow> rr_peer list \<Rightarrow> bool" where
  "paid ps i ps' \<longleftrightarrow> i < length ps \<and> length ps' = length ps
     \<and> (\<forall>j<length ps. pr_weight (ps' ! j) = pr_weight (ps ! j)
          \<and> sint (current_weight (ps' ! j))
              = sint (current_weight (ps ! j)) + sint (pr_weight (ps ! j)) - (if j = i then weights ps else 0))"

lemma sum_pos_exists:
  fixes f :: "nat \<Rightarrow> int"
  assumes "0 < (\<Sum>j<n. f j)" shows "\<exists>j<n. 0 < f j"
  using assms by (metis lessThan_iff not_less sum_nonpos)

lemma healthy_pos: "healthy p \<Longrightarrow> 0 < sint (pr_weight p)"
  by (simp add: healthy_def word_sless_alt)

lemma weights_pos: "balanced ps \<Longrightarrow> 0 < weights ps"
  by (rule sum_pos) (auto simp: balanced_def healthy_pos)

text \<open>In balanced peers no sum overflows.\<close>

lemma balanced_range:
  assumes b: "balanced ps" and j: "j < length ps"
  shows "sint (current_weight (ps ! j) + pr_weight (ps ! j)) = sint (current_weight (ps ! j)) + sint (pr_weight (ps ! j))"
    and "sint (\<Sum>j<length ps. pr_weight (ps ! j)) = weights ps" and "weights ps < 2 ^ 63"
proof -
  let ?n = "length ps" and ?c = "\<lambda>j. sint (current_weight (ps ! j))" and ?w = "\<lambda>j. sint (pr_weight (ps ! j))"
  have w: "0 < ?w i" if "i < ?n" for i using b that by (simp add: balanced_def healthy_pos)
  have c: "- weights ps < ?c i" if "i < ?n" for i using b that by (simp add: balanced_def)
  have nW: "int ?n * weights ps < 2 ^ 63" using b by (simp add: balanced_def)
  have "1 * weights ps \<le> int ?n * weights ps" using j weights_pos [OF b] by (intro mult_right_mono) auto
  then show W: "weights ps < 2 ^ 63" using nW by simp
  then show "sint (\<Sum>j<?n. pr_weight (ps ! j)) = weights ps" using w by (intro sint_sum) (auto simp: less_imp_le)
  have "0 \<le> ?c i + weights ps" if "i < ?n" for i using c [OF that] by linarith
  then have "?c j + weights ps \<le> (\<Sum>i<?n. ?c i + weights ps)" using j by (intro member_le_sum) auto
  then have "?c j + weights ps \<le> int ?n * weights ps" using b by (simp add: sum.distrib balanced_def)
  moreover have "?w j \<le> weights ps" using j w by (intro member_le_sum) (auto simp: less_imp_le)
  ultimately show "sint (current_weight (ps ! j) + pr_weight (ps ! j)) = ?c j + ?w j"
    using c [OF j] w [OF j] W nW by (intro sint_plus) linarith+
qed

lemma balanced_pick:
  assumes b: "balanced ps" and nt: "\<forall>j<length ps. \<not> tried_test (rrp_tried rrp) j"
  shows "\<exists>i ps' rrp'. ngx_http_upstream_get_peer now ps rrp = (Some i, ps', rrp') \<and> paid ps i ps'
     \<and> (\<forall>j<length ps. healthy (ps' ! j)) \<and> (\<forall>j<length ps. - weights ps < sint (current_weight (ps' ! j)))
     \<and> rrp_peers rrp' = rrp_peers rrp \<and> rrp_current rrp' = i"
proof -
  let ?n = "length ps" and ?c = "\<lambda>j. sint (current_weight (ps ! j))" and ?w = "\<lambda>j. sint (pr_weight (ps ! j))"
  have h: "healthy (ps ! j)" if "j < ?n" for j using b that by (simp add: balanced_def)
  have e: "eligible now rrp ps j" if "j < ?n" for j using h [OF that] nt that by (auto simp: rr_skip_def healthy_def)
  have ld: "load now (rrp_tried rrp) j (ps ! j) = pr_weight (ps ! j)" if "j < ?n" for j
    using e [OF that] h [OF that] by (simp add: load_def healthy_def)
  have "0 < ?n" using b by (simp add: balanced_def)
  note rng = balanced_range [OF b]
  have al: "sint (all_load now (rrp_tried rrp) ps) = weights ps" using rng(2) [OF \<open>0 < ?n\<close>] by (simp add: all_load_def ld)
  obtain i ps' rrp' where g: "ngx_http_upstream_get_peer now ps rrp = (Some i, ps', rrp')"
    using \<open>0 < ?n\<close> get_peer_None [of now ps rrp] e by (metis option.exhaust prod_cases3)
  note s = get_peer_Some [OF g]
  have i: "i < ?n" using s by blast
  have "0 < (\<Sum>j<?n. ?c j + ?w j)" using weights_pos [OF b] b by (simp add: sum.distrib balanced_def)
  then obtain j where j: "j < ?n" "0 < ?c j + ?w j" using sum_pos_exists by blast
  have "current_weight (ps ! j) + pr_weight (ps ! j) \<le>s current_weight (ps ! i) + pr_weight (ps ! i)"
    using s e j(1) h [OF j(1)] h [OF i] by (fastforce simp: healthy_def)
  then have pos: "0 < ?c i + ?w i" using j rng(1) [OF i] rng(1) [OF j(1)] by (simp add: word_sle_eq)
  have other: "sint (current_weight (ps' ! j)) = ?c j + ?w j" if "j < ?n" "j \<noteq> i" for j
    using s that ld [OF that(1)] rng(1) [OF that(1)] by simp
  have "sint (current_weight (ps' ! i)) = sint (current_weight (ps ! i) + pr_weight (ps ! i) - all_load now (rrp_tried rrp) ps)"
    using s h [OF i] by (simp add: healthy_def)
  also have "\<dots> = ?c i + ?w i - weights ps"
    using pos al rng(1) [OF i] rng(3) [OF i] weights_pos [OF b] sint_range [of "current_weight (ps ! i) + pr_weight (ps ! i)"]
    by (subst sint_minus) simp_all
  finally have chosen: "sint (current_weight (ps' ! i)) = ?c i + ?w i - weights ps" .
  have w: "\<forall>j<?n. pr_weight (ps' ! j) = pr_weight (ps ! j)
          \<and> sint (current_weight (ps' ! j)) = ?c j + ?w j - (if j = i then weights ps else 0)"
    using s other chosen by auto
  have "- weights ps < sint (current_weight (ps' ! j))" if "j < ?n" for j
  proof -
    have "- weights ps < ?c j" "0 < ?w j" using b h that by (simp_all add: balanced_def healthy_pos)
    then show ?thesis using w that pos by (cases "j = i") simp_all
  qed
  moreover have "healthy (ps' ! j)" if "j < ?n" for j
    using s h [OF that] that e [OF that] by (cases "j = i") (auto simp: healthy_def visit_def)
  ultimately show ?thesis using g w i s by (auto simp: paid_def)
qed

lemma paid_weights: "paid ps i ps' \<Longrightarrow> weights ps' = weights ps"
  by (auto simp: paid_def intro: sum.cong)

lemma paid_sum:
  "paid ps i ps' \<Longrightarrow> (\<Sum>j<length ps'. sint (current_weight (ps' ! j))) = (\<Sum>j<length ps. sint (current_weight (ps ! j)))"
proof -
  assume p: "paid ps i ps'"
  then have "(\<Sum>j<length ps'. sint (current_weight (ps' ! j)))
      = (\<Sum>j<length ps. sint (current_weight (ps ! j)) + sint (pr_weight (ps ! j)) - (if j = i then weights ps else 0))"
    by (auto simp: paid_def intro: sum.cong)
  then show ?thesis using p by (simp add: sum_subtractf sum.distrib paid_def)
qed

lemma paid_balanced:
  assumes "balanced ps" "paid ps i ps'" "\<forall>j<length ps. healthy (ps' ! j)" "\<forall>j<length ps. - weights ps < sint (current_weight (ps' ! j))"
  shows "balanced ps'"
proof -
  have "length ps' = length ps" using assms(2) by (simp add: paid_def)
  then show ?thesis using assms paid_sum [OF assms(2)] paid_weights [OF assms(2)] by (auto simp: balanced_def)
qed

lemma passed_sel [simp]:
  "pr_weight (rr_passed p) = pr_weight p" "current_weight (rr_passed p) = current_weight p"
  "healthy p \<Longrightarrow> healthy (rr_passed p)"
  by (auto simp: rr_passed_def healthy_def word_gt_0)

lemma passed_nth: "(ps[i := rr_passed (ps ! i)]) ! j = (if j = i \<and> i < length ps then rr_passed (ps ! j) else ps ! j)"
  by (cases "i < length ps") (auto simp: list_update_beyond)

text \<open>A request served by its first peer.\<close>

lemma request_served:
  assumes ok: "groups_ok groups" "length groups \<le> 2" and b: "balanced (rr_peer_array (groups ! 0))"
  shows "\<exists>i groups'. upstream_request nu [(now, error, None)] groups = ([(0, i)], groups')
    \<and> paid (rr_peer_array (groups ! 0)) i (rr_peer_array (groups' ! 0)) \<and> balanced (rr_peer_array (groups' ! 0))"
proof -
  let ?ps = "rr_peer_array (groups ! 0)"
  obtain rrp tries where i: "ngx_http_upstream_init_round_robin_peer groups = (rrp, tries)" by fastforce
  note rm = init_round_robin_peer_room [OF ok i]
  have k: "0 < length groups" using ok by (simp add: groups_ok_def)
  obtain j ps' rrp' where pick: "group_pick now (groups ! 0) rrp = (Some j, ps', rrp')"
    and p: "paid ?ps j ps'" "\<forall>j<length ?ps. healthy (ps' ! j)" "\<forall>j<length ?ps. - weights ?ps < sint (current_weight (ps' ! j))"
    and r: "rrp_peers rrp' = 0" "rrp_current rrp' = j"
  proof (cases "rr_single (groups ! 0)")
    case True
    then have "length ?ps = 1" using ok k nth_mem [OF k] by (auto simp: groups_ok_def)
    moreover from this have "healthy (?ps ! 0)" "\<forall>j<length ?ps. - weights ?ps < sint (current_weight (?ps ! j))" 
      using b by (simp_all add: balanced_def)
    ultimately show ?thesis
      using that [of 0 ?ps rrp] rm True by (auto simp: group_pick_def paid_def healthy_def)
  next
    case False
    then show ?thesis
      using that balanced_pick [OF b, of rrp now] rm by (auto simp: group_pick_def)
  qed
  define groups1 where "groups1 = groups[0 := (groups ! 0)\<lparr>rr_peer_array := ps'\<rparr>]"
  obtain pc' where get: "ngx_http_upstream_get_round_robin_peer now groups rrp
      \<lparr>pc_connection = None, pc_sockaddr = None, pc_tries = tries, pc_cached = False\<rparr> = (NGX_OK, groups1, rrp', pc')"
    using get_round_robin_step [OF ok(1) _ pick [folded conjunct1 [OF conjunct2 [OF rm]]]] k rm by (auto simp: Let_def groups1_def)
  define groups' where "groups' = fst (ngx_http_upstream_free_round_robin_peer now False groups1 rrp' pc')"
  have req: "upstream_request nu [(now, error, None)] groups = ([(0, j)], groups')"
    using i get r by (simp add: upstream_request_def groups'_def Let_def)
  have len: "length ps' = length ?ps" "j < length ?ps" using p(1) by (simp_all add: paid_def)
  have "rr_peer_array (groups' ! 0) = ps' \<or> rr_peer_array (groups' ! 0) = ps'[j := rr_passed (ps' ! j)]"
    using k r by (auto simp: groups'_def groups1_def ngx_http_upstream_free_round_robin_peer_def Let_def)
  then have a: "length (rr_peer_array (groups' ! 0)) = length ?ps"
      "\<forall>i<length ?ps. pr_weight (rr_peer_array (groups' ! 0) ! i) = pr_weight (ps' ! i)
         \<and> current_weight (rr_peer_array (groups' ! 0) ! i) = current_weight (ps' ! i)
         \<and> healthy (rr_peer_array (groups' ! 0) ! i)"
    using p(2) len by (auto simp: passed_nth)
  then have "paid ?ps j (rr_peer_array (groups' ! 0))" using p(1) by (simp add: paid_def)
  moreover have "\<forall>i<length ?ps. - weights ?ps < sint (current_weight (rr_peer_array (groups' ! 0) ! i))" using a(2) p(3) by simp
  ultimately show ?thesis using req paid_balanced [OF b] a(2) by blast
qed

lemma count_list_filter: "length xs = (\<Sum>i<n :: nat. count_list xs (f i))" if "\<forall>x\<in>set xs. \<exists>i<n. x = f i" "inj_on f {..<n}"
  using that(1)
proof (induction xs)
  case (Cons x xs)
  obtain i where i: "i < n" "x = f i" using Cons.prems by auto
  have "(\<Sum>j<n. count_list (x # xs) (f j)) = (\<Sum>j<n. count_list xs (f j) + (if j = i then 1 else 0))"
    using that(2) i by (intro sum.cong) (auto dest: inj_onD)
  also have "\<dots> = Suc (length xs)" using Cons i by (simp add: sum.distrib)
  finally show ?case by simp
qed simp

text \<open>The requests \<open>times\<close> served one after another: what each peer holds is its share less what it paid.\<close>

lemma requests_served:
  assumes "groups_ok groups" "length groups \<le> 2" "balanced (rr_peer_array (groups ! 0))"
  shows "\<exists>picks groups'. upstream_requests nu (map (\<lambda>t. [(t, False, None)]) ts) groups = (picks, groups')
    \<and> length picks = length ts \<and> (\<forall>p\<in>set picks. \<exists>i<length (rr_peer_array (groups ! 0)). p = [(0, i)])
    \<and> balanced (rr_peer_array (groups' ! 0)) \<and> weights (rr_peer_array (groups' ! 0)) = weights (rr_peer_array (groups ! 0))
    \<and> (\<forall>i<length (rr_peer_array (groups ! 0)). sint (current_weight (rr_peer_array (groups' ! 0) ! i))
         = sint (current_weight (rr_peer_array (groups ! 0) ! i)) + int (length ts) * sint (pr_weight (rr_peer_array (groups ! 0) ! i))
           - int (count_list picks [(0, i)]) * weights (rr_peer_array (groups ! 0)))
    \<and> length (rr_peer_array (groups' ! 0)) = length (rr_peer_array (groups ! 0))"
  using assms
proof (induction ts arbitrary: groups)
  case (Cons t ts)
  let ?p = "\<lambda>g. rr_peer_array (g ! 0)"
  obtain i gs1 where r1: "upstream_request nu [(t, False, None)] groups = ([(0, i)], gs1)"
    and paid: "paid (?p groups) i (?p gs1)" and b1: "balanced (?p gs1)"
    using request_served [OF Cons.prems] by blast
  have ok1: "groups_ok gs1" "length gs1 \<le> 2"
    using request_distinct [OF Cons.prems(1,2) r1] same_shape_nth [of groups gs1] Cons.prems(2) by auto
  obtain picks gs2 where r2: "upstream_requests nu (map (\<lambda>t. [(t, False, None)]) ts) gs1 = (picks, gs2)"
    and IH: "length picks = length ts" "\<forall>p\<in>set picks. \<exists>i<length (?p gs1). p = [(0, i)]" "balanced (?p gs2)"
      "weights (?p gs2) = weights (?p gs1)" "length (?p gs2) = length (?p gs1)"
    and c: "\<forall>j<length (?p gs1). sint (current_weight (?p gs2 ! j)) = sint (current_weight (?p gs1 ! j))
      + int (length ts) * sint (pr_weight (?p gs1 ! j)) - int (count_list picks [(0, j)]) * weights (?p gs1)"
    using Cons.IH [OF ok1 b1] by blast
  have W: "weights (?p gs1) = weights (?p groups)" by (rule paid_weights [OF paid])
  have len: "length (?p gs1) = length (?p groups)" "i < length (?p groups)" using paid by (simp_all add: paid_def)
  have "sint (current_weight (?p gs2 ! j)) = sint (current_weight (?p groups ! j)) + int (length (t # ts)) * sint (pr_weight (?p groups ! j))
      - int (count_list ([(0, i)] # picks) [(0, j)]) * weights (?p groups)" if "j < length (?p groups)" for j
  proof -
    have "sint (pr_weight (?p gs1 ! j)) = sint (pr_weight (?p groups ! j))"
        "sint (current_weight (?p gs1 ! j)) = sint (current_weight (?p groups ! j)) + sint (pr_weight (?p groups ! j)) - (if j = i then weights (?p groups) else 0)"
      using paid that by (simp_all add: paid_def)
    moreover have "sint (current_weight (?p gs2 ! j)) = sint (current_weight (?p gs1 ! j))
      + int (length ts) * sint (pr_weight (?p gs1 ! j)) - int (count_list picks [(0, j)]) * weights (?p groups)"
      using c that len(1) W by simp
    ultimately show ?thesis by (cases "j = i") (simp_all add: algebra_simps)
  qed
  then show ?case
    using r1 r2 IH W len by (intro exI [of _ "[(0, i)] # picks"] exI [of _ gs2]) simp
qed simp

text \<open>Counts that never exceed their quota and add up to all quotas meet them exactly.\<close>

lemma quota_met:
  fixes c w :: "nat \<Rightarrow> int"
  assumes "\<forall>i<n. c i \<le> w i" "(\<Sum>i<n. c i) = (\<Sum>i<n. w i)" "i < n"
  shows "c i = w i"
proof (rule ccontr)
  assume "c i \<noteq> w i"
  then have "(\<Sum>i<n. c i) < (\<Sum>i<n. w i)" using assms(1,3) by (intro sum_strict_mono_ex1) force+
  then show False using assms(2) by simp
qed

lemma balanced_start:
  assumes "ps \<noteq> []" "\<forall>p\<in>set ps. healthy p \<and> current_weight p = 0" "int (length ps) * weights ps < 2 ^ 63"
  shows "balanced ps"
proof -
  have "0 < weights ps" by (rule sum_pos) (use assms in \<open>auto simp: healthy_pos\<close>)
  then show ?thesis using assms by (simp add: balanced_def)
qed

lemma init_round_robin_main:
  assumes "us_servers us = Some servers" "ngx_http_upstream_init_round_robin resolve allocated us = Some groups"
  shows "groups_ok groups \<and> length groups \<le> 2
    \<and> rr_peer_array (groups ! 0) = rr_peer_array (make_peers allocated (filter (\<lambda>s. \<not> us_backup s) servers))"
proof -
  have "ngx_http_upstream_init_round_robin (\<lambda>_ _. None) allocated us = Some groups"
    using assms by (simp add: ngx_http_upstream_init_round_robin_def)
  then have "groups_ok groups \<and> length groups \<le> 2" using init_round_robin_ok [of "\<lambda>_ _. None"] by blast
  then show ?thesis using assms by (auto simp: ngx_http_upstream_init_round_robin_def Let_def split: if_splits)
qed

lemma make_peers_weights:
  fixes f :: "64 word \<Rightarrow> int"
  assumes ps_def: "ps = rr_peer_array (make_peers allocated servers)"
  shows "(\<Sum>j<length ps. f (pr_weight (ps ! j))) = (\<Sum>s\<leftarrow>servers. int (length (us_addrs s)) * f (us_weight s))"
proof -
  have "mset ps = mset (concat (map server_peers servers))"
    by (simp add: ps_def make_peers_def Let_def mset_peers)
  then have "(\<Sum>p\<leftarrow>ps. f (pr_weight p)) = (\<Sum>p\<leftarrow>concat (map server_peers servers). f (pr_weight p))"
    by (simp flip: sum_mset_sum_list)
  also have "\<dots> = (\<Sum>s\<leftarrow>servers. int (length (us_addrs s)) * f (us_weight s))"
    by (induction servers) (simp_all add: server_peers_def zero_peer_def sum_list_triv comp_def)
  finally show ?thesis by (simp add: sum_list_sum_nth atLeast0LessThan)
qed

text \<open>The weight of one configured server is at most the sum of all.\<close>

lemma weight_le_sum:
  "s \<in> set servers \<Longrightarrow> us_addrs s \<noteq> [] \<Longrightarrow>
   uint (us_weight s) \<le> (\<Sum>s\<leftarrow>servers. int (length (us_addrs s)) * uint (us_weight s))"
proof -
  assume s: "s \<in> set servers" "us_addrs s \<noteq> []"
  let ?f = "\<lambda>s. int (length (us_addrs s)) * uint (us_weight s)"
  have "1 * uint (us_weight s) \<le> ?f s" using s(2) by (intro mult_right_mono) (simp_all add: Suc_le_eq int_one_le_iff_zero_less)
  also have "?f s \<le> (\<Sum>s\<leftarrow>servers. ?f s)" using s(1) by (intro member_le_sum_list) auto
  finally show ?thesis by simp
qed

text \<open>The peers of a block at its start.\<close>

lemma configured_balanced:
  assumes "\<forall>s\<in>set servers. \<not> us_down s \<and> 0 < us_weight s"
  and "int (\<Sum>s\<leftarrow>servers. length (us_addrs s)) * (\<Sum>s\<leftarrow>servers. int (length (us_addrs s)) * uint (us_weight s)) < 2 ^ 63"
  and ps: "ps = rr_peer_array (make_peers allocated servers)" "ps \<noteq> []"
  shows "balanced ps" and "\<forall>i<length ps. sint (pr_weight (ps ! i)) = uint (pr_weight (ps ! i)) \<and> current_weight (ps ! i) = 0"
    and "weights ps = (\<Sum>s\<leftarrow>servers. int (length (us_addrs s)) * uint (us_weight s))"
proof -
  let ?W = "\<Sum>s\<leftarrow>servers. int (length (us_addrs s)) * uint (us_weight s)"
  have len: "length ps = (\<Sum>s\<leftarrow>servers. length (us_addrs s))" using make_peers_array(2) ps(1) by simp
  have "0 \<le> ?W" by (rule sum_list_nonneg) auto
  moreover have "1 \<le> int (length ps)" using ps(2) by (simp add: Suc_le_eq int_one_le_iff_zero_less)
  ultimately have "1 * ?W \<le> int (length ps) * ?W" by (intro mult_right_mono) auto
  then have W: "?W < 2 ^ 63" using assms(2) len by simp
  have small: "uint (pr_weight p) < 2 ^ 63 \<and> 0 < pr_weight p \<and> healthy p \<and> current_weight p = 0" if p_in: "p \<in> set ps" for p
  proof -
    obtain s where s: "s \<in> set servers" "p \<in> set (server_peers s)" using p_in unfolding ps(1) make_peers_array(1) by blast
    then have p: "pr_weight p = us_weight s" "us_addrs s \<noteq> []" "effective_weight p = us_weight s" "\<not> down p" "fails p = 0" "current_weight p = 0"
      "0 < us_weight s" using assms(1) by (auto simp: server_peers_def zero_peer_def)
    then have u: "uint (us_weight s) < 2 ^ 63" using weight_le_sum [OF s(1)] W by simp
    then have "0 <s us_weight s" using p(7) sint_small by (simp add: word_sless_alt word_less_def)
    then show ?thesis using p u by (simp add: healthy_def word_gt_0)
  qed
  show c: "\<forall>i<length ps. sint (pr_weight (ps ! i)) = uint (pr_weight (ps ! i)) \<and> current_weight (ps ! i) = 0"
    using small sint_small by simp
  then have "weights ps = (\<Sum>j<length ps. uint (pr_weight (ps ! j)))" by (intro sum.cong) auto
  then show w: "weights ps = ?W" using make_peers_weights [OF ps(1), of uint] by simp
  show "balanced ps" using balanced_start [OF ps(2)] small w assms(2) len by simp
qed

text \<open>
  C13. The balancing is fair and smooth. Let the servers of an upstream block that are not backups be up, with weights
  other than 0, let \<open>W\<close> be the sum of the weights of their addresses, let \<open>W\<close> times the number of their addresses be
  below 2 to the 63 (so that the signed sums of the code do not overflow), and let the requests be served by the first peer
  they get. Then after any number \<open>k\<close> of requests each went to one main peer, and a peer of weight \<open>w\<close> was chosen fewer
  than \<open>k * w / W + 1\<close> times; and after \<open>m * W\<close> requests it was chosen exactly \<open>m * w\<close> times.
\<close>

theorem upstream_fair:
  assumes main_def: "main = filter (\<lambda>s. \<not> us_backup s) servers"
  and W_def: "W = (\<Sum>s\<leftarrow>main. int (length (us_addrs s)) * uint (us_weight s))"
  and "us_servers us = Some servers" "\<forall>s\<in>set main. \<not> us_down s \<and> 0 < us_weight s"
  and "int (\<Sum>s\<leftarrow>main. length (us_addrs s)) * W < 2 ^ 63"
  and "ngx_http_upstream_init_round_robin resolve allocated us = Some groups"
  and "upstream_requests nu (map (\<lambda>t. [(t, False, None)]) ts) groups = (picks, groups')"
  shows "let ps = rr_peer_array (groups ! 0) in
     length picks = length ts \<and> (\<forall>p\<in>set picks. \<exists>i<length ps. p = [(0, i)])
     \<and> (\<forall>i<length ps. int (count_list picks [(0, i)]) * W < int (length ts) * uint (pr_weight (ps ! i)) + W)
     \<and> (\<forall>m. int (length ts) = m * W \<longrightarrow> (\<forall>i<length ps. int (count_list picks [(0, i)]) = m * uint (pr_weight (ps ! i))))"
proof -
  define ps where "ps = rr_peer_array (groups ! 0)"
  note g = init_round_robin_main [OF assms(3,6), folded main_def ps_def]
  have "ps \<noteq> []" using groups_ok_nth [of groups 0] g by (auto simp: ps_def groups_ok_def)
  note c0 = configured_balanced [OF assms(4) assms(5) [unfolded W_def] _ this, folded W_def, of allocated]
  have ps: "ps = rr_peer_array (make_peers allocated main)" using g by simp
  have b: "balanced ps" and W: "weights ps = W" and W0: "0 < W"
    and w: "\<And>i. i < length ps \<Longrightarrow> sint (pr_weight (ps ! i)) = uint (pr_weight (ps ! i)) \<and> current_weight (ps ! i) = 0"
    using c0 [OF ps] weights_pos [of ps] by simp_all
  have len: "length picks = length ts" and all: "\<forall>p\<in>set picks. \<exists>i<length ps. p = [(0, i)]"
    and b': "balanced (rr_peer_array (groups' ! 0))" "weights (rr_peer_array (groups' ! 0)) = W" "length (rr_peer_array (groups' ! 0)) = length ps"
    and c: "\<forall>i<length ps. sint (current_weight (rr_peer_array (groups' ! 0) ! i))
         = sint (current_weight (ps ! i)) + int (length ts) * sint (pr_weight (ps ! i)) - int (count_list picks [(0, i)]) * W"
    using requests_served [OF _ _ b [unfolded ps_def], of nu ts] g assms(7) W unfolding ps_def by auto
  have smooth: "int (count_list picks [(0, i)]) * W < int (length ts) * uint (pr_weight (ps ! i)) + W" if "i < length ps" for i
    using c w [OF that] b' that by (auto simp: balanced_def)
  have "int (count_list picks [(0, i)]) = m * uint (pr_weight (ps ! i))" if m: "int (length ts) = m * W" and i: "i < length ps" for m i
  proof (rule quota_met [of "length ps" "\<lambda>i. int (count_list picks [(0, i)])" "\<lambda>i. m * uint (pr_weight (ps ! i))"])
    show "\<forall>i<length ps. int (count_list picks [(0, i)]) \<le> m * uint (pr_weight (ps ! i))"
    proof (intro allI impI)
      fix i assume "i < length ps"
      then have "int (count_list picks [(0, i)]) * W < (m * uint (pr_weight (ps ! i)) + 1) * W"
        using smooth [of i] m by (simp add: algebra_simps)
      then show "int (count_list picks [(0, i)]) \<le> m * uint (pr_weight (ps ! i))"
        using W0 by (simp only: mult_less_cancel_right) simp
    qed
    have "length picks = (\<Sum>i<length ps. count_list picks [(0, i)])"
      by (rule count_list_filter) (use all in \<open>auto simp: inj_on_def\<close>)
    then have "int (length picks) = (\<Sum>i<length ps. int (count_list picks [(0, i)]))" by simp
    then show "(\<Sum>i<length ps. int (count_list picks [(0, i)])) = (\<Sum>i<length ps. m * uint (pr_weight (ps ! i)))"
      using len m W w by (simp add: sum_distrib_left [symmetric])
  qed (use i in simp)
  then show ?thesis using len all smooth by (simp add: Let_def ps_def [symmetric])
qed

theorem upstream_fair_witness:
  "let us = \<lparr>us_servers = Some [\<lparr>us_addrs = [Sockaddr 1], us_weight = 1, us_max_fails = 1, us_fail_timeout = 10, us_down = False, us_backup = False\<rparr>,
       \<lparr>us_addrs = [Sockaddr 2], us_weight = 3, us_max_fails = 1, us_fail_timeout = 10, us_down = False, us_backup = False\<rparr>],
       us_host = [], us_port = 0, us_default_port = 0\<rparr>;
       groups = the (ngx_http_upstream_init_round_robin (\<lambda>_ _. None) True us);
       picks = fst (upstream_requests 0 (map (\<lambda>t. [(t, False, None)]) [1, 2, 3, 4]) groups)
   in picks = [[(0, 0)], [(0, 0)], [(0, 1)], [(0, 0)]]
      \<and> (\<forall>i<2. int (count_list picks [(0, i)]) = uint (pr_weight (rr_peer_array (groups ! 0) ! i)))"
  (is "let us = ?us; groups = ?gs us; picks = ?picks groups in picks = ?p \<and> _")
proof -
  let ?g = "?gs ?us" and ?r = "upstream_requests 0 (map (\<lambda>t. [(t, False, None)]) [1, 2, 3, 4]) (?gs ?us)"
  have "\<not> Option.is_none (ngx_http_upstream_init_round_robin (\<lambda>_ _. None) True ?us)" by code_simp
  then have g: "ngx_http_upstream_init_round_robin (\<lambda>_ _. None) True ?us = Some ?g" by (auto simp: Option.is_none_def)
  have p: "fst ?r = ?p" by code_simp
  have l: "length (rr_peer_array (?g ! 0)) = 2" by code_simp
  define servers where "servers = the (us_servers ?us)"
  have main: "servers = filter (\<lambda>s. \<not> us_backup s) servers" by (simp add: servers_def)
  have W: "4 = (\<Sum>s\<leftarrow>servers. int (length (us_addrs s)) * uint (us_weight s))" by (simp add: servers_def)
  have up: "us_servers ?us = Some servers" "\<forall>s\<in>set servers. \<not> us_down s \<and> 0 < us_weight s"
    "int (\<Sum>s\<leftarrow>servers. length (us_addrs s)) * 4 < 2 ^ 63" by (simp_all add: servers_def)
  note fair = upstream_fair [OF main W up g surjective_pairing, of 0 "[1, 2, 3, 4]", unfolded Let_def l]
  have "int (length [1, 2, 3, 4 :: time_t]) = 1 * 4" by simp
  then have "\<forall>i<2. int (count_list (fst ?r) [(0, i)]) = uint (pr_weight (rr_peer_array (?g ! 0) ! i))"
    using conjunct2 [OF conjunct2 [OF conjunct2 [OF fair]]] by (metis mult_1)
  then show ?thesis unfolding Let_def using p by blast
qed

text \<open>
  Without the bound the sums overflow and the shares are lost: of two servers with the largest weight that the directive
  accepts, the first gets the first two requests.
\<close>

lemma upstream_weight_overflow:
  "let server = \<lparr>us_addrs = [Sockaddr 1], us_weight = 2 ^ 63 - 1, us_max_fails = 1, us_fail_timeout = 10, us_down = False, us_backup = False\<rparr>;
       us = \<lparr>us_servers = Some [server, server\<lparr>us_addrs := [Sockaddr 2]\<rparr>], us_host = [], us_port = 0, us_default_port = 0\<rparr>;
       groups = the (ngx_http_upstream_init_round_robin (\<lambda>_ _. None) True us)
   in fst (upstream_requests 0 (map (\<lambda>t. [(t, False, None)]) [1, 2]) groups) = [[(0, 0)], [(0, 0)]]"
  by code_simp

section \<open>No live upstreams\<close>

text \<open>A peer that no request gets at this time.\<close>

definition rr_dead :: "time_t \<Rightarrow> rr_peer \<Rightarrow> bool" where
  "rr_dead now p \<longleftrightarrow> down p \<or> max_fails p \<noteq> 0 \<and> fails p \<ge> max_fails p \<and> now - checked p \<le>s fail_timeout p"

lemma rr_skip_dead: "rr_skip now tried i p \<longleftrightarrow> tried_test tried i \<or> rr_dead now p"
  by (auto simp: rr_skip_def rr_dead_def)

definition no_live :: "time_t \<Rightarrow> rr_peers list \<Rightarrow> rr_data \<Rightarrow> bool" where
  "no_live now groups rrp \<longleftrightarrow>
     (\<forall>k i. rrp_peers rrp \<le> k \<longrightarrow> k < length groups \<longrightarrow> i < length (rr_peer_array (groups ! k))
        \<longrightarrow> rr_dead now (rr_peer_array (groups ! k) ! i) \<or> k = rrp_peers rrp \<and> tried_test (rrp_tried rrp) i)"

lemma no_live_step:
  assumes "rrp_peers rrp < length groups" "rrp_peers rrp + 1 < length groups"
  and "n = tried_words (length (rr_peer_array (groups ! (rrp_peers rrp + 1))))"
  shows "no_live now groups rrp \<longleftrightarrow>
     (\<forall>i<length (rr_peer_array (groups ! rrp_peers rrp)). \<not> eligible now rrp (rr_peer_array (groups ! rrp_peers rrp)) i)
     \<and> no_live now groups (rrp\<lparr>rrp_peers := rrp_peers rrp + 1, rrp_tried := replicate n 0 @ drop n (rrp_tried rrp)\<rparr>)"
proof -
  have "\<not> tried_test (replicate n 0 @ drop n (rrp_tried rrp)) i" if "i < length (rr_peer_array (groups ! (rrp_peers rrp + 1)))" for i
    using that tried_words_room [of "length (rr_peer_array (groups ! (rrp_peers rrp + 1)))"] assms(3) by (intro tried_test_zero) simp
  moreover have "rrp_peers rrp \<le> k \<longleftrightarrow> k = rrp_peers rrp \<or> rrp_peers rrp + 1 \<le> k" for k by auto
  ultimately show ?thesis using assms(1,2) unfolding no_live_def rr_skip_dead by simp blast
qed

definition revived :: "nat \<Rightarrow> rr_peers list \<Rightarrow> bool" where
  "revived k groups \<longleftrightarrow> (\<forall>j. k \<le> j \<longrightarrow> j < length groups \<longrightarrow> (\<forall>p\<in>set (rr_peer_array (groups ! j)). fails p = 0))"

lemma revived_step: "revived (k + 1) groups \<Longrightarrow> \<forall>p\<in>set ps. fails p = 0 \<Longrightarrow> revived k (groups[k := g\<lparr>rr_peer_array := ps\<rparr>])"
  unfolding revived_def by (simp add: nth_list_update) (metis Suc_leI le_neq_implies_less)

lemma get_busy:
  assumes "groups_ok groups" "room groups rrp" "\<forall>g\<in>set groups. \<not> rr_single g"
  and "ngx_http_upstream_get_round_robin_peer now groups rrp pc = (rc, groups', rrp', pc')"
  shows "(rc = NGX_BUSY \<longleftrightarrow> no_live now groups rrp) \<and> (rc = NGX_BUSY \<longrightarrow> revived (rrp_peers rrp) groups')"
  using assms
proof (induction "length groups - rrp_peers rrp" arbitrary: groups rrp pc rc groups' rrp' pc' rule: less_induct)
  case less
  define k where "k = rrp_peers rrp"
  have kl: "k < length groups" using less.prems(2) by (simp add: room_def k_def)
  have ns: "\<not> rr_single (groups ! k)" using less.prems(3) kl by simp
  obtain r ps rrp1 where pick: "group_pick now (groups ! k) rrp = (r, ps, rrp1)" by (metis prod_cases3)
  have get: "ngx_http_upstream_get_peer now (rr_peer_array (groups ! k)) rrp = (r, ps, rrp1)"
    using pick ns by (simp add: group_pick_def)
  note step = get_round_robin_step [OF less.prems(1) kl [unfolded k_def] pick [unfolded k_def], of pc, folded k_def]
  show ?case
  proof (cases r)
    case (Some i)
    have "rc = NGX_OK" using less.prems(4) unfolding step Some by (auto simp: Let_def split: if_splits)
    moreover have "\<not> no_live now groups rrp"
      using get_peer_Some [OF get [unfolded Some]] kl by (auto simp: no_live_def rr_skip_dead k_def)
    ultimately show ?thesis by simp
  next
    case None
    note n = get_peer_None [OF get [unfolded None]]
    show ?thesis
    proof (cases "k + 1 < length groups")
      case True
      define rrp2 where "rrp2 = rrp\<lparr>rrp_peers := k + 1, rrp_tried := replicate (tried_words (length (rr_peer_array (groups ! (k + 1))))) 0
         @ drop (tried_words (length (rr_peer_array (groups ! (k + 1))))) (rrp_tried rrp)\<rparr>"
      have "tried_words (length (rr_peer_array (groups ! (k + 1)))) \<le> length (rrp_tried rrp)"
        using less.prems(2) True by (auto simp: room_def intro: tried_words_le)
      then have rm: "room groups rrp2" using less.prems(2) True by (simp add: room_def rrp2_def)
      obtain rc1 gs1 rrp3 pc1 where rec: "ngx_http_upstream_get_round_robin_peer now groups rrp2
          (pc\<lparr>pc_cached := False, pc_connection := None, pc_tries := length (rr_peer_array (groups ! (k + 1)))\<rparr>) = (rc1, gs1, rrp3, pc1)"
        by (metis prod_cases4)
      have IH: "(rc1 = NGX_BUSY \<longleftrightarrow> no_live now groups rrp2) \<and> (rc1 = NGX_BUSY \<longrightarrow> revived (k + 1) gs1)"
        using less.hyps [OF _ less.prems(1) rm less.prems(3) rec] kl by (simp add: rrp2_def k_def)
      have nl: "no_live now groups rrp \<longleftrightarrow> no_live now groups rrp2"
        using no_live_step [of rrp groups _ now] n kl True by (simp add: rrp2_def k_def)
      have "(rc, groups') = (if rc1 \<noteq> NGX_BUSY then (rc1, gs1)
          else (NGX_BUSY, gs1[k := (gs1 ! k)\<lparr>rr_peer_array := map (\<lambda>p. p\<lparr>fails := 0\<rparr>) (rr_peer_array (gs1 ! k))\<rparr>]))"
        using less.prems(4) True rec n unfolding step None by (auto simp: Let_def rrp2_def split: if_splits)
      then show ?thesis
        using IH nl revived_step [of k gs1 "map (\<lambda>p. p\<lparr>fails := 0\<rparr>) (rr_peer_array (gs1 ! k))"] by (auto simp: k_def split: if_splits)
    next
      case False
      then have "rc = NGX_BUSY" "groups' = groups[k := (groups ! k)\<lparr>rr_peer_array := map (\<lambda>p. p\<lparr>fails := 0\<rparr>) (rr_peer_array (groups ! k))\<rparr>]"
        using less.prems(4) n unfolding step None by (auto simp: Let_def)
      moreover have "no_live now groups rrp"
        using n False by (auto simp: no_live_def rr_skip_dead k_def le_less)
      moreover have "revived (k + 1) groups" using False by (auto simp: revived_def)
      ultimately show ?thesis
        using revived_step [of k groups "map (\<lambda>p. p\<lparr>fails := 0\<rparr>) (rr_peer_array (groups ! k))"] by (simp add: k_def)
    qed
  qed
qed

text \<open>
  C38. A request ends with "no live upstreams" only when there is none: with several servers, \<open>NGX_BUSY\<close> is
  returned exactly when each peer of the request's group and of the groups after it is down, has failed too often within its
  timeout, or (in the group itself) was tried by this request; then the failures of all of these are forgotten,
  so that a later request tries them again. In every other case the request gets a peer that is not down.
\<close>

theorem upstream_busy:
  assumes "groups_ok groups" "room groups rrp" "\<forall>g\<in>set groups. \<not> rr_single g"
  and "ngx_http_upstream_get_round_robin_peer now groups rrp pc = (rc, groups', rrp', pc')"
  shows "if no_live now groups rrp then rc = NGX_BUSY \<and> revived (rrp_peers rrp) groups'
     else rc = NGX_OK \<and> \<not> down (rr_peer_array (groups' ! rrp_peers rrp') ! rrp_current rrp') \<and> pc_sockaddr pc' \<noteq> None"
  using get_busy [OF assms] get_round_robin_post [OF assms] by (auto simp: get_post_def)

theorem upstream_busy_witness:
  "let p = \<lparr>pr_sockaddr = Sockaddr 1, current_weight = 0, effective_weight = 1, pr_weight = 1, fails = 1, accessed = 5, checked = 5,
        max_fails = 1, fail_timeout = 10, down = False\<rparr>;
       groups = [zero_peers\<lparr>rr_peer_array := [p, p\<lparr>down := True\<rparr>]\<rparr>];
       rrp = \<lparr>rrp_peers = 0, rrp_current = 0, rrp_tried = [0]\<rparr>;
       pc = \<lparr>pc_connection = None, pc_sockaddr = None, pc_tries = 2, pc_cached = False\<rparr>;
       r = ngx_http_upstream_get_round_robin_peer 6 groups rrp pc
   in fst r = NGX_BUSY \<and> revived 0 (fst (snd r))"
  (is "let p = ?p; groups = ?gs p; rrp = ?rrp; pc = ?pc; r = ?r groups rrp pc in _")
proof -
  have ok: "groups_ok (?gs ?p)" "room (?gs ?p) ?rrp" "\<forall>g\<in>set (?gs ?p). \<not> rr_single g"
    by (auto simp: groups_ok_def room_def zero_peers_def peer_ok_def)
  have "no_live 6 (?gs ?p) ?rrp" by (auto simp: no_live_def rr_dead_def zero_peers_def less_Suc_eq word_sle_eq)
  moreover obtain rc gs' rrp' pc' where r: "?r (?gs ?p) ?rrp ?pc = (rc, gs', rrp', pc')" by (metis prod_cases4)
  ultimately have "rc = NGX_BUSY \<and> revived 0 gs'" using upstream_busy [OF ok r] by simp
  then show ?thesis using r by simp
qed

end
