(* ===== verification/NgxRadix.thy ===== *)
theory NgxRadix
  imports Prelude "HOL-Library.Sublist"
begin

text \<open>
  The radix trees of \<^verbatim>\<open>src/core/ngx_radix_tree.c\<close>, which keep networks and find the longest one that an
  address lies in. A tree is a value and a node under change is a zipper: the node, and the way up to the
  root that its parent pointers give. An insertion or a deletion goes down along the bits of the key
  that the mask has, so it is written over that list of bits, with \<open>bits32\<close> and \<open>bits128\<close> the loops over
  the bits of a 32-bit word and of 16 bytes. The allocator of pages is an argument.
\<close>

unbundle bit_operations_syntax

section \<open>Definitions\<close>

abbreviation (input) NGX_RADIX_NO_VALUE :: ngx_uint_t where
  "NGX_RADIX_NO_VALUE \<equiv> - 1"

text \<open>\<open>ngx_radix_node_t\<close> with its children, \<open>Rnull\<close> a null pointer; and a step of the way up, to a parent with
  this value and other child.\<close>

datatype radix_node = Rnull | Rnode (rn_left: radix_node) (rn_value: ngx_uint_t) (rn_right: radix_node)

datatype radix_up = Left_of ngx_uint_t radix_node | Right_of ngx_uint_t radix_node

fun radix_zip :: "radix_node \<Rightarrow> radix_up list \<Rightarrow> radix_node" where
  "radix_zip node [] = node"
| "radix_zip node (Left_of v r # path) = radix_zip (Rnode node v r) path"
| "radix_zip node (Right_of v l # path) = radix_zip (Rnode l v node) path"

fun radix_down :: "bool \<Rightarrow> radix_node \<Rightarrow> radix_up list \<Rightarrow> radix_up list" where
  "radix_down b (Rnode l v r) path = (if b then Right_of v l else Left_of v r) # path"
| "radix_down b Rnull path = path"

fun radix_child :: "bool \<Rightarrow> radix_node \<Rightarrow> radix_node" where
  "radix_child b (Rnode l v r) = (if b then r else l)"
| "radix_child b Rnull = Rnull"

fun set_value :: "ngx_uint_t \<Rightarrow> radix_node \<Rightarrow> radix_node" where
  "set_value v (Rnode l _ r) = Rnode l v r"
| "set_value v Rnull = Rnull"

text \<open>\<open>ngx_radix_tree_t\<close>: the root, the number of freed nodes, the bytes left in the page, the pages asked for so far.\<close>

record radix_tree =
  rx_root :: radix_node
  rx_free :: nat
  rx_size :: nat
  rx_pages :: nat

text \<open>\<open>ngx_radix_alloc\<close>: \<open>pmem\<close> says which calls of \<open>ngx_pmemalign\<close> succeed. A node takes 32 bytes of a page of 4096.\<close>

definition ngx_radix_alloc :: "(nat \<Rightarrow> bool) \<Rightarrow> radix_tree \<Rightarrow> bool \<times> radix_tree" where
  "ngx_radix_alloc pmem tree =
     (if rx_free tree \<noteq> 0 then (True, tree\<lparr>rx_free := rx_free tree - 1\<rparr>)
      else if rx_size tree < 32
      then (if pmem (rx_pages tree) then (True, tree\<lparr>rx_size := 4096 - 32, rx_pages := rx_pages tree + 1\<rparr>)
            else (False, tree\<lparr>rx_pages := rx_pages tree + 1\<rparr>))
      else (True, tree\<lparr>rx_size := rx_size tree - 32\<rparr>))"

text \<open>The loop down the tree; the last component says that it stopped at a null pointer.\<close>

fun radix_walk :: "bool list \<Rightarrow> radix_node \<Rightarrow> radix_up list \<Rightarrow> bool list \<times> radix_node \<times> radix_up list \<times> bool" where
  "radix_walk [] node path = ([], node, path, False)"
| "radix_walk (b # bs) node path =
     (if radix_child b node = Rnull then (b # bs, node, path, True)
      else radix_walk bs (radix_child b node) (radix_down b node path))"

text \<open>The loop that adds the missing nodes.\<close>

fun radix_grow ::
  "(nat \<Rightarrow> bool) \<Rightarrow> bool list \<Rightarrow> radix_node \<Rightarrow> radix_up list \<Rightarrow> radix_tree
   \<Rightarrow> bool \<times> radix_node \<times> radix_up list \<times> radix_tree" where
  "radix_grow pmem [] node path tree = (True, node, path, tree)"
| "radix_grow pmem (b # bs) node path tree =
     (case ngx_radix_alloc pmem tree of
        (False, tree) \<Rightarrow> (False, node, path, tree)
      | (True, tree) \<Rightarrow> radix_grow pmem bs (Rnode Rnull NGX_RADIX_NO_VALUE Rnull) (radix_down b node path) tree)"

definition radix_insert :: "(nat \<Rightarrow> bool) \<Rightarrow> radix_tree \<Rightarrow> bool list \<Rightarrow> ngx_uint_t \<Rightarrow> ngx_rc \<times> radix_tree" where
  "radix_insert pmem tree bits v =
     (let (bs, node, path, null) = radix_walk bits (rx_root tree) [] in
      if \<not> null
      then (if rn_value node \<noteq> NGX_RADIX_NO_VALUE then (NGX_BUSY, tree)
            else (NGX_OK, tree\<lparr>rx_root := radix_zip (set_value v node) path\<rparr>))
      else let (ok, node, path, tree) = radix_grow pmem bs node path tree in
        if \<not> ok then (NGX_ERROR, tree\<lparr>rx_root := radix_zip node path\<rparr>)
        else (NGX_OK, tree\<lparr>rx_root := radix_zip (set_value v node) path\<rparr>))"

fun radix_seek :: "bool list \<Rightarrow> radix_node \<Rightarrow> radix_up list \<Rightarrow> radix_node \<times> radix_up list" where
  "radix_seek [] node path = (node, path)"
| "radix_seek (b # bs) node path =
     (if node = Rnull then (Rnull, path) else radix_seek bs (radix_child b node) (radix_down b node path))"

text \<open>The loop that frees a node without children and then its parents that have neither children nor a
  value; \<open>None\<close> is the access through the null parent of the root.\<close>

fun radix_prune :: "radix_up list \<Rightarrow> nat \<Rightarrow> (radix_node \<times> nat) option" where
  "radix_prune [] freed = None"
| "radix_prune (up # path) freed =
     (let node = radix_zip Rnull [up] in
      if rn_right node \<noteq> Rnull \<or> rn_left node \<noteq> Rnull \<or> rn_value node \<noteq> NGX_RADIX_NO_VALUE \<or> path = []
      then Some (radix_zip node path, freed + 1)
      else radix_prune path (freed + 1))"

definition radix_delete :: "radix_tree \<Rightarrow> bool list \<Rightarrow> (ngx_rc \<times> radix_tree) option" where
  "radix_delete tree bits =
     (let (node, path) = radix_seek bits (rx_root tree) [] in
      if node = Rnull then Some (NGX_ERROR, tree)
      else if rn_right node \<noteq> Rnull \<or> rn_left node \<noteq> Rnull
      then (if rn_value node \<noteq> NGX_RADIX_NO_VALUE
            then Some (NGX_OK, tree\<lparr>rx_root := radix_zip (set_value NGX_RADIX_NO_VALUE node) path\<rparr>)
            else Some (NGX_ERROR, tree))
      else case radix_prune path (rx_free tree) of
             None \<Rightarrow> None
           | Some (root, freed) \<Rightarrow> Some (NGX_OK, tree\<lparr>rx_root := root, rx_free := freed\<rparr>))"

lemma unat_half_less: "w \<noteq> 0 \<Longrightarrow> unat (drop_bit (Suc 0) w) < unat (w :: 'a::len word)"
proof -
  assume "w \<noteq> 0"
  then have "0 < unat w" by (simp add: unat_gt_0)
  moreover have "unat (drop_bit (Suc 0) w) = unat w div 2" by (subst unat_drop_bit_eq) (simp add: drop_bit_eq_div)
  ultimately show ?thesis by simp
qed

text \<open>The bits of a key under a mask, from \<open>bt\<close> on.\<close>

function bits32 :: "u32 \<Rightarrow> u32 \<Rightarrow> u32 \<Rightarrow> bool list" where
  "bits32 key msk bt =
     (if bt AND msk \<noteq> 0 then (key AND bt \<noteq> 0) # bits32 key msk (drop_bit 1 bt) else [])"
  by pat_completeness auto
termination
  by (relation "measure (\<lambda>(key, msk, bt). unat bt)") (auto intro!: unat_half_less)

function bits128 :: "bytes \<Rightarrow> bytes \<Rightarrow> nat \<Rightarrow> byte \<Rightarrow> bool list" where
  "bits128 key msk i bt =
     (if bt AND msk ! i \<noteq> 0
      then (key ! i AND bt \<noteq> 0) #
        (if drop_bit 1 bt = 0 then (if i + 1 \<ge> 16 then [] else bits128 key msk (i + 1) 0x80)
         else bits128 key msk i (drop_bit 1 bt))
      else [])"
  by pat_completeness auto
termination
  by (relation "measures [\<lambda>(key, msk, i, bt). 16 - i, \<lambda>(key, msk, i, bt). unat bt]") (auto intro!: unat_half_less)

declare bits32.simps [simp del] bits128.simps [simp del]

definition ngx_radix32tree_insert :: "(nat \<Rightarrow> bool) \<Rightarrow> radix_tree \<Rightarrow> u32 \<Rightarrow> u32 \<Rightarrow> ngx_uint_t \<Rightarrow> ngx_rc \<times> radix_tree" where
  "ngx_radix32tree_insert pmem tree key msk v = radix_insert pmem tree (bits32 key msk 0x80000000) v"

definition ngx_radix32tree_delete :: "radix_tree \<Rightarrow> u32 \<Rightarrow> u32 \<Rightarrow> (ngx_rc \<times> radix_tree) option" where
  "ngx_radix32tree_delete tree key msk = radix_delete tree (bits32 key msk 0x80000000)"

definition ngx_radix128tree_insert :: "(nat \<Rightarrow> bool) \<Rightarrow> radix_tree \<Rightarrow> bytes \<Rightarrow> bytes \<Rightarrow> ngx_uint_t \<Rightarrow> ngx_rc \<times> radix_tree" where
  "ngx_radix128tree_insert pmem tree key msk v = radix_insert pmem tree (bits128 key msk 0 0x80) v"

definition ngx_radix128tree_delete :: "radix_tree \<Rightarrow> bytes \<Rightarrow> bytes \<Rightarrow> (ngx_rc \<times> radix_tree) option" where
  "ngx_radix128tree_delete tree key msk = radix_delete tree (bits128 key msk 0 0x80)"

text \<open>The search; in the version for 16 bytes, \<open>None\<close> is a read behind the key.\<close>

fun find32_loop :: "u32 \<Rightarrow> u32 \<Rightarrow> ngx_uint_t \<Rightarrow> radix_node \<Rightarrow> ngx_uint_t" where
  "find32_loop key bt v Rnull = v"
| "find32_loop key bt v (Rnode l nv r) =
     find32_loop key (drop_bit 1 bt) (if nv \<noteq> NGX_RADIX_NO_VALUE then nv else v) (if key AND bt \<noteq> 0 then r else l)"

definition ngx_radix32tree_find :: "radix_tree \<Rightarrow> u32 \<Rightarrow> ngx_uint_t" where
  "ngx_radix32tree_find tree key = find32_loop key 0x80000000 NGX_RADIX_NO_VALUE (rx_root tree)"

fun find128_loop :: "bytes \<Rightarrow> nat \<Rightarrow> byte \<Rightarrow> ngx_uint_t \<Rightarrow> radix_node \<Rightarrow> ngx_uint_t option" where
  "find128_loop key i bt v Rnull = Some v"
| "find128_loop key i bt v (Rnode l nv r) =
     (if i \<ge> length key then None
      else find128_loop key (if drop_bit 1 bt = 0 then i + 1 else i) (if drop_bit 1 bt = 0 then 0x80 else drop_bit 1 bt)
             (if nv \<noteq> NGX_RADIX_NO_VALUE then nv else v) (if key ! i AND bt \<noteq> 0 then r else l))"

definition ngx_radix128tree_find :: "radix_tree \<Rightarrow> bytes \<Rightarrow> ngx_uint_t option" where
  "ngx_radix128tree_find tree key = find128_loop key 0 0x80 NGX_RADIX_NO_VALUE (rx_root tree)"

text \<open>
  \<open>ngx_radix_tree_create\<close>: the loop over the keys of a level, where \<open>None\<close> is that it does not end, and the one over
  the levels. When memory runs out there is no tree.
\<close>

partial_function (option) radix_level ::
  "(nat \<Rightarrow> bool) \<Rightarrow> u32 \<Rightarrow> u32 \<Rightarrow> u32 \<Rightarrow> radix_tree \<Rightarrow> radix_tree option option" where
  "radix_level pmem key msk inc tree =
     (case ngx_radix32tree_insert pmem tree key msk NGX_RADIX_NO_VALUE of
        (rc, tree) \<Rightarrow>
          if rc \<noteq> NGX_OK then Some None
          else if key + inc \<noteq> 0 then radix_level pmem (key + inc) msk inc tree
          else Some (Some tree))"

declare radix_level.simps [code]

fun radix_preallocate :: "(nat \<Rightarrow> bool) \<Rightarrow> nat \<Rightarrow> u32 \<Rightarrow> u32 \<Rightarrow> radix_tree \<Rightarrow> radix_tree option option" where
  "radix_preallocate pmem 0 msk inc tree = Some (Some tree)"
| "radix_preallocate pmem (Suc n) msk inc tree =
     (let msk = drop_bit 1 msk OR 0x80000000 in
      case radix_level pmem 0 msk inc tree of
        None \<Rightarrow> None
      | Some None \<Rightarrow> Some None
      | Some (Some tree) \<Rightarrow> radix_preallocate pmem n msk (drop_bit 1 inc) tree)"

definition ngx_radix_tree_create :: "(nat \<Rightarrow> bool) \<Rightarrow> ngx_int_t \<Rightarrow> radix_tree option option" where
  "ngx_radix_tree_create pmem preallocate =
     (case ngx_radix_alloc pmem \<lparr>rx_root = Rnull, rx_free = 0, rx_size = 0, rx_pages = 0\<rparr> of
        (False, _) \<Rightarrow> Some None
      | (True, tree) \<Rightarrow>
          (let tree = tree\<lparr>rx_root := Rnode Rnull NGX_RADIX_NO_VALUE Rnull\<rparr> in
           if preallocate = 0 then Some (Some tree)
           else radix_preallocate pmem (unat (if preallocate = - 1 then 6 else preallocate)) 0 0x80000000 tree))"

section \<open>The table that a tree stands for\<close>

text \<open>The value of the network with these bits, \<open>NGX_RADIX_NO_VALUE\<close> when there is none.\<close>

fun radix_get :: "radix_node \<Rightarrow> bool list \<Rightarrow> ngx_uint_t" where
  "radix_get Rnull bs = NGX_RADIX_NO_VALUE"
| "radix_get (Rnode l v r) [] = v"
| "radix_get (Rnode l v r) (b # bs) = radix_get (if b then r else l) bs"

lemma radix_get_Cons: "radix_get node (b # bs) = radix_get (radix_child b node) bs"
  by (cases node) auto

lemma radix_get_Nil: "radix_get node [] = (if node = Rnull then NGX_RADIX_NO_VALUE else rn_value node)"
  by (cases node) auto

lemma radix_get_set_value:
  "node \<noteq> Rnull \<Longrightarrow> radix_get (set_value v node) bs = (if bs = [] then v else radix_get node bs)"
  by (cases node; cases bs) auto

lemma set_value_Rnull [simp]: "set_value v node = Rnull \<longleftrightarrow> node = Rnull"
  by (cases node) auto

text \<open>The bits of a way up, from the root down.\<close>

fun up_bit :: "radix_up \<Rightarrow> bool" where
  "up_bit (Left_of v r) = False"
| "up_bit (Right_of v l) = True"

definition path_bits :: "radix_up list \<Rightarrow> bool list" where
  "path_bits path = rev (map up_bit path)"

lemma path_bits_simps [simp]: "path_bits [] = []" "path_bits (up # path) = path_bits path @ [up_bit up]"
  by (simp_all add: path_bits_def)

lemma path_bits_down [simp]: "node \<noteq> Rnull \<Longrightarrow> path_bits (radix_down b node path) = path_bits path @ [b]"
  by (cases node) auto

lemma radix_zip_step: "radix_zip node (up # path) = radix_zip (radix_zip node [up]) path"
  by (cases up) auto

lemma radix_get_up: "radix_get (radix_zip node [up]) (b # bs) = (if b = up_bit up then radix_get node bs else radix_get (radix_zip Rnull [up]) (b # bs))"
  by (cases up) auto

lemma radix_get_up_Nil: "radix_get (radix_zip node [up]) [] = radix_get (radix_zip Rnull [up]) []"
  by (cases up) auto

text \<open>Trees are compared by what they hold; putting together again two nodes that hold the same gives the same.\<close>

lemma radix_zip_cong: "radix_get n1 = radix_get n2 \<Longrightarrow> radix_get (radix_zip n1 path) = radix_get (radix_zip n2 path)"
proof (induction path arbitrary: n1 n2)
  case (Cons up path)
  have "radix_get (radix_zip n1 [up]) bs = radix_get (radix_zip n2 [up]) bs" for bs
    using Cons.prems by (cases bs; cases up) auto
  then show ?case using Cons.IH [of "radix_zip n1 [up]" "radix_zip n2 [up]"] radix_zip_step by (metis ext)
qed simp

lemma radix_zip_update:
  assumes "\<forall>bs. radix_get n2 bs = (if bs = [] then v else radix_get n1 bs)"
  shows "radix_get (radix_zip n2 path) q = (if q = path_bits path then v else radix_get (radix_zip n1 path) q)"
proof -
  have gen: "radix_get (radix_zip n2 path) q = (if q = path_bits path @ p then v else radix_get (radix_zip n1 path) q)"
    if "\<forall>bs. radix_get n2 bs = (if bs = p then v else radix_get n1 bs)" for p n1 n2
    using that
  proof (induction path arbitrary: n1 n2 p)
    case (Cons up path)
    have "\<forall>bs. radix_get (radix_zip n2 [up]) bs = (if bs = up_bit up # p then v else radix_get (radix_zip n1 [up]) bs)"
    proof
      fix bs show "radix_get (radix_zip n2 [up]) bs = (if bs = up_bit up # p then v else radix_get (radix_zip n1 [up]) bs)"
        using Cons.prems by (cases bs; cases up) auto
    qed
    from Cons.IH [OF this] show ?case by (simp add: radix_zip_step [of _ up path])
  qed simp
  show ?thesis using gen [of n2 "[]" n1] assms by simp
qed

lemma radix_get_zip: "radix_get (radix_zip node path) (path_bits path @ q) = radix_get node q"
proof (induction path arbitrary: node q)
  case (Cons up path)
  show ?case using Cons [of "radix_zip node [up]" "up_bit up # q"]
    by (subst radix_zip_step) (simp add: radix_get_up del: radix_zip.simps)
qed simp

lemma radix_zip_not_null: "node \<noteq> Rnull \<Longrightarrow> radix_zip node path \<noteq> Rnull"
proof (induction path arbitrary: node)
  case (Cons up path)
  then show ?case by (cases up) simp_all
qed simp

lemma radix_zip_down: "node \<noteq> Rnull \<Longrightarrow> radix_zip (radix_child b node) (radix_down b node path) = radix_zip node path"
  by (cases node) auto

section \<open>Insertion\<close>

lemma radix_walk_spec:
  assumes "radix_walk bits node path = (bs, node', path', null)" "node \<noteq> Rnull"
  shows "radix_zip node' path' = radix_zip node path \<and> path_bits path' @ bs = path_bits path @ bits \<and> node' \<noteq> Rnull
    \<and> (if null then bs \<noteq> [] \<and> radix_child (hd bs) node' = Rnull else bs = [])"
  using assms
proof (induction bits node path rule: radix_walk.induct)
  case (2 b bits node path)
  show ?case
  proof (cases "radix_child b node = Rnull")
    case False
    then show ?thesis using 2 by (simp add: radix_zip_down)
  qed (use 2 in auto)
qed auto

lemma radix_get_new: "radix_get (Rnode Rnull NGX_RADIX_NO_VALUE Rnull) bs = NGX_RADIX_NO_VALUE"
  by (cases bs) auto

lemma radix_new_child:
  assumes "node \<noteq> Rnull" "radix_child b node = Rnull"
  shows "radix_get (radix_zip (Rnode Rnull NGX_RADIX_NO_VALUE Rnull) (radix_down b node path)) = radix_get (radix_zip node path)"
proof -
  have "radix_get (radix_zip Rnull (radix_down b node path)) = radix_get (radix_zip node path)"
    using assms radix_zip_down [of node b path] by simp
  then show ?thesis using radix_zip_cong [of "Rnode Rnull NGX_RADIX_NO_VALUE Rnull" Rnull] radix_get_new by (metis ext radix_get.simps(1))
qed

lemma radix_grow_spec:
  assumes "radix_grow pmem bs node path tree = (ok, node', path', tree')" "node \<noteq> Rnull"
  and "bs \<noteq> [] \<longrightarrow> radix_child (hd bs) node = Rnull"
  shows "radix_get (radix_zip node' path') = radix_get (radix_zip node path) \<and> node' \<noteq> Rnull
    \<and> (ok \<longrightarrow> path_bits path' = path_bits path @ bs) \<and> ((\<forall>n. pmem n) \<longrightarrow> ok)"
  using assms
proof (induction pmem bs node path tree rule: radix_grow.induct)
  case (2 pmem b bs node path tree)
  obtain a tree1 where al: "ngx_radix_alloc pmem tree = (a, tree1)" by fastforce
  show ?case
  proof (cases a)
    case True
    have "bs \<noteq> [] \<longrightarrow> radix_child (hd bs) (Rnode Rnull NGX_RADIX_NO_VALUE Rnull) = Rnull" by simp
    then show ?thesis
      using "2.IH" [of True tree1] "2.prems" True al radix_new_child [of node b path] by simp
  next
    case False
    then have "\<not> (\<forall>n. pmem n)" using al by (auto simp: ngx_radix_alloc_def split: if_splits)
    then show ?thesis using "2.prems" al False by auto
  qed
qed auto

lemma radix_insert_spec:
  assumes i: "radix_insert pmem tree bits v = (rc, tree')" and root: "rx_root tree \<noteq> Rnull"
  shows "rx_root tree' \<noteq> Rnull
    \<and> (if radix_get (rx_root tree) bits \<noteq> NGX_RADIX_NO_VALUE then rc = NGX_BUSY \<and> tree' = tree
       else rc = NGX_OK \<and> radix_get (rx_root tree') = (radix_get (rx_root tree))(bits := v)
         \<or> rc = NGX_ERROR \<and> radix_get (rx_root tree') = radix_get (rx_root tree) \<and> \<not> (\<forall>n. pmem n))"
proof -
  obtain bs node path null where w: "radix_walk bits (rx_root tree) [] = (bs, node, path, null)" by (metis prod_cases4)
  note ws = radix_walk_spec [OF w root]
  have upd: "radix_get (radix_zip (set_value v n) p) = (radix_get (radix_zip n p))(path_bits p := v)" if "n \<noteq> Rnull" for n p
    using radix_zip_update [of "set_value v n" v n p] radix_get_set_value [OF that] by fastforce
  have get: "radix_get (rx_root tree) (path_bits path @ q) = radix_get node q" for q
    using radix_get_zip [of node path q] ws by simp
  show ?thesis
  proof (cases null)
    case False
    then have "bs = []" "path_bits path = bits" "radix_zip node path = rx_root tree" "node \<noteq> Rnull" using ws by auto
    then show ?thesis
      using i w False get [of "[]"] upd [of node path] root radix_zip_not_null [of "set_value v node" path]
      by (auto simp: radix_insert_def radix_get_Nil split: if_splits)
  next
    case True
    obtain ok node2 path2 tree2 where g: "radix_grow pmem bs node path tree = (ok, node2, path2, tree2)" by (metis prod_cases4)
    have gs: "radix_get (radix_zip node2 path2) = radix_get (rx_root tree)" "node2 \<noteq> Rnull" "ok \<Longrightarrow> path_bits path2 = bits" "(\<forall>n. pmem n) \<Longrightarrow> ok"
      using radix_grow_spec [OF g] ws True by auto
    have "radix_get node bs = NGX_RADIX_NO_VALUE" using ws True by (cases bs) (auto simp: radix_get_Cons)
    then have "radix_get (rx_root tree) bits = NGX_RADIX_NO_VALUE" using get [of bs] ws by simp
    then show ?thesis
      using i w g True gs upd [of node2 path2] radix_zip_not_null [of node2 path2] radix_zip_not_null [of "set_value v node2" path2]
      by (auto simp: radix_insert_def split: if_splits)
  qed
qed

section \<open>Deletion\<close>

lemma radix_seek_Rnull: "radix_seek bits Rnull path = (node, path') \<Longrightarrow> node = Rnull"
  by (cases bits) auto

lemma radix_seek_spec:
  "radix_seek bits node path = (node', path') \<Longrightarrow>
   (node' \<noteq> Rnull \<longrightarrow> radix_zip node' path' = radix_zip node path \<and> path_bits path' = path_bits path @ bits \<and> length path' = length path + length bits)
   \<and> radix_get node' [] = radix_get node bits"
proof (induction bits node path rule: radix_seek.induct)
  case (2 b bits node path)
  show ?case
  proof (cases "node = Rnull")
    case False
    then have "length (radix_down b node path) = length path + 1" by (cases node) auto
    then show ?thesis using 2 False by (auto simp: radix_zip_down radix_get_Cons)
  qed (use 2 in auto)
qed auto

lemma radix_prune_spec:
  "radix_prune path freed = Some (root, freed') \<Longrightarrow> radix_get root = radix_get (radix_zip Rnull path) \<and> root \<noteq> Rnull"
proof (induction path arbitrary: freed)
  case (Cons up path)
  let ?node = "radix_zip Rnull [up]"
  have zip: "radix_zip Rnull (up # path) = radix_zip ?node path" by (rule radix_zip_step)
  have n: "?node \<noteq> Rnull" by (cases up) simp_all
  show ?case
  proof (cases "rn_right ?node \<noteq> Rnull \<or> rn_left ?node \<noteq> Rnull \<or> rn_value ?node \<noteq> NGX_RADIX_NO_VALUE \<or> path = []")
    case True
    then have "root = radix_zip ?node path" using Cons.prems by (simp del: radix_zip.simps)
    then show ?thesis using zip radix_zip_not_null [OF n, of path] by simp
  next
    case False
    then have "radix_prune path (freed + 1) = Some (root, freed')" using Cons.prems by (simp del: radix_zip.simps)
    moreover have "?node = Rnode Rnull NGX_RADIX_NO_VALUE Rnull" using n False by (cases ?node) auto
    then have "radix_get ?node = radix_get Rnull" using radix_get_new by (auto simp del: radix_zip.simps)
    ultimately show ?thesis using Cons.IH radix_zip_cong zip by metis
  qed
qed simp

lemma radix_prune_Some: "path \<noteq> [] \<Longrightarrow> \<exists>root freed'. radix_prune path freed = Some (root, freed')"
proof (induction path arbitrary: freed)
  case (Cons up path)
  then show ?case by (cases "path = []") (auto simp: Let_def)
qed simp

lemma radix_get_leaf: "rn_right node = Rnull \<Longrightarrow> rn_left node = Rnull \<Longrightarrow> bs \<noteq> [] \<Longrightarrow> radix_get node bs = NGX_RADIX_NO_VALUE"
  by (cases node; cases bs) auto

text \<open>The only deletion that goes through a null pointer is that of the root when it has no children.\<close>

lemma radix_delete_spec:
  assumes root: "rx_root tree \<noteq> Rnull"
  shows "case radix_delete tree bits of
      None \<Rightarrow> bits = [] \<and> (\<forall>q. q \<noteq> [] \<longrightarrow> radix_get (rx_root tree) q = NGX_RADIX_NO_VALUE)
    | Some (rc, tree') \<Rightarrow> rx_root tree' \<noteq> Rnull
        \<and> (rc = NGX_OK \<and> radix_get (rx_root tree') = (radix_get (rx_root tree))(bits := NGX_RADIX_NO_VALUE)
           \<or> rc = NGX_ERROR \<and> tree' = tree \<and> radix_get (rx_root tree) bits = NGX_RADIX_NO_VALUE)"
proof -
  obtain node path where s: "radix_seek bits (rx_root tree) [] = (node, path)" by fastforce
  note ss = radix_seek_spec [OF s]
  show ?thesis
  proof (cases "node = Rnull")
    case True
    then show ?thesis using s ss root by (simp add: radix_delete_def)
  next
    case False
    then have z: "radix_zip node path = rx_root tree" "path_bits path = bits" "length path = length bits" "rn_value node = radix_get (rx_root tree) bits"
      using ss by (simp_all add: radix_get_Nil)
    show ?thesis
    proof (cases "rn_right node \<noteq> Rnull \<or> rn_left node \<noteq> Rnull")
      case True
      have "radix_get (radix_zip (set_value NGX_RADIX_NO_VALUE node) path) = (radix_get (rx_root tree))(bits := NGX_RADIX_NO_VALUE)"
        using radix_zip_update [of "set_value NGX_RADIX_NO_VALUE node" NGX_RADIX_NO_VALUE node path] z
        by (auto simp: radix_get_set_value [OF False])
      then show ?thesis
        using s False True z root radix_zip_not_null [of "set_value NGX_RADIX_NO_VALUE node" path] by (simp add: radix_delete_def)
    next
      case leaf: False
      have "radix_get Rnull q = (if q = [] then NGX_RADIX_NO_VALUE else radix_get node q)" for q
        using radix_get_leaf [of node q] leaf by simp
      then have upd: "radix_get (radix_zip Rnull path) = (radix_get (rx_root tree))(bits := NGX_RADIX_NO_VALUE)"
        using radix_zip_update [of Rnull NGX_RADIX_NO_VALUE node path] z by auto
      show ?thesis
      proof (cases "path = []")
        case True
        then show ?thesis using s False leaf z radix_get_leaf [of "rx_root tree"] by (simp add: radix_delete_def)
      next
        case ne: False
        obtain root2 freed where p: "radix_prune path (rx_free tree) = Some (root2, freed)" using radix_prune_Some [OF ne] by blast
        then show ?thesis using s False leaf radix_prune_spec [OF p] upd by (simp add: radix_delete_def)
      qed
    qed
  qed
qed

section \<open>The depth of a tree\<close>

fun rheight :: "radix_node \<Rightarrow> nat" where
  "rheight Rnull = 0"
| "rheight (Rnode l v r) = Suc (max (rheight l) (rheight r))"

lemma rheight_zip_ge: "rheight n + length p \<le> rheight (radix_zip n p)"
proof (induction p arbitrary: n)
  case (Cons u p)
  show ?case using Cons [of "radix_zip n [u]"] by (cases u) auto
qed simp

lemma rheight_zip: "rheight (radix_zip n2 path) \<le> max (rheight (radix_zip n1 path)) (rheight n2 + length path)"
proof (induction path arbitrary: n1 n2)
  case (Cons up path)
  have m: "rheight (radix_zip n2 [up]) \<le> max (rheight (radix_zip n1 [up])) (Suc (rheight n2))" by (cases up) auto
  show ?case
    using Cons [of "radix_zip n2 [up]" "radix_zip n1 [up]"] m rheight_zip_ge [of "radix_zip n1 [up]" path]
    unfolding radix_zip_step [of _ up path] by auto
qed simp

lemma rheight_set_value [simp]: "rheight (set_value v n) = rheight n"
  by (cases n) auto

lemma rheight_pos: "n \<noteq> Rnull \<longleftrightarrow> 0 < rheight n"
  by (cases n) auto

lemma length_path_bits: "length (path_bits p) = length p"
  by (simp add: path_bits_def)

lemma rheight_set: "rheight (radix_zip (set_value v n) p) = rheight (radix_zip n p)"
  using rheight_zip [of "set_value v n" p n] rheight_zip [of n p "set_value v n"] rheight_zip_ge [of n p] rheight_zip_ge [of "set_value v n" p] by auto

lemma radix_grow_height:
  "radix_grow pmem bs node path tree = (ok, node', path', tree') \<Longrightarrow> node \<noteq> Rnull \<Longrightarrow> bs \<noteq> [] \<longrightarrow> radix_child (hd bs) node = Rnull \<Longrightarrow>
   rheight (radix_zip node' path') \<le> max (rheight (radix_zip node path)) (length path + length bs + 1)"
proof (induction pmem bs node path tree rule: radix_grow.induct)
  case (2 pmem b bs node path tree)
  obtain a tree1 where al: "ngx_radix_alloc pmem tree = (a, tree1)" by fastforce
  show ?case
  proof (cases a)
    case True
    let ?new = "Rnode Rnull NGX_RADIX_NO_VALUE Rnull" and ?path = "radix_down b node path"
    have "rheight (radix_zip node' path') \<le> max (rheight (radix_zip ?new ?path)) (length ?path + length bs + 1)"
      using "2.IH" [of True tree1] "2.prems" True al by simp
    moreover have "length ?path = length path + 1" using "2.prems"(2) by (cases node) auto
    moreover have "rheight (radix_zip ?new ?path) \<le> max (rheight (radix_zip node path)) (1 + length ?path)"
      using rheight_zip [of ?new ?path Rnull] radix_zip_down [OF "2.prems"(2), of b path] "2.prems"(3) by simp
    ultimately show ?thesis by simp
  qed (use 2 al in simp)
qed simp

lemma radix_insert_height:
  assumes i: "radix_insert pmem tree bits v = (rc, tree')" and root: "rx_root tree \<noteq> Rnull"
  shows "rheight (rx_root tree') \<le> max (rheight (rx_root tree)) (length bits + 1)"
proof -
  obtain bs node path null where w: "radix_walk bits (rx_root tree) [] = (bs, node, path, null)" by (metis prod_cases4)
  note ws = radix_walk_spec [OF w root]
  obtain ok node2 path2 tree2 where g: "radix_grow pmem bs node path tree = (ok, node2, path2, tree2)" by (metis prod_cases4)
  have "length path + length bs = length bits" using ws by (metis append_Nil length_append length_path_bits path_bits_simps(1))
  then have "null \<Longrightarrow> rheight (radix_zip node2 path2) \<le> max (rheight (rx_root tree)) (length bits + 1)"
    using radix_grow_height [OF g] ws by simp
  moreover have "rheight (radix_zip node path) = rheight (rx_root tree)" using ws by simp
  ultimately show ?thesis
    using i w g by (auto simp: radix_insert_def rheight_set split: if_splits)
qed

lemma radix_prune_height: "radix_prune path freed = Some (root, freed') \<Longrightarrow> rheight root \<le> rheight (radix_zip Rnull path)"
proof (induction path arbitrary: freed)
  case (Cons up path)
  have "rheight (radix_zip Rnull path) \<le> rheight (radix_zip (radix_zip Rnull [up]) path)"
    using rheight_zip [of Rnull path "radix_zip Rnull [up]"] rheight_zip_ge [of "radix_zip Rnull [up]" path] by (auto simp del: radix_zip.simps)
  then show ?case
    using Cons unfolding radix_zip_step [of _ up path] by (auto simp: Let_def simp del: radix_zip.simps split: if_splits) force
qed simp

lemma radix_delete_height:
  assumes "radix_delete tree bits = Some (rc, tree')"
  shows "rheight (rx_root tree') \<le> rheight (rx_root tree)"
proof -
  obtain node path where s: "radix_seek bits (rx_root tree) [] = (node, path)" by fastforce
  have z: "node \<noteq> Rnull \<Longrightarrow> radix_zip node path = rx_root tree" using radix_seek_spec [OF s] by simp
  have "rheight (radix_zip Rnull path) \<le> rheight (radix_zip node path)"
    using rheight_zip [of Rnull path node] rheight_zip_ge [of node path] by auto
  then show ?thesis
    using assms s z radix_prune_height [of path "rx_free tree"]
    by (fastforce simp: radix_delete_def rheight_set split: if_splits option.splits)
qed

section \<open>Search\<close>

text \<open>The value of the longest network in a table that an address lies in: over the prefixes of its bits, the last value.\<close>

definition better_value :: "(bool list \<Rightarrow> ngx_uint_t) \<Rightarrow> bool list \<Rightarrow> ngx_uint_t \<Rightarrow> ngx_uint_t" where
  "better_value f q v = (if f q \<noteq> NGX_RADIX_NO_VALUE then f q else v)"

definition longest_match :: "(bool list \<Rightarrow> ngx_uint_t) \<Rightarrow> bool list \<Rightarrow> ngx_uint_t" where
  "longest_match f bs = fold (better_value f) (prefixes bs) NGX_RADIX_NO_VALUE"

text \<open>It is what the name says.\<close>

lemma longest_match_snoc: "longest_match f (bs @ [b]) = better_value f (bs @ [b]) (longest_match f bs)"
  by (simp add: longest_match_def prefixes_snoc)

lemma longest_match_iff:
  "longest_match f bs = NGX_RADIX_NO_VALUE \<and> (\<forall>q. prefix q bs \<longrightarrow> f q = NGX_RADIX_NO_VALUE)
   \<or> (\<exists>q. prefix q bs \<and> f q = longest_match f bs \<and> f q \<noteq> NGX_RADIX_NO_VALUE
        \<and> (\<forall>p. prefix p bs \<longrightarrow> length q < length p \<longrightarrow> f p = NGX_RADIX_NO_VALUE))"
proof (induction bs rule: rev_induct)
  case Nil
  then show ?case by (auto simp: longest_match_def better_value_def)
next
  case (snoc b bs)
  show ?case
  proof (cases "f (bs @ [b]) = NGX_RADIX_NO_VALUE")
    case True
    then have "longest_match f (bs @ [b]) = longest_match f bs" by (simp add: longest_match_snoc better_value_def)
    then show ?thesis using snoc True by (auto simp: prefix_snoc)
  next
    case False
    moreover from this have "longest_match f (bs @ [b]) = f (bs @ [b])" by (simp add: longest_match_snoc better_value_def)
    moreover have "\<not> length (bs @ [b]) < length p" if "prefix p (bs @ [b])" for p using prefix_length_le [OF that] by simp
    ultimately show ?thesis by (intro disjI2 exI [of _ "bs @ [b]"]) auto
  qed
qed

lemma better_value_Rnull: "fold (better_value (radix_get Rnull)) qs v = v"
  by (induction qs) (simp_all add: better_value_def)

lemma better_value_Cons:
  "fold (better_value (radix_get node)) (prefixes (b # bs)) v
   = fold (better_value (radix_get (radix_child b node))) (prefixes bs) (better_value (radix_get node) [] v)"
proof -
  have "fold (better_value (radix_get node)) (map ((#) b) qs) w = fold (better_value (radix_get (radix_child b node))) qs w" for qs w
    by (induction qs arbitrary: w) (simp_all add: better_value_def radix_get_Cons)
  then show ?thesis by simp
qed

lemma rheight_child: "rheight (radix_child b node) \<le> rheight node - 1"
  by (cases node) auto

lemma rheight_le_0 [simp]: "rheight node = 0 \<longleftrightarrow> node = Rnull"
  by (cases node) auto

lemma bits32_all: "bits32 key (- 1) bt = (if bt = 0 then [] else (key AND bt \<noteq> 0) # bits32 key (- 1) (drop_bit 1 bt))"
  by (subst bits32.simps) simp

lemma find32_loop_match:
  "rheight node \<le> length (bits32 key (- 1) bt) + 1 \<Longrightarrow>
   find32_loop key bt v node = fold (better_value (radix_get node)) (prefixes (bits32 key (- 1) bt)) v"
proof (induction key bt v node rule: find32_loop.induct)
  case (2 key bt v l nv r)
  have nv: "better_value (radix_get (Rnode l nv r)) [] v = (if nv \<noteq> NGX_RADIX_NO_VALUE then nv else v)" by (simp add: better_value_def)
  show ?case
  proof (cases "bt = 0")
    case True
    then show ?thesis using "2.prems" nv by (simp add: bits32_all [of key 0] better_value_def)
  next
    case False
    let ?b = "key AND bt \<noteq> 0" and ?bs = "bits32 key (- 1) (drop_bit 1 bt)"
    have bs: "bits32 key (- 1) bt = ?b # ?bs" using False by (subst bits32_all) simp
    have "find32_loop key bt v (Rnode l nv r)
        = fold (better_value (radix_get (radix_child ?b (Rnode l nv r)))) (prefixes ?bs) (if nv \<noteq> NGX_RADIX_NO_VALUE then nv else v)"
      using "2.IH" "2.prems" rheight_child [of ?b "Rnode l nv r"] unfolding bs by simp
    then show ?thesis unfolding bs better_value_Cons nv .
  qed
qed (simp add: better_value_Rnull)

lemma find128_loop_leaf:
  "rheight node \<le> 1 \<Longrightarrow> i < length key \<Longrightarrow> find128_loop key i bt v node = Some (better_value (radix_get node) [] v)"
  by (cases node) (auto simp: better_value_def)

abbreviation (input) ones :: bytes where
  "ones \<equiv> replicate 16 (- 1)"

lemma bits128_all:
  "i < 16 \<Longrightarrow> bits128 key ones i bt =
     (if bt = 0 then []
      else (key ! i AND bt \<noteq> 0) #
        (if drop_bit 1 bt = 0 then (if i + 1 \<ge> 16 then [] else bits128 key ones (i + 1) 0x80)
         else bits128 key ones i (drop_bit 1 bt)))"
  by (subst bits128.simps) simp

lemma find128_loop_match:
  "i < 16 \<Longrightarrow> bt \<noteq> 0 \<Longrightarrow> 16 < length key \<Longrightarrow> rheight node \<le> length (bits128 key ones i bt) + 1 \<Longrightarrow>
   find128_loop key i bt v node = Some (fold (better_value (radix_get node)) (prefixes (bits128 key ones i bt)) v)"
proof (induction key i bt v node rule: find128_loop.induct)
  case (2 key i bt v l nv r)
  let ?b = "key ! i AND bt \<noteq> 0" and ?n = "Rnode l nv r" and ?v = "better_value (radix_get (Rnode l nv r)) [] v"
  define bs where "bs = (if drop_bit 1 bt = 0 then (if i + 1 \<ge> 16 then [] else bits128 key ones (i + 1) 0x80)
         else bits128 key ones i (drop_bit 1 bt))"
  have bits: "bits128 key ones i bt = ?b # bs"
    using "2.prems"(1,2) unfolding bs_def by (subst bits128_all) simp_all
  have h: "rheight (radix_child ?b ?n) \<le> length bs + 1" using "2.prems"(4) rheight_child [of ?b ?n] unfolding bits by simp
  have v: "?v = (if nv \<noteq> NGX_RADIX_NO_VALUE then nv else v)" by (simp add: better_value_def)
  have "find128_loop key (if drop_bit 1 bt = 0 then i + 1 else i) (if drop_bit 1 bt = 0 then 0x80 else drop_bit 1 bt) ?v (radix_child ?b ?n)
      = Some (fold (better_value (radix_get (radix_child ?b ?n))) (prefixes bs) ?v)"
  proof (cases "drop_bit 1 bt = 0 \<and> i + 1 \<ge> 16")
    case True
    then have "bs = []" "i + 1 < length key" using "2.prems"(1,3) by (auto simp: bs_def)
    then show ?thesis using find128_loop_leaf [of "radix_child ?b ?n" "i + 1" key "0x80" ?v] h True by simp
  next
    case False
    then show ?thesis
      using "2.IH" "2.prems"(1-3) h unfolding v by (auto simp: bs_def split: if_splits)
  qed
  then show ?case using "2.prems"(1,3) unfolding bits better_value_Cons v by simp
qed (simp add: better_value_Rnull)

section \<open>The tables of networks\<close>

abbreviation (input) table :: "radix_tree \<Rightarrow> bool list \<Rightarrow> ngx_uint_t" where
  "table tree \<equiv> radix_get (rx_root tree)"

definition radix_ok :: "nat \<Rightarrow> radix_tree \<Rightarrow> bool" where
  "radix_ok n tree \<longleftrightarrow> rx_root tree \<noteq> Rnull \<and> rheight (rx_root tree) \<le> n + 1"

text \<open>
  What the trees promise to a client that keeps networks \<open>'n\<close> and looks up addresses \<open>'a\<close>: inserting and deleting
  change the value of one network, an insertion never overwrites, and a search gives the value of the longest network.
\<close>

locale network_table =
  fixes ok :: "radix_tree \<Rightarrow> bool" and nets :: "'n \<Rightarrow> bool list" and addr :: "'a \<Rightarrow> bool list" and readable :: "'a \<Rightarrow> bool"
    and ins :: "(nat \<Rightarrow> bool) \<Rightarrow> radix_tree \<Rightarrow> 'n \<Rightarrow> ngx_uint_t \<Rightarrow> ngx_rc \<times> radix_tree"
    and del :: "radix_tree \<Rightarrow> 'n \<Rightarrow> (ngx_rc \<times> radix_tree) option"
    and fnd :: "radix_tree \<Rightarrow> 'a \<Rightarrow> ngx_uint_t option"
  assumes ins_busy: "ok t \<Longrightarrow> table t (nets n) \<noteq> NGX_RADIX_NO_VALUE \<Longrightarrow> ins pmem t n v = (NGX_BUSY, t)"
  and ins_new: "ok t \<Longrightarrow> table t (nets n) = NGX_RADIX_NO_VALUE \<Longrightarrow> ins pmem t n v = (rc, t') \<Longrightarrow>
     ok t' \<and> (rc = NGX_OK \<and> table t' = (table t)(nets n := v) \<or> rc = NGX_ERROR \<and> table t' = table t \<and> \<not> (\<forall>n. pmem n))"
  and del_ok: "ok t \<Longrightarrow> nets n \<noteq> [] \<or> (\<exists>q. q \<noteq> [] \<and> table t q \<noteq> NGX_RADIX_NO_VALUE) \<Longrightarrow> \<exists>rc t'. del t n = Some (rc, t')"
  and del_value: "ok t \<Longrightarrow> del t n = Some (rc, t') \<Longrightarrow>
     ok t' \<and> (rc = NGX_OK \<and> table t' = (table t)(nets n := NGX_RADIX_NO_VALUE)
              \<or> rc = NGX_ERROR \<and> t' = t \<and> table t (nets n) = NGX_RADIX_NO_VALUE)"
  and fnd_longest: "ok t \<Longrightarrow> readable a \<Longrightarrow> fnd t a = Some (longest_match (table t) (addr a))"
begin

text \<open>A network that was just inserted is found for its addresses, unless a longer one holds them.\<close>

lemma fnd_inserted:
  assumes "ok t" "ins pmem t n v = (NGX_OK, t')" "readable a" "v \<noteq> NGX_RADIX_NO_VALUE" "prefix (nets n) (addr a)"
  and "\<And>p. prefix p (addr a) \<Longrightarrow> length (nets n) < length p \<Longrightarrow> table t p = NGX_RADIX_NO_VALUE"
  shows "fnd t' a = Some v"
proof -
  have "table t (nets n) = NGX_RADIX_NO_VALUE" using ins_busy [OF assms(1), of n pmem v] assms(2) by (metis Pair_inject ngx_rc.distinct(5))
  then have t': "ok t'" "table t' = (table t)(nets n := v)" using ins_new [OF assms(1) _ assms(2)] by auto
  have "longest_match (table t') (addr a) = v"
    using longest_match_iff [of "table t'" "addr a"]
  proof (elim disjE exE conjE)
    fix q assume q: "prefix q (addr a)" "table t' q = longest_match (table t') (addr a)" "table t' q \<noteq> NGX_RADIX_NO_VALUE"
      "\<forall>p. prefix p (addr a) \<longrightarrow> length q < length p \<longrightarrow> table t' p = NGX_RADIX_NO_VALUE"
    have "\<not> length (nets n) < length q" using q(1,3) assms(6) [of q] t'(2) by (auto split: if_splits)
    moreover have "\<not> length q < length (nets n)" using q(4) assms(4,5) t'(2) by auto
    ultimately have "length q = length (nets n)" by simp
    moreover from this have "prefix q (nets n)" using prefix_length_prefix [OF q(1) assms(5)] by simp
    ultimately have "q = nets n" by (auto simp: prefix_def)
    then show ?thesis using q(2) t'(2) by simp
  qed (use assms(4,5) t'(2) in auto)
  then show ?thesis using fnd_longest [OF t'(1) assms(3)] by simp
qed

end

lemma drop_bit_exp_half: "Suc k < LENGTH('a) \<Longrightarrow> drop_bit 1 (2 ^ Suc k :: 'a::len word) = 2 ^ k"
  by (rule bit_word_eqI) (auto simp: bit_drop_bit_eq bit_exp_iff simp del: power_Suc)

lemma exp_nonzero: "k < LENGTH('a) \<Longrightarrow> (2 ^ k :: 'a::len word) \<noteq> 0"
  by (simp add: exp_eq_zero_iff)

lemma length_bits32: "k < 32 \<Longrightarrow> length (bits32 key msk (2 ^ k)) \<le> k + 1 \<and> length (bits32 key (- 1) (2 ^ k)) = k + 1"
proof (induction k)
  case 0
  have "drop_bit 1 (2 ^ 0 :: u32) = 0" by simp
  then show ?case by (subst bits32.simps, subst (2) bits32.simps, subst bits32_all) (simp add: bits32.simps [of _ _ 0])
next
  case (Suc k)
  have half: "drop_bit 1 (2 ^ Suc k :: u32) = 2 ^ k" using Suc.prems by (intro drop_bit_exp_half) simp
  moreover have "(2 ^ Suc k :: u32) \<noteq> 0" using Suc.prems by (intro exp_nonzero) simp
  ultimately show ?case using Suc by (subst bits32.simps, subst bits32_all) simp
qed

lemma length_bits128:
  "i < 16 \<Longrightarrow> k < 8 \<Longrightarrow> length (bits128 key msk i (2 ^ k)) \<le> 8 * (15 - i) + k + 1
    \<and> length (bits128 key ones i (2 ^ k)) = 8 * (15 - i) + k + 1"
proof (induction "8 * (15 - i) + k" arbitrary: i k rule: less_induct)
  case less
  have nz: "(2 ^ k :: byte) \<noteq> 0" using less.prems(2) by (intro exp_nonzero) simp
  show ?case
  proof (cases k)
    case 0
    then have "drop_bit 1 (2 ^ k :: byte) = 0" by simp
    moreover have "length (bits128 key msk (i + 1) 0x80) \<le> 8 * (15 - (i + 1)) + 7 + 1 \<and> length (bits128 key ones (i + 1) 0x80) = 8 * (15 - (i + 1)) + 7 + 1"
      if "i + 1 < 16" using less.hyps [of "i + 1" 7] that 0 by simp
    ultimately show ?thesis using less.prems 0
      by (subst bits128.simps, subst bits128_all) auto
  next
    case (Suc j)
    have "drop_bit 1 (2 ^ k :: byte) = 2 ^ j" unfolding Suc using less.prems(2) Suc by (intro drop_bit_exp_half) simp
    moreover have "(2 ^ j :: byte) \<noteq> 0" using less.prems(2) Suc by (intro exp_nonzero) simp
    ultimately show ?thesis using less.hyps [of i j] less.prems nz Suc
      by (subst bits128.simps, subst bits128_all) auto
  qed
qed

lemma length_net32: "length (bits32 key msk 0x80000000) \<le> 32" and length_addr32: "length (bits32 key (- 1) 0x80000000) = 32"
  using length_bits32 [of 31 key msk] by simp_all

lemma length_net128: "length (bits128 key msk 0 0x80) \<le> 128" and length_addr128: "length (bits128 key ones 0 0x80) = 128"
  using length_bits128 [of 0 7 key msk] by simp_all

lemma radix_ok_insert:
  assumes "radix_ok n tree" "length bits \<le> n" "radix_insert pmem tree bits v = (rc, tree')"
  shows "radix_ok n tree'"
  using radix_insert_height [OF assms(3)] radix_insert_spec [OF assms(3)] assms(1,2) by (auto simp: radix_ok_def)

lemma radix_ok_delete:
  assumes "radix_ok n tree" "radix_delete tree bits = Some (rc, tree')"
  shows "radix_ok n tree'"
  using radix_delete_height [OF assms(2)] radix_delete_spec [of tree bits] assms by (auto simp: radix_ok_def)

lemma radix_network_table:
  assumes len: "\<And>n. length (nets n) \<le> N"
  and ins: "\<And>pmem t n v. ins pmem t n v = radix_insert pmem t (nets n) v" and del: "\<And>t n. del t n = radix_delete t (nets n)"
  and fnd: "\<And>t a. radix_ok N t \<Longrightarrow> readable a \<Longrightarrow> fnd t a = Some (longest_match (table t) (addr a))"
  shows "network_table (radix_ok N) nets addr readable ins del fnd"
proof (unfold_locales, goal_cases)
  case (1 t n pmem v)
  obtain rc t' where "radix_insert pmem t (nets n) v = (rc, t')" by fastforce
  then show ?case using radix_insert_spec [of pmem t "nets n" v rc t'] 1 by (auto simp: ins radix_ok_def)
next
  case (2 t n pmem v rc t')
  then show ?case using radix_insert_spec [of pmem t "nets n" v rc t'] radix_ok_insert [OF 2(1) len] by (auto simp: ins radix_ok_def)
next
  case (3 t n)
  then show ?case using radix_delete_spec [of t "nets n"] by (auto simp: del radix_ok_def split: option.splits)
next
  case (4 t n rc t')
  then show ?case using radix_delete_spec [of t "nets n"] radix_ok_delete [of N t "nets n" rc t'] by (auto simp: del radix_ok_def)
qed (rule fnd)

definition net32 :: "u32 \<times> u32 \<Rightarrow> bool list" where
  "net32 n = bits32 (fst n) (snd n) 0x80000000"

definition net128 :: "bytes \<times> bytes \<Rightarrow> bool list" where
  "net128 n = bits128 (fst n) (snd n) 0 0x80"

definition addr32 :: "u32 \<Rightarrow> bool list" where
  "addr32 a = bits32 a (- 1) 0x80000000"

definition addr128 :: "bytes \<Rightarrow> bool list" where
  "addr128 a = bits128 a ones 0 0x80"

interpretation nets32: network_table "radix_ok 32" net32 addr32 "\<lambda>_. True"
  "\<lambda>pmem t n. ngx_radix32tree_insert pmem t (fst n) (snd n)" "\<lambda>t n. ngx_radix32tree_delete t (fst n) (snd n)"
  "\<lambda>t a. Some (ngx_radix32tree_find t a)"
  by (rule radix_network_table)
    (simp_all add: net32_def addr32_def ngx_radix32tree_insert_def ngx_radix32tree_delete_def ngx_radix32tree_find_def
      longest_match_def radix_ok_def find32_loop_match length_net32 length_addr32)

interpretation nets128: network_table "radix_ok 128" net128 addr128 "\<lambda>a. 16 < length a"
  "\<lambda>pmem t n. ngx_radix128tree_insert pmem t (fst n) (snd n)" "\<lambda>t n. ngx_radix128tree_delete t (fst n) (snd n)"
  ngx_radix128tree_find
  by (rule radix_network_table)
    (simp_all add: net128_def addr128_def ngx_radix128tree_insert_def ngx_radix128tree_delete_def ngx_radix128tree_find_def
      longest_match_def radix_ok_def find128_loop_match length_net128 length_addr128)

text \<open>An address lies in a network when the bits of the network begin its own.\<close>

lemma prefix_net32: "prefix (bits32 key msk bt) (bits32 key (- 1) bt)"
proof (induction key msk bt rule: bits32.induct)
  case (1 key msk bt)
  show ?case
  proof (cases "bt AND msk = 0")
    case False
    then have "bt \<noteq> 0" by auto
    then show ?thesis using 1 [OF False] False by (subst bits32.simps, subst bits32_all) simp
  qed (simp add: bits32.simps [of key msk])
qed

lemma bits32_cong:
  "k < 32 \<Longrightarrow> \<forall>i\<le>k. bit msk i \<longrightarrow> bit key i = bit key' i \<Longrightarrow> bits32 key msk (2 ^ k) = bits32 key' msk (2 ^ k)"
proof (induction k)
  case 0
  have "bits32 x msk (drop_bit 1 1) = []" for x by (subst bits32.simps) simp
  then show ?case using 0 by (subst bits32.simps, subst (2) bits32.simps) (auto simp: and_exp_eq_0_iff_not_bit [where n = 0, simplified] and.commute [of 1])
next
  case (Suc k)
  have b: "x AND 2 ^ Suc k \<noteq> 0 \<longleftrightarrow> bit x (Suc k)" for x :: u32 by (simp add: and_exp_eq_0_iff_not_bit del: power_Suc)
  have half: "drop_bit 1 (2 ^ Suc k :: u32) = 2 ^ k" using Suc.prems(1) by (intro drop_bit_exp_half) simp
  have "2 ^ Suc k AND msk \<noteq> 0 \<longleftrightarrow> bit msk (Suc k)" using b by (simp add: and.commute del: power_Suc)
  then show ?case
    using Suc by (subst bits32.simps, subst (2) bits32.simps) (simp add: b half [unfolded One_nat_def] del: power_Suc)
qed

text \<open>So every address that agrees with the key where the mask has bits is in the network.\<close>

lemma net32_member: "a AND msk = key AND msk \<Longrightarrow> prefix (net32 (key, msk)) (addr32 a)"
proof -
  assume *: "a AND msk = key AND msk"
  have "bit msk i \<longrightarrow> bit key i = bit a i" for i using * by (metis bit_and_iff)
  then have "bits32 key msk 0x80000000 = bits32 a msk 0x80000000" using bits32_cong [of 31 msk key a] by simp
  then show ?thesis using prefix_net32 [of a msk] by (simp add: net32_def addr32_def)
qed

text \<open>When the mask is that of a prefix, the bits from some position on, no other address is in the network.\<close>

lemma prefix_bits32_iff:
  "k < 32 \<Longrightarrow> \<forall>i\<le>k. bit msk i \<longleftrightarrow> j \<le> i \<Longrightarrow>
   prefix (bits32 key msk (2 ^ k)) (bits32 a (- 1) (2 ^ k)) \<longleftrightarrow> (\<forall>i\<le>k. bit msk i \<longrightarrow> bit key i = bit a i)"
proof (induction k)
  case 0
  have "bits32 x m (drop_bit 1 1) = []" for x m by (subst bits32.simps) simp
  then show ?case
    by (subst bits32.simps, subst bits32_all) (auto simp: and_exp_eq_0_iff_not_bit [where n = 0, simplified] and.commute [of 1])
next
  case (Suc k)
  have b: "x AND 2 ^ Suc k \<noteq> 0 \<longleftrightarrow> bit x (Suc k)" for x :: u32 by (simp add: and_exp_eq_0_iff_not_bit del: power_Suc)
  have half: "drop_bit 1 (2 ^ Suc k :: u32) = 2 ^ k" using Suc.prems(1) by (intro drop_bit_exp_half) simp
  have nz: "(2 ^ Suc k :: u32) \<noteq> 0" using Suc.prems(1) by (simp del: power_Suc)
  have m: "2 ^ Suc k AND msk \<noteq> 0 \<longleftrightarrow> bit msk (Suc k)" using b by (simp add: and.commute del: power_Suc)
  show ?case
  proof (cases "bit msk (Suc k)")
    case True
    then show ?thesis using Suc m nz
      by (subst bits32.simps, subst bits32_all) (auto simp: b half [unfolded One_nat_def] le_Suc_eq simp del: power_Suc)
  next
    case False
    then have "\<not> bit msk i" if "i \<le> Suc k" for i using Suc.prems(2) that by (metis le_refl le_trans)
    then show ?thesis using False m by (subst bits32.simps) auto
  qed
qed

lemma net32_member_iff:
  assumes "\<And>i. i < 32 \<Longrightarrow> bit msk i \<longleftrightarrow> j \<le> i"
  shows "prefix (net32 (key, msk)) (addr32 a) \<longleftrightarrow> a AND msk = key AND msk"
proof -
  have "i \<le> 31 \<longleftrightarrow> i < 32" for i :: nat by auto
  then have "prefix (net32 (key, msk)) (addr32 a) \<longleftrightarrow> (\<forall>i<32. bit msk i \<longrightarrow> bit key i = bit a i)"
    using prefix_bits32_iff [of 31 msk j key a] assms by (simp add: net32_def addr32_def)
  also have "\<dots> \<longleftrightarrow> a AND msk = key AND msk" by (auto simp: bit_eq_iff [of "a AND msk"] bit_and_iff)
  finally show ?thesis .
qed
section \<open>Creation\<close>

lemma fun_upd_idem_NO: "f q = v \<Longrightarrow> f(q := v) = f"
  by auto

lemma insert_no_value:
  assumes "radix_ok 32 tree" "table tree = (\<lambda>_. NGX_RADIX_NO_VALUE)" "ngx_radix32tree_insert pmem tree key msk NGX_RADIX_NO_VALUE = (rc, tree')"
  shows "radix_ok 32 tree' \<and> table tree' = (\<lambda>_. NGX_RADIX_NO_VALUE) \<and> (rc = NGX_OK \<or> rc = NGX_ERROR \<and> \<not> (\<forall>n. pmem n))"
  using nets32.ins_new [OF assms(1), of "(key, msk)" pmem NGX_RADIX_NO_VALUE rc tree'] assms(2,3)
    fun_upd_idem_NO [of "\<lambda>_. NGX_RADIX_NO_VALUE" "net32 (key, msk)"] by auto

lemma radix_level_ends:
  assumes "inc = 0 \<and> key = 0 \<or> (\<exists>m j. m < 32 \<and> inc = 2 ^ m \<and> key = of_nat (j * 2 ^ m) \<and> j * 2 ^ m < 2 ^ 32)"
  and "radix_ok 32 tree" "table tree = (\<lambda>_. NGX_RADIX_NO_VALUE)"
  shows "\<exists>r. radix_level pmem key msk inc tree = Some r
    \<and> (case r of None \<Rightarrow> \<not> (\<forall>n. pmem n) | Some tree' \<Rightarrow> radix_ok 32 tree' \<and> table tree' = (\<lambda>_. NGX_RADIX_NO_VALUE))"
  using assms
proof (induction "2 ^ 32 - unat key" arbitrary: key tree rule: less_induct)
  case less
  obtain rc tree1 where i: "ngx_radix32tree_insert pmem tree key msk NGX_RADIX_NO_VALUE = (rc, tree1)" by fastforce
  note ins = insert_no_value [OF less.prems(2,3) i]
  show ?case
  proof (cases "rc = NGX_OK \<and> key + inc \<noteq> 0")
    case True
    then obtain m j where m: "m < 32" "inc = 2 ^ m" "key = of_nat (j * 2 ^ m)" "j * 2 ^ m < 2 ^ 32" using less.prems(1) by auto
    have k1: "key + inc = of_nat (Suc j * 2 ^ m)" using m by (simp add: algebra_simps)
    have "\<not> 2 ^ 32 dvd Suc j * 2 ^ m" using True k1 word_of_nat_eq_0_iff [where 'a = 32, of "Suc j * 2 ^ m"] by (simp del: of_nat_mult of_nat_Suc)
    moreover have "Suc j * 2 ^ m \<le> 2 ^ 32" 
    proof -
      have "(2 :: nat) ^ 32 = 2 ^ (32 - m) * 2 ^ m" using m(1) by (simp flip: power_add)
      then have "j < 2 ^ (32 - m)" using m(4) by (simp only: mult_less_cancel2)
      then show ?thesis using \<open>2 ^ 32 = 2 ^ (32 - m) * 2 ^ m\<close> by (simp only: mult_le_mono1 Suc_leI)
    qed
    ultimately have lt: "Suc j * 2 ^ m < 2 ^ 32" by (metis dvd_refl le_neq_implies_less)
    have un: "unat (of_nat x :: u32) = x" if "x < 2 ^ 32" for x using that by (simp add: unat_of_nat take_bit_nat_eq_self)
    have "unat key = j * 2 ^ m" "unat (key + inc) = Suc j * 2 ^ m" using un [OF m(4)] un [OF lt] m(3) k1 by (simp_all only:)
    then have "unat key < unat (key + inc)" by simp
    then have "2 ^ 32 - unat (key + inc) < 2 ^ 32 - unat key" using unat_word_less [of "key + inc"] by simp
    from less.hyps [OF this _ _ _, of tree1] k1 lt m ins show ?thesis
      using True i by (subst radix_level.simps) fastforce
  qed (use i ins in \<open>subst radix_level.simps, auto\<close>)
qed

lemma radix_preallocate_ends:
  assumes "inc = 0 \<or> (\<exists>m<32. inc = 2 ^ m)" "radix_ok 32 tree" "table tree = (\<lambda>_. NGX_RADIX_NO_VALUE)"
  shows "\<exists>r. radix_preallocate pmem n msk inc tree = Some r
    \<and> (case r of None \<Rightarrow> \<not> (\<forall>n. pmem n) | Some tree' \<Rightarrow> radix_ok 32 tree' \<and> table tree' = (\<lambda>_. NGX_RADIX_NO_VALUE))"
  using assms
proof (induction n arbitrary: msk inc tree)
  case (Suc n)
  have "inc = 0 \<and> (0 :: u32) = 0 \<or> (\<exists>m j. m < 32 \<and> inc = 2 ^ m \<and> (0 :: u32) = of_nat (j * 2 ^ m) \<and> j * 2 ^ m < 2 ^ 32)"
    using Suc.prems(1)
  proof (elim disjE exE conjE)
    fix m :: nat assume "m < 32" "inc = 2 ^ m"
    then show ?thesis by (intro disjI2 exI [of _ m] exI [of _ 0]) simp
  qed simp
  from radix_level_ends [OF this Suc.prems(2,3)] obtain r where r: "radix_level pmem 0 (drop_bit 1 msk OR 0x80000000) inc tree = Some r"
      "case r of None \<Rightarrow> \<not> (\<forall>n. pmem n) | Some tree' \<Rightarrow> radix_ok 32 tree' \<and> table tree' = (\<lambda>_. NGX_RADIX_NO_VALUE)" by blast
  have "drop_bit 1 inc = 0 \<or> (\<exists>m<32. drop_bit 1 inc = 2 ^ m)"
    using Suc.prems(1)
  proof (elim disjE exE conjE)
    fix m assume "m < 32" "inc = 2 ^ m"
    then have "m = 0 \<or> drop_bit 1 inc = 2 ^ (m - 1)" using drop_bit_exp_half [where 'a = 32, of "m - 1"] by (cases m) simp_all
    then show ?thesis using \<open>m < 32\<close> \<open>inc = 2 ^ m\<close> by (auto intro!: exI [of _ "m - 1"])
  qed simp
  then show ?case using r Suc.IH [of "drop_bit 1 inc"] by (cases r) simp_all
qed simp

text \<open>With memory, a tree is created for any number of preallocated levels, and it holds no network.\<close>

lemma radix_create:
  "\<exists>r. ngx_radix_tree_create pmem preallocate = Some r
    \<and> (case r of None \<Rightarrow> \<not> (\<forall>n. pmem n) | Some tree \<Rightarrow> radix_ok 32 tree \<and> table tree = (\<lambda>_. NGX_RADIX_NO_VALUE))"
proof -
  obtain a tree where al: "ngx_radix_alloc pmem \<lparr>rx_root = Rnull, rx_free = 0, rx_size = 0, rx_pages = 0\<rparr> = (a, tree)" by fastforce
  let ?tree = "tree\<lparr>rx_root := Rnode Rnull NGX_RADIX_NO_VALUE Rnull\<rparr>"
  have t: "radix_ok 32 ?tree" "table ?tree = (\<lambda>_. NGX_RADIX_NO_VALUE)" using radix_get_new by (auto simp: radix_ok_def)
  have inc: "(0x80000000 :: u32) = 0 \<or> (\<exists>m<32. (0x80000000 :: u32) = 2 ^ m)" by (intro disjI2 exI [of _ 31]) simp
  show ?thesis
  proof (cases a)
    case True
    then show ?thesis using al t radix_preallocate_ends [OF inc t] by (cases "preallocate = 0") (auto simp: ngx_radix_tree_create_def Let_def)
  next
    case False
    then have "\<not> (\<forall>n. pmem n)" using al by (auto simp: ngx_radix_alloc_def split: if_splits)
    then show ?thesis using al False by (simp add: ngx_radix_tree_create_def)
  qed
qed

section \<open>Properties\<close>

text \<open>
  C15. A radix tree of IPv4 networks is a table of networks. Inserting a network that has a value returns \<open>NGX_BUSY\<close>
  and changes nothing; otherwise it sets the value of this network and of no other, or returns \<open>NGX_ERROR\<close>, changes
  no value, and memory has run out. Deleting removes the value of this network only, or fails because there is
  none; it follows the null parent of the root only when the root is deleted from a tree that holds nothing else. A search gives
  the value of the longest stored network that the address lies in. The depth stays within the 32 bits of a key.
\<close>

theorem radix32_refines:
  assumes "radix_ok 32 tree"
  shows "(case ngx_radix32tree_insert pmem tree key msk v of (rc, tree') \<Rightarrow> radix_ok 32 tree'
      \<and> (if radix_get (rx_root tree) (net32 (key, msk)) \<noteq> NGX_RADIX_NO_VALUE then rc = NGX_BUSY \<and> tree' = tree
         else rc = NGX_OK \<and> radix_get (rx_root tree') = (radix_get (rx_root tree))(net32 (key, msk) := v)
              \<or> rc = NGX_ERROR \<and> radix_get (rx_root tree') = radix_get (rx_root tree) \<and> \<not> (\<forall>n. pmem n)))
   \<and> (case ngx_radix32tree_delete tree key msk of
        None \<Rightarrow> net32 (key, msk) = [] \<and> (\<forall>q. q \<noteq> [] \<longrightarrow> radix_get (rx_root tree) q = NGX_RADIX_NO_VALUE)
      | Some (rc, tree') \<Rightarrow> radix_ok 32 tree'
          \<and> (rc = NGX_OK \<and> radix_get (rx_root tree') = (radix_get (rx_root tree))(net32 (key, msk) := NGX_RADIX_NO_VALUE)
             \<or> rc = NGX_ERROR \<and> tree' = tree \<and> radix_get (rx_root tree) (net32 (key, msk)) = NGX_RADIX_NO_VALUE))
   \<and> ngx_radix32tree_find tree a = longest_match (radix_get (rx_root tree)) (addr32 a)"
proof (intro conjI)
  show "case ngx_radix32tree_insert pmem tree key msk v of (rc, tree') \<Rightarrow> radix_ok 32 tree'
      \<and> (if radix_get (rx_root tree) (net32 (key, msk)) \<noteq> NGX_RADIX_NO_VALUE then rc = NGX_BUSY \<and> tree' = tree
         else rc = NGX_OK \<and> radix_get (rx_root tree') = (radix_get (rx_root tree))(net32 (key, msk) := v)
              \<or> rc = NGX_ERROR \<and> radix_get (rx_root tree') = radix_get (rx_root tree) \<and> \<not> (\<forall>n. pmem n))"
    using nets32.ins_busy [OF assms, of "(key, msk)" pmem v] nets32.ins_new [OF assms, of "(key, msk)" pmem v] assms by auto
  show "case ngx_radix32tree_delete tree key msk of
        None \<Rightarrow> net32 (key, msk) = [] \<and> (\<forall>q. q \<noteq> [] \<longrightarrow> radix_get (rx_root tree) q = NGX_RADIX_NO_VALUE)
      | Some (rc, tree') \<Rightarrow> radix_ok 32 tree'
          \<and> (rc = NGX_OK \<and> radix_get (rx_root tree') = (radix_get (rx_root tree))(net32 (key, msk) := NGX_RADIX_NO_VALUE)
             \<or> rc = NGX_ERROR \<and> tree' = tree \<and> radix_get (rx_root tree) (net32 (key, msk)) = NGX_RADIX_NO_VALUE)"
  proof (cases "ngx_radix32tree_delete tree key msk")
    case None
    have "\<not> (net32 (key, msk) \<noteq> [] \<or> (\<exists>q. q \<noteq> [] \<and> radix_get (rx_root tree) q \<noteq> NGX_RADIX_NO_VALUE))"
      using nets32.del_ok [OF assms, of "(key, msk)"] None by auto
    then show ?thesis using None by auto
  qed (use nets32.del_value [OF assms, of "(key, msk)"] in auto)
  show "ngx_radix32tree_find tree a = longest_match (radix_get (rx_root tree)) (addr32 a)"
    using nets32.fnd_longest [OF assms] by simp
qed

theorem radix32_refines_witness:
  "let tree = \<lparr>rx_root = Rnode Rnull 7 (Rnode Rnull 9 Rnull), rx_free = 0, rx_size = 64, rx_pages = 1\<rparr>
   in fst (ngx_radix32tree_insert (\<lambda>_. True) tree 0x80000000 0x80000000 1) = NGX_BUSY
      \<and> ngx_radix32tree_find tree 0xC0A80001 = 9 \<and> ngx_radix32tree_find tree 0x0A000001 = longest_match (radix_get (rx_root tree)) (addr32 0x0A000001)"
proof -
  let ?tree = "\<lparr>rx_root = Rnode Rnull 7 (Rnode Rnull 9 Rnull), rx_free = 0, rx_size = 64, rx_pages = 1\<rparr>"
  have ok: "radix_ok 32 ?tree" by (simp add: radix_ok_def)
  have "fst (ngx_radix32tree_insert (\<lambda>_. True) ?tree 0x80000000 0x80000000 1) = NGX_BUSY" "ngx_radix32tree_find ?tree 0xC0A80001 = 9"
    by code_simp+
  then show ?thesis using radix32_refines [OF ok, where a = "0x0A000001"] unfolding Let_def by blast
qed

text \<open>
  The search in a tree of IPv6 networks reads the byte behind the 16 bytes of the address when it ends at a network with
  all 128 bits.
\<close>

lemma radix128_find_overread:
  "let key = replicate 16 0; tree = \<lparr>rx_root = Rnode Rnull (- 1) Rnull, rx_free = 0, rx_size = 0, rx_pages = 1\<rparr>;
       tree' = snd (ngx_radix128tree_insert (\<lambda>_. True) tree key (replicate 16 (- 1)) 1)
   in ngx_radix128tree_find tree' key = None \<and> ngx_radix128tree_find tree' (key @ [0]) = Some 1"
  by code_simp

text \<open>Deleting the network of all addresses from a tree without other nodes follows the null parent of the root.\<close>

lemma radix_delete_root_null:
  "ngx_radix32tree_delete \<lparr>rx_root = Rnode Rnull 1 Rnull, rx_free = 0, rx_size = 0, rx_pages = 1\<rparr> 0 0 = None"
  by code_simp

end
