(* ===== verification/HttpGeoRange.thy ===== *)
theory HttpGeoRange
  imports Prelude
begin

text \<open>
  The ranges of addresses of a \<^verbatim>\<open>geo\<close> block (\<^verbatim>\<open>src/http/modules/ngx_http_geo_module.c\<close>): for each high half of an
  IPv4 address there is an array of ranges of low halves. Adding and deleting a range go over the high halves that it
  touches; a lookup takes the first range of the array that holds the low half. Values are addresses of
  variable values; pushing onto an array does not fail.
\<close>

unbundle bit_operations_syntax

section \<open>Definitions\<close>

text \<open>\<open>ngx_http_geo_range_t\<close> and the array \<open>ngx_http_geo_high_ranges_t.low\<close>, where \<open>None\<close> is no array.\<close>

record geo_range =
  gr_start :: "16 word"
  gr_end :: "16 word"
  gr_value :: ngx_uint_t

type_synonym geo_low = "16 word \<rightharpoonup> geo_range list"

text \<open>
  The loop of \<open>ngx_http_geo_add_range\<close> over the ranges of one array from the last to the first, \<open>i\<close> of them left;
  \<open>None\<close> is that the new range overlaps one.
\<close>

fun geo_add_low :: "ngx_uint_t \<Rightarrow> 16 word \<Rightarrow> 16 word \<Rightarrow> nat \<Rightarrow> geo_range list \<Rightarrow> geo_range list option" where
  "geo_add_low v s e 0 a = Some (a @ [\<lparr>gr_start = s, gr_end = e, gr_value = v\<rparr>])"
| "geo_add_low v s e (Suc i) a =
     (let r = a ! i; new = \<lparr>gr_start = s, gr_end = e, gr_value = v\<rparr> in
      if e < gr_start r then geo_add_low v s e i a
      else if s > gr_end r then Some (take (i + 1) a @ new # drop (i + 1) a)
      else if s = gr_start r \<and> e = gr_end r then Some (a[i := r\<lparr>gr_value := v\<rparr>])
      else if s > gr_start r \<and> e < gr_end r
      then Some (take i a @ r\<lparr>gr_end := s - 1\<rparr> # new # r\<lparr>gr_start := e + 1\<rparr> # drop (i + 1) a)
      else if s = gr_start r \<and> e < gr_end r
      then Some (take i a @ new # r\<lparr>gr_start := e + 1\<rparr> # drop (i + 1) a)
      else if s > gr_start r \<and> e = gr_end r
      then Some (take i a @ r\<lparr>gr_end := s - 1\<rparr> # new # drop (i + 1) a)
      else None)"

text \<open>The bounds of a range in the array of the address \<open>n\<close>.\<close>

definition geo_s :: "u32 \<Rightarrow> u32 \<Rightarrow> 16 word" where
  "geo_s start n = (if n = start then ucast n else 0)"

definition geo_e :: "u32 \<Rightarrow> u32 \<Rightarrow> 16 word" where
  "geo_e end' n = (if n OR 0xffff > end' then ucast end' else 0xffff)"

definition geo_high :: "u32 \<Rightarrow> 16 word" where
  "geo_high n = ucast (drop_bit 16 n)"

text \<open>The loop over the arrays. \<open>None\<close> is that it does not end, \<open>Some None\<close> that the range is refused.\<close>

partial_function (option) geo_add_loop :: "ngx_uint_t \<Rightarrow> u32 \<Rightarrow> u32 \<Rightarrow> u32 \<Rightarrow> geo_low \<Rightarrow> geo_low option option" where
  "geo_add_loop v start end' n low =
     (if n \<le> end'
      then let a = (case low (geo_high n) of None \<Rightarrow> [] | Some a \<Rightarrow> a) in
           (case geo_add_low v (geo_s start n) (geo_e end' n) (length a) a of
              None \<Rightarrow> Some None
            | Some a \<Rightarrow> geo_add_loop v start end' ((n + 0x10000) AND 0xffff0000) (low(geo_high n \<mapsto> a)))
      else Some (Some low))"

declare geo_add_loop.simps [code]

definition ngx_http_geo_add_range :: "ngx_uint_t \<Rightarrow> u32 \<Rightarrow> u32 \<Rightarrow> geo_low \<Rightarrow> geo_low option option" where
  "ngx_http_geo_add_range v start end' low = geo_add_loop v start end' start low"

text \<open>\<open>ngx_http_geo_delete_range\<close>: the search in one array, with the warning, and the loop over the arrays.\<close>

fun geo_delete_low :: "16 word \<Rightarrow> 16 word \<Rightarrow> geo_range list \<Rightarrow> bool \<Rightarrow> geo_range list \<times> bool" where
  "geo_delete_low s e [] warn = ([], warn)"
| "geo_delete_low s e (r # a) warn =
     (if s = gr_start r \<and> e = gr_end r then (a, warn)
      else let (a', warn) = geo_delete_low s e a (if s \<noteq> gr_start r \<and> e \<noteq> gr_end r then warn else True)
           in (r # a', warn))"

partial_function (option) geo_delete_loop :: "u32 \<Rightarrow> u32 \<Rightarrow> u32 \<Rightarrow> bool \<Rightarrow> geo_low \<Rightarrow> (bool \<times> geo_low) option" where
  "geo_delete_loop start end' n warn low =
     (if n \<le> end'
      then (case low (geo_high n) of
              None \<Rightarrow> geo_delete_loop start end' (n + 0x10000) True low
            | Some a \<Rightarrow>
                let (a, warn) = geo_delete_low (geo_s start n) (geo_e end' n) a warn
                in geo_delete_loop start end' (n + 0x10000) warn (low(geo_high n \<mapsto> a)))
      else Some (warn, low))"

declare geo_delete_loop.simps [code]

definition ngx_http_geo_delete_range :: "u32 \<Rightarrow> u32 \<Rightarrow> geo_low \<Rightarrow> (bool \<times> geo_low) option" where
  "ngx_http_geo_delete_range start end' low = geo_delete_loop start end' start False low"

text \<open>
  The lookup of \<open>ngx_http_geo_range_variable\<close>: the first range of the array that holds the low half of the address, else the default. The
  end of the block copies the arrays that have ranges; for an array whose ranges were all deleted the pointer stays at the array
  in the pool that is destroyed there, and \<open>None\<close> is the use of it.
\<close>

fun geo_find_low :: "16 word \<Rightarrow> ngx_uint_t \<Rightarrow> geo_range list \<Rightarrow> ngx_uint_t" where
  "geo_find_low n v [] = v"
| "geo_find_low n v (r # a) = (if n \<ge> gr_start r \<and> n \<le> gr_end r then gr_value r else geo_find_low n v a)"

definition geo_range_find :: "ngx_uint_t \<Rightarrow> geo_low \<Rightarrow> u32 \<Rightarrow> ngx_uint_t option" where
  "geo_range_find default_value low inaddr =
     (case low (geo_high inaddr) of
        None \<Rightarrow> Some default_value
      | Some [] \<Rightarrow> None
      | Some a \<Rightarrow> Some (geo_find_low (ucast inaddr) default_value a))"

text \<open>
  The address of the client that \<open>ngx_http_geo_addr\<close> gives, an IPv6 one with the memory behind it; one that is not an IPv4
  address is looked up as \<open>INADDR_NONE\<close>.
\<close>

datatype geo_addr = No_addr | Addr_in u32 | Addr_in6 bytes

definition v4mapped :: "bytes \<Rightarrow> bool" where
  "v4mapped p \<longleftrightarrow> take 12 p = replicate 10 0 @ [0xff, 0xff]"

definition mapped_addr :: "bytes \<Rightarrow> u32" where
  "mapped_addr p = push_bit 24 (ucast (p ! 12)) + push_bit 16 (ucast (p ! 13)) + push_bit 8 (ucast (p ! 14)) + ucast (p ! 15)"

definition geo_inaddr :: "geo_addr \<Rightarrow> u32" where
  "geo_inaddr a =
     (case a of
        No_addr \<Rightarrow> 0xffffffff
      | Addr_in6 p \<Rightarrow> if v4mapped p then mapped_addr p else 0xffffffff
      | Addr_in inaddr \<Rightarrow> inaddr)"

definition ngx_http_geo_range_variable :: "ngx_uint_t \<Rightarrow> geo_low \<Rightarrow> geo_addr \<Rightarrow> ngx_uint_t option" where
  "ngx_http_geo_range_variable default_value low a = geo_range_find default_value low (geo_inaddr a)"

section \<open>One array\<close>

definition ranges_ok :: "geo_range list \<Rightarrow> bool" where
  "ranges_ok a \<longleftrightarrow> sorted_wrt (\<lambda>r r'. gr_end r < gr_start r') a \<and> (\<forall>r\<in>set a. gr_start r \<le> gr_end r)"

definition in_range :: "16 word \<Rightarrow> geo_range \<Rightarrow> bool" where
  "in_range n r \<longleftrightarrow> gr_start r \<le> n \<and> n \<le> gr_end r"

text \<open>Two ranges that overlap without the new one being inside of the old one.\<close>

definition clash :: "16 word \<Rightarrow> 16 word \<Rightarrow> geo_range \<Rightarrow> bool" where
  "clash s e r \<longleftrightarrow> s \<le> gr_end r \<and> gr_start r \<le> e \<and> \<not> (gr_start r \<le> s \<and> e \<le> gr_end r)"

lemma geo_find_append: "geo_find_low n v (a @ b) = geo_find_low n (geo_find_low n v b) a"
  by (induction a) simp_all

lemma geo_find_outside: "\<forall>r\<in>set a. \<not> in_range n r \<Longrightarrow> geo_find_low n v a = v"
  by (induction a) (auto simp: in_range_def)

lemma geo_find_Cons: "geo_find_low n v (r # a) = (if in_range n r then gr_value r else geo_find_low n v a)"
  by (simp add: in_range_def)

lemma ranges_ok_Cons: "ranges_ok (r # a) \<longleftrightarrow> gr_start r \<le> gr_end r \<and> (\<forall>r'\<in>set a. gr_end r < gr_start r') \<and> ranges_ok a"
  by (auto simp: ranges_ok_def)

lemma ranges_ok_append: "ranges_ok (a @ b) \<longleftrightarrow> ranges_ok a \<and> ranges_ok b \<and> (\<forall>r\<in>set a. \<forall>r'\<in>set b. gr_end r < gr_start r')"
  by (auto simp: ranges_ok_def sorted_wrt_append)

lemma ranges_ok_Nil [simp]: "ranges_ok []"
  by (simp add: ranges_ok_def)

lemma word16_pred: "(t :: 16 word) < s \<Longrightarrow> n \<le> s - 1 \<longleftrightarrow> n < s"
  by unat_arith

lemma word16_succ: "(e :: 16 word) < t \<Longrightarrow> e + 1 \<le> n \<longleftrightarrow> e < n"
  by unat_arith

lemma word16_pred_less: "(t :: 16 word) < s \<Longrightarrow> s - 1 < n \<longleftrightarrow> s \<le> n"
  by unat_arith

lemma word16_succ_less: "(e :: 16 word) < t \<Longrightarrow> n < e + 1 \<longleftrightarrow> n \<le> e"
  by unat_arith

lemmas word16 = word16_pred word16_succ word16_pred_less word16_succ_less

lemma word16_le_succ: "(e :: 16 word) < t \<Longrightarrow> x \<le> e \<Longrightarrow> x \<le> e + 1"
  by unat_arith

lemma word16_pred_le: "(t :: 16 word) < s \<Longrightarrow> s \<le> x \<Longrightarrow> s - 1 \<le> x"
  by unat_arith

lemma replace_range:
  assumes ok: "ranges_ok (p @ r # suf)" and s: "gr_start r \<le> s" and e: "\<forall>r'\<in>set suf. e < gr_start r'"
  and X: "ranges_ok X" "\<forall>x\<in>set X. gr_start r \<le> gr_start x \<and> (gr_end x \<le> gr_end r \<or> gr_end x \<le> e)"
  and find: "\<forall>n d. geo_find_low n d X = (if s \<le> n \<and> n \<le> e then v else geo_find_low n d [r])"
  shows "ranges_ok (p @ X @ suf)
    \<and> (\<forall>n d. geo_find_low n d (p @ X @ suf) = (if s \<le> n \<and> n \<le> e then v else geo_find_low n d (p @ r # suf)))"
proof (intro conjI allI)
  have p: "\<forall>q\<in>set p. gr_end q < gr_start r" "\<forall>q\<in>set p. \<forall>r'\<in>set suf. gr_end q < gr_start r'" "\<forall>r'\<in>set suf. gr_end r < gr_start r'"
    "ranges_ok p" "ranges_ok suf"
    using ok by (auto simp: ranges_ok_append ranges_ok_Cons)
  have "\<forall>q\<in>set p. \<forall>x\<in>set X. gr_end q < gr_start x" "\<forall>x\<in>set X. \<forall>r'\<in>set suf. gr_end x < gr_start r'"
    using p X(2) e by (blast intro: less_le_trans le_less_trans)+
  then show "ranges_ok (p @ X @ suf)" using p X(1) by (auto simp: ranges_ok_append)
  fix n d
  have "geo_find_low n x p = x" if "s \<le> n" for x
    by (rule geo_find_outside) (use p(1) s that in \<open>force simp: in_range_def\<close>)
  then show "geo_find_low n d (p @ X @ suf) = (if s \<le> n \<and> n \<le> e then v else geo_find_low n d (p @ r # suf))"
    using find by (simp add: geo_find_append del: geo_find_low.simps) (simp add: geo_find_Cons del: geo_find_low.simps(2))
qed

lemma geo_add_low_loop:
  assumes "ranges_ok (a @ suf)" "s \<le> e" "\<forall>r\<in>set suf. e < gr_start r" "a = [] \<longrightarrow> suf = []" "a \<noteq> [] \<longrightarrow> gr_start (hd a) \<le> e"
  shows "case geo_add_low v s e (length a) (a @ suf) of
      None \<Rightarrow> \<exists>r\<in>set a. clash s e r
    | Some a' \<Rightarrow> ranges_ok a' \<and> (\<forall>n d. geo_find_low n d a' = (if s \<le> n \<and> n \<le> e then v else geo_find_low n d (a @ suf)))"
  using assms
proof (induction a arbitrary: suf rule: rev_induct)
  case Nil
  then show ?case by (auto simp: ranges_ok_Cons)
next
  case (snoc r p)
  let ?new = "\<lparr>gr_start = s, gr_end = e, gr_value = v\<rparr>"
  have ok: "ranges_ok (p @ r # suf)" using snoc.prems(1) by simp
  have r: "gr_start r \<le> gr_end r" using ok by (simp add: ranges_ok_append ranges_ok_Cons)
  have found: ?case
    if "geo_add_low v s e (length (p @ [r])) ((p @ [r]) @ suf) = Some (p @ X @ suf)" "gr_start r \<le> s" "ranges_ok X"
      "\<forall>x\<in>set X. gr_start r \<le> gr_start x \<and> (gr_end x \<le> gr_end r \<or> gr_end x \<le> e)"
      "\<forall>n d. geo_find_low n d X = (if s \<le> n \<and> n \<le> e then v else geo_find_low n d [r])" for X
    using replace_range [OF ok that(2) snoc.prems(3) that(3-5)] that(1) by (auto simp del: geo_add_low.simps)
  consider (before) "e < gr_start r" | (after) "gr_end r < s" | (same) "s = gr_start r" "e = gr_end r"
    | (split) "gr_start r < s" "e < gr_end r" | (start) "s = gr_start r" "e < gr_end r" | (tail) "gr_start r < s" "e = gr_end r" "s \<le> gr_end r"
    | (clash) "clash s e r"
    using linorder_less_linear [of s "gr_start r"] linorder_less_linear [of e "gr_end r"] linorder_less_linear [of s "gr_end r"]
    by (cases "e < gr_start r"; cases "gr_end r < s") (auto simp: clash_def not_less not_le less_imp_le)
  then show ?case
  proof cases
    case before
    have "p \<noteq> []" using before snoc.prems(5) by auto
    then show ?thesis using before snoc.IH [of "r # suf"] snoc.prems by (auto split: option.splits)
  next
    case after
    show ?thesis
      by (rule found [of "[r, ?new]"]) (use after r snoc.prems(2) in \<open>auto simp: Let_def ranges_ok_Cons word16 list_update_append intro: word16_le_succ word16_pred_le\<close>)
  next
    case same
    show ?thesis
      by (rule found [of "[r\<lparr>gr_value := v\<rparr>]"]) (use same r snoc.prems(2) in \<open>auto simp: Let_def ranges_ok_Cons word16 list_update_append intro: word16_le_succ word16_pred_le\<close>)
  next
    case split
    show ?thesis
      by (rule found [of "[r\<lparr>gr_end := s - 1\<rparr>, ?new, r\<lparr>gr_start := e + 1\<rparr>]"]) (use split r snoc.prems(2) in \<open>auto simp: Let_def ranges_ok_Cons word16 list_update_append intro: word16_le_succ word16_pred_le\<close>)
  next
    case start
    show ?thesis
      by (rule found [of "[?new, r\<lparr>gr_start := e + 1\<rparr>]"]) (use start r snoc.prems(2) in \<open>auto simp: Let_def ranges_ok_Cons word16 list_update_append intro: word16_le_succ word16_pred_le\<close>)
  next
    case tail
    show ?thesis
      by (rule found [of "[r\<lparr>gr_end := s - 1\<rparr>, ?new]"]) (use tail r snoc.prems(2) in \<open>auto simp: Let_def ranges_ok_Cons word16 list_update_append intro: word16_le_succ word16_pred_le\<close>)
  next
    case clash
    then show ?thesis by (auto simp: Let_def clash_def)
  qed
qed

section \<open>All arrays\<close>

lemma unat_geo_high: "unat (geo_high n) = unat n div 65536"
proof -
  have "unat n < 2 ^ 32" using unat_word_less [of n] by simp
  then have "unat n div 65536 < 65536" by (simp add: div_less_iff_less_mult)
  moreover have "unat (drop_bit 16 n) = unat n div 65536" by (subst unat_drop_bit_eq) (simp add: drop_bit_eq_div)
  ultimately show ?thesis by (simp add: geo_high_def unsigned_ucast_eq take_bit_nat_eq_self)
qed

lemma unat_geo_low: "unat (ucast (n :: u32) :: 16 word) = unat n mod 65536"
  by (simp add: unsigned_ucast_eq take_bit_eq_mod)

lemma unat_or_low: "unat ((n :: u32) OR 0xffff) = unat n div 65536 * 65536 + 65535"
proof -
  have m: "(0xffff :: u32) = mask 16" by (simp add: mask_eq_exp_minus_1)
  have "unat (n OR mask 16) = unat n OR mask 16" by (simp add: unsigned_or_eq mask_eq_exp_minus_1)
  also have "\<dots> = push_bit 16 (drop_bit 16 (unat n OR mask 16)) + take_bit 16 (unat n OR mask 16)" by (simp only: bits_ident)
  also have "drop_bit 16 (unat n OR mask 16) = unat n div 65536" 
  proof -
    have "drop_bit 16 (unat n OR mask 16) = drop_bit 16 (unat n)" by (simp add: drop_bit_mask_eq)
    then show ?thesis by (simp add: drop_bit_eq_div)
  qed
  also have "take_bit 16 (unat n OR mask 16) = mask 16" by (rule bit_eqI) (auto simp: bit_simps)
  finally show ?thesis unfolding m by (simp add: push_bit_eq_mult mask_eq_exp_minus_1)
qed

lemma unat_and_high: "unat ((n :: u32) AND 0xffff0000) = unat n div 65536 * 65536"
proof -
  have "(0xffff0000 :: u32) = NOT (mask 16)" by (simp add: mask_eq_exp_minus_1)
  moreover have "n AND NOT (mask 16) = push_bit 16 (drop_bit 16 n)" by (rule bit_eqI) (auto simp: bit_simps)
  ultimately have "n AND 0xffff0000 = push_bit 16 (drop_bit 16 n)" by (simp only:)
  moreover have "unat (drop_bit 16 n) = unat n div 65536" by (subst unat_drop_bit_eq) (simp add: drop_bit_eq_div)
  then have "unat (push_bit 16 (drop_bit 16 n)) = unat n div 65536 * 65536"
  proof -
    assume d: "unat (drop_bit 16 n) = unat n div 65536"
    have "unat (push_bit 16 (drop_bit 16 n)) = take_bit 32 (push_bit 16 (unat (drop_bit 16 n)))" by (simp only: unsigned_push_bit_eq) simp
    also have "\<dots> = unat n div 65536 * 65536"
      unfolding d using unat_word_less [of n] by (simp add: push_bit_eq_mult take_bit_nat_eq_self)
    finally show ?thesis .
  qed
  ultimately show ?thesis by simp
qed

lemma unat_geo_next:
  assumes "n < 0xffff0000"
  shows "unat ((n + 0x10000) AND 0xffff0000 :: u32) = (unat n div 65536 + 1) * 65536"
proof -
  have "unat n < 0xffff0000" using assms by (simp add: word_less_nat_alt)
  then have "unat (n + 0x10000) = unat n + 0x10000" by (simp add: unat_word_ariths)
  moreover have "(unat n + 0x10000) div 65536 = unat n div 65536 + 1" by simp
  ultimately show ?thesis by (simp only: unat_and_high)
qed

lemmas geo_unat = unat_geo_high unat_geo_low unat_or_low

text \<open>The part of a range in the array of \<open>n\<close>, where the loop stands at the start of the range or of an array.\<close>

lemma geo_part:
  assumes n: "n = start \<or> unat n mod 65536 = 0" "n \<le> end'"
  shows "geo_high x = geo_high n \<and> geo_s start n \<le> ucast x \<and> ucast x \<le> geo_e end' n
     \<longleftrightarrow> n \<le> x \<and> x \<le> end' \<and> geo_high x = geo_high n"
proof -
  define N E X where "N = unat n" and "E = unat end'" and "X = unat x"
  have s: "unat (geo_s start n) = N mod 65536" using n(1) by (auto simp: geo_s_def unat_geo_low N_def)
  have e: "unat (geo_e end' n) = (if N div 65536 * 65536 + 65535 > E then E mod 65536 else 65535)"
    by (simp add: geo_e_def unat_geo_low word_less_nat_alt unat_or_low N_def E_def)
  have high: "geo_high x = geo_high n \<longleftrightarrow> X div 65536 = N div 65536" by (simp add: word_unat_eq_iff unat_geo_high X_def N_def)
  have NE: "N \<le> E" using n(2) by (simp add: word_le_nat_alt N_def E_def)
  have "N mod 65536 \<le> X mod 65536 \<and> X mod 65536 \<le> (if N div 65536 * 65536 + 65535 > E then E mod 65536 else 65535) \<longleftrightarrow> N \<le> X \<and> X \<le> E"
    if "X div 65536 = N div 65536"
  proof -
    have X: "X = N div 65536 * 65536 + X mod 65536" using that by (metis div_mult_mod_eq)
    have N: "N = N div 65536 * 65536 + N mod 65536" by simp
    have NX: "N mod 65536 \<le> X mod 65536 \<longleftrightarrow> N \<le> X" using X N by - (rule iffI, linarith+)
    show ?thesis
    proof (cases "N div 65536 * 65536 + 65535 > E")
      case True
      then have "E div 65536 = N div 65536" using NE div_le_mono [OF NE, of 65536] by (simp add: div_nat_eqI)
      then have E: "E = N div 65536 * 65536 + E mod 65536" by (metis div_mult_mod_eq)
      have "X mod 65536 \<le> E mod 65536 \<longleftrightarrow> X \<le> E" using X E by - (rule iffI, linarith+)
      then show ?thesis using NX True by simp
    next
      case False
      have "X mod 65536 \<le> 65535" by simp
      then have "X \<le> E" using X False by linarith
      then show ?thesis using NX False \<open>X mod 65536 \<le> 65535\<close> by simp
    qed
  qed
  then show ?thesis by (auto simp: high word_le_nat_alt s e unat_geo_low N_def [symmetric] E_def [symmetric] X_def [symmetric])
qed

lemma geo_next:
  assumes "n < 0xffff0000"
  shows "n < (n + 0x10000) AND 0xffff0000" "unat ((n + 0x10000) AND 0xffff0000) mod 65536 = 0"
    "geo_high x = geo_high n \<or> (n \<le> x \<longleftrightarrow> (n + 0x10000) AND 0xffff0000 \<le> x)"
    "geo_high x = geo_high n \<longrightarrow> \<not> (n + 0x10000) AND 0xffff0000 \<le> x"
proof -
  have u: "unat ((n + 0x10000) AND 0xffff0000 :: u32) = (unat n div 65536 + 1) * 65536" by (rule unat_geo_next [OF assms])
  have lt: "unat n < (unat n div 65536 + 1) * 65536" by (simp add: dividend_less_div_times)
  show "n < (n + 0x10000) AND 0xffff0000" unfolding word_less_nat_alt u by (rule lt)
  show "unat ((n + 0x10000) AND 0xffff0000) mod 65536 = 0" unfolding u by simp
  have high: "geo_high x = geo_high n \<longleftrightarrow> unat x div 65536 = unat n div 65536" by (simp add: word_unat_eq_iff unat_geo_high)
  have ge: "(unat n div 65536 + 1) * 65536 \<le> unat x \<longleftrightarrow> unat n div 65536 < unat x div 65536"
    using less_eq_div_iff_mult_less_eq [of 65536 "unat n div 65536 + 1" "unat x"] by (simp only: Suc_le_eq Suc_eq_plus1 [symmetric])
  have "unat n \<le> unat x \<Longrightarrow> unat n div 65536 \<le> unat x div 65536" by (rule div_le_mono)
  moreover have "unat n div 65536 < unat x div 65536 \<Longrightarrow> unat n \<le> unat x" using ge lt by linarith
  ultimately show "geo_high x = geo_high n \<or> (n \<le> x \<longleftrightarrow> (n + 0x10000) AND 0xffff0000 \<le> x)"
    "geo_high x = geo_high n \<longrightarrow> \<not> (n + 0x10000) AND 0xffff0000 \<le> x"
    unfolding high word_le_nat_alt u ge by auto
qed

definition low_ok :: "geo_low \<Rightarrow> bool" where
  "low_ok low \<longleftrightarrow> (\<forall>h a. low h = Some a \<longrightarrow> ranges_ok a \<and> a \<noteq> [])"

text \<open>No part of the new range ends before the first range of its array.\<close>

definition reaches :: "u32 \<Rightarrow> u32 \<Rightarrow> geo_low \<Rightarrow> bool" where
  "reaches start end' low \<longleftrightarrow>
     (\<forall>n a. start \<le> n \<longrightarrow> n \<le> end' \<longrightarrow> low (geo_high n) = Some a \<longrightarrow> gr_start (hd a) \<le> geo_e end' n)"

lemma geo_s_le_e: "n = start \<or> unat n mod 65536 = 0 \<Longrightarrow> n \<le> end' \<Longrightarrow> geo_s start n \<le> geo_e end' n"
proof -
  assume "n = start \<or> unat n mod 65536 = 0" "n \<le> end'"
  then have "geo_s start n \<le> ucast n \<and> ucast n \<le> geo_e end' n" using geo_part [of n start end' n] by simp
  then show ?thesis by (blast intro: order_trans)
qed

lemma variable_update:
  assumes "low_ok low" "a' \<noteq> []" "n = start \<or> unat n mod 65536 = 0" "n \<le> end'" "a = (case low (geo_high n) of None \<Rightarrow> [] | Some a \<Rightarrow> a)"
  and find: "\<forall>m d. geo_find_low m d a' = (if geo_s start n \<le> m \<and> m \<le> geo_e end' n then v else geo_find_low m d a)"
  shows "geo_range_find d (low(geo_high n \<mapsto> a')) x =
    (if n \<le> x \<and> x \<le> end' \<and> geo_high x = geo_high n then Some v else geo_range_find d low x)"
proof (cases "geo_high x = geo_high n")
  case True
  have "geo_range_find d (low(geo_high n \<mapsto> a')) x = Some (geo_find_low (ucast x) d a')"
    using assms(2) True by (cases a') (simp_all add: geo_range_find_def)
  moreover have "geo_range_find d low x = Some (geo_find_low (ucast x) d a)"
    using assms(1,5) True by (auto simp: geo_range_find_def low_ok_def split: option.splits list.splits)
  ultimately show ?thesis using find geo_part [OF assms(3,4), of x] True by simp
qed (simp add: geo_range_find_def)

lemma geo_add_step:
  assumes ok: "low_ok low" and n: "n = start \<or> unat n mod 65536 = 0" "n \<le> end'" and r: "reaches n end' low"
  and a: "a = (case low (geo_high n) of None \<Rightarrow> [] | Some a \<Rightarrow> a)"
  shows "case geo_add_low v (geo_s start n) (geo_e end' n) (length a) a of
      None \<Rightarrow> \<exists>rg\<in>set a. clash (geo_s start n) (geo_e end' n) rg
    | Some a' \<Rightarrow> low_ok (low(geo_high n \<mapsto> a')) \<and> (\<forall>x d. geo_range_find d (low(geo_high n \<mapsto> a')) x =
        (if n \<le> x \<and> x \<le> end' \<and> geo_high x = geo_high n then Some v else geo_range_find d low x))"
proof -
  let ?s = "geo_s start n" and ?e = "geo_e end' n"
  have "ranges_ok a" using ok a by (auto simp: low_ok_def split: option.splits)
  moreover have "a \<noteq> [] \<longrightarrow> gr_start (hd a) \<le> ?e" using r n(2) a by (auto simp: reaches_def split: option.splits)
  moreover have "\<forall>r\<in>set []. ?e < gr_start r" "a = [] \<longrightarrow> [] = ([] :: geo_range list)" by simp_all
  ultimately have c: "case geo_add_low v ?s ?e (length a) a of None \<Rightarrow> \<exists>rg\<in>set a. clash ?s ?e rg
    | Some a' \<Rightarrow> ranges_ok a' \<and> (\<forall>n d. geo_find_low n d a' = (if ?s \<le> n \<and> n \<le> ?e then v else geo_find_low n d a))"
    using geo_add_low_loop [of a "[]" ?s ?e v] geo_s_le_e [OF n] unfolding append_Nil2 by blast
  show ?thesis
  proof (cases "geo_add_low v ?s ?e (length a) a")
    case (Some a')
    then have a': "ranges_ok a'" and find: "\<forall>n d. geo_find_low n d a' = (if ?s \<le> n \<and> n \<le> ?e then v else geo_find_low n d a)" using c by auto
    have "a' \<noteq> []"
    proof
      assume "a' = []"
      then have "v + 1 = v" using find [rule_format, of ?s "v + 1"] geo_s_le_e [OF n] by simp
      then show False by simp
    qed
    then show ?thesis using Some a' variable_update [OF ok _ n a find] ok by (auto simp: low_ok_def)
  qed (use c in simp)
qed

lemma geo_add_loop_ok:
  assumes "end' < 0xffff0000" "n = start \<or> unat n mod 65536 = 0" "low_ok low" "reaches n end' low"
  shows "\<exists>r. geo_add_loop v start end' n low = Some r \<and>
    (case r of
       None \<Rightarrow> \<exists>m a. n \<le> m \<and> m \<le> end' \<and> low (geo_high m) = Some a \<and> (\<exists>rg\<in>set a. clash (geo_s start m) (geo_e end' m) rg)
     | Some low' \<Rightarrow> low_ok low' \<and> (\<forall>x d. geo_range_find d low' x =
         (if n \<le> x \<and> x \<le> end' then Some v else geo_range_find d low x)))"
  using assms
proof (induction "2 ^ 32 - unat n" arbitrary: n low rule: less_induct)
  case less
  show ?case
  proof (cases "n \<le> end'")
    case False
    then have "\<not> (n \<le> x \<and> x \<le> end')" for x by (meson order_trans)
    then show ?thesis using False less.prems(3) by (subst geo_add_loop.simps) auto
  next
    case True
    define a n' where "a = (case low (geo_high n) of None \<Rightarrow> [] | Some a \<Rightarrow> a)" and "n' = (n + 0x10000) AND 0xffff0000"
    have "n < 0xffff0000" using True less.prems(1) by order
    note nx = geo_next [OF this, folded n'_def]
    note st = geo_add_step [OF less.prems(3,2) True less.prems(4) a_def, of v]
    show ?thesis
    proof (cases "geo_add_low v (geo_s start n) (geo_e end' n) (length a) a")
      case None
      have "low (geo_high n) = Some a" using st None by (auto simp: a_def split: option.splits)
      then show ?thesis using st None True by (subst geo_add_loop.simps) (auto simp: Let_def a_def [symmetric])
    next
      case (Some a')
      let ?low = "low(geo_high n \<mapsto> a')"
      have high: "geo_high m \<noteq> geo_high n" if "n' \<le> m" for m using nx(4) that by blast
      have "n \<le> m" if "n' \<le> m" for m using nx(1) that by order
      then have "reaches n' end' ?low" using less.prems(4) high by (auto simp: reaches_def)
      moreover have "2 ^ 32 - unat n' < 2 ^ 32 - unat n" using nx(1) unat_word_less [of n'] by (simp add: word_less_nat_alt)
      moreover have "low_ok ?low" using st Some by simp
      ultimately obtain r where r: "geo_add_loop v start end' n' ?low = Some r"
        "case r of None \<Rightarrow> \<exists>m a. n' \<le> m \<and> m \<le> end' \<and> ?low (geo_high m) = Some a \<and> (\<exists>rg\<in>set a. clash (geo_s start m) (geo_e end' m) rg)
         | Some low' \<Rightarrow> low_ok low' \<and> (\<forall>x d. geo_range_find d low' x =
             (if n' \<le> x \<and> x \<le> end' then Some v else geo_range_find d ?low x))"
        using less.hyps [of n' ?low] less.prems(1) nx(2) by blast
      have loop: "geo_add_loop v start end' n low = Some r"
        using True Some r(1) by (subst geo_add_loop.simps) (simp add: Let_def a_def [symmetric] n'_def)
      have var: "geo_range_find d ?low x = (if n \<le> x \<and> x \<le> end' \<and> geo_high x = geo_high n then Some v else geo_range_find d low x)"
        for x d using st Some by simp
      have "case r of
          None \<Rightarrow> \<exists>m a. n \<le> m \<and> m \<le> end' \<and> low (geo_high m) = Some a \<and> (\<exists>rg\<in>set a. clash (geo_s start m) (geo_e end' m) rg)
        | Some low' \<Rightarrow> low_ok low' \<and> (\<forall>x d. geo_range_find d low' x =
            (if n \<le> x \<and> x \<le> end' then Some v else geo_range_find d low x))"
      proof (cases r)
        case None
        then obtain m b where "n' \<le> m" "m \<le> end'" "?low (geo_high m) = Some b" "\<exists>rg\<in>set b. clash (geo_s start m) (geo_e end' m) rg"
          using r(2) by auto
        moreover from this have "low (geo_high m) = Some b" using high by simp
        ultimately show ?thesis using None \<open>\<And>m. n' \<le> m \<Longrightarrow> n \<le> m\<close> by auto
      next
        case (Some low')
        have "geo_range_find d low' x = (if n \<le> x \<and> x \<le> end' then Some v else geo_range_find d low x)" for x d
        proof -
          have 1: "geo_range_find d low' x = (if n' \<le> x \<and> x \<le> end' then Some v else geo_range_find d ?low x)"
            using r(2) Some by simp
          show ?thesis unfolding 1 var using nx(3,4) [of x] by (cases "geo_high x = geo_high n") simp_all
        qed
        then show ?thesis using r(2) Some by simp
      qed
      then show ?thesis using loop by blast
    qed
  qed
qed

section \<open>Properties\<close>

text \<open>
  C17. Adding a range of addresses does what the directive says, under three conditions: every array that is there holds at
  least one range and its ranges are in order without overlap; the range ends below 255.255.0.0; and in no array that the range
  touches does its part end before the first range of the array. Then the loops end. Either the range is refused, and then it overlaps
  a range of one array without lying inside of it; or every address of the range gets the new value, every
  other address keeps its value, and the arrays are in order again, however many arrays the range touches and ranges it splits.
\<close>

theorem geo_add_range_lookup:
  assumes "low_ok low" "end' < 0xffff0000" "reaches start end' low"
  shows "\<exists>r. ngx_http_geo_add_range v start end' low = Some r \<and>
    (case r of
       None \<Rightarrow> \<exists>m a. start \<le> m \<and> m \<le> end' \<and> low (geo_high m) = Some a \<and> (\<exists>rg\<in>set a. clash (geo_s start m) (geo_e end' m) rg)
     | Some low' \<Rightarrow> low_ok low' \<and> (\<forall>x d. ngx_http_geo_range_variable d low' x =
         (if start \<le> geo_inaddr x \<and> geo_inaddr x \<le> end' then Some v else ngx_http_geo_range_variable d low x)))"
proof -
  obtain r where r: "ngx_http_geo_add_range v start end' low = Some r"
      "case r of
       None \<Rightarrow> \<exists>m a. start \<le> m \<and> m \<le> end' \<and> low (geo_high m) = Some a \<and> (\<exists>rg\<in>set a. clash (geo_s start m) (geo_e end' m) rg)
     | Some low' \<Rightarrow> low_ok low' \<and> (\<forall>x d. geo_range_find d low' x = (if start \<le> x \<and> x \<le> end' then Some v else geo_range_find d low x))"
    using geo_add_loop_ok [of end' start start low v] assms unfolding ngx_http_geo_add_range_def by blast
  then show ?thesis by (cases r) (auto simp: ngx_http_geo_range_variable_def)
qed

theorem geo_add_range_lookup_witness:
  "let low = [0x0A00 \<mapsto> [\<lparr>gr_start = 0, gr_end = 0xffff, gr_value = 1\<rparr>]]
   in (\<exists>low'. ngx_http_geo_add_range 2 0x0A000100 0x0A0101ff low = Some (Some low'))
      \<and> (\<exists>r. ngx_http_geo_add_range 2 0x0A000100 0x0A0101ff low = Some r \<and>
           (\<forall>low'. r = Some low' \<longrightarrow> ngx_http_geo_range_variable 7 low' (Addr_in 0x0A000200) = Some 2))"
proof -
  let ?low = "[0x0A00 \<mapsto> [\<lparr>gr_start = 0, gr_end = 0xffff, gr_value = 1\<rparr>]] :: geo_low"
  have ok: "low_ok ?low" by (auto simp: low_ok_def ranges_ok_Cons split: if_splits)
  have r: "reaches 0x0A000100 0x0A0101ff ?low" by (auto simp: reaches_def split: if_splits)
  have "(case ngx_http_geo_add_range 2 0x0A000100 0x0A0101ff ?low of Some (Some low') \<Rightarrow> True | _ \<Rightarrow> False)"
    by code_simp
  then have "\<exists>low'. ngx_http_geo_add_range 2 0x0A000100 0x0A0101ff ?low = Some (Some low')" by (auto split: option.splits)
  moreover have "\<exists>r. ngx_http_geo_add_range 2 0x0A000100 0x0A0101ff ?low = Some r \<and>
           (\<forall>low'. r = Some low' \<longrightarrow> ngx_http_geo_range_variable 7 low' (Addr_in 0x0A000200) = Some 2)"
    using geo_add_range_lookup [OF ok _ r, of 2] by (auto simp: geo_inaddr_def split: option.splits)
  ultimately show ?thesis unfolding Let_def by blast
qed

text \<open>
  C39. A range that reaches 255.255.0.0 or further is never accepted: the address of the loop wraps around to 0 and stays below
  the end, so the loop goes over all arrays again and again, until some range refuses the new one, or for ever.
\<close>

theorem geo_add_range_wraps:
  assumes "start \<le> end'" "0xffff0000 \<le> end'"
  shows "ngx_http_geo_add_range v start end' low \<noteq> Some (Some low')"
proof -
  have "n \<le> end' \<longrightarrow> 0xffff0000 \<le> end' \<longrightarrow> r = None" if "geo_add_loop v start end' n low = Some r" for v start end' n low r
  proof (rule geo_add_loop.raw_induct [where P = "\<lambda>v start end' n low r. n \<le> end' \<longrightarrow> 0xffff0000 \<le> end' \<longrightarrow> r = None", OF _ that])
    fix f v start end' n low r
    assume 1: "\<And>v start end' n low r. f v start end' n low = Some r \<Longrightarrow> n \<le> end' \<longrightarrow> 0xffff0000 \<le> end' \<longrightarrow> r = None"
      "(if n \<le> end'
        then let a = (case low (geo_high n) of None \<Rightarrow> [] | Some a \<Rightarrow> a) in
             (case geo_add_low v (geo_s start n) (geo_e end' n) (length a) a of
                None \<Rightarrow> Some None
              | Some a \<Rightarrow> f v start end' ((n + 0x10000) AND 0xffff0000) (low(geo_high n \<mapsto> a)))
        else Some (Some low)) = Some r"
    show "n \<le> end' \<longrightarrow> 0xffff0000 \<le> end' \<longrightarrow> r = None"
    proof (intro impI)
      assume n: "n \<le> end'" and e: "0xffff0000 \<le> end'"
      have "(n + 0x10000) AND 0xffff0000 \<le> (0xffff0000 :: u32)"
        using unat_and_high [of "n + 0x10000"] unat_word_less [of "n + 0x10000"] by (simp add: word_le_nat_alt)
      then have "(n + 0x10000) AND 0xffff0000 \<le> end'" using e by order
      then show "r = None" using 1(1) [of v start end' "(n + 0x10000) AND 0xffff0000"] 1(2) n e
        by (auto simp: Let_def split: option.splits)
    qed
  qed
  from this [of v start end' start low "Some low'"] show ?thesis using assms by (auto simp: ngx_http_geo_add_range_def)
qed

theorem geo_add_range_wraps_witness:
  "(0xfffe0000 :: u32) \<le> 0xfffffffe \<and> ngx_http_geo_add_range 1 0xfffe0000 0xfffffffe Map.empty \<noteq> Some (Some Map.empty)"
  using geo_add_range_wraps [of "0xfffe0000" "0xfffffffe" 1 Map.empty Map.empty] by simp

text \<open>
  A range that lies before the ranges of its array is added at their end, so the array is not in order, a later range
  inside of the first one is then not noticed, and its addresses keep the old value.
\<close>

lemma geo_add_range_unordered:
  "let r10 = \<lparr>gr_start = 10, gr_end = 20, gr_value = 1\<rparr>; r1 = \<lparr>gr_start = 1, gr_end = 5, gr_value = 2\<rparr>;
       r12 = \<lparr>gr_start = 12, gr_end = 15, gr_value = 3\<rparr>
   in geo_add_low 2 1 5 1 [r10] = Some [r10, r1] \<and> \<not> ranges_ok [r10, r1]
      \<and> geo_add_low 3 12 15 2 [r10, r1] = Some [r10, r1, r12] \<and> geo_find_low 13 0 [r10, r1, r12] = 1
      \<and> geo_add_low 3 12 15 1 [r10] = Some [r10\<lparr>gr_end := 11\<rparr>, r12, r10\<lparr>gr_start := 16\<rparr>]"
  by code_simp

text \<open>Deleting goes from the start of the range by 65536 addresses, so the last array is missed when the range ends lower in it than it starts in the first.\<close>

lemma geo_delete_range_misses_last:
  "let low = [0 \<mapsto> [\<lparr>gr_start = 5, gr_end = 0xffff, gr_value = 1\<rparr>], 1 \<mapsto> [\<lparr>gr_start = 0, gr_end = 2, gr_value = 1\<rparr>]]
   in case ngx_http_geo_delete_range 5 0x10002 low of
        Some (warn, low') \<Rightarrow> \<not> warn \<and> low' 0 = Some [] \<and> low' 1 = low 1
      | None \<Rightarrow> False"
  by code_simp

text \<open>After the last range of an array was deleted, a lookup uses the array that the end of the block has freed.\<close>

lemma geo_deleted_lookup_freed:
  "case ngx_http_geo_delete_range 5 6 [0 \<mapsto> [\<lparr>gr_start = 5, gr_end = 6, gr_value = 1\<rparr>]] of
     Some (warn, low') \<Rightarrow> \<not> warn \<and> ngx_http_geo_range_variable 7 low' (Addr_in 5) = None
   | None \<Rightarrow> False"
  by code_simp

end
