(* ===== verification/HttpGeo.thy ===== *)
theory HttpGeo
  imports NgxRadix HttpGeoRange
begin

text \<open>
  The \<^verbatim>\<open>geo\<close> block of \<^verbatim>\<open>src/http/modules/ngx_http_geo_module.c\<close>, which gives a variable a value by the
  address of the client: the directives with networks, kept in radix trees (through the interface
  \<open>network_table\<close>), the directives with ranges of addresses, kept as an array of ranges for each of the
  65536 high halves of an address, and the two lookups. A value is its address; reading a network from the text of a directive
  and storing a value are parameters, the pushes onto the arrays of ranges do not fail.
\<close>

unbundle bit_operations_syntax

section \<open>Networks\<close>

text \<open>\<open>ngx_cidr_t\<close>, an IPv4 network in the order of the host.\<close>

datatype geo_cidr = Cidr_in u32 u32 | Cidr_in6 bytes bytes

record geo_trees =
  geo_tree :: "radix_tree option"
  geo_tree6 :: "radix_tree option"

text \<open>
  \<open>ngx_http_geo_cidr_add\<close> for the tree of one family: \<open>ins\<close> and \<open>del\<close> are its insertion and deletion. A network
  that is there already is deleted and inserted again. \<open>None\<close> is a null pointer, the truth value is that the
  directive is accepted. Before the deletion the code also searches the tree for the old value, only to name it in a warning;
  that search is left out. It changes nothing, but for IPv6 \<open>ngx_radix128tree_find\<close> can read one byte behind the
  key of the network (\<open>find128_loop\<close> in \<open>NgxRadix\<close> has that reading).
\<close>

definition geo_tree_add ::
  "(radix_tree \<Rightarrow> 'n \<Rightarrow> ngx_uint_t \<Rightarrow> ngx_rc \<times> radix_tree) \<Rightarrow> (radix_tree \<Rightarrow> 'n \<Rightarrow> (ngx_rc \<times> radix_tree) option)
   \<Rightarrow> radix_tree \<Rightarrow> 'n \<Rightarrow> ngx_uint_t \<Rightarrow> (bool \<times> radix_tree) option" where
  "geo_tree_add ins del tree net val =
     (let (rc, tree) = ins tree net val in
      if rc = NGX_OK then Some (True, tree)
      else if rc = NGX_ERROR then Some (False, tree)
      else case del tree net of
             None \<Rightarrow> None
           | Some (rc, tree) \<Rightarrow>
               if rc = NGX_ERROR then Some (False, tree)
               else let (rc, tree) = ins tree net val in Some (rc = NGX_OK, tree))"

definition ngx_http_geo_cidr_add ::
  "(nat \<Rightarrow> bool) \<Rightarrow> geo_trees \<Rightarrow> geo_cidr \<Rightarrow> ngx_uint_t option \<Rightarrow> (bool \<times> geo_trees) option" where
  "ngx_http_geo_cidr_add pmem ctx cidr value_of =
     (case value_of of
        None \<Rightarrow> Some (False, ctx)
      | Some val \<Rightarrow>
          (case cidr of
             Cidr_in6 key msk \<Rightarrow>
               map_option (\<lambda>(ok, tree). (ok, ctx\<lparr>geo_tree6 := Some tree\<rparr>))
                 (geo_tree_add (\<lambda>t n. ngx_radix128tree_insert pmem t (fst n) (snd n)) (\<lambda>t n. ngx_radix128tree_delete t (fst n) (snd n))
                    (the (geo_tree6 ctx)) (key, msk) val)
           | Cidr_in key msk \<Rightarrow>
               map_option (\<lambda>(ok, tree). (ok, ctx\<lparr>geo_tree := Some tree\<rparr>))
                 (geo_tree_add (\<lambda>t n. ngx_radix32tree_insert pmem t (fst n) (snd n)) (\<lambda>t n. ngx_radix32tree_delete t (fst n) (snd n))
                    (the (geo_tree ctx)) (key, msk) val)))"

text \<open>The trees are created by the first directive; when there is no memory the directive fails.\<close>

definition geo_create :: "(nat \<Rightarrow> bool) \<Rightarrow> geo_trees \<Rightarrow> (bool \<times> geo_trees) option" where
  "geo_create pmem ctx =
     (case (if geo_tree ctx = None then ngx_radix_tree_create pmem (- 1) else Some (geo_tree ctx)) of
        None \<Rightarrow> None
      | Some None \<Rightarrow> Some (False, ctx)
      | Some (Some tree) \<Rightarrow>
          (case (if geo_tree6 ctx = None then ngx_radix_tree_create pmem (- 1) else Some (geo_tree6 ctx)) of
             None \<Rightarrow> None
           | Some None \<Rightarrow> Some (False, ctx\<lparr>geo_tree := Some tree\<rparr>)
           | Some (Some tree6) \<Rightarrow> Some (True, ctx\<lparr>geo_tree := Some tree, geo_tree6 := Some tree6\<rparr>)))"

abbreviation (input) zero16 :: bytes where
  "zero16 \<equiv> replicate 16 0"

text \<open>
  \<open>ngx_http_geo_cidr\<close>: \<open>cidr_value\<close> is \<open>ngx_http_geo_cidr_value\<close>, \<open>geo_value\<close> is \<open>ngx_http_geo_value\<close>. A deletion that
  finds no network is only logged.
\<close>

definition ngx_http_geo_cidr ::
  "(nat \<Rightarrow> bool) \<Rightarrow> (bytes \<Rightarrow> geo_cidr option) \<Rightarrow> (bytes \<Rightarrow> ngx_uint_t option) \<Rightarrow> geo_trees \<Rightarrow> bytes \<Rightarrow> bytes
   \<Rightarrow> (bool \<times> geo_trees) option" where
  "ngx_http_geo_cidr pmem cidr_value geo_value ctx value0 value1 =
     (case geo_create pmem ctx of
        None \<Rightarrow> None
      | Some (False, ctx) \<Rightarrow> Some (False, ctx)
      | Some (True, ctx) \<Rightarrow>
          if value0 = s2b ''default''
          then (case ngx_http_geo_cidr_add pmem ctx (Cidr_in 0 0) (geo_value value1) of
                  Some (True, ctx) \<Rightarrow> ngx_http_geo_cidr_add pmem ctx (Cidr_in6 zero16 zero16) (geo_value value1)
                | r \<Rightarrow> r)
          else let del = (value0 = s2b ''delete''); net = (if del then value1 else value0)
               in case cidr_value net of
                    None \<Rightarrow> Some (False, ctx)
                  | Some cidr \<Rightarrow>
                      if del
                      then (case cidr of
                              Cidr_in6 key msk \<Rightarrow>
                                map_option (\<lambda>(rc, tree). (True, ctx\<lparr>geo_tree6 := Some tree\<rparr>))
                                  (ngx_radix128tree_delete (the (geo_tree6 ctx)) key msk)
                            | Cidr_in key msk \<Rightarrow>
                                map_option (\<lambda>(rc, tree). (True, ctx\<lparr>geo_tree := Some tree\<rparr>))
                                  (ngx_radix32tree_delete (the (geo_tree ctx)) key msk))
                      else ngx_http_geo_cidr_add pmem ctx cidr (geo_value value1))"

text \<open>
  The directives of a block: of the cases of \<open>ngx_http_geo\<close> the one of two parameters that name a network, \<open>default\<close> or
  \<open>delete\<close>. \<open>ranges\<close>, \<open>include\<close>, \<open>proxy\<close> and \<open>proxy_recursive\<close> are not among them. The end of the block sets
  the value that addresses in no network get.
\<close>

fun geo_directives ::
  "(nat \<Rightarrow> bool) \<Rightarrow> (bytes \<Rightarrow> geo_cidr option) \<Rightarrow> (bytes \<Rightarrow> ngx_uint_t option) \<Rightarrow> geo_trees \<Rightarrow> (bytes \<times> bytes) list
   \<Rightarrow> (bool \<times> geo_trees) option" where
  "geo_directives pmem cidr_value geo_value ctx [] = Some (True, ctx)"
| "geo_directives pmem cidr_value geo_value ctx ((value0, value1) # ds) =
     (case ngx_http_geo_cidr pmem cidr_value geo_value ctx value0 value1 of
        Some (True, ctx) \<Rightarrow> geo_directives pmem cidr_value geo_value ctx ds
      | r \<Rightarrow> r)"

definition ngx_http_geo_block ::
  "(nat \<Rightarrow> bool) \<Rightarrow> (bytes \<Rightarrow> geo_cidr option) \<Rightarrow> (bytes \<Rightarrow> ngx_uint_t option) \<Rightarrow> ngx_uint_t \<Rightarrow> (bytes \<times> bytes) list
   \<Rightarrow> (bool \<times> geo_trees) option" where
  "ngx_http_geo_block pmem cidr_value geo_value null_value ds =
     (case geo_directives pmem cidr_value geo_value \<lparr>geo_tree = None, geo_tree6 = None\<rparr> ds of
        None \<Rightarrow> None
      | Some (rv, ctx) \<Rightarrow>
          (case geo_create pmem ctx of
             None \<Rightarrow> None
           | Some (False, ctx) \<Rightarrow> Some (False, ctx)
           | Some (True, ctx) \<Rightarrow>
               let (rc, tree) = ngx_radix32tree_insert pmem (the (geo_tree ctx)) 0 0 null_value;
                   ctx = ctx\<lparr>geo_tree := Some tree\<rparr> in
               if rc = NGX_ERROR then Some (False, ctx)
               else let (rc, tree) = ngx_radix128tree_insert pmem (the (geo_tree6 ctx)) zero16 zero16 null_value;
                        ctx = ctx\<lparr>geo_tree6 := Some tree\<rparr> in
                    if rc = NGX_ERROR then Some (False, ctx) else Some (rv, ctx)))"

text \<open>
  \<open>ngx_http_geo_cidr_variable\<close>: the address that \<open>ngx_http_geo_addr\<close> gives, an IPv6 one with the memory behind it. \<open>None\<close> is a read
  outside of the address.
\<close>

definition ngx_http_geo_cidr_variable :: "radix_tree \<Rightarrow> radix_tree \<Rightarrow> geo_addr \<Rightarrow> ngx_uint_t option" where
  "ngx_http_geo_cidr_variable tree tree6 a =
     (case a of
        No_addr \<Rightarrow> Some (ngx_radix32tree_find tree 0xffffffff)
      | Addr_in6 p \<Rightarrow> if v4mapped p then Some (ngx_radix32tree_find tree (mapped_addr p)) else ngx_radix128tree_find tree6 p
      | Addr_in inaddr \<Rightarrow> Some (ngx_radix32tree_find tree inaddr))"

section \<open>Networks and lookups\<close>

text \<open>
  What a block means: the last value given to each network, where \<open>default\<close> is the network of all addresses of both families and a
  deletion takes the value away.
\<close>

type_synonym geo_table = "bool \<times> bool list \<Rightarrow> ngx_uint_t"

fun geo_key :: "geo_cidr \<Rightarrow> bool \<times> bool list" where
  "geo_key (Cidr_in key msk) = (False, net32 (key, msk))"
| "geo_key (Cidr_in6 key msk) = (True, net128 (key, msk))"

definition geo_effect ::
  "(bytes \<Rightarrow> geo_cidr option) \<Rightarrow> (bytes \<Rightarrow> ngx_uint_t option) \<Rightarrow> bytes \<times> bytes \<Rightarrow> geo_table \<Rightarrow> geo_table" where
  "geo_effect cidr_value geo_value d T =
     (if fst d = s2b ''default'' then T((False, []) := the (geo_value (snd d)), (True, []) := the (geo_value (snd d)))
      else if fst d = s2b ''delete'' then T(geo_key (the (cidr_value (snd d))) := NGX_RADIX_NO_VALUE)
      else T(geo_key (the (cidr_value (fst d))) := the (geo_value (snd d))))"

definition geo_final :: "ngx_uint_t \<Rightarrow> geo_table \<Rightarrow> geo_table" where
  "geo_final null_value T = (\<lambda>(f, q). if q = [] \<and> T (f, q) = NGX_RADIX_NO_VALUE then null_value else T (f, q))"

definition geo_trees_ok :: "geo_trees \<Rightarrow> geo_table \<Rightarrow> bool" where
  "geo_trees_ok ctx T \<longleftrightarrow>
     (case geo_tree ctx of None \<Rightarrow> (\<forall>q. T (False, q) = NGX_RADIX_NO_VALUE)
        | Some t \<Rightarrow> radix_ok 32 t \<and> (\<forall>q. radix_get (rx_root t) q = T (False, q)))
     \<and> (case geo_tree6 ctx of None \<Rightarrow> (\<forall>q. T (True, q) = NGX_RADIX_NO_VALUE)
        | Some t \<Rightarrow> radix_ok 128 t \<and> (\<forall>q. radix_get (rx_root t) q = T (True, q)))"

context network_table
begin

text \<open>Adding a network gives it the value, whether it had one or not.\<close>

lemma geo_tree_add_value:
  assumes ok: "ok t" and add: "geo_tree_add (ins pmem) del t n v = Some (b, t')"
  shows "ok t' \<and> (b \<longrightarrow> table t' = (table t)(nets n := v))"
proof (cases "table t (nets n) = NGX_RADIX_NO_VALUE")
  case True
  obtain rc t1 where i: "ins pmem t n v = (rc, t1)" by fastforce
  show ?thesis using ins_new [OF ok True i] add i by (auto simp: geo_tree_add_def)
next
  case False
  have i: "ins pmem t n v = (NGX_BUSY, t)" by (rule ins_busy [OF ok False])
  obtain rc t1 where d: "del t n = Some (rc, t1)" using add i by (auto simp: geo_tree_add_def split: option.splits)
  have t1: "ok t1" "rc = NGX_OK" "table t1 = (table t)(nets n := NGX_RADIX_NO_VALUE)" using del_value [OF ok d] False by auto
  obtain rc2 t2 where i2: "ins pmem t1 n v = (rc2, t2)" by fastforce
  have "ok t2 \<and> (rc2 = NGX_OK \<longrightarrow> table t2 = (table t)(nets n := v))" using ins_new [OF t1(1) _ i2] t1(3) by auto
  then show ?thesis using add i d t1(2) i2 by (auto simp: geo_tree_add_def)
qed

text \<open>The value for all addresses is set when there is none.\<close>

lemma ins_default:
  assumes "ok t" "ins pmem t n v = (rc, t')" "rc \<noteq> NGX_ERROR"
  shows "ok t' \<and> table t' = (\<lambda>q. if q = nets n \<and> table t q = NGX_RADIX_NO_VALUE then v else table t q)"
  using ins_busy [OF assms(1), of n pmem v] ins_new [OF assms(1) _ assms(2)] assms
  by (cases "table t (nets n) = NGX_RADIX_NO_VALUE") auto

end

lemma net32_zero [simp]: "net32 (0, 0) = []"
  by (simp add: net32_def bits32.simps)

lemma net128_zero [simp]: "net128 (zero16, zero16) = []"
  by (simp add: net128_def bits128.simps)

lemma geo_create_ok:
  assumes "geo_trees_ok ctx T" "geo_create pmem ctx = Some (True, ctx')"
  shows "geo_trees_ok ctx' T \<and> geo_tree ctx' \<noteq> None \<and> geo_tree6 ctx' \<noteq> None"
proof -
  obtain r where r: "ngx_radix_tree_create pmem (- 1) = Some r"
      "case r of None \<Rightarrow> \<not> (\<forall>n. pmem n) | Some tree \<Rightarrow> radix_ok 32 tree \<and> radix_get (rx_root tree) = (\<lambda>_. NGX_RADIX_NO_VALUE)"
    using radix_create by blast
  have "radix_ok 32 t \<Longrightarrow> radix_ok 128 t" for t by (simp add: radix_ok_def)
  then show ?thesis
    using assms r by (auto simp: geo_create_def geo_trees_ok_def split: option.splits if_splits)
qed

lemma geo_cidr_add_ok:
  assumes T: "geo_trees_ok ctx T" "geo_tree ctx \<noteq> None" "geo_tree6 ctx \<noteq> None"
  and a: "ngx_http_geo_cidr_add pmem ctx cidr val = Some (True, ctx')"
  shows "geo_trees_ok ctx' (T(geo_key cidr := the val)) \<and> geo_tree ctx' \<noteq> None \<and> geo_tree6 ctx' \<noteq> None \<and> val \<noteq> None"
proof (cases cidr)
  case (Cidr_in key msk)
  obtain t t' v where t: "geo_tree ctx = Some t" "val = Some v" "ctx' = ctx\<lparr>geo_tree := Some t'\<rparr>"
    and add: "geo_tree_add (\<lambda>t n. ngx_radix32tree_insert pmem t (fst n) (snd n)) (\<lambda>t n. ngx_radix32tree_delete t (fst n) (snd n)) t (key, msk) v = Some (True, t')"
    using T(2) a Cidr_in by (auto simp: ngx_http_geo_cidr_add_def split: option.splits)
  then show ?thesis
    using nets32.geo_tree_add_value [OF _ add] T Cidr_in by (auto simp: geo_trees_ok_def)
next
  case (Cidr_in6 key msk)
  obtain t t' v where t: "geo_tree6 ctx = Some t" "val = Some v" "ctx' = ctx\<lparr>geo_tree6 := Some t'\<rparr>"
    and add: "geo_tree_add (\<lambda>t n. ngx_radix128tree_insert pmem t (fst n) (snd n)) (\<lambda>t n. ngx_radix128tree_delete t (fst n) (snd n)) t (key, msk) v = Some (True, t')"
    using T(3) a Cidr_in6 by (auto simp: ngx_http_geo_cidr_add_def split: option.splits)
  then show ?thesis
    using nets128.geo_tree_add_value [OF _ add] T Cidr_in6 by (auto simp: geo_trees_ok_def)
qed

lemma geo_delete_ok:
  assumes T: "geo_trees_ok ctx T" "geo_tree ctx \<noteq> None" "geo_tree6 ctx \<noteq> None"
  and d: "(case cidr of
       Cidr_in6 key msk \<Rightarrow> map_option (\<lambda>(rc, tree). (True, ctx\<lparr>geo_tree6 := Some tree\<rparr>)) (ngx_radix128tree_delete (the (geo_tree6 ctx)) key msk)
     | Cidr_in key msk \<Rightarrow> map_option (\<lambda>(rc, tree). (True, ctx\<lparr>geo_tree := Some tree\<rparr>)) (ngx_radix32tree_delete (the (geo_tree ctx)) key msk))
     = Some (True, ctx')"
  shows "geo_trees_ok ctx' (T(geo_key cidr := NGX_RADIX_NO_VALUE)) \<and> geo_tree ctx' \<noteq> None \<and> geo_tree6 ctx' \<noteq> None"
proof (cases cidr)
  case (Cidr_in key msk)
  obtain t t' rc where t: "geo_tree ctx = Some t" "ctx' = ctx\<lparr>geo_tree := Some t'\<rparr>" "ngx_radix32tree_delete t key msk = Some (rc, t')"
    using T(2) d Cidr_in by auto
  then show ?thesis
    using nets32.del_value [of t "(key, msk)" rc t'] T Cidr_in by (auto simp: geo_trees_ok_def)
next
  case (Cidr_in6 key msk)
  obtain t t' rc where t: "geo_tree6 ctx = Some t" "ctx' = ctx\<lparr>geo_tree6 := Some t'\<rparr>" "ngx_radix128tree_delete t key msk = Some (rc, t')"
    using T(3) d Cidr_in6 by auto
  then show ?thesis
    using nets128.del_value [of t "(key, msk)" rc t'] T Cidr_in6 by (auto simp: geo_trees_ok_def)
qed

lemma geo_cidr_ok:
  assumes T: "geo_trees_ok ctx T" and c: "ngx_http_geo_cidr pmem cidr_value geo_value ctx value0 value1 = Some (True, ctx')"
  shows "geo_trees_ok ctx' (geo_effect cidr_value geo_value (value0, value1) T)
    \<and> (value0 \<noteq> s2b ''delete'' \<longrightarrow> geo_value value1 \<noteq> None)"
proof -
  obtain ctx1 where c1: "geo_create pmem ctx = Some (True, ctx1)"
    using c by (auto simp: ngx_http_geo_cidr_def simp del: s2b_Cons split: option.splits bool.splits)
  note ok1 = geo_create_ok [OF T c1]
  consider (dflt) "value0 = s2b ''default''" | (del) "value0 = s2b ''delete''" | (net) "value0 \<noteq> s2b ''default''" "value0 \<noteq> s2b ''delete''"
    by blast
  then show ?thesis
  proof cases
    case dflt
    have "s2b ''default'' \<noteq> s2b ''delete''" by simp
    obtain ctx2 where "ngx_http_geo_cidr_add pmem ctx1 (Cidr_in 0 0) (geo_value value1) = Some (True, ctx2)"
        "ngx_http_geo_cidr_add pmem ctx2 (Cidr_in6 zero16 zero16) (geo_value value1) = Some (True, ctx')"
      using c c1 dflt by (auto simp: ngx_http_geo_cidr_def simp del: s2b_Cons split: option.splits bool.splits)
    then show ?thesis
      using ok1 geo_cidr_add_ok [of ctx1 T pmem "Cidr_in 0 0" "geo_value value1" ctx2]
        geo_cidr_add_ok [of ctx2 "T((False, []) := the (geo_value value1))" pmem "Cidr_in6 zero16 zero16" "geo_value value1" ctx']
        dflt by (simp add: geo_effect_def del: s2b_Cons)
  next
    case del
    have ne: "s2b ''delete'' \<noteq> s2b ''default''" by simp
    obtain cidr where cv: "cidr_value value1 = Some cidr"
      using c c1 del ne by (auto simp: ngx_http_geo_cidr_def simp del: s2b_Cons split: option.splits)
    then show ?thesis
      using geo_delete_ok [of ctx1 T cidr ctx'] ok1 c c1 del ne by (simp add: ngx_http_geo_cidr_def geo_effect_def del: s2b_Cons)
  next
    case net
    obtain cidr where cv: "cidr_value value0 = Some cidr"
      using c c1 net by (auto simp: ngx_http_geo_cidr_def simp del: s2b_Cons split: option.splits)
    then show ?thesis
      using geo_cidr_add_ok [of ctx1 T pmem cidr "geo_value value1" ctx'] ok1 c c1 net by (simp add: ngx_http_geo_cidr_def geo_effect_def del: s2b_Cons)
  qed
qed

lemma geo_directives_ok:
  "geo_trees_ok ctx T \<Longrightarrow> geo_directives pmem cidr_value geo_value ctx ds = Some (True, ctx') \<Longrightarrow>
   geo_trees_ok ctx' (fold (geo_effect cidr_value geo_value) ds T)
   \<and> (\<forall>d\<in>set ds. fst d \<noteq> s2b ''delete'' \<longrightarrow> geo_value (snd d) \<noteq> None)"
proof (induction ds arbitrary: ctx T)
  case (Cons d ds)
  obtain value0 value1 where d: "d = (value0, value1)" by fastforce
  obtain ctx1 where c: "ngx_http_geo_cidr pmem cidr_value geo_value ctx value0 value1 = Some (True, ctx1)"
    "geo_directives pmem cidr_value geo_value ctx1 ds = Some (True, ctx')"
    using Cons.prems(2) d by (auto simp del: s2b_Cons split: option.splits bool.splits prod.splits)
  show ?case using Cons.IH [OF _ c(2)] geo_cidr_ok [OF Cons.prems(1) c(1)] d by (auto simp del: s2b_Cons)
qed simp

lemma geo_block_ok:
  assumes b: "ngx_http_geo_block pmem cidr_value geo_value null_value ds = Some (True, ctx)"
  shows "geo_trees_ok ctx (geo_final null_value (fold (geo_effect cidr_value geo_value) ds (\<lambda>_. NGX_RADIX_NO_VALUE)))
    \<and> geo_tree ctx \<noteq> None \<and> geo_tree6 ctx \<noteq> None"
proof -
  define T where "T = fold (geo_effect cidr_value geo_value) ds (\<lambda>_. NGX_RADIX_NO_VALUE)"
  obtain ctx1 where d: "geo_directives pmem cidr_value geo_value \<lparr>geo_tree = None, geo_tree6 = None\<rparr> ds = Some (True, ctx1)"
    using b by (auto simp: ngx_http_geo_block_def Let_def split: option.splits bool.splits prod.splits if_splits)
  have "geo_trees_ok \<lparr>geo_tree = None, geo_tree6 = None\<rparr> (\<lambda>_. NGX_RADIX_NO_VALUE)" by (simp add: geo_trees_ok_def)
  then have T1: "geo_trees_ok ctx1 T" using geo_directives_ok [OF _ d] by (simp add: T_def)
  obtain ctx2 where c2: "geo_create pmem ctx1 = Some (True, ctx2)"
    using b d by (auto simp: ngx_http_geo_block_def Let_def split: option.splits bool.splits prod.splits if_splits)
  note ok2 = geo_create_ok [OF T1 c2]
  obtain t t6 rc t' rc6 t6' where t: "geo_tree ctx2 = Some t" "geo_tree6 ctx2 = Some t6"
    "ngx_radix32tree_insert pmem t 0 0 null_value = (rc, t')" "ngx_radix128tree_insert pmem t6 zero16 zero16 null_value = (rc6, t6')"
    using ok2 by (metis option.exhaust surj_pair)
  have rc: "rc \<noteq> NGX_ERROR" "rc6 \<noteq> NGX_ERROR" "ctx = ctx2\<lparr>geo_tree := Some t', geo_tree6 := Some t6'\<rparr>"
    using b d c2 t by (auto simp: ngx_http_geo_block_def Let_def simp del: replicate.simps split: if_splits)
  have ok: "radix_ok 32 t" "radix_get (rx_root t) = (\<lambda>q. T (False, q))" "radix_ok 128 t6" "radix_get (rx_root t6) = (\<lambda>q. T (True, q))"
    using ok2 t by (auto simp: geo_trees_ok_def)
  have "radix_ok 32 t' \<and> radix_get (rx_root t') = (\<lambda>q. if q = [] \<and> radix_get (rx_root t) q = NGX_RADIX_NO_VALUE then null_value else radix_get (rx_root t) q)"
    using nets32.ins_default [OF ok(1), of pmem "(0, 0)" null_value rc t'] t(3) rc by simp
  moreover have "radix_ok 128 t6' \<and> radix_get (rx_root t6') = (\<lambda>q. if q = [] \<and> radix_get (rx_root t6) q = NGX_RADIX_NO_VALUE then null_value else radix_get (rx_root t6) q)"
    using nets128.ins_default [OF ok(3), of pmem "(zero16, zero16)" null_value rc6 t6'] t(4) rc(2) by (simp del: replicate.simps)
  ultimately show ?thesis unfolding ok(2,4) rc(3) T_def [symmetric] by (simp add: geo_trees_ok_def geo_final_def)
qed

lemma longest_match_default:
  assumes "f [] \<noteq> NGX_RADIX_NO_VALUE"
  shows "longest_match f bs \<noteq> NGX_RADIX_NO_VALUE"
  using longest_match_iff [of f bs] assms by auto

text \<open>
  C16. The value of a \<^verbatim>\<open>geo\<close> variable is that of the longest network the client's address lies in, where a network that is given
  twice has its last value. For every block of networks, defaults and deletions that is accepted, the trees hold the last value
  of each network and the lookup of any address, IPv4, IPv6, IPv4 written as IPv6, or none at all, returns a real value and
  never the mark for no value: the end of the block adds a default where the block has none. The storing of values is assumed not to return the
  mark, and the byte behind an IPv6 address to be readable.
\<close>

theorem geo_block_lookup:
  assumes b: "ngx_http_geo_block pmem cidr_value geo_value null_value ds = Some (True, ctx)"
  and nv: "null_value \<noteq> NGX_RADIX_NO_VALUE" and r: "case a of Addr_in6 p \<Rightarrow> 16 < length p | _ \<Rightarrow> True"
  shows "\<exists>v. ngx_http_geo_cidr_variable (the (geo_tree ctx)) (the (geo_tree6 ctx)) a = Some v \<and> v \<noteq> NGX_RADIX_NO_VALUE
    \<and> v = (let T = geo_final null_value (fold (geo_effect cidr_value geo_value) ds (\<lambda>_. NGX_RADIX_NO_VALUE)) in
           case a of
             No_addr \<Rightarrow> longest_match (\<lambda>q. T (False, q)) (addr32 0xffffffff)
           | Addr_in inaddr \<Rightarrow> longest_match (\<lambda>q. T (False, q)) (addr32 inaddr)
           | Addr_in6 p \<Rightarrow> if v4mapped p then longest_match (\<lambda>q. T (False, q)) (addr32 (mapped_addr p))
                          else longest_match (\<lambda>q. T (True, q)) (addr128 p))"
proof -
  define T where "T = geo_final null_value (fold (geo_effect cidr_value geo_value) ds (\<lambda>_. NGX_RADIX_NO_VALUE))"
  obtain t t6 where t: "geo_tree ctx = Some t" "geo_tree6 ctx = Some t6" "radix_ok 32 t" "radix_ok 128 t6"
    and T: "radix_get (rx_root t) = (\<lambda>q. T (False, q))" "radix_get (rx_root t6) = (\<lambda>q. T (True, q))"
  proof -
    obtain t t6 where "geo_tree ctx = Some t" "geo_tree6 ctx = Some t6" using geo_block_ok [OF b] by blast
    then show ?thesis using that [of t t6] geo_block_ok [OF b] by (simp add: geo_trees_ok_def T_def fun_eq_iff)
  qed
  have "T (f, []) \<noteq> NGX_RADIX_NO_VALUE" for f using nv by (simp add: T_def geo_final_def)
  note real = longest_match_default [where f = "\<lambda>q. T (f, q)" for f, OF this]
  have f4: "ngx_radix32tree_find t x = longest_match (\<lambda>q. T (False, q)) (addr32 x)" for x
    using nets32.fnd_longest [OF t(3)] T by simp
  have f6: "16 < length p \<Longrightarrow> ngx_radix128tree_find t6 p = Some (longest_match (\<lambda>q. T (True, q)) (addr128 p))" for p
    using nets128.fnd_longest [OF t(4)] T by simp
  show ?thesis using r real
    by (cases a) (simp_all add: ngx_http_geo_cidr_variable_def t f4 f6 T_def [symmetric] Let_def)
qed

text \<open>With memory, a block of networks other than the whole address space is accepted.\<close>

context network_table
begin

lemma geo_tree_add_accepts:
  assumes ok: "ok t" and m: "\<forall>n. pmem n" and ne: "nets n \<noteq> []"
  shows "\<exists>t'. geo_tree_add (ins pmem) del t n v = Some (True, t')"
proof (cases "table t (nets n) = NGX_RADIX_NO_VALUE")
  case True
  obtain rc t1 where i: "ins pmem t n v = (rc, t1)" by fastforce
  show ?thesis using ins_new [OF ok True i] i m by (auto simp: geo_tree_add_def)
next
  case False
  obtain rc t1 where d: "del t n = Some (rc, t1)" using del_ok [OF ok] ne by blast
  have t1: "ok t1" "rc = NGX_OK" "table t1 (nets n) = NGX_RADIX_NO_VALUE" using del_value [OF ok d] False by auto
  obtain rc2 t2 where i2: "ins pmem t1 n v = (rc2, t2)" by fastforce
  show ?thesis using ins_new [OF t1(1,3) i2] i2 ins_busy [OF ok False] d t1(2) m by (auto simp: geo_tree_add_def)
qed

lemma ins_default_accepts: "ok t \<Longrightarrow> \<forall>n. pmem n \<Longrightarrow> fst (ins pmem t n v) \<noteq> NGX_ERROR"
  using ins_busy [of t n pmem v] ins_new [of t n pmem v] by (cases "table t (nets n) = NGX_RADIX_NO_VALUE") (metis fst_conv ngx_rc.distinct(1) surj_pair, simp)

end

lemma geo_create_accepts: "\<forall>n. pmem n \<Longrightarrow> \<exists>ctx'. geo_create pmem ctx = Some (True, ctx')"
  using radix_create [of pmem "- 1"] by (auto simp: geo_create_def split: option.splits)

lemma geo_directives_accept:
  assumes m: "\<forall>n. pmem n" and T: "geo_trees_ok ctx T"
  and ds: "\<forall>d\<in>set ds. fst d \<noteq> s2b ''default'' \<and> fst d \<noteq> s2b ''delete''
     \<and> (\<exists>cidr. cidr_value (fst d) = Some cidr \<and> snd (geo_key cidr) \<noteq> []) \<and> geo_value (snd d) \<noteq> None"
  shows "\<exists>ctx'. geo_directives pmem cidr_value geo_value ctx ds = Some (True, ctx')"
  using T ds
proof (induction ds arbitrary: ctx T)
  case (Cons d ds)
  obtain ctx1 where c1: "geo_create pmem ctx = Some (True, ctx1)" using geo_create_accepts [OF m] by blast
  note ok1 = geo_create_ok [OF Cons.prems(1) c1]
  obtain t t6 where t: "geo_tree ctx1 = Some t" "geo_tree6 ctx1 = Some t6" using ok1 by blast
  have "radix_ok 32 t" "radix_ok 128 t6" using ok1 t by (simp_all add: geo_trees_ok_def)
  obtain cidr v where c: "cidr_value (fst d) = Some cidr" "snd (geo_key cidr) \<noteq> []" "geo_value (snd d) = Some v" using Cons.prems(2) by auto
  have "\<exists>ctx2. ngx_http_geo_cidr_add pmem ctx1 cidr (Some v) = Some (True, ctx2)"
  proof (cases cidr)
    case (Cidr_in key msk)
    then show ?thesis using nets32.geo_tree_add_accepts [OF \<open>radix_ok 32 t\<close> m, of "(key, msk)" v] c(2) t by (auto simp: ngx_http_geo_cidr_add_def)
  next
    case (Cidr_in6 key msk)
    then show ?thesis using nets128.geo_tree_add_accepts [OF \<open>radix_ok 128 t6\<close> m, of "(key, msk)" v] c(2) t by (auto simp: ngx_http_geo_cidr_add_def)
  qed
  then obtain ctx2 where "ngx_http_geo_cidr pmem cidr_value geo_value ctx (fst d) (snd d) = Some (True, ctx2)"
    using c c1 Cons.prems(2) by (auto simp: ngx_http_geo_cidr_def simp del: s2b_Cons)
  then show ?case
    using Cons.IH [of ctx2] geo_cidr_ok [OF Cons.prems(1)] Cons.prems(2) by (cases d) (fastforce simp del: s2b_Cons)
qed simp

lemma geo_block_accepts:
  assumes m: "\<forall>n. pmem n"
  and ds: "\<forall>d\<in>set ds. fst d \<noteq> s2b ''default'' \<and> fst d \<noteq> s2b ''delete''
     \<and> (\<exists>cidr. cidr_value (fst d) = Some cidr \<and> snd (geo_key cidr) \<noteq> []) \<and> geo_value (snd d) \<noteq> None"
  shows "\<exists>ctx. ngx_http_geo_block pmem cidr_value geo_value null_value ds = Some (True, ctx)"
proof -
  have T0: "geo_trees_ok \<lparr>geo_tree = None, geo_tree6 = None\<rparr> (\<lambda>_. NGX_RADIX_NO_VALUE)" by (simp add: geo_trees_ok_def)
  obtain ctx1 where d: "geo_directives pmem cidr_value geo_value \<lparr>geo_tree = None, geo_tree6 = None\<rparr> ds = Some (True, ctx1)"
    using geo_directives_accept [OF m T0 ds] by blast
  obtain ctx2 where c2: "geo_create pmem ctx1 = Some (True, ctx2)" using geo_create_accepts [OF m] by blast
  have ok2: "geo_trees_ok ctx2 (fold (geo_effect cidr_value geo_value) ds (\<lambda>_. NGX_RADIX_NO_VALUE))" "geo_tree ctx2 \<noteq> None" "geo_tree6 ctx2 \<noteq> None"
    using geo_create_ok [OF conjunct1 [OF geo_directives_ok [OF T0 d]] c2] by blast+
  then obtain t t6 where t: "geo_tree ctx2 = Some t" "geo_tree6 ctx2 = Some t6" "radix_ok 32 t" "radix_ok 128 t6" by (auto simp: geo_trees_ok_def)
  have "fst (ngx_radix32tree_insert pmem t 0 0 null_value) \<noteq> NGX_ERROR" "fst (ngx_radix128tree_insert pmem t6 zero16 zero16 null_value) \<noteq> NGX_ERROR"
    using nets32.ins_default_accepts [OF t(3) m, of "(0, 0)"] nets128.ins_default_accepts [OF t(4) m, of "(zero16, zero16)"] by simp_all
  then show ?thesis using d c2 t by (auto simp: ngx_http_geo_block_def Let_def split: prod.split)
qed

theorem geo_block_lookup_witness:
  "let cidr_value = (\<lambda>n. if n = s2b ''10.0.0.0/8'' then Some (Cidr_in 0x0A000000 0xFF000000) else None);
       geo_value = (\<lambda>v. if v = s2b ''a'' then Some 1 else Some 2);
       ds = [(s2b ''10.0.0.0/8'', s2b ''b''), (s2b ''10.0.0.0/8'', s2b ''a'')]
   in \<exists>ctx. ngx_http_geo_block (\<lambda>_. True) cidr_value geo_value 7 ds = Some (True, ctx)
     \<and> ngx_http_geo_cidr_variable (the (geo_tree ctx)) (the (geo_tree6 ctx)) (Addr_in 0x0A010203) = Some 1"
  (is "let cidr_value = ?cv; geo_value = ?gv; ds = ?ds in ?P cidr_value geo_value ds")
proof -
  have key: "geo_key (Cidr_in 0x0A000000 0xFF000000) = (False, [False, False, False, False, True, False, True, False])" by code_simp
  have "\<exists>ctx. ngx_http_geo_block (\<lambda>_. True) ?cv ?gv 7 ?ds = Some (True, ctx)"
    by (rule geo_block_accepts) (use key in simp_all)
  then obtain ctx where b: "ngx_http_geo_block (\<lambda>_. True) ?cv ?gv 7 ?ds = Some (True, ctx)" by blast
  define T where "T = geo_final 7 (fold (geo_effect ?cv ?gv) ?ds (\<lambda>_. NGX_RADIX_NO_VALUE))"
  have "longest_match (\<lambda>q. T (False, q)) (addr32 0x0A010203) = 1" unfolding T_def by code_simp
  then have "ngx_http_geo_cidr_variable (the (geo_tree ctx)) (the (geo_tree6 ctx)) (Addr_in 0x0A010203) = Some 1"
    using geo_block_lookup [OF b, where a = "Addr_in 0x0A010203"] unfolding T_def [symmetric] by (simp add: Let_def)
  then show ?thesis unfolding Let_def using b by blast
qed

end
