(* ===== verification/NgxPrintf.thy ===== *)
theory NgxPrintf
  imports NgxNumber
begin

text \<open>
  The formatted printer of \<^verbatim>\<open>src/core/ngx_string.c\<close>: \<open>ngx_vslprintf\<close>, the function under
  \<open>ngx_sprintf\<close>, \<open>ngx_snprintf\<close> and \<open>ngx_slprintf\<close>, which every log line, header and address of
  the server goes through. The variable arguments are a list of values of the class that the conversion reads; an argument that is
  missing or of another class is undefined behaviour in C, and the model then has no result. The buffer is described by \<open>room\<close>, the
  distance \<open>last - buf\<close>; the result is the bytes written from \<open>buf\<close> on.

  The reference is \<open>printf_text\<close>, the text that the format means when there is no buffer at all. The function
  writes exactly the part of the text that fits. \<open>printf_text\<close> reads the conversions with the definitions of the code (\<open>fmt_begin\<close>, \<open>fmt_int\<close>, \<open>double_parts\<close>): what is
  independent in it is the absence of the buffer. What the conversions mean is stated apart, in \<open>printf_conversions\<close>.
\<close>

section \<open>Definitions\<close>

subsection \<open>Arguments\<close>

text \<open>
  An argument slot. \<open>Va_int\<close> is a 64 bit slot, from which a conversion reads an integer of its own width; \<open>Va_str\<close> is an
  \<open>ngx_str_t\<close> or an \<open>ngx_variable_value_t\<close>; \<open>Va_mem\<close> is the memory that a pointer to bytes leads to. \<open>Va_double neg ip fr\<close> stands for a
  floating point number by the three values that the code computes from it: its sign, the integral part
  \<open>ui64\<close> of its absolute value, and \<open>frac\<close> as a function of \<open>scale\<close>.
\<close>

datatype va_arg =
    Va_int "64 word"
  | Va_str bytes
  | Va_mem bytes
  | Va_double bool "64 word" "64 word \<Rightarrow> 64 word"

text \<open>The local variables of one conversion.\<close>

record fmt_spec =
  fs_zero :: byte
  fs_width :: ngx_uint_t
  fs_sign :: bool
  fs_hex :: nat
  fs_max_width :: bool
  fs_frac_width :: ngx_uint_t
  fs_slen :: "64 word"

subsection \<open>Reading a conversion\<close>

fun fmt_number :: "ngx_uint_t \<Rightarrow> bytes \<Rightarrow> ngx_uint_t \<times> bytes" where
  "fmt_number width [] = (width, [])"
| "fmt_number width (c # fmt) =
     (if c \<ge> 0x30 \<and> c \<le> 0x39 then fmt_number (width * 10 + ucast c - 0x30) fmt else (width, c # fmt))"

text \<open>The loop over the modifiers. A precision ends it; the other modifiers may come in any order.\<close>

fun fmt_modifiers :: "fmt_spec \<Rightarrow> bytes \<Rightarrow> va_arg list \<Rightarrow> (fmt_spec \<times> bytes \<times> va_arg list) option" where
  "fmt_modifiers fs [] args = Some (fs, [], args)"
| "fmt_modifiers fs (c # fmt) args =
     (if c = 0x75 then fmt_modifiers (fs\<lparr>fs_sign := False\<rparr>) fmt args
      else if c = 0x6D then fmt_modifiers (fs\<lparr>fs_max_width := True\<rparr>) fmt args
      else if c = 0x58 then fmt_modifiers (fs\<lparr>fs_hex := 2, fs_sign := False\<rparr>) fmt args
      else if c = 0x78 then fmt_modifiers (fs\<lparr>fs_hex := 1, fs_sign := False\<rparr>) fmt args
      else if c = 0x2E then
        (let (fw, fmt') = fmt_number (fs_frac_width fs) fmt in Some (fs\<lparr>fs_frac_width := fw\<rparr>, fmt', args))
      else if c = 0x2A then
        (case args of Va_int v # args' \<Rightarrow> fmt_modifiers (fs\<lparr>fs_slen := v\<rparr>) fmt args' | _ \<Rightarrow> None)
      else Some (fs, c # fmt, args))"

text \<open>Everything from the percent sign up to the conversion character.\<close>

definition fmt_begin :: "bytes \<Rightarrow> va_arg list \<Rightarrow> (fmt_spec \<times> bytes \<times> va_arg list) option" where
  "fmt_begin fmt args =
     (let zero = (case fmt of [] \<Rightarrow> 0x20 | c # _ \<Rightarrow> if c = 0x30 then 0x30 else 0x20);
          (width, fmt') = fmt_number 0 fmt
      in fmt_modifiers \<lparr>fs_zero = zero, fs_width = width, fs_sign = True, fs_hex = 0, fs_max_width = False,
           fs_frac_width = 0, fs_slen = -1\<rparr> fmt' args)"

subsection \<open>Integers\<close>

definition va_int32 :: "64 word \<Rightarrow> 64 word" where
  "va_int32 v = scast (ucast v :: 32 word)"

definition va_uint32 :: "64 word \<Rightarrow> 64 word" where
  "va_uint32 v = ucast (ucast v :: 32 word)"

definition NGX_INT_T_LEN :: ngx_uint_t where
  "NGX_INT_T_LEN = 20"

text \<open>
  The integer conversions: how the slot \<open>v\<close> is read, and what the conversion changes of the
  local variables. \<open>None\<close>: the character is no integer conversion.
\<close>

definition fmt_int :: "fmt_spec \<Rightarrow> byte \<Rightarrow> 64 word \<Rightarrow> (fmt_spec \<times> 64 word) option" where
  "fmt_int fs c v =
     (if c = 0x4F then Some (fs\<lparr>fs_sign := True\<rparr>, v)
      else if c = 0x50 then Some (fs\<lparr>fs_sign := True\<rparr>, va_int32 v)
      else if c = 0x54 then Some (fs\<lparr>fs_sign := True\<rparr>, v)
      else if c = 0x4D then Some (if v = -1 then fs\<lparr>fs_sign := True\<rparr> else fs\<lparr>fs_sign := False\<rparr>, v)
      else if c = 0x7A then Some (fs, v)
      else if c = 0x69 then Some (if fs_max_width fs then fs\<lparr>fs_width := NGX_INT_T_LEN\<rparr> else fs, v)
      else if c = 0x64 then Some (fs, if fs_sign fs then va_int32 v else va_uint32 v)
      else if c = 0x6C then Some (fs, v)
      else if c = 0x44 then Some (fs, if fs_sign fs then va_int32 v else va_uint32 v)
      else if c = 0x4C then Some (fs, v)
      else if c = 0x41 then Some (if fs_max_width fs then fs\<lparr>fs_width := NGX_INT_T_LEN\<rparr> else fs, v)
      else if c = 0x72 then Some (fs\<lparr>fs_sign := True\<rparr>, v)
      else if c = 0x70 then Some (fs\<lparr>fs_hex := 2, fs_sign := False, fs_zero := 0x30, fs_width := 16\<rparr>, v)
      else None)"

definition put_int :: "nat \<Rightarrow> fmt_spec \<Rightarrow> 64 word \<Rightarrow> bytes" where
  "put_int room fs v =
     (if fs_sign fs \<and> v <s 0
      then 0x2D # ngx_sprintf_num (room - 1) (- v) (fs_zero fs) (fs_hex fs) (unat (fs_width fs))
      else ngx_sprintf_num room v (fs_zero fs) (fs_hex fs) (unat (fs_width fs)))"

subsection \<open>Floating point numbers\<close>

text \<open>The rounded parts: a fraction that rounds up to \<open>scale\<close> is carried over.\<close>

definition double_parts :: "ngx_uint_t \<Rightarrow> 64 word \<Rightarrow> (64 word \<Rightarrow> 64 word) \<Rightarrow> 64 word \<times> 64 word" where
  "double_parts frac_width ui64 fr =
     (if frac_width = 0 then (ui64, 0)
      else let scale = 10 ^ unat frac_width; frac = fr scale
           in if frac = scale then (ui64 + 1, 0) else (ui64, frac))"

definition put_double :: "nat \<Rightarrow> fmt_spec \<Rightarrow> bool \<Rightarrow> 64 word \<Rightarrow> (64 word \<Rightarrow> 64 word) \<Rightarrow> bytes" where
  "put_double room fs neg ui64 fr =
     (let minus = (if neg then [0x2D] else []);
          (ui, frac) = double_parts (fs_frac_width fs) ui64 fr;
          s = minus @ ngx_sprintf_num (room - length minus) ui (fs_zero fs) 0 (unat (fs_width fs))
      in if fs_frac_width fs = 0 then s
         else let t = (if length s < room then s @ [0x2E] else s)
              in t @ ngx_sprintf_num (room - length t) frac 0x30 0 (unat (fs_frac_width fs)))"

subsection \<open>The printer\<close>

text \<open>
  One conversion: the character \<open>c\<close>, its bytes and the arguments that are left. \<open>%s\<close> without a length stops at the
  zero byte or at the end of the buffer, and tests the byte first, so it reads one byte more than fits; with a length it copies that many bytes, zero or not. In both cases a read beyond the memory has no
  result.
\<close>

definition put_mem :: "nat \<Rightarrow> 64 word \<Rightarrow> bytes \<Rightarrow> bytes option" where
  "put_mem room slen p =
     (if slen = -1
      then let s = takeWhile (\<lambda>c. c \<noteq> 0) p
           in if length s < length p \<or> room < length s then Some (take room s) else None
      else let len = min room (unat slen) in if len \<le> length p then Some (take len p) else None)"

definition fmt_convert :: "nat \<Rightarrow> fmt_spec \<Rightarrow> byte \<Rightarrow> va_arg list \<Rightarrow> (bytes \<times> va_arg list) option" where
  "fmt_convert room fs c args =
     (if c = 0x56 \<or> c = 0x76 then
        (case args of Va_str s # args' \<Rightarrow> Some (take (min room (length s)) s, args') | _ \<Rightarrow> None)
      else if c = 0x73 then
        (case args of Va_mem p # args' \<Rightarrow> map_option (\<lambda>s. (s, args')) (put_mem room (fs_slen fs) p) | _ \<Rightarrow> None)
      else if c = 0x66 then
        (case args of Va_double neg ui fr # args' \<Rightarrow> Some (put_double room fs neg ui fr, args') | _ \<Rightarrow> None)
      else if c = 0x63 then
        (case args of Va_int d # args' \<Rightarrow> Some ([ucast (d AND 0xff)], args') | _ \<Rightarrow> None)
      else if c = 0x5A then Some ([0], args)
      else if c = 0x4E then Some ([0x0A], args)
      else if c = 0x25 then Some ([0x25], args)
      else if fmt_int fs c 0 = None then Some ([c], args)
      else case args of
        Va_int v # args' \<Rightarrow> (case fmt_int fs c v of Some (fs', i) \<Rightarrow> Some (put_int room fs' i, args') | None \<Rightarrow> None)
      | _ \<Rightarrow> None)"

lemma fmt_number_shorter: "fmt_number w fmt = (w', fmt') \<Longrightarrow> length fmt' \<le> length fmt"
  by (induction w fmt rule: fmt_number.induct) (auto split: if_splits)

lemma fmt_modifiers_shorter: "fmt_modifiers fs fmt args = Some (fs', fmt', args') \<Longrightarrow> length fmt' \<le> length fmt"
  by (induction fs fmt args rule: fmt_modifiers.induct)
    (auto split: if_splits prod.splits list.splits va_arg.splits dest: fmt_number_shorter)

lemma fmt_begin_shorter: "fmt_begin fmt args = Some (fs, fmt', args') \<Longrightarrow> length fmt' \<le> length fmt"
  unfolding fmt_begin_def
  by (auto simp: Let_def split: prod.splits dest!: fmt_modifiers_shorter fmt_number_shorter)

text \<open>
  The loop. A format that ends in the middle of a conversion makes the code copy the terminating zero and read on behind it,
  so it has no result.
\<close>

function ngx_vslprintf :: "nat \<Rightarrow> bytes \<Rightarrow> va_arg list \<Rightarrow> bytes option" where
  "ngx_vslprintf room [] args = Some []"
| "ngx_vslprintf room (c # fmt) args =
     (if room = 0 then Some []
      else if c = 0x25 then
        (case fmt_begin fmt args of
           Some (fs, k # fmt', args') \<Rightarrow>
             (case fmt_convert room fs k args' of
                Some (s, args'') \<Rightarrow> map_option (append s) (ngx_vslprintf (room - length s) fmt' args'')
              | None \<Rightarrow> None)
         | _ \<Rightarrow> None)
      else map_option ((#) c) (ngx_vslprintf (room - 1) fmt args))"
  by pat_completeness auto
termination
  by (relation "measure (\<lambda>(room, fmt, args). length fmt)") (auto dest: fmt_begin_shorter)

definition ngx_snprintf :: "nat \<Rightarrow> bytes \<Rightarrow> va_arg list \<Rightarrow> bytes option" where
  "ngx_snprintf max_len fmt args = ngx_vslprintf max_len fmt args"

text \<open>\<open>ngx_slprintf\<close> gets the end of the buffer itself.\<close>

definition ngx_slprintf :: "ptr \<Rightarrow> ptr \<Rightarrow> bytes \<Rightarrow> va_arg list \<Rightarrow> bytes option" where
  "ngx_slprintf buf last' fmt args = ngx_vslprintf (last' - buf) fmt args"

text \<open>\<open>ngx_sprintf\<close> has no end: its \<open>last\<close> is the last address that there is.\<close>

definition ngx_sprintf :: "ptr \<Rightarrow> bytes \<Rightarrow> va_arg list \<Rightarrow> bytes option" where
  "ngx_sprintf buf fmt args = ngx_vslprintf (2 ^ 64 - 1 - buf) fmt args"

section \<open>The text that a format means\<close>

definition num_text :: "64 word \<Rightarrow> byte \<Rightarrow> nat \<Rightarrow> nat \<Rightarrow> bytes" where
  "num_text v zero hex width = replicate (width - length (sprintf_digits v hex)) zero @ sprintf_digits v hex"

definition int_text :: "fmt_spec \<Rightarrow> 64 word \<Rightarrow> bytes" where
  "int_text fs v =
     (if fs_sign fs \<and> v <s 0 then 0x2D # num_text (- v) (fs_zero fs) (fs_hex fs) (unat (fs_width fs))
      else num_text v (fs_zero fs) (fs_hex fs) (unat (fs_width fs)))"

definition double_text :: "fmt_spec \<Rightarrow> bool \<Rightarrow> 64 word \<Rightarrow> (64 word \<Rightarrow> 64 word) \<Rightarrow> bytes" where
  "double_text fs neg ui64 fr =
     (let (ui, frac) = double_parts (fs_frac_width fs) ui64 fr
      in (if neg then [0x2D] else []) @ num_text ui (fs_zero fs) 0 (unat (fs_width fs)) @
         (if fs_frac_width fs = 0 then [] else 0x2E # num_text frac 0x30 0 (unat (fs_frac_width fs))))"

definition mem_text :: "64 word \<Rightarrow> bytes \<Rightarrow> bytes option" where
  "mem_text slen p =
     (if slen = -1 then if 0 \<in> set p then Some (takeWhile (\<lambda>c. c \<noteq> 0) p) else None
      else if unat slen \<le> length p then Some (take (unat slen) p) else None)"

definition convert_text :: "fmt_spec \<Rightarrow> byte \<Rightarrow> va_arg list \<Rightarrow> (bytes \<times> va_arg list) option" where
  "convert_text fs c args =
     (if c = 0x56 \<or> c = 0x76 then (case args of Va_str s # args' \<Rightarrow> Some (s, args') | _ \<Rightarrow> None)
      else if c = 0x73 then
        (case args of Va_mem p # args' \<Rightarrow> map_option (\<lambda>s. (s, args')) (mem_text (fs_slen fs) p) | _ \<Rightarrow> None)
      else if c = 0x66 then
        (case args of Va_double neg ui fr # args' \<Rightarrow> Some (double_text fs neg ui fr, args') | _ \<Rightarrow> None)
      else if c = 0x63 then (case args of Va_int d # args' \<Rightarrow> Some ([ucast (d AND 0xff)], args') | _ \<Rightarrow> None)
      else if c = 0x5A then Some ([0], args)
      else if c = 0x4E then Some ([0x0A], args)
      else if c = 0x25 then Some ([0x25], args)
      else if fmt_int fs c 0 = None then Some ([c], args)
      else case args of
        Va_int v # args' \<Rightarrow> (case fmt_int fs c v of Some (fs', i) \<Rightarrow> Some (int_text fs' i, args') | None \<Rightarrow> None)
      | _ \<Rightarrow> None)"

function printf_text :: "bytes \<Rightarrow> va_arg list \<Rightarrow> bytes option" where
  "printf_text [] args = Some []"
| "printf_text (c # fmt) args =
     (if c = 0x25 then
        (case fmt_begin fmt args of
           Some (fs, k # fmt', args') \<Rightarrow>
             (case convert_text fs k args' of
                Some (s, args'') \<Rightarrow> map_option (append s) (printf_text fmt' args'')
              | None \<Rightarrow> None)
         | _ \<Rightarrow> None)
      else map_option ((#) c) (printf_text fmt args))"
  by pat_completeness auto
termination
  by (relation "measure (\<lambda>(fmt, args). length fmt)") (auto dest: fmt_begin_shorter)

section \<open>Every piece is cut where the buffer ends\<close>

named_theorems printf_cut \<open>the pieces that the printer writes, as cut texts\<close>

lemma sprintf_num_cut [printf_cut]: "ngx_sprintf_num room v zero hex width = take room (num_text v zero hex width)"
proof -
  let ?l = "length (sprintf_digits v hex)"
  show ?thesis
  proof (cases "width - ?l \<le> room")
    case True
    then show ?thesis by (auto simp: ngx_sprintf_num_def num_text_def Let_def min_def)
  next
    case False
    then show ?thesis by (simp add: ngx_sprintf_num_def num_text_def Let_def min_def)
  qed
qed

lemma put_int_cut [printf_cut]: "0 < room \<Longrightarrow> put_int room fs v = take room (int_text fs v)"
  by (cases room) (simp_all add: put_int_def int_text_def sprintf_num_cut)

lemma take_append_cut: "take n xs @ take (n - length (take n xs)) ys = take n (xs @ ys)"
  by (simp add: min_def)

lemma put_double_cut [printf_cut]:
  assumes "0 < room"
  shows "put_double room fs neg ui64 fr = take room (double_text fs neg ui64 fr)"
proof -
  obtain ui frac where p: "double_parts (fs_frac_width fs) ui64 fr = (ui, frac)" by fastforce
  define m :: bytes where "m = (if neg then [0x2D] else [])"
  define s where "s = m @ num_text ui (fs_zero fs) 0 (unat (fs_width fs))"
  let ?f = "num_text frac 0x30 0 (unat (fs_frac_width fs))"
  have m: "take room m = m" using assms by (simp add: m_def)
  have s: "m @ ngx_sprintf_num (room - length m) ui (fs_zero fs) 0 (unat (fs_width fs)) = take room s"
    using take_append_cut [of room m] by (simp add: m s_def sprintf_num_cut)
  have t: "(if length (take room s) < room then take room s @ [0x2E] else take room s) = take room (s @ [0x2E])"
    by (cases "room \<le> length s") (simp_all add: not_le)
  have "put_double room fs neg ui64 fr = (if fs_frac_width fs = 0 then take room s else
      take room (s @ [0x2E]) @ ngx_sprintf_num (room - length (take room (s @ [0x2E]))) frac 0x30 0 (unat (fs_frac_width fs)))"
    unfolding put_double_def p Let_def prod.case m_def [symmetric] s t ..
  also have "\<dots> = take room (if fs_frac_width fs = 0 then s else (s @ [0x2E]) @ ?f)"
    unfolding sprintf_num_cut take_append_cut by simp
  finally show ?thesis by (simp add: double_text_def p m_def s_def)
qed

lemma put_mem_cut [printf_cut]: "mem_text slen p = Some s \<Longrightarrow> put_mem room slen p = Some (take room s)"
proof (cases "slen = -1")
  case True
  assume "mem_text slen p = Some s"
  with True have 0: "0 \<in> set p" and s: "s = takeWhile (\<lambda>c. c \<noteq> 0) p" by (auto simp: mem_text_def split: if_splits)
  have "s \<noteq> p" unfolding s using 0 by (metis (mono_tags) set_takeWhileD)
  then have "length s < length p" unfolding s by (metis length_takeWhile_le le_neq_implies_less takeWhile_eq_take take_all le_refl)
  then show ?thesis using True s by (simp add: put_mem_def)
next
  case False
  assume "mem_text slen p = Some s"
  with False show ?thesis by (auto simp: mem_text_def put_mem_def Let_def min_def split: if_splits)
qed

lemma fmt_convert_cut:
  assumes "convert_text fs c args = Some (s, args')" "0 < room"
  shows "fmt_convert room fs c args = Some (take room s, args')"
  using assms unfolding convert_text_def fmt_convert_def
  by (auto simp: printf_cut min_def split: if_splits list.splits va_arg.splits option.splits)

lemma vslprintf_cut: "printf_text fmt args = Some s \<Longrightarrow> ngx_vslprintf room fmt args = Some (take room s)"
proof (induction fmt args arbitrary: room s rule: printf_text.induct)
  case (2 c fmt args)
  show ?case
  proof (cases "room = 0 \<or> c \<noteq> 0x25")
    case True
    then show ?thesis using 2(2) [of _ "room - 1"] 2(3) by (cases room) auto
  next
    case False
    obtain fs k fmt' args' t args'' u where b: "fmt_begin fmt args = Some (fs, k # fmt', args')"
        and c: "convert_text fs k args' = Some (t, args'')" and u: "printf_text fmt' args'' = Some u" and s: "s = t @ u"
      using 2(3) False by (auto split: option.splits list.splits)
    have "ngx_vslprintf (room - length (take room t)) fmt' args'' = Some (take (room - length (take room t)) u)"
      using 2(1) [OF _ b _ _ _ c _ u] False by auto
    then show ?thesis using False b fmt_convert_cut [OF c, of room] take_append_cut [of room t u] by (auto simp: s)
  qed
qed simp

lemma fmt_convert_fits: "fmt_convert room fs c args = Some (s, args') \<Longrightarrow> 0 < room \<Longrightarrow> length s \<le> room"
  unfolding fmt_convert_def
  by (auto simp: printf_cut put_mem_def min_def Let_def split: if_splits list.splits va_arg.splits option.splits)

lemma vslprintf_fits: "ngx_vslprintf room fmt args = Some s \<Longrightarrow> length s \<le> room"
proof (induction room fmt args arbitrary: s rule: ngx_vslprintf.induct)
  case (2 room c fmt args)
  show ?case
  proof (cases "room = 0 \<or> c \<noteq> 0x25")
    case True
    then show ?thesis using 2(2,3) by (cases "room = 0") fastforce+
  next
    case False
    obtain fs k fmt' args' t args'' u where b: "fmt_begin fmt args = Some (fs, k # fmt', args')"
        and c: "fmt_convert room fs k args' = Some (t, args'')"
        and u: "ngx_vslprintf (room - length t) fmt' args'' = Some u" and s: "s = t @ u"
      using 2(3) False by (auto split: option.splits list.splits)
    have "length u \<le> room - length t" using 2(1) [OF _ _ b _ _ _ c _ u] False by auto
    then show ?thesis using fmt_convert_fits [OF c] False s by simp
  qed
qed simp

section \<open>Properties\<close>

text \<open>
  C21. The formatted printer never writes behind the end of its buffer, whatever the format and the arguments are; and when the format
  has a meaning for its arguments, it writes exactly the beginning of that text which fits into the buffer: the whole text
  when there is enough room, and else the text cut after \<open>room\<close> bytes, be it in the middle of a number, of its
  padding, of a fraction or of a string.
\<close>

theorem vslprintf_truncates:
  "(\<forall>s. ngx_vslprintf room fmt args = Some s \<longrightarrow> length s \<le> room)
   \<and> (\<forall>t. printf_text fmt args = Some t \<longrightarrow> ngx_vslprintf room fmt args = Some (take room t))"
  using vslprintf_fits [of room fmt args] vslprintf_cut [of fmt args _ room] by blast

theorem vslprintf_truncates_witness:
  "ngx_vslprintf 9 (s2b ''%V=%05d %xi'') [Va_str (s2b ''ab''), Va_int (-42), Va_int 255] = Some (s2b ''ab=-00042'')"
proof -
  have "printf_text (s2b ''%V=%05d %xi'') [Va_str (s2b ''ab''), Va_int (-42), Va_int 255] = Some (s2b ''ab=-00042 ff'')"
    by code_simp
  moreover have "take 9 (s2b ''ab=-00042 ff'') = s2b ''ab=-00042''" by code_simp
  ultimately show ?thesis
    using vslprintf_truncates [of 9 "s2b ''%V=%05d %xi''" "[Va_str (s2b ''ab''), Va_int (-42), Va_int 255]"] by simp
qed

text \<open>
  What the conversions mean, for every argument: decimal numbers with and without sign, in 64 and in 32 bits, hexadecimal numbers in both cases of letters,
  padding, strings, characters and the escapes.
\<close>

lemma printf_conversions:
  "printf_text (s2b ''%ui'') [Va_int v] = Some (dec_spec (unat v))"
  "printf_text (s2b ''%i'') [Va_int v] = Some (if v <s 0 then 0x2D # dec_spec (unat (- v)) else dec_spec (unat v))"
  "printf_text (s2b ''%uD'') [Va_int v] = Some (dec_spec (unat v mod 2 ^ 32))"
  "printf_text (s2b ''%xi'') [Va_int v] = Some (hex_spec (s2b ''0123456789abcdef'') (unat v))"
  "printf_text (s2b ''%Xi'') [Va_int v] = Some (hex_spec (s2b ''0123456789ABCDEF'') (unat v))"
  "printf_text (s2b ''%5ui'') [Va_int v] = Some (replicate (5 - length (dec_spec (unat v))) 0x20 @ dec_spec (unat v))"
  "printf_text (s2b ''%05ui'') [Va_int v] = Some (replicate (5 - length (dec_spec (unat v))) 0x30 @ dec_spec (unat v))"
  "printf_text (s2b ''%V'') [Va_str str] = Some str"
  "0 \<notin> set str \<Longrightarrow> printf_text (s2b ''%s'') [Va_mem (str @ 0 # after)] = Some str"
  "printf_text (s2b ''%c'') [Va_int v] = Some [ucast v]"
  "printf_text (s2b ''%%%N%Z'') [] = Some [0x25, 0x0A, 0]"
proof -
  have "unat (va_uint32 v) = unat v mod 2 ^ 32" by (simp add: va_uint32_def unsigned_ucast_eq take_bit_eq_mod unat_mod)
  then show "printf_text (s2b ''%uD'') [Va_int v] = Some (dec_spec (unat v mod 2 ^ 32))"
    by (simp add: fmt_begin_def convert_text_def fmt_int_def int_text_def num_text_def sprintf_digits_dec)
  have "ucast (v AND 0xff) = (ucast v :: byte)"
    by (rule bit_word_eqI) (auto simp: bit_simps bit_numeral_rec numeral_eq_Suc less_Suc_eq)
  then show "printf_text (s2b ''%c'') [Va_int v] = Some [ucast v]" by (simp add: fmt_begin_def convert_text_def)
qed (auto simp: fmt_begin_def convert_text_def fmt_int_def int_text_def num_text_def mem_text_def takeWhile_append2
    sprintf_digits_dec sprintf_digits_hex hex_lower_def hex_upper_def takeWhile_tail)

text \<open>A number that the buffer cuts, a string with a length, and a fraction that is carried over.\<close>

lemma vslprintf_examples:
  "ngx_vslprintf 4 (s2b ''%08XD'') [Va_int 0xbeef] = Some (s2b ''0000'')"
  "ngx_vslprintf 20 (s2b ''%*s|%s'') [Va_int 2, Va_mem (s2b ''abc''), Va_mem (s2b ''de'' @ [0])] = Some (s2b ''ab|de'')"
  "ngx_vslprintf 20 (s2b ''%.2f'') [Va_double True 2 (\<lambda>scale. scale)] = Some (s2b ''-3.00'')"
  "ngx_vslprintf 20 (s2b ''%M'') [Va_int (-1)] = Some (s2b ''-1'')"
  by code_simp+

text \<open>A conversion without an argument, an argument of another class and an unfinished conversion have no result.\<close>

lemma vslprintf_undefined:
  "ngx_vslprintf 9 (s2b ''%d'') [] = None"
  "ngx_vslprintf 9 (s2b ''%d'') [Va_str []] = None"
  "ngx_vslprintf 9 (s2b ''10%'') args = None"
  by (simp_all add: fmt_begin_def fmt_convert_def fmt_int_def)

text \<open>\<open>ngx_slprintf\<close> writes between \<open>buf\<close> and \<open>last\<close>, and \<open>ngx_sprintf\<close>, which has no bound, the whole text.\<close>

lemma slprintf_in_buffer: "buf \<le> last' \<Longrightarrow> ngx_slprintf buf last' fmt args = Some s \<Longrightarrow> buf + length s \<le> last'"
  using vslprintf_fits by (fastforce simp: ngx_slprintf_def)

lemma sprintf_text:
  "printf_text fmt args = Some s \<Longrightarrow> buf + length s < 2 ^ 64 \<Longrightarrow> ngx_sprintf buf fmt args = Some s"
  using vslprintf_cut [of fmt args s "2 ^ 64 - 1 - buf"] by (simp add: ngx_sprintf_def)

end
