(* ===== verification/NgxInet.thy ===== *)
theory NgxInet
  imports NgxPrintf
begin

text \<open>
  Internet addresses, \<^verbatim>\<open>src/core/ngx_inet.c\<close>: \<open>ngx_inet_addr\<close> and \<open>ngx_inet6_addr\<close> read an address, \<open>ngx_inet_ntop\<close> and \<open>ngx_inet6_ntop\<close> print
  one, and \<open>ngx_ptocidr\<close> reads a network, for the access lists and the \<open>geo\<close> block. An IPv4 address is a 32 bit word in network order on a little endian machine, so its
  first octet is its lowest byte; an IPv6 address is an array of 16 bytes.
\<close>

section \<open>Definitions\<close>

definition INADDR_NONE :: u32 where
  "INADDR_NONE = 0xffffffff"

text \<open>The octets of a number, the highest first. Changing the byte order turns them around.\<close>

definition octets :: "u32 \<Rightarrow> bytes" where
  "octets w = [ucast (drop_bit 24 w), ucast (drop_bit 16 w), ucast (drop_bit 8 w), ucast w]"

definition of_octets :: "byte \<Rightarrow> byte \<Rightarrow> byte \<Rightarrow> byte \<Rightarrow> u32" where
  "of_octets a b c d = push_bit 24 (ucast a) OR push_bit 16 (ucast b) OR push_bit 8 (ucast c) OR ucast d"

definition htonl :: "u32 \<Rightarrow> u32" where
  "htonl w = of_octets (ucast w) (ucast (drop_bit 8 w)) (ucast (drop_bit 16 w)) (ucast (drop_bit 24 w))"

subsection \<open>IPv4 addresses\<close>

fun inet_loop :: "bytes \<Rightarrow> u32 \<Rightarrow> ngx_uint_t \<Rightarrow> ngx_uint_t \<Rightarrow> (u32 \<times> ngx_uint_t \<times> ngx_uint_t) option" where
  "inet_loop [] addr octet n = Some (addr, octet, n)"
| "inet_loop (c # text) addr octet n =
     (if c \<ge> 0x30 \<and> c \<le> 0x39 then inet_loop text addr (octet * 10 + (ucast c - 0x30)) n
      else if c = 0x2E \<and> octet < 256 then inet_loop text (push_bit 8 addr + ucast octet) 0 (n + 1)
      else None)"

definition ngx_inet_addr :: "bytes \<Rightarrow> u32" where
  "ngx_inet_addr text =
     (case inet_loop text 0 0 0 of
        None \<Rightarrow> INADDR_NONE
      | Some (addr, octet, n) \<Rightarrow> if n = 3 \<and> octet < 256 then htonl (push_bit 8 addr + ucast octet) else INADDR_NONE)"

text \<open>The four bytes are \<open>p[0]\<close> to \<open>p[3]\<close>, passed as unsigned integers.\<close>

definition inet_format :: bytes where
  "inet_format = s2b ''%ud.%ud.%ud.%ud''"

definition va_byte :: "byte \<Rightarrow> va_arg" where
  "va_byte b = Va_int (ucast b)"

definition inet_ntop4 :: "bytes \<Rightarrow> nat \<Rightarrow> bytes option" where
  "inet_ntop4 p len = ngx_snprintf len inet_format (map va_byte (take 4 p))"

subsection \<open>IPv6 addresses\<close>

text \<open>
  \<open>ngx_inet6_addr\<close> writes the groups one after the other into \<open>addr\<close>; \<open>in6_out\<close> are the bytes written so far, and the pointer \<open>zero\<close> is the number of bytes in front of the
  double colon. \<open>digit\<close> and \<open>len4\<close> remember the text behind the last colon. The
  loop ends at the end of the text, with \<open>break\<close> after a dotted part, or with an error; in all cases the bytes written are kept.
\<close>

record in6_state =
  in6_out :: bytes
  in6_zero :: "nat option"
  in6_digit :: "bytes option"
  in6_n :: nat
  in6_nibbles :: nat
  in6_word :: ngx_uint_t

definition word_bytes :: "ngx_uint_t \<Rightarrow> bytes" where
  "word_bytes w = [ucast (drop_bit 8 w), ucast (w AND 0xff)]"

fun inet6_loop :: "bytes \<Rightarrow> in6_state \<Rightarrow> bool \<times> in6_state" where
  "inet6_loop [] s = (True, s)"
| "inet6_loop (c # p) s =
     (if c = 0x3A then
        if in6_nibbles s \<noteq> 0 then
          (let s' = s\<lparr>in6_digit := Some p, in6_out := in6_out s @ word_bytes (in6_word s), in6_n := in6_n s - 1\<rparr>
           in if in6_n s' \<noteq> 0 then inet6_loop p (s'\<lparr>in6_nibbles := 0, in6_word := 0\<rparr>) else (False, s'))
        else if in6_zero s = None then
          inet6_loop p (s\<lparr>in6_digit := Some p, in6_zero := Some (length (in6_out s))\<rparr>)
        else (False, s)
      else if c = 0x2E \<and> in6_nibbles s \<noteq> 0 then
        (case in6_digit s of
           None \<Rightarrow> (False, s)
         | Some digit \<Rightarrow>
             if in6_n s < 2 then (False, s)
             else let word = ngx_inet_addr digit in
               if word = INADDR_NONE then (False, s)
               else let w = ucast (htonl word) :: ngx_uint_t in
                 (True, s\<lparr>in6_out := in6_out s @ [ucast (drop_bit 24 w AND 0xff), ucast (drop_bit 16 w AND 0xff)],
                          in6_n := in6_n s - 1, in6_word := w\<rparr>))
      else let s' = s\<lparr>in6_nibbles := in6_nibbles s + 1\<rparr> in
        if in6_nibbles s' > 4 then (False, s')
        else if c \<ge> 0x30 \<and> c \<le> 0x39 then inet6_loop p (s'\<lparr>in6_word := in6_word s' * 16 + (ucast c - 0x30)\<rparr>)
        else let c' = c OR 0x20 in
          if c' \<ge> 0x61 \<and> c' \<le> 0x66 then inet6_loop p (s'\<lparr>in6_word := in6_word s' * 16 + (ucast c' - 0x61) + 10\<rparr>)
          else (False, s'))"

text \<open>
  Behind the loop the last group is written. The groups behind the double colon are then moved to the end of the
  array, and the gap is filled with zeros.
\<close>

definition inet6_end :: "in6_state \<Rightarrow> bool \<times> bytes" where
  "inet6_end s =
     (if in6_nibbles s = 0 \<and> in6_zero s = None then (False, in6_out s)
      else let addr = in6_out s @ word_bytes (in6_word s); n = in6_n s - 1
           in if n \<noteq> 0
              then case in6_zero s of
                     Some z \<Rightarrow> (True, take z addr @ replicate (n * 2) 0 @ drop z addr)
                   | None \<Rightarrow> (False, addr)
              else (in6_zero s = None, addr))"

definition ngx_inet6_addr :: "bytes \<Rightarrow> bool \<times> bytes" where
  "ngx_inet6_addr p =
     (case p of
        [] \<Rightarrow> (False, [])
      | c # p' \<Rightarrow>
          (let text = (if c = 0x3A then p' else p);
               (ok, s) = inet6_loop text \<lparr>in6_out = [], in6_zero = None, in6_digit = None, in6_n = 8, in6_nibbles = 0, in6_word = 0\<rparr>
           in if ok then inet6_end s else (False, in6_out s)))"

text \<open>
  \<open>ngx_inet6_ntop\<close>: the first loop looks for the longest run of zero groups; \<open>None\<close> is the pointer value \<open>(ngx_uint_t) -1\<close>.
\<close>

definition NGX_INET6_ADDRSTRLEN :: nat where
  "NGX_INET6_ADDRSTRLEN = 45"

fun ntop_scan :: "bytes \<Rightarrow> nat \<Rightarrow> nat option \<Rightarrow> nat option \<Rightarrow> nat \<Rightarrow> nat \<Rightarrow> nat option \<times> nat" where
  "ntop_scan (a # b # p) i zero last' max' n =
     (if a \<noteq> 0 \<or> b \<noteq> 0
      then if max' < n then ntop_scan p (i + 2) last' last' n 0 else ntop_scan p (i + 2) zero last' max' 0
      else ntop_scan p (i + 2) zero (if n = 0 then Some i else last') max' (n + 1))"
| "ntop_scan _ i zero last' max' n = (if max' < n then (last', n) else (zero, max'))"

definition hex_format :: bytes where
  "hex_format = s2b ''%uxi''"

definition group_text :: "byte \<Rightarrow> byte \<Rightarrow> bytes" where
  "group_text a b = (case ngx_sprintf 0 hex_format [Va_int (ucast a * 256 + ucast b)] of Some s \<Rightarrow> s | None \<Rightarrow> [])"

function ntop_loop :: "bytes \<Rightarrow> nat option \<Rightarrow> nat \<Rightarrow> nat \<Rightarrow> nat \<Rightarrow> bytes" where
  "ntop_loop p zero max' n i =
     (if i < n then
        if zero = Some i then 0x3A # ntop_loop p zero max' n (i + (max' - 1) * 2 + 2)
        else group_text (p ! i) (p ! (i + 1)) @ (if i < 14 then [0x3A] else []) @ ntop_loop p zero max' n (i + 2)
      else [])"
  by pat_completeness auto
termination
  by (relation "measure (\<lambda>(p, zero, max', n, i). n - i)") auto

declare ntop_loop.simps [simp del]

definition ngx_inet6_ntop :: "bytes \<Rightarrow> nat \<Rightarrow> bytes" where
  "ngx_inet6_ntop p len =
     (if len < NGX_INET6_ADDRSTRLEN then []
      else let (zero, max') = ntop_scan p 0 None None 1 0;
               n = (if zero = Some 0 \<and> (max' = 5 \<and> p ! 10 = 0xff \<and> p ! 11 = 0xff \<or> max' = 6
                        \<or> max' = 7 \<and> p ! 14 \<noteq> 0 \<and> p ! 15 \<noteq> 1) then 12 else 16)
           in (if zero = Some 0 then [0x3A] else []) @ ntop_loop p zero max' n 0 @
              (if n = 12 then (case ngx_sprintf 0 inet_format (map va_byte (drop 12 p)) of Some s \<Rightarrow> s | None \<Rightarrow> []) else []))"

subsection \<open>Networks\<close>

text \<open>
  \<open>ngx_ptocidr\<close> splits the text at the first slash. Without a slash the mask is all ones. \<open>NGX_DONE\<close> says that bits of the address outside of the mask had to be
  cleared. The loop of the IPv6 case goes over the 16 bytes and takes up to eight bits of \<open>shift\<close> for each; its result are the masked address, the mask, and
  whether a byte was changed.
\<close>

datatype ngx_cidr = Cidr_inet u32 u32 | Cidr_inet6 bytes bytes

fun cidr6_loop :: "bytes \<Rightarrow> nat \<Rightarrow> bytes \<times> bytes \<times> bool" where
  "cidr6_loop [] shift = ([], [], False)"
| "cidr6_loop (a # addr) shift =
     (let s = (if shift > 8 then 8 else shift);
          m = ucast (push_bit (8 - s) (0xff :: u32));
          (addr', mask', changed) = cidr6_loop addr (shift - s)
      in if a \<noteq> a AND m then ((a AND m) # addr', m # mask', True) else (a # addr', m # mask', changed))"

definition cidr_mask :: "nat \<Rightarrow> u32" where
  "cidr_mask shift = (if shift \<noteq> 0 then htonl (push_bit (32 - shift) 0xffffffff) else 0)"

definition cidr_inet :: "u32 \<Rightarrow> bytes \<Rightarrow> ngx_rc \<times> ngx_cidr option" where
  "cidr_inet inaddr slash =
     (let shift = ngx_atoi (tl slash)
      in if slash = [] then (NGX_OK, Some (Cidr_inet inaddr 0xffffffff))
         else if shift = int_error \<or> 32 <s shift then (NGX_ERROR, None)
         else let m = cidr_mask (unat shift) in
           if inaddr = inaddr AND m then (NGX_OK, Some (Cidr_inet inaddr m))
           else (NGX_DONE, Some (Cidr_inet (inaddr AND m) m)))"

definition cidr_inet6 :: "bytes \<Rightarrow> bytes \<Rightarrow> ngx_rc \<times> ngx_cidr option" where
  "cidr_inet6 addr slash =
     (let shift = ngx_atoi (tl slash)
      in if slash = [] then (NGX_OK, Some (Cidr_inet6 addr (replicate 16 0xff)))
         else if shift = int_error \<or> 128 <s shift then (NGX_ERROR, None)
         else let (addr', mask', changed) = cidr6_loop addr (unat shift)
              in (if changed then NGX_DONE else NGX_OK, Some (Cidr_inet6 addr' mask')))"

definition ngx_ptocidr :: "bytes \<Rightarrow> ngx_rc \<times> ngx_cidr option" where
  "ngx_ptocidr text =
     (let a = takeWhile (\<lambda>c. c \<noteq> 0x2F) text;
          slash = dropWhile (\<lambda>c. c \<noteq> 0x2F) text
      in if ngx_inet_addr a \<noteq> INADDR_NONE then cidr_inet (ngx_inet_addr a) slash
         else if fst (ngx_inet6_addr a) then cidr_inet6 (snd (ngx_inet6_addr a)) slash
         else (NGX_ERROR, None))"

section \<open>IPv4: printing and reading\<close>

lemma bit_of_octets:
  "bit (of_octets a b c d) n \<longleftrightarrow>
     (if n < 8 then bit d n else if n < 16 then bit c (n - 8) else if n < 24 then bit b (n - 16) else n < 32 \<and> bit a (n - 24))"
  unfolding of_octets_def by (auto simp: bit_simps not_less dest: bit_imp_le_length)

lemma octets_of_octets [simp]: "octets (of_octets a b c d) = [a, b, c, d]"
proof -
  have "(ucast (drop_bit 24 (of_octets a b c d)) :: byte) = a" by (rule bit_word_eqI) (simp add: bit_simps bit_of_octets)
  moreover have "(ucast (drop_bit 16 (of_octets a b c d)) :: byte) = b" by (rule bit_word_eqI) (simp add: bit_simps bit_of_octets)
  moreover have "(ucast (drop_bit 8 (of_octets a b c d)) :: byte) = c" by (rule bit_word_eqI) (simp add: bit_simps bit_of_octets)
  moreover have "(ucast (of_octets a b c d) :: byte) = d" by (rule bit_word_eqI) (simp add: bit_simps bit_of_octets)
  ultimately show ?thesis by (simp add: octets_def)
qed

lemma of_octets_octets: "octets w = [a, b, c, d] \<Longrightarrow> of_octets a b c d = w"
  unfolding octets_def by (rule bit_word_eqI) (auto simp: bit_simps bit_of_octets)

lemma octets_obtain: obtains a b c d where "octets w = [a, b, c, d]"
  by (simp add: octets_def)

lemma htonl_octets: "octets (htonl w) = rev (octets w)"
  unfolding htonl_def octets_of_octets by (simp add: octets_def)

lemma htonl_htonl [simp]: "htonl (htonl w) = w"
proof -
  obtain a b c d where o: "octets w = [a, b, c, d]" by (rule octets_obtain)
  have "octets (htonl (htonl w)) = [a, b, c, d]" by (simp add: htonl_octets o)
  then show ?thesis using of_octets_octets [OF o] of_octets_octets by metis
qed

lemma htonl_of_octets: "htonl (of_octets a b c d) = of_octets d c b a"
  using htonl_octets [of "of_octets a b c d"] by (metis octets_of_octets of_octets_octets rev.simps append_Cons append_Nil)

lemma htonl_none: "htonl w = INADDR_NONE \<longleftrightarrow> w = INADDR_NONE"
proof -
  have "htonl INADDR_NONE = INADDR_NONE" by (simp add: htonl_def INADDR_NONE_def of_octets_def)
  then show ?thesis by (metis htonl_htonl)
qed

definition dotted :: "byte \<Rightarrow> byte \<Rightarrow> byte \<Rightarrow> byte \<Rightarrow> bytes" where
  "dotted a b c d = dec_spec (unat a) @ 0x2E # dec_spec (unat b) @ 0x2E # dec_spec (unat c) @ 0x2E # dec_spec (unat d)"

lemma inet_loop_digits:
  "list_all is_digit cs \<Longrightarrow>
   inet_loop (cs @ rest) addr (of_nat v) n = inet_loop rest addr (of_nat (foldl (\<lambda>a c. a * 10 + unat (c - 0x30)) v cs)) n"
proof (induction cs arbitrary: v)
  case (Cons c cs)
  have c: "0x30 \<le> c" "c \<le> 0x39" using Cons.prems by (simp_all add: is_digit_def)
  have "unat c = unat (c - 0x30) + 48" using c by (simp add: unat_sub word_le_nat_alt)
  then have "(ucast c :: 64 word) = of_nat (unat (c - 0x30) + 48)" by (metis unat_ucast_byte(1) of_nat_unat_id)
  then have "of_nat v * 10 + (ucast c - 0x30) = (of_nat (v * 10 + unat (c - 0x30)) :: 64 word)" by simp
  then show ?case using Cons c by (simp del: of_nat_add of_nat_mult)
qed simp

lemma inet_loop_octet: "inet_loop (dec_spec k @ rest) addr 0 n = inet_loop rest addr (of_nat k) n"
  using inet_loop_digits [OF dec_spec_digits, of k rest addr 0 n] dec_val_spec [of k] by (simp add: dec_val_def)

lemma inet_loop_dot:
  "inet_loop (0x2E # rest) addr (of_nat (unat (b :: byte))) n = inet_loop rest (push_bit 8 addr + ucast b) 0 (n + 1)"
proof -
  have "(of_nat (unat b) :: 64 word) = ucast b" by (metis unat_ucast_byte(1) of_nat_unat_id)
  moreover have "(ucast b :: 64 word) < 256" by (simp add: word_less_nat_alt)
  moreover have "(ucast (ucast b :: 64 word) :: u32) = ucast b" by (rule bit_word_eqI) (auto simp: bit_simps)
  ultimately show ?thesis by simp
qed

lemma push_octet: "push_bit 8 w + ucast (d :: byte) = (push_bit 8 w OR ucast d :: u32)"
proof -
  have "push_bit 8 w AND ucast d = (0 :: u32)" by (rule bit_word_eqI) (auto simp: bit_simps dest: bit_imp_le_length)
  then show ?thesis by (rule disjunctive_add_eq_or)
qed

lemma of_octets_push: "push_bit 8 (push_bit 8 (push_bit 8 (ucast a) + ucast b) + ucast c) + ucast d = of_octets a b c d"
  unfolding push_octet by (rule bit_word_eqI) (auto simp: bit_simps bit_of_octets not_less dest: bit_imp_le_length)

lemma inet_addr_dotted: "ngx_inet_addr (dotted a b c d) = htonl (of_octets a b c d)"
proof -
  have u: "(of_nat (unat d) :: 64 word) = ucast d" by (metis unat_ucast_byte(1) of_nat_unat_id)
  have less: "(ucast d :: 64 word) < 256" by (simp add: word_less_nat_alt)
  have uu: "(ucast (ucast d :: 64 word) :: u32) = ucast d" by (rule bit_word_eqI) (auto simp: bit_simps)
  have l: "inet_loop (dec_spec (unat d)) addr 0 n = Some (addr, ucast d, n)" for addr n
    using inet_loop_octet [of "unat d" "[]" addr n] by (simp add: u)
  have "inet_loop (dotted a b c d) 0 0 0 = Some (push_bit 8 (push_bit 8 (push_bit 8 0 + ucast a) + ucast b) + ucast c, ucast d, 0 + 1 + 1 + 1)"
    unfolding dotted_def inet_loop_octet inet_loop_dot l ..
  then show ?thesis using of_octets_push [of a b c d] by (simp add: ngx_inet_addr_def less uu)
qed

lemma va_uint32_byte: "va_uint32 (ucast (b :: byte)) = ucast b"
  unfolding va_uint32_def by (rule bit_word_eqI) (auto simp: bit_simps dest: bit_imp_le_length)

lemma num_text_byte: "num_text (ucast (b :: byte)) zero 0 0 = dec_spec (unat b)"
  by (simp add: num_text_def sprintf_digits_dec)

lemma printf_dotted: "printf_text inet_format (map va_byte [a, b, c, d]) = Some (dotted a b c d)"
  by (simp add: inet_format_def va_byte_def fmt_begin_def convert_text_def fmt_int_def int_text_def va_uint32_byte num_text_byte
      dotted_def)

lemma length_dec_byte: "length (dec_spec (unat (b :: byte))) \<le> 3"
  using length_dec_spec [of "unat b" 2] unat_byte_less [of b] by simp

lemma length_dotted: "length (dotted a b c d) \<le> 15"
  using length_dec_byte [of a] length_dec_byte [of b] length_dec_byte [of c] length_dec_byte [of d] by (simp add: dotted_def)

lemma sprintf_dotted: "ngx_sprintf 0 inet_format (map va_byte [a, b, c, d]) = Some (dotted a b c d)"
proof -
  have "0 + length (dotted a b c d) < 2 ^ 64" using length_dotted [of a b c d] by simp
  then show ?thesis by (rule sprintf_text [OF printf_dotted])
qed

section \<open>IPv6: one group\<close>

definition group_val :: "byte \<Rightarrow> byte \<Rightarrow> nat" where
  "group_val a b = unat a * 256 + unat b"

lemma group_val_less: "group_val a b < 65536"
  using unat_byte_less [of a] unat_byte_less [of b] unfolding group_val_def by linarith

lemma of_nat_unat_byte: "(of_nat (unat (b :: byte)) :: 64 word) = ucast b"
  by (metis unat_ucast_byte(1) of_nat_unat_id)

lemma word_bytes_group: "word_bytes (of_nat (group_val a b)) = [a, b]"
proof -
  have w: "(of_nat (group_val a b) :: 64 word) = push_bit 8 (ucast a) OR ucast b"
  proof -
    have "(of_nat (group_val a b) :: 64 word) = push_bit 8 (ucast a) + ucast b"
      by (simp add: group_val_def push_bit_eq_mult of_nat_unat_byte)
    moreover have "push_bit 8 (ucast a) AND ucast b = (0 :: 64 word)"
      by (rule bit_word_eqI) (auto simp: bit_simps dest: bit_imp_le_length)
    ultimately show ?thesis by (simp add: disjunctive_add_eq_or)
  qed
  have m: "(w :: 64 word) AND 0xff = take_bit 8 w" for w by (simp add: take_bit_eq_mask mask_eq_exp_minus_1)
  have "(ucast (drop_bit 8 (push_bit 8 (ucast a) OR ucast b :: 64 word)) :: byte) = a"
    by (rule bit_word_eqI) (auto simp: bit_simps dest: bit_imp_le_length)
  moreover have "(ucast (take_bit 8 (push_bit 8 (ucast a) OR ucast b :: 64 word)) :: byte) = b"
    by (rule bit_word_eqI) (auto simp: bit_simps dest: bit_imp_le_length)
  ultimately show ?thesis unfolding word_bytes_def w m by simp
qed

lemma hex_digit_not_colon: "hex_digit 0x3A = None" "hex_digit 0x2E = None"
  by (simp_all add: hex_digit_def)

lemma inet6_hex_step:
  assumes "hex_digit c = Some v" "in6_nibbles s < 4"
  shows "inet6_loop (c # p) s = inet6_loop p (s\<lparr>in6_nibbles := in6_nibbles s + 1, in6_word := in6_word s * 16 + of_nat v\<rparr>)"
proof -
  have ne: "c \<noteq> 0x3A" "c \<noteq> 0x2E" using assms(1) hex_digit_not_colon by auto
  show ?thesis
  proof (cases "c \<ge> 0x30 \<and> c \<le> 0x39")
    case True
    then have "v = unat (c - 0x30)" using assms(1) by (simp add: hex_digit_def)
    moreover have "unat c = unat (c - 0x30) + 48" using True by (simp add: unat_sub word_le_nat_alt)
    then have "(ucast c :: 64 word) = of_nat (unat (c - 0x30) + 48)" by (metis unat_ucast_byte(1) of_nat_unat_id)
    ultimately have "(ucast c - 0x30 :: 64 word) = of_nat v" by simp
    then show ?thesis using True ne assms(2) by (simp add: Let_def)
  next
    case False
    define c' where "c' = c OR 0x20"
    have c': "c' \<ge> 0x61" "c' \<le> 0x66" and v: "v = unat (c' - 0x61 + 10)"
      using assms(1) False by (auto simp: hex_digit_def Let_def c'_def split: if_splits)
    have "unat c' = unat (c' - 0x61) + 97" using c' by (simp add: unat_sub word_le_nat_alt)
    moreover have "unat (c' - 0x61 + 10) = unat (c' - 0x61) + 10"
      using c' by (simp add: unat_sub word_le_nat_alt unat_word_ariths)
    moreover have "(ucast c' :: 64 word) = of_nat (unat c')" by (metis unat_ucast_byte(1) of_nat_unat_id)
    ultimately have "(ucast c' - 0x61 + 10 :: 64 word) = of_nat v" by (simp add: v)
    then have e: "in6_word s * 16 + (ucast c' - 0x61) + 10 = in6_word s * 16 + of_nat v" by (metis add.assoc)
    have "inet6_loop (c # p) s = inet6_loop p (s\<lparr>in6_nibbles := in6_nibbles s + 1, in6_word := in6_word s * 16 + (ucast c' - 0x61) + 10\<rparr>)"
      using False ne assms(2) c' unfolding c'_def by (auto simp: Let_def)
    then show ?thesis unfolding e .
  qed
qed

definition hexg :: "byte \<times> byte \<Rightarrow> bytes" where
  "hexg g = hex_spec hex_lower (group_val (fst g) (snd g))"

lemma hexg_len: "length (hexg g) \<le> 4" "hexg g \<noteq> []"
  using length_hex_spec [of "group_val (fst g) (snd g)" 3] group_val_less [of "fst g" "snd g"] by (simp_all add: hexg_def)

lemma inet6_hex:
  "list_all (\<lambda>c. hex_digit c \<noteq> None) cs \<Longrightarrow> in6_nibbles s + length cs \<le> 4 \<Longrightarrow> in6_word s = of_nat v \<Longrightarrow>
   inet6_loop (cs @ rest) s =
     inet6_loop rest (s\<lparr>in6_nibbles := in6_nibbles s + length cs, in6_word := of_nat (foldl (\<lambda>a c. a * 16 + the (hex_digit c)) v cs)\<rparr>)"
proof (induction cs arbitrary: s v)
  case (Cons c cs)
  obtain d where d: "hex_digit c = Some d" using Cons.prems(1) by auto
  define s' where "s' = s\<lparr>in6_nibbles := in6_nibbles s + 1, in6_word := of_nat (v * 16 + d)\<rparr>"
  have "inet6_loop ((c # cs) @ rest) s = inet6_loop (cs @ rest) s'"
    using inet6_hex_step [OF d, of s "cs @ rest"] Cons.prems(2,3) by (simp add: s'_def)
  also have "\<dots> = inet6_loop rest (s'\<lparr>in6_nibbles := in6_nibbles s' + length cs, in6_word := of_nat (foldl (\<lambda>a c. a * 16 + the (hex_digit c)) (v * 16 + d) cs)\<rparr>)"
    by (rule Cons.IH) (use Cons.prems in \<open>simp_all add: s'_def\<close>)
  finally show ?case by (simp add: s'_def d)
next
  case Nil
  then show ?case by (cases s) simp
qed

text \<open>A state between two groups.\<close>

definition fresh :: "in6_state \<Rightarrow> bool" where
  "fresh s \<longleftrightarrow> in6_nibbles s = 0 \<and> in6_word s = 0"

lemma inet6_group:
  assumes "fresh s"
  shows "inet6_loop (hexg (a, b) @ rest) s = inet6_loop rest (s\<lparr>in6_nibbles := length (hexg (a, b)), in6_word := of_nat (group_val a b)\<rparr>)"
  using inet6_hex [OF hex_spec_digits [OF hex_lower_ok], of s "group_val a b" 0 rest] assms hexg_len(1) [of "(a, b)"]
    hex_val_spec [OF hex_lower_ok, of "group_val a b"]
  by (simp add: hexg_def fresh_def hex_val_def)

lemma inet6_group_colon:
  assumes "fresh s" "2 \<le> in6_n s"
  shows "inet6_loop (hexg (a, b) @ 0x3A # rest) s =
    inet6_loop rest (s\<lparr>in6_digit := Some rest, in6_out := in6_out s @ [a, b], in6_n := in6_n s - 1\<rparr>)"
  using assms hexg_len(2) [of "(a, b)"]
  by (cases s) (simp add: inet6_group word_bytes_group fresh_def)

definition gtext :: "(byte \<times> byte) list \<Rightarrow> bytes" where
  "gtext gs = concat (map (\<lambda>g. hexg g @ [0x3A]) gs)"

definition gbytes :: "(byte \<times> byte) list \<Rightarrow> bytes" where
  "gbytes gs = concat (map (\<lambda>(a, b). [a, b]) gs)"

lemma gtext_simps [simp]: "gtext [] = []" "gtext (g # gs) = hexg g @ 0x3A # gtext gs" "gtext (xs @ ys) = gtext xs @ gtext ys"
  by (simp_all add: gtext_def)

lemma gbytes_simps [simp]: "gbytes [] = []" "gbytes ((a, b) # gs) = a # b # gbytes gs" "gbytes (xs @ ys) = gbytes xs @ gbytes ys"
  by (simp_all add: gbytes_def)

lemma length_gbytes [simp]: "length (gbytes gs) = 2 * length gs"
  by (induction gs) (auto simp: gbytes_def)

lemma inet6_groups:
  "fresh s \<Longrightarrow> length gs < in6_n s \<Longrightarrow>
   inet6_loop (gtext gs @ rest) s = inet6_loop rest
     (s\<lparr>in6_digit := if gs = [] then in6_digit s else Some rest, in6_out := in6_out s @ gbytes gs, in6_n := in6_n s - length gs\<rparr>)"
proof (induction gs arbitrary: s)
  case (Cons g gs)
  obtain a b where g: "g = (a, b)" by fastforce
  let ?s = "s\<lparr>in6_digit := Some (gtext gs @ rest), in6_out := in6_out s @ [a, b], in6_n := in6_n s - 1\<rparr>"
  have "inet6_loop (gtext (g # gs) @ rest) s = inet6_loop (gtext gs @ rest) ?s"
    using inet6_group_colon [OF Cons.prems(1), of a b "gtext gs @ rest"] Cons.prems(2) by (simp add: g)
  then show ?case using Cons.IH [of ?s] Cons.prems by (auto simp: g fresh_def)
qed simp

text \<open>The double colon.\<close>

lemma inet6_colon:
  assumes "fresh s" "in6_zero s = None"
  shows "inet6_loop (0x3A # rest) s = inet6_loop rest (s\<lparr>in6_digit := Some rest, in6_zero := Some (length (in6_out s))\<rparr>)"
  using assms by (simp add: fresh_def)

section \<open>IPv6: whole texts\<close>

definition gjoin :: "(byte \<times> byte) list \<Rightarrow> bytes" where
  "gjoin gs = (if gs = [] then [] else gtext (butlast gs) @ hexg (last gs))"

definition inet6_run :: "bytes \<Rightarrow> in6_state \<Rightarrow> bool \<times> bytes" where
  "inet6_run text s = (let (ok, s') = inet6_loop text s in if ok then inet6_end s' else (False, in6_out s'))"

definition in6_init :: in6_state where
  "in6_init = \<lparr>in6_out = [], in6_zero = None, in6_digit = None, in6_n = 8, in6_nibbles = 0, in6_word = 0\<rparr>"

lemma inet6_addr_run: "ngx_inet6_addr (c # p) = inet6_run (if c = 0x3A then p else c # p) in6_init"
  by (simp add: ngx_inet6_addr_def inet6_run_def in6_init_def Let_def)

lemma inet6_run_cong: "inet6_loop p s = inet6_loop p' s' \<Longrightarrow> inet6_run p s = inet6_run p' s'"
  by (simp add: inet6_run_def)

text \<open>The last groups, with and without a double colon in front of them.\<close>

lemma inet6_run_join:
  assumes "fresh s" "gs \<noteq> []" "length gs \<le> in6_n s"
  shows "inet6_run (gjoin gs) s = inet6_end (s\<lparr>in6_digit := if butlast gs = [] then in6_digit s else Some (hexg (last gs)),
      in6_out := in6_out s @ gbytes (butlast gs), in6_n := in6_n s - length (butlast gs), in6_nibbles := length (hexg (last gs)),
      in6_word := of_nat (group_val (fst (last gs)) (snd (last gs)))\<rparr>)"
proof -
  obtain a b where l: "last gs = (a, b)" by fastforce
  let ?s = "s\<lparr>in6_digit := if butlast gs = [] then in6_digit s else Some (hexg (last gs)), in6_out := in6_out s @ gbytes (butlast gs),
      in6_n := in6_n s - length (butlast gs)\<rparr>"
  have "length (butlast gs) < in6_n s" using assms(2,3) by (cases gs) auto
  then have "inet6_loop (gjoin gs) s = inet6_loop (hexg (a, b)) ?s"
    using inet6_groups [OF assms(1), of "butlast gs" "hexg (last gs)"] assms(2) by (simp add: gjoin_def l)
  also have "fresh ?s" using assms(1) by (simp add: fresh_def)
  then have "inet6_loop (hexg (a, b)) ?s = (True, ?s\<lparr>in6_nibbles := length (hexg (a, b)), in6_word := of_nat (group_val a b)\<rparr>)"
    using inet6_group [of ?s a b "[]"] by simp
  finally show ?thesis by (simp add: inet6_run_def l)
qed

lemma gbytes_butlast: "gs \<noteq> [] \<Longrightarrow> gbytes (butlast gs) @ [fst (last gs), snd (last gs)] = gbytes gs"
  by (induction gs rule: rev_induct) (auto simp: gbytes_def)

lemma inet6_run_zero:
  assumes "fresh s" "in6_zero s = Some (length (in6_out s))" "length gs + 2 \<le> in6_n s"
  shows "inet6_run (gjoin gs) s = (True, in6_out s @ replicate (2 * (in6_n s - length gs)) 0 @ gbytes gs)"
proof (cases "gs = []")
  case True
  have r: "(in6_n s - 1) * 2 + 2 = 2 * in6_n s" using assms(3) by simp
  have "replicate ((in6_n s - 1) * 2) (0 :: byte) @ [0, 0] = replicate (2 * in6_n s) 0"
    unfolding r [symmetric] replicate_add by (simp add: numeral_2_eq_2)
  then show ?thesis using assms True
    by (simp add: inet6_run_def gjoin_def inet6_end_def Let_def fresh_def word_bytes_def)
next
  case False
  then have l: "length (butlast gs) = length gs - 1" "1 \<le> length gs" by (simp_all add: Suc_le_eq)
  have n: "in6_n s - (length gs - 1) - 1 = in6_n s - length gs" using l(2) by simp
  have n0: "in6_n s - length gs \<noteq> 0" using assms(3) by simp
  obtain a b where g: "last gs = (a, b)" by fastforce
  show ?thesis
    using inet6_run_join [OF assms(1) False] assms gbytes_butlast [OF False] n n0 hexg_len(2) [of "(a, b)"]
    by (simp add: inet6_end_def Let_def word_bytes_group g l mult.commute)
qed

lemma inet6_run_full:
  assumes "length gs = 8"
  shows "inet6_run (gjoin gs) in6_init = (True, gbytes gs)"
proof -
  have ne: "gs \<noteq> []" using assms by auto
  obtain a b where g: "last gs = (a, b)" by fastforce
  show ?thesis
    using inet6_run_join [OF _ ne, of in6_init] assms gbytes_butlast [OF ne] hexg_len(2) [of "(a, b)"]
    by (simp add: inet6_end_def Let_def word_bytes_group g fresh_def in6_init_def)
qed

lemma hexg_head:
  obtains c cs where "hexg g = c # cs" "c \<noteq> 0x3A"
proof -
  obtain c cs where c: "hexg g = c # cs" using hexg_len(2) [of g] by (cases "hexg g") auto
  have "list_all (\<lambda>c. hex_digit c \<noteq> None) (hexg g)" unfolding hexg_def by (rule hex_spec_digits [OF hex_lower_ok])
  then have "hex_digit c \<noteq> None" by (simp add: c)
  then have "c \<noteq> 0x3A" using hex_digit_not_colon by auto
  then show ?thesis using that c by blast
qed

lemma inet6_addr_hexg: "ngx_inet6_addr (hexg g @ p) = inet6_run (hexg g @ p) in6_init"
proof -
  obtain c cs where c: "hexg g = c # cs" "c \<noteq> 0x3A" by (rule hexg_head)
  then show ?thesis by (simp add: inet6_addr_run)
qed

lemma gjoin_Cons: "gjoin (g # gs) = hexg g @ (if gs = [] then [] else 0x3A # gjoin gs)"
  by (simp add: gjoin_def)

lemma inet6_addr_full: "length gs = 8 \<Longrightarrow> ngx_inet6_addr (gjoin gs) = (True, gbytes gs)"
  using inet6_run_full [of gs] by (cases gs) (auto simp: gjoin_Cons inet6_addr_hexg)

lemma inet6_addr_zero:
  assumes "length A + length B \<le> 6"
  shows "ngx_inet6_addr ((if A = [] then [0x3A] else gtext A) @ 0x3A # gjoin B) =
    (True, gbytes A @ replicate (2 * (8 - length A - length B)) 0 @ gbytes B)"
proof -
  define s where "s = in6_init\<lparr>in6_digit := Some (gjoin B), in6_out := gbytes A, in6_n := 8 - length A, in6_zero := Some (length (gbytes A))\<rparr>"
  have "ngx_inet6_addr ((if A = [] then [0x3A] else gtext A) @ 0x3A # gjoin B) = inet6_run (gtext A @ 0x3A # gjoin B) in6_init"
    by (cases A) (simp_all add: inet6_addr_run inet6_addr_hexg)
  also have "\<dots> = inet6_run (gjoin B) s"
  proof (rule inet6_run_cong)
    let ?s = "in6_init\<lparr>in6_digit := if A = [] then in6_digit in6_init else Some (0x3A # gjoin B), in6_out := in6_out in6_init @ gbytes A,
      in6_n := in6_n in6_init - length A\<rparr>"
    have "inet6_loop (gtext A @ 0x3A # gjoin B) in6_init = inet6_loop (0x3A # gjoin B) ?s"
      by (rule inet6_groups) (use assms in \<open>simp_all add: in6_init_def fresh_def\<close>)
    also have "\<dots> = inet6_loop (gjoin B) (?s\<lparr>in6_digit := Some (gjoin B), in6_zero := Some (length (in6_out ?s))\<rparr>)"
      by (rule inet6_colon) (simp_all add: in6_init_def fresh_def)
    finally show "inet6_loop (gtext A @ 0x3A # gjoin B) in6_init = inet6_loop (gjoin B) s"
      by (simp add: s_def in6_init_def)
  qed
  also have "\<dots> = (True, in6_out s @ replicate (2 * (in6_n s - length B)) 0 @ gbytes B)"
    by (rule inet6_run_zero) (use assms in \<open>simp_all add: s_def in6_init_def fresh_def\<close>)
  finally show ?thesis by (simp add: s_def)
qed

text \<open>The dotted part: \<open>ngx_inet_addr\<close> reads the text behind the last colon.\<close>

lemma digit_hex: "is_digit c \<Longrightarrow> hex_digit c \<noteq> None"
  by (simp add: is_digit_def hex_digit_def)

lemma octet_words:
  fixes a b c d :: byte
  defines "w \<equiv> ucast (of_octets a b c d) :: ngx_uint_t"
  shows "ucast (drop_bit 24 w AND 0xff) = a" "ucast (drop_bit 16 w AND 0xff) = b" "word_bytes w = [c, d]"
proof -
  have m: "(v :: 64 word) AND 0xff = take_bit 8 v" for v by (simp add: take_bit_eq_mask mask_eq_exp_minus_1)
  show "ucast (drop_bit 24 w AND 0xff) = a" unfolding m w_def
    by (rule bit_word_eqI) (auto simp: bit_simps bit_of_octets)
  show "ucast (drop_bit 16 w AND 0xff) = b" unfolding m w_def
    by (rule bit_word_eqI) (auto simp: bit_simps bit_of_octets)
  have "(ucast (drop_bit 8 w) :: byte) = c" unfolding w_def by (rule bit_word_eqI) (auto simp: bit_simps bit_of_octets)
  moreover have "(ucast (take_bit 8 w) :: byte) = d" unfolding w_def by (rule bit_word_eqI) (auto simp: bit_simps bit_of_octets)
  ultimately show "word_bytes w = [c, d]" unfolding word_bytes_def m by simp
qed

lemma inet6_run_dotted:
  assumes s: "fresh s" "in6_zero s = Some 0" "in6_digit s = Some (dotted a b c d)" "3 \<le> in6_n s"
    and addr: "of_octets a b c d \<noteq> INADDR_NONE"
  shows "inet6_run (dotted a b c d) s = (True, replicate (2 * (in6_n s - 2)) 0 @ in6_out s @ [a, b, c, d])"
proof -
  obtain rest where r: "dotted a b c d = dec_spec (unat a) @ 0x2E # rest" by (simp add: dotted_def)
  define s' where "s' = s\<lparr>in6_nibbles := length (dec_spec (unat a)),
    in6_word := of_nat (foldl (\<lambda>a c. a * 16 + the (hex_digit c)) 0 (dec_spec (unat a)))\<rparr>"
  have "list_all (\<lambda>c. hex_digit c \<noteq> None) (dec_spec (unat a))"
    using dec_spec_digits [of "unat a"] digit_hex by (auto simp: list_all_iff)
  moreover have n0: "in6_nibbles s = 0" "in6_word s = of_nat 0" using s(1) by (simp_all add: fresh_def)
  ultimately have "inet6_loop (dec_spec (unat a) @ 0x2E # rest) s = inet6_loop (0x2E # rest) (s\<lparr>in6_nibbles := in6_nibbles s + length (dec_spec (unat a)),
      in6_word := of_nat (foldl (\<lambda>a c. a * 16 + the (hex_digit c)) 0 (dec_spec (unat a)))\<rparr>)"
    by (intro inet6_hex) (use length_dec_byte [of a] in simp_all)
  then have "inet6_loop (dotted a b c d) s = inet6_loop (0x2E # rest) s'" unfolding r s'_def n0(1) add_0 .
  moreover have "htonl (of_octets a b c d) \<noteq> INADDR_NONE" using addr by (simp add: htonl_none)
  then have "inet6_loop (0x2E # rest) s' = (True, s'\<lparr>in6_out := in6_out s @ [a, b], in6_n := in6_n s - 1, in6_word := ucast (of_octets a b c d)\<rparr>)"
    using s by (simp add: s'_def inet_addr_dotted octet_words Let_def)
  ultimately show ?thesis
    using s by (simp add: inet6_run_def inet6_end_def Let_def octet_words s'_def mult.commute)
qed

lemma inet6_addr_dotted:
  assumes "length B \<le> 5" "of_octets a b c d \<noteq> INADDR_NONE"
  shows "ngx_inet6_addr (0x3A # 0x3A # gtext B @ dotted a b c d) = (True, replicate (2 * (6 - length B)) 0 @ gbytes B @ [a, b, c, d])"
proof -
  define s where "s = in6_init\<lparr>in6_digit := Some (dotted a b c d), in6_out := gbytes B, in6_n := 8 - length B, in6_zero := Some 0\<rparr>"
  have "inet6_loop (0x3A # gtext B @ dotted a b c d) in6_init = inet6_loop (dotted a b c d) s"
  proof -
    let ?s = "in6_init\<lparr>in6_digit := Some (gtext B @ dotted a b c d), in6_zero := Some (length (in6_out in6_init))\<rparr>"
    have "inet6_loop (0x3A # gtext B @ dotted a b c d) in6_init = inet6_loop (gtext B @ dotted a b c d) ?s"
      by (rule inet6_colon) (simp_all add: in6_init_def fresh_def)
    also have "\<dots> = inet6_loop (dotted a b c d) (?s\<lparr>in6_digit := if B = [] then in6_digit ?s else Some (dotted a b c d),
        in6_out := in6_out ?s @ gbytes B, in6_n := in6_n ?s - length B\<rparr>)"
      by (rule inet6_groups) (use assms(1) in \<open>simp_all add: in6_init_def fresh_def\<close>)
    finally show ?thesis by (simp add: s_def in6_init_def)
  qed
  then have "ngx_inet6_addr (0x3A # 0x3A # gtext B @ dotted a b c d) = inet6_run (dotted a b c d) s"
    by (simp only: inet6_addr_run refl if_True inet6_run_def)
  also have "\<dots> = (True, replicate (2 * (in6_n s - 2)) 0 @ in6_out s @ [a, b, c, d])"
    by (rule inet6_run_dotted) (use assms in \<open>simp_all add: s_def in6_init_def fresh_def\<close>)
  finally show ?thesis using assms(1) by (simp add: s_def)
qed

section \<open>IPv6: the printer\<close>

lemma nth_gbytes: "j < length G \<Longrightarrow> gbytes G ! (2 * j) = fst (G ! j)" "j < length G \<Longrightarrow> gbytes G ! (2 * j + 1) = snd (G ! j)"
proof (induction G arbitrary: j)
  case (Cons g G)
  obtain a b where g: "g = (a, b)" by fastforce
  {
    case 1
    then show ?case using Cons.IH(1) [of "j - 1"] by (cases j) (simp_all add: g)
  next
    case 2
    then show ?case using Cons.IH(2) [of "j - 1"] by (cases j) (simp_all add: g)
  }
qed simp_all

lemma group_text_hexg: "group_text a b = hexg (a, b)"
proof -
  have "(ucast a * 256 + ucast b :: 64 word) = of_nat (group_val a b)" by (simp add: group_val_def of_nat_unat_byte)
  moreover have "unat (of_nat (group_val a b) :: 64 word) = group_val a b" using group_val_less [of a b] by (simp add: unat_of_nat64)
  ultimately have "printf_text hex_format [Va_int (ucast a * 256 + ucast b)] = Some (hexg (a, b))"
    by (simp add: hex_format_def fmt_begin_def convert_text_def fmt_int_def int_text_def num_text_def sprintf_digits_hex hexg_def)
  moreover have "0 + length (hexg (a, b)) < 2 ^ 64" using hexg_len(1) [of "(a, b)"] by simp
  ultimately have "ngx_sprintf 0 hex_format [Va_int (ucast a * 256 + ucast b)] = Some (hexg (a, b))" by (rule sprintf_text)
  then show ?thesis by (simp add: group_text_def)
qed

text \<open>A run of zero groups: the result of the first loop.\<close>

definition zero_run :: "(byte \<times> byte) list \<Rightarrow> nat \<Rightarrow> nat \<Rightarrow> bool" where
  "zero_run G k m \<longleftrightarrow> k + m \<le> length G \<and> (\<forall>j. k \<le> j \<and> j < k + m \<longrightarrow> G ! j = (0, 0))"

definition good_run :: "(byte \<times> byte) list \<Rightarrow> nat option \<Rightarrow> nat \<Rightarrow> bool" where
  "good_run G zero m \<longleftrightarrow> (case zero of None \<Rightarrow> m = 1 | Some i \<Rightarrow> \<exists>k. i = 2 * k \<and> 2 \<le> m \<and> zero_run G k m)"

lemma good_run_max: "good_run G zero m \<Longrightarrow> 1 \<le> m"
  by (auto simp: good_run_def split: option.splits)

lemma ntop_scan_good:
  assumes "G = pre @ gs" "good_run G zero m" "n = 0 \<or> (\<exists>k. last' = Some (2 * k) \<and> k + n = length pre \<and> zero_run G k n)"
  shows "case ntop_scan (gbytes gs) (2 * length pre) zero last' m n of (z, m') \<Rightarrow> good_run G z m'"
  using assms
proof (induction gs arbitrary: pre zero last' m n)
  case Nil
  show ?case
  proof (cases "m < n")
    case True
    then have "good_run G last' n" using Nil.prems(3) good_run_max [OF Nil.prems(2)] by (auto simp: good_run_def)
    then show ?thesis using True by simp
  next
    case False
    then show ?thesis using Nil.prems(2) by simp
  qed
next
  case (Cons g gs)
  obtain a b where g: "g = (a, b)" by fastforce
  have G: "G = (pre @ [g]) @ gs" and i: "2 * length pre + 2 = 2 * length (pre @ [g])" using Cons.prems(1) by simp_all
  show ?case
  proof (cases "a \<noteq> 0 \<or> b \<noteq> 0")
    case True
    show ?thesis
    proof (cases "m < n")
      case m: True
      then have "good_run G last' n" using Cons.prems(3) good_run_max [OF Cons.prems(2)] by (auto simp: good_run_def)
      then show ?thesis using Cons.IH [OF G, of last' n 0 last'] True m by (simp add: g)
    next
      case False
      then show ?thesis using Cons.IH [OF G Cons.prems(2), of 0 last'] True by (simp add: g)
    qed
  next
    case False
    define l where "l = (if n = 0 then Some (2 * length pre) else last')"
    have z: "G ! length pre = (0, 0)" using False Cons.prems(1) by (simp add: g)
    obtain k where k: "l = Some (2 * k)" "k + n = length pre" "n = 0 \<or> zero_run G k n"
      using Cons.prems(3) unfolding l_def by (cases "n = 0") auto
    have "zero_run G k (n + 1)" using k(2,3) z Cons.prems(1)
      by (cases "n = 0") (auto simp: zero_run_def less_Suc_eq)
    then have "\<exists>k. l = Some (2 * k) \<and> k + (n + 1) = length (pre @ [g]) \<and> zero_run G k (n + 1)" using k by auto
    then show ?thesis using Cons.IH [OF G Cons.prems(2), of "n + 1" l] False by (simp add: g l_def)
  qed
qed

lemma ntop_loop_group:
  assumes "length G = 8" "i < 8" "2 * i < n" "zero \<noteq> Some (2 * i)"
  shows "ntop_loop (gbytes G) zero m n (2 * i) = hexg (G ! i) @ (if i < 7 then [0x3A] else []) @ ntop_loop (gbytes G) zero m n (2 * (i + 1))"
  using assms nth_gbytes [of i G] by (subst ntop_loop.simps) (auto simp: group_text_hexg)

lemma ntop_loop_end: "n \<le> i \<Longrightarrow> ntop_loop p zero m n i = []"
  by (subst ntop_loop.simps) simp

lemma ntop_loop_zero:
  assumes "i < n" "1 \<le> m"
  shows "ntop_loop p (Some i) m n i = 0x3A # ntop_loop p (Some i) m n (i + 2 * m)"
proof -
  have e: "i + (m - 1) * 2 + 2 = i + 2 * m" using assms(2) by (simp add: algebra_simps)
  have "ntop_loop p (Some i) m n i = 0x3A # ntop_loop p (Some i) m n (i + (m - 1) * 2 + 2)"
    using assms(1) by (subst ntop_loop.simps) simp
  then show ?thesis unfolding e .
qed

lemma ntop_loop_tail:
  assumes "length G = 8" "i \<le> 8" "\<forall>j. i \<le> j \<longrightarrow> zero \<noteq> Some (2 * j)"
  shows "ntop_loop (gbytes G) zero m 16 (2 * i) = gjoin (drop i G)"
  using assms
proof (induction "8 - i" arbitrary: i)
  case 0
  then show ?case by (simp add: ntop_loop_end gjoin_def)
next
  case (Suc x)
  then have i: "i < 8" by simp
  have "ntop_loop (gbytes G) zero m 16 (2 * (i + 1)) = gjoin (drop (i + 1) G)" by (rule Suc.hyps(1)) (use Suc i in auto)
  moreover have "ntop_loop (gbytes G) zero m 16 (2 * i) =
      hexg (G ! i) @ (if i < 7 then [0x3A] else []) @ ntop_loop (gbytes G) zero m 16 (2 * (i + 1))"
    by (rule ntop_loop_group) (use Suc.prems i in auto)
  moreover have "drop i G = G ! i # drop (i + 1) G" using i Suc.prems(1) by (simp add: Cons_nth_drop_Suc)
  ultimately show ?case using i Suc.prems(1) by (simp add: gjoin_Cons gjoin_def [of "[]"])
qed

lemma ntop_loop_head:
  assumes "length G = 8" "i \<le> k" "k \<le> 7" "2 * k < n"
  shows "ntop_loop (gbytes G) (Some (2 * k)) m n (2 * i) = gtext (take (k - i) (drop i G)) @ ntop_loop (gbytes G) (Some (2 * k)) m n (2 * k)"
  using assms
proof (induction "k - i" arbitrary: i)
  case 0
  then show ?case by simp
next
  case (Suc x)
  then have i: "i < k" by simp
  have "ntop_loop (gbytes G) (Some (2 * k)) m n (2 * (i + 1))
      = gtext (take (k - (i + 1)) (drop (i + 1) G)) @ ntop_loop (gbytes G) (Some (2 * k)) m n (2 * k)"
    by (rule Suc.hyps(1)) (use Suc i in auto)
  moreover have "ntop_loop (gbytes G) (Some (2 * k)) m n (2 * i) =
      hexg (G ! i) @ (if i < 7 then [0x3A] else []) @ ntop_loop (gbytes G) (Some (2 * k)) m n (2 * (i + 1))"
    by (rule ntop_loop_group) (use Suc.prems i in auto)
  moreover have "drop i G = G ! i # drop (i + 1) G" using i Suc.prems by (simp add: Cons_nth_drop_Suc)
  moreover have "k - i = Suc (k - (i + 1))" using i by simp
  ultimately show ?case using i Suc.prems(3) by simp
qed

lemma zero_run_bytes:
  assumes "zero_run G k m"
  shows "gbytes G = gbytes (take k G) @ replicate (2 * m) 0 @ gbytes (drop (k + m) G)"
proof -
  have km: "k + m \<le> length G" using assms by (simp add: zero_run_def)
  have "take m (drop k G) = replicate m (0, 0)"
    by (rule nth_equalityI) (use assms in \<open>auto simp: zero_run_def\<close>)
  then have "G = take k G @ replicate m (0, 0) @ drop (k + m) G"
    by (metis append_take_drop_id drop_drop add.commute)
  moreover have "gbytes (replicate m (0, 0)) = replicate (2 * m) 0" by (induction m) simp_all
  ultimately show ?thesis by (metis gbytes_simps(3))
qed

lemma ntop_text_zero:
  assumes "length G = 8" "zero_run G k m" "2 \<le> m"
  shows "ntop_loop (gbytes G) (Some (2 * k)) m 16 0 = gtext (take k G) @ 0x3A # gjoin (drop (k + m) G)"
proof -
  have k: "k \<le> 7" "k + m \<le> 8" using assms by (auto simp: zero_run_def)
  have "ntop_loop (gbytes G) (Some (2 * k)) m 16 (2 * 0) = gtext (take (k - 0) (drop 0 G)) @ ntop_loop (gbytes G) (Some (2 * k)) m 16 (2 * k)"
    by (rule ntop_loop_head) (use assms k in auto)
  moreover have "ntop_loop (gbytes G) (Some (2 * k)) m 16 (2 * k) = 0x3A # ntop_loop (gbytes G) (Some (2 * k)) m 16 (2 * k + 2 * m)"
    by (rule ntop_loop_zero) (use assms k in auto)
  moreover have "ntop_loop (gbytes G) (Some (2 * k)) m 16 (2 * (k + m)) = gjoin (drop (k + m) G)"
    by (rule ntop_loop_tail) (use assms k in auto)
  ultimately show ?thesis by (simp add: add_mult_distrib2)
qed

lemma ntop_text_dotted:
  assumes "length G = 8" "5 \<le> m" "m \<le> 7"
  shows "ntop_loop (gbytes G) (Some 0) m 12 0 = 0x3A # gtext (drop m (take 6 G))"
proof -
  have 1: "ntop_loop (gbytes G) (Some 0) m 12 0 = 0x3A # ntop_loop (gbytes G) (Some 0) m 12 (2 * m)"
    using ntop_loop_zero [of 0 12 m "gbytes G"] assms by simp
  show ?thesis
  proof (cases "m = 5")
    case True
    have "ntop_loop (gbytes G) (Some 0) 5 12 (2 * 5) = hexg (G ! 5) @ [0x3A] @ ntop_loop (gbytes G) (Some 0) 5 12 (2 * 6)"
      using ntop_loop_group [OF assms(1), of 5 12 "Some 0" 5] by simp
    moreover have "drop 5 (take 6 G) = [G ! 5]"
    proof -
      have "take 6 G = take 5 G @ [G ! 5]" using take_Suc_conv_app_nth [of 5 G] assms(1) by simp
      then show ?thesis using assms(1) by simp
    qed
    ultimately show ?thesis using 1 True by (simp add: ntop_loop_end)
  next
    case False
    then show ?thesis using 1 assms by (simp add: ntop_loop_end)
  qed
qed

lemma gbytes_surj: "length p = 2 * n \<Longrightarrow> \<exists>G. length G = n \<and> p = gbytes G"
proof (induction n arbitrary: p)
  case (Suc n)
  then obtain a b p' where p: "p = a # b # p'" by (cases p; cases "tl p") auto
  then obtain G where "length G = n" "p' = gbytes G" using Suc by auto
  then show ?case using p by (intro exI [of _ "(a, b) # G"]) simp
qed simp

lemma drop_gbytes: "drop (2 * k) (gbytes G) = gbytes (drop k G)"
proof (induction k arbitrary: G)
  case (Suc k)
  show ?case
  proof (cases G)
    case (Cons g G')
    then show ?thesis using Suc.IH [of G'] by (cases g) simp
  qed simp
qed simp

lemma length_gtext: "length (gtext gs) \<le> 5 * length gs"
proof (induction gs)
  case (Cons g gs)
  then show ?case using hexg_len(1) [of g] by simp
qed simp

lemma length_gjoin: "length (gjoin gs) \<le> 5 * length gs"
proof (cases gs rule: rev_cases)
  case (snoc ys y)
  then show ?thesis using length_gtext [of ys] hexg_len(1) [of y] by (simp add: gjoin_def)
qed (simp add: gjoin_def)

text \<open>The three shapes of a printed address, each with what the reader makes of it.\<close>

definition reads_back :: "bytes \<Rightarrow> bytes \<Rightarrow> bool" where
  "reads_back text p \<longleftrightarrow> ngx_inet6_addr text = (True, p) \<and> length text \<le> NGX_INET6_ADDRSTRLEN"

lemma reads_back_full: "length G = 8 \<Longrightarrow> reads_back (gjoin G) (gbytes G)"
  using inet6_addr_full [of G] length_gjoin [of G] by (simp add: reads_back_def NGX_INET6_ADDRSTRLEN_def)

lemma reads_back_zero:
  assumes "length G = 8" "zero_run G k m" "2 \<le> m"
  shows "reads_back ((if k = 0 then [0x3A] else []) @ gtext (take k G) @ 0x3A # gjoin (drop (k + m) G)) (gbytes G)"
proof -
  let ?A = "take k G" and ?B = "drop (k + m) G"
  have km: "k + m \<le> 8" using assms by (simp add: zero_run_def)
  then have l: "length ?A = k" "length ?B = 8 - (k + m)" "?A = [] \<longleftrightarrow> k = 0" using assms(1) by auto
  have t: "(if k = 0 then [0x3A] else []) @ gtext ?A @ 0x3A # gjoin ?B = (if ?A = [] then [0x3A] else gtext ?A) @ 0x3A # gjoin ?B"
    using l(3) by simp
  have "ngx_inet6_addr ((if ?A = [] then [0x3A] else gtext ?A) @ 0x3A # gjoin ?B)
      = (True, gbytes ?A @ replicate (2 * (8 - length ?A - length ?B)) 0 @ gbytes ?B)"
    by (rule inet6_addr_zero) (use l km assms(3) in simp)
  moreover have "8 - length ?A - length ?B = m" using l km by simp
  moreover have "length ((if k = 0 then [0x3A] else []) @ gtext ?A @ 0x3A # gjoin ?B) \<le> 45"
  proof -
    have "length (gtext ?A) \<le> 5 * k" "length (gjoin ?B) \<le> 5 * (8 - (k + m))" using length_gtext [of ?A] length_gjoin [of ?B] l by simp_all
    moreover have "5 * k + 5 * (8 - (k + m)) \<le> 40" using km by simp
    ultimately have "length (gtext ?A) + length (gjoin ?B) \<le> 40" by linarith
    then show ?thesis by auto
  qed
  ultimately show ?thesis using zero_run_bytes [OF assms(2)] unfolding reads_back_def t NGX_INET6_ADDRSTRLEN_def by simp
qed

lemma reads_back_dotted:
  assumes "length G = 8" "zero_run G 0 m" "5 \<le> m" "m \<le> 7" "gbytes (drop 6 G) = [a, b, c, d]" "of_octets a b c d \<noteq> INADDR_NONE"
  shows "reads_back (0x3A # 0x3A # gtext (drop m (take 6 G)) @ dotted a b c d) (gbytes G)"
proof -
  define k where "k = (if m = 5 then 5 else 6 :: nat)"
  let ?B = "drop k (take 6 G)"
  have B: "drop m (take 6 G) = ?B" using assms by (auto simp: k_def)
  have l: "length ?B = 6 - k" "6 - k \<le> 5" using assms(1) by (simp_all add: k_def)
  have "zero_run G 0 k" using assms(2,3,4) by (auto simp: zero_run_def k_def)
  then have "gbytes G = replicate (2 * k) 0 @ gbytes (drop k G)" using zero_run_bytes [of G 0 k] by simp
  moreover have "drop k G = ?B @ drop 6 G"
  proof -
    have "drop k (take 6 G @ drop 6 G) = ?B @ drop (k - length (take 6 G)) (drop 6 G)" by (rule drop_append)
    moreover have "k - length (take 6 G) = 0" using assms(1) by (simp add: k_def)
    ultimately show ?thesis by simp
  qed
  ultimately have G: "gbytes G = replicate (2 * k) 0 @ gbytes ?B @ [a, b, c, d]" using assms(5) by simp
  have "ngx_inet6_addr (0x3A # 0x3A # gtext ?B @ dotted a b c d) = (True, replicate (2 * (6 - length ?B)) 0 @ gbytes ?B @ [a, b, c, d])"
    by (rule inet6_addr_dotted) (use l assms(6) in auto)
  moreover have "6 - length ?B = k" using l by (simp add: k_def)
  moreover have "length (0x3A # 0x3A # gtext ?B @ dotted a b c d) \<le> 45"
    using length_gtext [of ?B] length_dotted [of a b c d] l by simp
  ultimately show ?thesis unfolding reads_back_def B NGX_INET6_ADDRSTRLEN_def G by simp
qed

lemma inet6_ntop_reads_back:
  assumes "length p = 16" "NGX_INET6_ADDRSTRLEN \<le> len" "drop 12 p = [a, b, c, d]" "of_octets a b c d \<noteq> INADDR_NONE"
  shows "reads_back (ngx_inet6_ntop p len) p"
proof -
  obtain G where G: "length G = 8" "p = gbytes G" using gbytes_surj [of p 8] assms(1) by auto
  obtain z m where zm: "ntop_scan p 0 None None 1 0 = (z, m)" by fastforce
  have good: "good_run G z m"
    using ntop_scan_good [of G "[]" G None 1 0 None] zm G(2) by (simp add: good_run_def)
  have d: "gbytes (drop 6 G) = [a, b, c, d]" using drop_gbytes [of 6 G] assms(3) G(2) by simp
  show ?thesis
  proof (cases z)
    case None
    have "ngx_inet6_ntop p len = gjoin G"
      using ntop_loop_tail [OF G(1), of 0 None m] assms(2) unfolding ngx_inet6_ntop_def zm None by (simp add: G(2))
    then show ?thesis using reads_back_full [OF G(1)] G(2) by simp
  next
    case (Some i)
    then obtain k where k: "i = 2 * k" "2 \<le> m" "zero_run G k m" using good by (auto simp: good_run_def)
    define v4 where "v4 \<longleftrightarrow> k = 0 \<and> (m = 5 \<and> p ! 10 = 0xff \<and> p ! 11 = 0xff \<or> m = 6 \<or> m = 7 \<and> p ! 14 \<noteq> 0 \<and> p ! 15 \<noteq> 1)"
    show ?thesis
    proof (cases v4)
      case True
      then have m: "5 \<le> m" "m \<le> 7" "k = 0" by (auto simp: v4_def)
      have "ngx_inet6_ntop p len = 0x3A # 0x3A # gtext (drop m (take 6 G)) @ dotted a b c d"
        using True ntop_text_dotted [OF G(1) m(1,2)] assms(2,3) sprintf_dotted [of a b c d]
        unfolding ngx_inet6_ntop_def zm Some k(1) v4_def by (simp add: G(2) [symmetric])
      then show ?thesis using reads_back_dotted [OF G(1) _ m(1,2) d assms(4)] k(3) m(3) G(2) by simp
    next
      case False
      have "ngx_inet6_ntop p len = (if k = 0 then [0x3A] else []) @ gtext (take k G) @ 0x3A # gjoin (drop (k + m) G)"
        using False ntop_text_zero [OF G(1) k(3,2)] assms(2)
        unfolding ngx_inet6_ntop_def zm Some k(1) v4_def by (auto simp: G(2) [symmetric])
      then show ?thesis using reads_back_zero [OF G(1) k(3,2)] G(2) by simp
    qed
  qed
qed

section \<open>IPv6: the array is never left\<close>

definition in6_ok :: "in6_state \<Rightarrow> bool" where
  "in6_ok s \<longleftrightarrow> length (in6_out s) + 2 * in6_n s = 16 \<and> 1 \<le> in6_n s
     \<and> (case in6_zero s of None \<Rightarrow> True | Some z \<Rightarrow> z \<le> length (in6_out s))"

lemma length_word_bytes [simp]: "length (word_bytes w) = 2"
  by (simp add: word_bytes_def)

lemma inet6_loop_ok:
  "in6_ok s \<Longrightarrow> inet6_loop p s = (ok, s') \<Longrightarrow> (if ok then in6_ok s' else length (in6_out s') \<le> 16)"
proof (induction p s rule: inet6_loop.induct)
  case (1 s)
  then show ?case by auto
next
  case (2 c p s)
  note out = 2(5)
  let ?t = "s\<lparr>in6_digit := Some p, in6_out := in6_out s @ word_bytes (in6_word s), in6_n := in6_n s - 1\<rparr>"
  consider (group) "c = 0x3A" "in6_nibbles s \<noteq> 0" | (colon) "c = 0x3A" "in6_nibbles s = 0"
    | (dot) "c = 0x2E" "in6_nibbles s \<noteq> 0" | (digit) "c \<noteq> 0x3A" "\<not> (c = 0x2E \<and> in6_nibbles s \<noteq> 0)" by auto
  then show ?case
  proof cases
    case group
    show ?thesis
    proof (cases "in6_n s - 1 = 0")
      case True
      then show ?thesis using 2(6) group out by (auto simp: in6_ok_def)
    next
      case False
      have "in6_ok (?t\<lparr>in6_nibbles := 0, in6_word := 0\<rparr>)" using False out by (auto simp: in6_ok_def split: option.splits)
      then show ?thesis using 2(1) [OF group refl] 2(6) group False by simp
    qed
  next
    case colon
    then show ?thesis using 2(2) 2(6) out by (cases "in6_zero s") (auto simp: in6_ok_def)
  next
    case dot
    then show ?thesis using 2(6) out by (auto simp: in6_ok_def Let_def split: option.splits if_splits)
  next
    case digit
    have "in6_ok (s\<lparr>in6_nibbles := k, in6_word := w\<rparr>)" for k w using out by (simp add: in6_ok_def split: option.splits)
    moreover have "length (in6_out s) \<le> 16" using out by (simp add: in6_ok_def)
    ultimately show ?thesis using 2(3,4) 2(6) digit by (auto simp: Let_def split: if_splits)
  qed
qed

lemma inet6_end_ok: "in6_ok s \<Longrightarrow> inet6_end s = (ok, addr) \<Longrightarrow> length addr \<le> 16 \<and> (ok \<longrightarrow> length addr = 16)"
  by (auto simp: inet6_end_def in6_ok_def Let_def split: if_splits option.splits)

lemma inet6_addr_ok: "ngx_inet6_addr p = (ok, addr) \<Longrightarrow> length addr \<le> 16 \<and> (ok \<longrightarrow> length addr = 16)"
proof (cases p)
  case (Cons c p')
  assume a: "ngx_inet6_addr p = (ok, addr)"
  obtain ok' s where l: "inet6_loop (if c = 0x3A then p' else c # p') in6_init = (ok', s)" by fastforce
  have "in6_ok in6_init" by (simp add: in6_ok_def in6_init_def)
  note inet6_loop_ok [OF this l]
  moreover have "(if ok' then inet6_end s else (False, in6_out s)) = (ok, addr)"
    using a unfolding Cons inet6_addr_run inet6_run_def l by simp
  ultimately show ?thesis using inet6_end_ok by (cases ok') auto
qed (simp add: ngx_inet6_addr_def)

section \<open>Networks\<close>

lemma htonl_and: "htonl (a AND b) = htonl a AND htonl b"
  unfolding htonl_def by (rule bit_word_eqI) (auto simp: bit_simps bit_of_octets)

lemma cidr_mask_bit:
  assumes "n \<le> 32" "i < 32"
  shows "bit (htonl (cidr_mask n)) i \<longleftrightarrow> 32 - n \<le> i"
proof (cases "n = 0")
  case True
  have "htonl 0 = 0" by (simp add: htonl_def of_octets_def)
  then show ?thesis using True assms(2) by (simp add: cidr_mask_def)
next
  case False
  have e: "(0xffffffff :: u32) = -1" by simp
  show ?thesis using False assms unfolding cidr_mask_def e by (auto simp: bit_simps)
qed

lemma dec_spec_atoi: "ngx_atoi (dec_spec n) = (if 2 ^ 63 \<le> n mod 2 ^ 64 then int_error else of_nat n)"
  by (simp add: ngx_atoi_eq dec_spec_digits)

lemma digit_not_slash: "is_digit c \<Longrightarrow> c \<noteq> 0x2F" "is_digit c \<Longrightarrow> c \<noteq> 0x2D"
  by (auto simp: is_digit_def)

lemma dotted_bytes: "x \<in> set (dotted a b c d) \<Longrightarrow> x = 0x2E \<or> is_digit x"
  using dec_spec_digits [of "unat a"] dec_spec_digits [of "unat b"] dec_spec_digits [of "unat c"] dec_spec_digits [of "unat d"]
  by (auto simp: dotted_def list_all_iff)

lemma dotted_no_slash: "x \<in> set (dotted a b c d) \<Longrightarrow> x \<noteq> 0x2F" "x \<in> set (dotted a b c d) \<Longrightarrow> x \<noteq> 0x2D"
  using dotted_bytes [of x a b c d] digit_not_slash [of x] by auto

lemma split_at:
  assumes "\<forall>x\<in>set a. x \<noteq> y"
  shows "takeWhile (\<lambda>c. c \<noteq> y) (a @ y # b) = a" "dropWhile (\<lambda>c. c \<noteq> y) (a @ y # b) = y # b"
  using assms by (simp_all add: takeWhile_append2 dropWhile_append2)

text \<open>The prefix length is what \<open>ngx_atoi\<close> makes of the number, so it is taken modulo 2 to the 64.\<close>

lemma ptocidr_dotted:
  assumes "of_octets a b c d \<noteq> INADDR_NONE" "k = n mod 2 ^ 64"
  shows "ngx_ptocidr (dotted a b c d @ 0x2F # dec_spec n) =
    (if 32 < k then (NGX_ERROR, None)
     else let x = htonl (of_octets a b c d); m = cidr_mask k
          in (if x = x AND m then NGX_OK else NGX_DONE, Some (Cidr_inet (x AND m) m)))"
proof -
  have "\<forall>x\<in>set (dotted a b c d). x \<noteq> 0x2F" using dotted_no_slash(1) by blast
  note sp = split_at [OF this, of "dec_spec n"]
  have u: "unat (of_nat n :: 64 word) = k" using assms(2) by (simp add: unat_of_nat)
  have e: "of_nat n \<noteq> (int_error :: 64 word)" "32 <s (of_nat n :: 64 word) \<longleftrightarrow> 32 < k" if "k < 2 ^ 63"
    using sless_unat [of 32 "of_nat n"] that u by (auto simp: unsigned_minus_1_eq_mask mask_eq_exp_minus_1)
  have ne: "htonl (of_octets a b c d) \<noteq> INADDR_NONE" using assms(1) by (simp add: htonl_none)
  have at: "ngx_atoi (dec_spec n) = (if 2 ^ 63 \<le> k then int_error else of_nat n)" using assms(2) by (simp add: dec_spec_atoi)
  show ?thesis
  proof (cases "k < 2 ^ 63")
    case True
    then show ?thesis
      unfolding ngx_ptocidr_def sp Let_def inet_addr_dotted cidr_inet_def list.sel at using ne e u by auto
  next
    case False
    then show ?thesis
      unfolding ngx_ptocidr_def sp Let_def inet_addr_dotted cidr_inet_def list.sel at using ne by auto
  qed
qed

text \<open>The broadcast address is refused: it is the error value of the one reader, and no address for the other.\<close>

lemma ptocidr_broadcast: "ngx_ptocidr (dotted 0xff 0xff 0xff 0xff @ 0x2F # t) = (NGX_ERROR, None)"
proof -
  have "\<forall>x\<in>set (dotted 0xff 0xff 0xff 0xff). x \<noteq> 0x2F" using dotted_no_slash(1) by blast
  note sp = split_at [OF this, of t]
  have "ngx_inet_addr (dotted 0xff 0xff 0xff 0xff) = INADDR_NONE" "\<not> fst (ngx_inet6_addr (dotted 0xff 0xff 0xff 0xff))" by code_simp+
  then show ?thesis by (simp add: ngx_ptocidr_def sp)
qed

section \<open>Properties\<close>

lemma replicate_four: "replicate 4 x = [x, x, x, x]"
  by (simp add: numeral_eq_Suc)

lemma octets_all_ones: "of_octets a b c d = INADDR_NONE \<longleftrightarrow> [a, b, c, d] = replicate 4 0xff"
proof
  assume "of_octets a b c d = INADDR_NONE"
  then have "octets INADDR_NONE = [a, b, c, d]" by (metis octets_of_octets)
  then show "[a, b, c, d] = replicate 4 0xff" by (auto simp: octets_def INADDR_NONE_def replicate_four)
qed (simp add: of_octets_def INADDR_NONE_def replicate_four)

lemma list_of_four: "length xs = 4 \<Longrightarrow> \<exists>a b c d. xs = [a, b, c, d]"
  by (auto simp: length_Suc_conv eval_nat_numeral)

text \<open>
  Every IPv4 address is read back from its text: the bytes in memory, from the lowest of the word on, are the ones that were printed. For
  255.255.255.255 the result cannot be told from the error.
\<close>

lemma inet_roundtrip:
  "\<exists>text. inet_ntop4 [a, b, c, d] 15 = Some text \<and> rev (octets (ngx_inet_addr text)) = [a, b, c, d]"
proof -
  have "inet_ntop4 [a, b, c, d] 15 = Some (take 15 (dotted a b c d))"
    using vslprintf_cut [OF printf_dotted, of 15 a b c d] by (simp add: inet_ntop4_def ngx_snprintf_def)
  then show ?thesis using length_dotted [of a b c d] by (simp add: inet_addr_dotted htonl_octets)
qed

lemma inet_addr_broadcast: "ngx_inet_addr (s2b ''255.255.255.255'') = INADDR_NONE"
  by (simp add: ngx_inet_addr_def INADDR_NONE_def htonl_def of_octets_def push_bit_eq_mult)

text \<open>The reader takes more than dotted numbers: octets may be empty, and an octet of twenty digits may wrap around.\<close>

lemma inet_addr_lenient:
  "ngx_inet_addr (s2b ''...'') = 0"
  "ngx_inet_addr (s2b ''18446744073709551617.0.0.0'') = ngx_inet_addr (s2b ''1.0.0.0'')"
  by (simp_all add: ngx_inet_addr_def htonl_def of_octets_def)

text \<open>
  C19. Every IPv6 address is read back from its text, whatever its groups are and wherever its zeros stand, in the full form, in the form with a double colon and in the forms with
  a dotted end; and the text never needs more than the 45 bytes that the buffers of addresses have. The
  one exception are addresses that end in 255.255.255.255, because the dotted part may then be taken for an error.
\<close>

theorem inet6_roundtrip:
  assumes "length p = 16" "NGX_INET6_ADDRSTRLEN \<le> len" "drop 12 p \<noteq> replicate 4 0xff"
  shows "ngx_inet6_addr (ngx_inet6_ntop p len) = (True, p) \<and> length (ngx_inet6_ntop p len) \<le> NGX_INET6_ADDRSTRLEN"
proof -
  have "length (drop 12 p) = 4" using assms(1) by simp
  then obtain a b c d where d: "drop 12 p = [a, b, c, d]" using list_of_four by blast
  then have "of_octets a b c d \<noteq> INADDR_NONE" using assms(3) octets_all_ones by metis
  then show ?thesis using inet6_ntop_reads_back [OF assms(1,2) d] by (simp add: reads_back_def)
qed

theorem inet6_roundtrip_witness:
  "ngx_inet6_addr (ngx_inet6_ntop ([0x20, 0x01, 0x0d, 0xb8] @ replicate 8 0 @ [0, 1, 0, 0x2f]) 45)
     = (True, [0x20, 0x01, 0x0d, 0xb8] @ replicate 8 0 @ [0, 1, 0, 0x2f])"
proof -
  let ?p = "[0x20, 0x01, 0x0d, 0xb8] @ replicate 8 0 @ [0, 1, 0, 0x2f] :: bytes"
  have l: "length ?p = 16" "NGX_INET6_ADDRSTRLEN \<le> 45" by (simp_all add: NGX_INET6_ADDRSTRLEN_def)
  have "drop 12 ?p \<noteq> replicate 4 0xff" by code_simp
  then show ?thesis using inet6_roundtrip [OF l] by blast
qed

text \<open>The exception is real: the mapped form of the broadcast address is refused.\<close>

lemma inet6_mapped_broadcast: "\<not> fst (ngx_inet6_addr (s2b ''::ffff:255.255.255.255''))" "fst (ngx_inet6_addr (s2b ''::ffff:255.255.255.254''))"
  by code_simp+

text \<open>
  C22. Reading an IPv6 address never leaves the array of 16 bytes, for any text: the bytes that the reader has written when it returns, in success or in error, are at most
  16, and when it succeeds they are exactly 16, so no part of the address is left as it was.
\<close>

theorem inet6_addr_bounds: "length (snd (ngx_inet6_addr s)) \<le> 16 \<and> (fst (ngx_inet6_addr s) \<longrightarrow> length (snd (ngx_inet6_addr s)) = 16)"
  using inet6_addr_ok [of s] by (cases "ngx_inet6_addr s") auto

theorem inet6_addr_bounds_witness: "length (snd (ngx_inet6_addr (s2b ''::1''))) = 16"
proof -
  have "fst (ngx_inet6_addr (s2b ''::1''))" by code_simp
  then show ?thesis using inet6_addr_bounds [of "s2b ''::1''"] by simp
qed

text \<open>
  C24. What a network \<open>a.b.c.d/n\<close> with decimal numbers is read as. The length is taken modulo 2 to the 64, as \<open>ngx_atoi\<close> does not catch every overflow: let \<open>k\<close> be that. When \<open>k\<close> is above 32, or
  the address is 255.255.255.255, the text is refused. Else the mask has its \<open>k\<close> highest bits set and no other, the address keeps the bits under the mask and
  no other, and \<open>NGX_DONE\<close> is returned exactly when the text had bits outside of the mask. For \<open>n\<close> below 2 to the 64 the length \<open>k\<close> is \<open>n\<close>.
\<close>

theorem ptocidr_network:
  "let k = n mod 2 ^ 64; r = ngx_ptocidr (dotted a b c d @ 0x2F # dec_spec n) in
   if [a, b, c, d] = [255, 255, 255, 255] \<or> 32 < k then r = (NGX_ERROR, None)
   else \<exists>rc addr m. r = (rc, Some (Cidr_inet addr m))
      \<and> (\<forall>i<32. bit (htonl m) i \<longleftrightarrow> 32 - k \<le> i)
      \<and> (\<forall>i<32. bit (htonl addr) i \<longleftrightarrow> bit (of_octets a b c d) i \<and> 32 - k \<le> i)
      \<and> rc = (if htonl addr = of_octets a b c d then NGX_OK else NGX_DONE)"
proof (cases "[a, b, c, d] = replicate 4 0xff")
  case True
  then show ?thesis using ptocidr_broadcast [of "dec_spec n"] by (simp add: replicate_four Let_def)
next
  case False
  define k where "k = n mod 2 ^ 64"
  have ne: "of_octets a b c d \<noteq> INADDR_NONE" using False octets_all_ones by metis
  note p = ptocidr_dotted [OF ne k_def]
  let ?x = "htonl (of_octets a b c d)" and ?m = "cidr_mask k"
  have "\<exists>rc addr m. ngx_ptocidr (dotted a b c d @ 0x2F # dec_spec n) = (rc, Some (Cidr_inet addr m))
      \<and> (\<forall>i<32. bit (htonl m) i \<longleftrightarrow> 32 - k \<le> i)
      \<and> (\<forall>i<32. bit (htonl addr) i \<longleftrightarrow> bit (of_octets a b c d) i \<and> 32 - k \<le> i)
      \<and> rc = (if htonl addr = of_octets a b c d then NGX_OK else NGX_DONE)" if "\<not> 32 < k"
  proof (intro exI conjI)
    show b: "\<forall>i<32. bit (htonl ?m) i \<longleftrightarrow> 32 - k \<le> i" using cidr_mask_bit [of k] that by simp
    show "\<forall>i<32. bit (htonl (?x AND ?m)) i \<longleftrightarrow> bit (of_octets a b c d) i \<and> 32 - k \<le> i"
      using b by (simp add: htonl_and bit_and_iff)
    have "?x = ?x AND ?m \<longleftrightarrow> htonl (?x AND ?m) = of_octets a b c d" by (metis htonl_htonl)
    then show "ngx_ptocidr (dotted a b c d @ 0x2F # dec_spec n)
        = (if htonl (?x AND ?m) = of_octets a b c d then NGX_OK else NGX_DONE, Some (Cidr_inet (?x AND ?m) ?m))"
      using p that by (simp add: Let_def)
  qed simp
  then show ?thesis using False p unfolding Let_def k_def [symmetric] by (auto simp: replicate_four)
qed

theorem ptocidr_network_witness:
  "dotted 10 1 2 3 @ 0x2F # dec_spec 18446744073709551624 = s2b ''10.1.2.3/18446744073709551624''
   \<and> (\<exists>rc addr m. ngx_ptocidr (s2b ''10.1.2.3/18446744073709551624'') = (rc, Some (Cidr_inet addr m))
        \<and> (\<forall>i<32. bit (htonl m) i \<longleftrightarrow> 24 \<le> i))"
proof -
  have t: "dotted 10 1 2 3 @ 0x2F # dec_spec 18446744073709551624 = s2b ''10.1.2.3/18446744073709551624''"
    by (simp add: dotted_def dec_spec.simps)
  then show ?thesis using ptocidr_network [of 18446744073709551624 10 1 2 3] unfolding t by (auto simp: Let_def)
qed

end
