(* ===== verification/HttpGeoText.thy ===== *)
theory HttpGeoText
  imports HttpGeo NgxInet
begin

text \<open>
  The texts of the \<open>geo\<close> block, \<^verbatim>\<open>src/http/modules/ngx_http_geo_module.c\<close>: \<open>ngx_http_geo_cidr_value\<close> reads a network and \<open>ngx_http_geo_range\<close> is the directive of a
  block with ranges. They put the readers of addresses in front of the radix trees and of the arrays of
  ranges: the first is the parameter \<open>cidr_value\<close> of the block of networks.
\<close>

section \<open>Definitions\<close>

text \<open>
  The result is in host order, as \<open>ngx_http_geo_cidr\<close> turns it right after the call. The broadcast address is taken by its
  text, since \<open>ngx_ptocidr\<close> cannot read it.
\<close>

definition ngx_http_geo_cidr_value :: "bytes \<Rightarrow> geo_cidr option" where
  "ngx_http_geo_cidr_value net =
     (if net = s2b ''255.255.255.255'' then Some (Cidr_in 0xffffffff 0xffffffff)
      else let (rc, cidr) = ngx_ptocidr net
           in if rc = NGX_ERROR then None
              else case cidr of
                Some (Cidr_inet addr m) \<Rightarrow> Some (Cidr_in (htonl addr) (htonl m))
              | Some (Cidr_inet6 addr m) \<Rightarrow> Some (Cidr_in6 addr m)
              | None \<Rightarrow> None)"

text \<open>
  The context of a block with ranges: the default value and the table of arrays, which is allocated by the first directive, and the
  two counters. \<open>geo_value\<close> is \<open>ngx_http_geo_value\<close>, \<open>mem\<close> whether the allocation of the table succeeds. The
  result is the context and whether the directive succeeded; \<open>None\<close> stands for a loop that does not end.
\<close>

record geo_range_ctx =
  grx_default :: "ngx_uint_t option"
  grx_low :: "geo_low option"
  grx_binary :: bool
  grx_entries :: ngx_uint_t
  grx_outside :: bool

definition geo_range_bounds :: "bytes \<Rightarrow> (u32 \<times> u32) option" where
  "geo_range_bounds net =
     (let first = takeWhile (\<lambda>c. c \<noteq> 0x2D) net;
          rest = dropWhile (\<lambda>c. c \<noteq> 0x2D) net
      in if rest = [] then None
         else if ngx_inet_addr first = INADDR_NONE then None
         else if ngx_inet_addr (tl rest) = INADDR_NONE then None
         else let start = htonl (ngx_inet_addr first); end' = htonl (ngx_inet_addr (tl rest))
              in if start > end' then None else Some (start, end'))"

definition ngx_http_geo_range ::
  "(bytes \<Rightarrow> ngx_uint_t option) \<Rightarrow> bool \<Rightarrow> geo_range_ctx \<Rightarrow> bytes \<Rightarrow> bytes \<Rightarrow> (bool \<times> geo_range_ctx) option" where
  "ngx_http_geo_range geo_value mem ctx value0 value1 =
     (if value0 = s2b ''default'' then Some (geo_value value1 \<noteq> None, ctx\<lparr>grx_default := geo_value value1\<rparr>)
      else if grx_binary ctx then Some (False, ctx)
      else if grx_low ctx = None \<and> \<not> mem then Some (False, ctx)
      else
        let low = (case grx_low ctx of Some low \<Rightarrow> low | None \<Rightarrow> Map.empty);
            ctx = ctx\<lparr>grx_low := Some low, grx_entries := grx_entries ctx + 1, grx_outside := True\<rparr>;
            del = (value0 = s2b ''delete'');
            net = (if del then value1 else value0)
        in case geo_range_bounds net of
             None \<Rightarrow> Some (False, ctx)
           | Some (start, end') \<Rightarrow>
               if del
               then map_option (\<lambda>(warn, low). (True, ctx\<lparr>grx_low := Some low\<rparr>)) (ngx_http_geo_delete_range start end' low)
               else case geo_value value1 of
                 None \<Rightarrow> Some (False, ctx)
               | Some v \<Rightarrow>
                   (case ngx_http_geo_add_range v start end' low of
                      None \<Rightarrow> None
                    | Some None \<Rightarrow> Some (False, ctx)
                    | Some (Some low) \<Rightarrow> Some (True, ctx\<lparr>grx_low := Some low\<rparr>)))"

section \<open>What the texts mean\<close>

lemma drop_bit_eq_iff: "drop_bit m x = drop_bit m y \<longleftrightarrow> (\<forall>i\<ge>m. bit x i = bit y i)" for x y :: u32
proof
  assume "drop_bit m x = drop_bit m y"
  then have "bit x (m + j) = bit y (m + j)" for j by (metis bit_drop_bit_eq comp_apply)
  then show "\<forall>i\<ge>m. bit x i = bit y i" by (metis le_add_diff_inverse)
qed (auto simp: bit_eq_iff [of "drop_bit m x"] bit_drop_bit_eq)

text \<open>A network in the notation with a slash matches exactly the addresses that agree with it in the first \<open>n\<close> bits.\<close>

lemma geo_cidr_text:
  assumes "[a, b, c, d] \<noteq> replicate 4 0xff" "n \<le> 32"
  obtains key msk where "ngx_http_geo_cidr_value (dotted a b c d @ 0x2F # dec_spec n) = Some (Cidr_in key msk)"
    "\<And>x. prefix (net32 (key, msk)) (addr32 x) \<longleftrightarrow> drop_bit (32 - n) x = drop_bit (32 - n) (of_octets a b c d)"
proof -
  define x where "x = htonl (of_octets a b c d)"
  define m where "m = cidr_mask n"
  have ne: "of_octets a b c d \<noteq> INADDR_NONE" using assms(1) octets_all_ones by metis
  have sl: "0x2F \<in> set (dotted a b c d @ 0x2F # dec_spec n)" "0x2F \<notin> set (s2b ''255.255.255.255'')" by simp_all
  then have nb: "dotted a b c d @ 0x2F # dec_spec n \<noteq> s2b ''255.255.255.255''" by metis
  have "ngx_ptocidr (dotted a b c d @ 0x2F # dec_spec n) = (if x = x AND m then NGX_OK else NGX_DONE, Some (Cidr_inet (x AND m) m))"
    using ptocidr_dotted [OF ne, of n n] assms(2) by (simp add: Let_def x_def m_def)
  then have v: "ngx_http_geo_cidr_value (dotted a b c d @ 0x2F # dec_spec n) = Some (Cidr_in (htonl (x AND m)) (htonl m))"
    using nb by (simp add: ngx_http_geo_cidr_value_def)
  have mb: "bit (htonl m) i \<longleftrightarrow> 32 - n \<le> i" if "i < 32" for i using cidr_mask_bit [OF assms(2) that] by (simp add: m_def)
  have "prefix (net32 (htonl (x AND m), htonl m)) (addr32 y) \<longleftrightarrow> drop_bit (32 - n) y = drop_bit (32 - n) (of_octets a b c d)" for y
  proof -
    let ?o = "of_octets a b c d"
    have "prefix (net32 (htonl (x AND m), htonl m)) (addr32 y) \<longleftrightarrow> y AND htonl m = ?o AND htonl m"
      using net32_member_iff [OF mb, of "htonl (x AND m)" y] by (simp add: htonl_and x_def and.assoc)
    also have "\<dots> \<longleftrightarrow> (\<forall>i<32. 32 - n \<le> i \<longrightarrow> bit y i = bit ?o i)"
      by (auto simp: bit_eq_iff [of "y AND htonl m"] bit_and_iff mb)
    also have "\<dots> \<longleftrightarrow> (\<forall>i. 32 - n \<le> i \<longrightarrow> bit y i = bit ?o i)"
      using bit_imp_le_length [of y] bit_imp_le_length [of ?o] by auto
    also have "\<dots> \<longleftrightarrow> drop_bit (32 - n) y = drop_bit (32 - n) ?o" by (rule drop_bit_eq_iff [symmetric])
    finally show ?thesis .
  qed
  then show ?thesis using that v by blast
qed

text \<open>A range of two addresses is read as it is written, and refused when it is turned around.\<close>

lemma geo_range_text:
  assumes "of_octets a b c d \<noteq> INADDR_NONE" "of_octets e f g h \<noteq> INADDR_NONE"
  shows "geo_range_bounds (dotted a b c d @ 0x2D # dotted e f g h) =
    (if of_octets a b c d > of_octets e f g h then None else Some (of_octets a b c d, of_octets e f g h))"
proof -
  have "\<forall>x\<in>set (dotted a b c d). x \<noteq> 0x2D" using dotted_no_slash(2) by blast
  note sp = split_at [OF this, of "dotted e f g h"]
  show ?thesis unfolding geo_range_bounds_def sp Let_def list.sel inet_addr_dotted htonl_none htonl_htonl using assms by simp
qed

end
