(* ===== verification/NgxTimes.thy ===== *)
theory NgxTimes
  imports NgxPrintf "HOL-Library.Signed_Division"
begin

text \<open>
  The calendar of the server, \<^verbatim>\<open>src/core/ngx_times.c\<close>: \<open>ngx_gmtime\<close> splits a number of seconds into the fields of a date,
  and \<open>ngx_http_time\<close> and \<open>ngx_http_cookie_time\<close> print it for the \<open>Date\<close>, \<open>Last-Modified\<close> and \<open>Set-Cookie\<close> headers. The
  arithmetic is that of the code: 64 bit words, one signed value, and fields of 32 bits in \<open>struct tm\<close>.

  The reference is the Gregorian calendar counted out: the days of all years since 1970, the days of all months of the year, the days of the
  month.
\<close>

section \<open>Definitions\<close>

record ngx_tm =
  tm_sec :: "32 word"
  tm_min :: "32 word"
  tm_hour :: "32 word"
  tm_mday :: "32 word"
  tm_mon :: "32 word"
  tm_year :: "32 word"
  tm_wday :: "32 word"

text \<open>
  The date of a day: \<open>days\<close> counts from January 1, 1970. \<open>yday\<close> is the signed variable of the code; its quotient is C's, which
  rounds towards zero.
\<close>

definition gm_date :: "64 word \<Rightarrow> 64 word \<times> 64 word \<times> 64 word" where
  "gm_date days0 =
     (let days = days0 - (31 + 28) + 719527;
          year0 = (days + 2) * 400 div (365 * 400 + 100 - 4 + 1);
          yday0 = sint (days - (365 * year0 + year0 div 4 - year0 div 100 + year0 div 400));
          leap = (if year0 mod 4 = 0 \<and> (year0 mod 100 \<noteq> 0 \<or> year0 mod 400 = 0) then 1 else 0);
          (yday, year) = (if yday0 < 0 then (365 + leap + yday0, year0 - 1) else (yday0, year0));
          mon = word_of_int ((yday + 31) * 10 sdiv 306);
          mday = word_of_int yday - (367 * mon div 12 - 30) + 1
      in if yday \<ge> 306 then (year + 1, mon - 10, mday) else (year, mon + 2, mday))"

definition ngx_gmtime :: "64 word \<Rightarrow> ngx_tm" where
  "ngx_gmtime t =
     (let days = t div 86400;
          wday = (4 + days) mod 7;
          n = t mod 86400;
          hour = n div 3600;
          n' = n mod 3600;
          (year, mon, mday) = gm_date days
      in \<lparr>tm_sec = ucast (n' mod 60), tm_min = ucast (n' div 60), tm_hour = ucast hour,
          tm_mday = ucast mday, tm_mon = ucast mon, tm_year = ucast year, tm_wday = ucast wday\<rparr>)"

definition week :: "bytes list" where
  "week = [s2b ''Sun'', s2b ''Mon'', s2b ''Tue'', s2b ''Wed'', s2b ''Thu'', s2b ''Fri'', s2b ''Sat'']"

definition months :: "bytes list" where
  "months = [s2b ''Jan'', s2b ''Feb'', s2b ''Mar'', s2b ''Apr'', s2b ''May'', s2b ''Jun'',
             s2b ''Jul'', s2b ''Aug'', s2b ''Sep'', s2b ''Oct'', s2b ''Nov'', s2b ''Dec'']"

text \<open>Arguments of the printer: an \<open>int\<close>, and an entry of one of the two tables with its final zero.\<close>

definition va_tm :: "32 word \<Rightarrow> va_arg" where
  "va_tm i = Va_int (scast i)"

definition va_name :: "bytes list \<Rightarrow> 32 word \<Rightarrow> va_arg" where
  "va_name names i = Va_mem (names ! unat i @ [0])"

definition ngx_http_time :: "ptr \<Rightarrow> 64 word \<Rightarrow> bytes option" where
  "ngx_http_time buf t =
     (let tm = ngx_gmtime t
      in ngx_sprintf buf (s2b ''%s, %02d %s %4d %02d:%02d:%02d GMT'')
           [va_name week (tm_wday tm), va_tm (tm_mday tm), va_name months (tm_mon tm - 1), va_tm (tm_year tm),
            va_tm (tm_hour tm), va_tm (tm_min tm), va_tm (tm_sec tm)])"

definition ngx_http_cookie_time :: "ptr \<Rightarrow> 64 word \<Rightarrow> bytes option" where
  "ngx_http_cookie_time buf t =
     (let tm = ngx_gmtime t
      in ngx_sprintf buf
           (if 2037 <s tm_year tm then s2b ''%s, %02d-%s-%d %02d:%02d:%02d GMT''
            else s2b ''%s, %02d-%s-%02d %02d:%02d:%02d GMT'')
           [va_name week (tm_wday tm), va_tm (tm_mday tm), va_name months (tm_mon tm - 1),
            va_tm (if 2037 <s tm_year tm then tm_year tm else tm_year tm mod 100),
            va_tm (tm_hour tm), va_tm (tm_min tm), va_tm (tm_sec tm)])"

section \<open>The Gregorian calendar\<close>

definition leap_year :: "nat \<Rightarrow> bool" where
  "leap_year y \<longleftrightarrow> y mod 4 = 0 \<and> (y mod 100 \<noteq> 0 \<or> y mod 400 = 0)"

definition year_days :: "nat \<Rightarrow> nat" where
  "year_days y = (if leap_year y then 366 else 365)"

definition month_days :: "nat \<Rightarrow> nat \<Rightarrow> nat" where
  "month_days y m = [31, if leap_year y then 29 else 28, 31, 30, 31, 30, 31, 31, 30, 31, 30, 31] ! (m - 1)"

definition valid_date :: "nat \<Rightarrow> nat \<Rightarrow> nat \<Rightarrow> bool" where
  "valid_date y m d \<longleftrightarrow> 1 \<le> m \<and> m \<le> 12 \<and> 1 \<le> d \<and> d \<le> month_days y m"

definition day_number :: "nat \<Rightarrow> nat \<Rightarrow> nat \<Rightarrow> nat" where
  "day_number y m d = (\<Sum>k\<leftarrow>[1970..<y]. year_days k) + (\<Sum>j\<leftarrow>[1..<m]. month_days y j) + (d - 1)"

section \<open>Gauss' formula\<close>

definition gauss_years :: "nat \<Rightarrow> nat" where
  "gauss_years y = 365 * y + y div 4 - y div 100 + y div 400"

lemma gauss_years_add: "gauss_years y + y div 100 = 365 * y + y div 4 + y div 400"
  unfolding gauss_years_def using div_le_dividend [of y 100] by linarith

lemma gauss_years_Suc: "gauss_years (Suc y) = gauss_years y + year_days (Suc y)"
proof -
  have 4: "Suc y div 4 = y div 4 + (if Suc y mod 4 = 0 then 1 else 0)" by (simp add: div_Suc)
  have 100: "Suc y div 100 = y div 100 + (if Suc y mod 100 = 0 then 1 else 0)" by (simp add: div_Suc)
  have 400: "Suc y div 400 = y div 400 + (if Suc y mod 400 = 0 then 1 else 0)" by (simp add: div_Suc)
  have m: "Suc y mod 400 = 0 \<Longrightarrow> Suc y mod 100 = 0" "Suc y mod 100 = 0 \<Longrightarrow> Suc y mod 4 = 0" by presburger+
  show ?thesis
    using gauss_years_add [of "Suc y"] gauss_years_add [of y] m unfolding 4 100 400 year_days_def leap_year_def
    by (auto split: if_splits)
qed

lemma gauss_years_sum: "1970 \<le> y \<Longrightarrow> (\<Sum>k\<leftarrow>[1970..<y]. year_days k) + 719162 = gauss_years (y - 1)"
proof (induction y rule: nat_induct_at_least)
  case base
  show ?case by (simp add: gauss_years_def)
next
  case (Suc n)
  then have "gauss_years n = gauss_years (n - 1) + year_days n" using gauss_years_Suc [of "n - 1"] by simp
  then show ?case using Suc by simp
qed

text \<open>The year that begins in March, the month of it, and the days before the month.\<close>

definition march_year :: "nat \<Rightarrow> nat \<Rightarrow> nat" where
  "march_year y m = (if m \<le> 2 then y - 1 else y)"

definition march_month :: "nat \<Rightarrow> nat" where
  "march_month m = (if m \<le> 2 then m + 10 else m - 2)"

lemma months_cases:
  "1 \<le> m \<Longrightarrow> m \<le> 12 \<Longrightarrow> m = 1 \<or> m = 2 \<or> m = 3 \<or> m = 4 \<or> m = 5 \<or> m = 6 \<or> m = 7 \<or> m = 8 \<or> m = 9 \<or> m = 10 \<or> m = 11 \<or> m = (12::nat)"
  by presburger

lemma month_sum:
  assumes "1 \<le> m" "m \<le> 12"
  shows "306 + (\<Sum>j\<leftarrow>[1..<m]. month_days y j) + 30 =
    (if m \<le> 2 then 367 * march_month m div 12 else year_days y + 367 * march_month m div 12)"
  using months_cases [OF assms]
  by (elim disjE) (simp_all add: month_days_def march_month_def year_days_def upt_rec)

lemma gauss_day_number:
  assumes "valid_date y m d" "1970 \<le> y"
  shows "day_number y m d + 719468 + 31 = gauss_years (march_year y m) + 367 * march_month m div 12 + d"
proof -
  have m: "1 \<le> m" "m \<le> 12" "1 \<le> d" using assms(1) by (auto simp: valid_date_def)
  have "gauss_years y = gauss_years (y - 1) + year_days y" using gauss_years_Suc [of "y - 1"] assms(2) by simp
  then show ?thesis using month_sum [OF m(1,2), of y] gauss_years_sum [OF assms(2)] m(3)
    by (simp add: day_number_def march_year_def split: if_splits)
qed

section \<open>From days to dates\<close>

lemma gauss_years_split:
  assumes "y = 400 * q + 100 * a + 4 * b + c" "a < 4" "b < 25" "c < 4"
  shows "gauss_years y = 146097 * q + 36524 * a + 1461 * b + 365 * c"
proof -
  have "y div 4 = 100 * q + 25 * a + b" "y div 100 = 4 * q + a" "y div 400 = q" using assms by presburger+
  then show ?thesis using assms(1) by (simp add: gauss_years_def)
qed

lemma year_split: "\<exists>q a b c. (y :: nat) = 400 * q + 100 * a + 4 * b + c \<and> a < 4 \<and> b < 25 \<and> c < 4"
proof -
  define r where "r = y mod 400"
  define u where "u = r mod 100"
  have "y = 400 * (y div 400) + r" "r = 100 * (r div 100) + u" "u = 4 * (u div 4) + u mod 4"
    by (simp_all add: r_def u_def)
  then have "y = 400 * (y div 400) + 100 * (r div 100) + 4 * (u div 4) + u mod 4" by linarith
  moreover have "r < 400" "u < 100" by (simp_all add: r_def u_def)
  then have "r div 100 < 4" "u div 4 < 25" "u mod 4 < 4" by (simp_all add: less_mult_imp_div_less)
  ultimately show ?thesis by blast
qed

text \<open>The year that the code computes from the days is right or one too late, and it is never too early.\<close>

lemma gauss_guess:
  assumes y: "y = (D + 2) * 400 div 146097"
  shows "D < gauss_years (Suc y)" and "y = Suc x \<Longrightarrow> gauss_years x \<le> D"
proof -
  have lo: "146097 * y \<le> 400 * D + 800" and hi: "400 * D + 800 < 146097 * y + 146097"
    using div_times_less_eq_dividend [of "(D + 2) * 400" 146097] dividend_less_times_div [of 146097 "(D + 2) * 400"] y
    by (simp_all add: algebra_simps)
  obtain q a b c where s: "y = 400 * q + 100 * a + 4 * b + c" "a < 4" "b < 25" "c < 4" using year_split by blast
  have g: "gauss_years y = 146097 * q + 36524 * a + 1461 * b + 365 * c" by (rule gauss_years_split [OF s])
  show "D < gauss_years (Suc y)"
    unfolding gauss_years_Suc g year_days_def using hi s by (auto simp: leap_year_def)
  assume "y = Suc x"
  then have "gauss_years y = gauss_years x + year_days y" using gauss_years_Suc by simp
  moreover have "365 \<le> year_days y" by (simp add: year_days_def)
  moreover have "400 * gauss_years y \<le> 146097 * y + 288" using g s by simp
  ultimately show "gauss_years x \<le> D" using lo by linarith
qed

lemma march_month_days:
  assumes "yday < 365 + (if leap_year (Suc y) then 1 else 0)" and m: "m = (yday + 31) * 10 div 306"
  defines "d \<equiv> yday - (367 * m div 12 - 30) + 1"
  shows "1 \<le> m" "m \<le> 12" "367 * m div 12 - 30 \<le> yday" "1 \<le> d" "306 \<le> yday \<longleftrightarrow> 11 \<le> m"
    and "d \<le> month_days (if 306 \<le> yday then Suc y else y) (if 306 \<le> yday then m - 10 else m + 2)"
proof -
  have lo: "306 * m \<le> 10 * yday + 310" and hi: "10 * yday + 310 < 306 * m + 306"
    using div_times_less_eq_dividend [of "(yday + 31) * 10" 306] dividend_less_times_div [of 306 "(yday + 31) * 10"] m
    by (simp_all add: algebra_simps)
  have y: "yday \<le> 365" using assms(1) by (simp split: if_splits)
  have m1: "1 \<le> m" using hi by linarith
  have m12: "m \<le> 12" using lo y by linarith
  show "1 \<le> m" "m \<le> 12" using m1 m12 .
  note c = months_cases [OF m1 m12]
  show 306: "306 \<le> yday \<longleftrightarrow> 11 \<le> m" using c lo hi by (elim disjE) simp_all
  show le: "367 * m div 12 - 30 \<le> yday" using c lo hi by (elim disjE) simp_all
  show "1 \<le> d" unfolding d_def by simp
  show "d \<le> month_days (if 306 \<le> yday then Suc y else y) (if 306 \<le> yday then m - 10 else m + 2)"
    using c lo hi assms(1) unfolding d_def 306
    by (cases "leap_year (Suc y)"; elim disjE; simp add: month_days_def)
qed

lemma gauss_years_mono: "x \<le> y \<Longrightarrow> gauss_years x \<le> gauss_years y"
  by (induction y rule: dec_induct) (simp_all add: gauss_years_Suc)

definition nat_year :: "nat \<Rightarrow> nat" where
  "nat_year D = (let y = (D + 2) * 400 div 146097 in if D < gauss_years y then y - 1 else y)"

lemma nat_year_bounds: "gauss_years (nat_year D) \<le> D" "D < gauss_years (Suc (nat_year D))"
proof -
  define y where "y = (D + 2) * 400 div 146097"
  note g = gauss_guess [OF y_def]
  have n: "nat_year D = (if D < gauss_years y then y - 1 else y)" by (simp add: nat_year_def y_def)
  have 0: "gauss_years 0 = 0" by (simp add: gauss_years_def)
  show "gauss_years (nat_year D) \<le> D" unfolding n using g(2) by (cases y) (auto simp: 0)
  show "D < gauss_years (Suc (nat_year D))" unfolding n using g(1) by (cases y) (auto simp: 0)
qed

definition march_date :: "nat \<Rightarrow> nat \<Rightarrow> nat \<times> nat \<times> nat" where
  "march_date y yday =
     (let m = (yday + 31) * 10 div 306; d = yday - (367 * m div 12 - 30) + 1
      in if 306 \<le> yday then (y + 1, m - 10, d) else (y, m + 2, d))"

definition nat_date :: "nat \<Rightarrow> nat \<times> nat \<times> nat" where
  "nat_date D = march_date (nat_year D) (D - gauss_years (nat_year D))"

lemma march_date_correct:
  assumes "yday < year_days (Suc Y)" "719468 \<le> gauss_years Y + yday" "march_date Y yday = (y, m, d)"
  shows "valid_date y m d" "1970 \<le> y" "day_number y m d + 719468 = gauss_years Y + yday"
proof -
  define M where "M = (yday + 31) * 10 div 306"
  have "yday < 365 + (if leap_year (Suc Y) then 1 else 0)" using assms(1) by (simp add: year_days_def split: if_splits)
  note mm = march_month_days [OF this M_def]
  have d: "y = (if 306 \<le> yday then Suc Y else Y)" "m = (if 306 \<le> yday then M - 10 else M + 2)"
      "d = yday - (367 * M div 12 - 30) + 1"
    using assms(3) unfolding march_date_def M_def [symmetric] by (auto simp: Let_def split: if_splits)
  show v: "valid_date y m d" unfolding valid_date_def d using mm by (auto split: if_splits)
  show y: "1970 \<le> y"
  proof (rule ccontr)
    assume "\<not> 1970 \<le> y"
    then have "Suc Y \<le> 1969 \<or> Y = 1969 \<and> yday < 306" unfolding d by (auto split: if_splits)
    moreover have "gauss_years 1969 = 719162" by (simp add: gauss_years_def)
    ultimately show False
      using assms(1,2) gauss_years_Suc [of Y] gauss_years_mono [of "Suc Y" 1969] by auto
  qed
  have "march_year y m = Y" "march_month m = M" unfolding d march_year_def march_month_def using mm by (auto split: if_splits)
  then show "day_number y m d + 719468 = gauss_years Y + yday" using gauss_day_number [OF v y] mm(1,3) d(3) by simp
qed

lemma nat_date_correct:
  assumes "719468 \<le> D" "nat_date D = (y, m, d)"
  shows "valid_date y m d \<and> 1970 \<le> y \<and> day_number y m d + 719468 = D"
proof -
  note b = nat_year_bounds [of D]
  have "D - gauss_years (nat_year D) < year_days (Suc (nat_year D))" using b gauss_years_Suc [of "nat_year D"] by linarith
  moreover have "gauss_years (nat_year D) + (D - gauss_years (nat_year D)) = D" using b(1) by simp
  ultimately show ?thesis using march_date_correct [of "D - gauss_years (nat_year D)" "nat_year D"] assms by (simp add: nat_date_def)
qed

section \<open>The arithmetic of the code\<close>

lemma of_nat_div_word: "a < 2 ^ 64 \<Longrightarrow> b < 2 ^ 64 \<Longrightarrow> (of_nat a :: 64 word) div of_nat b = of_nat (a div b)"
  by (simp add: word_unat_eq_iff unat_div unat_of_nat64 less_imp_diff_less div_less_dividend order.strict_trans1 [OF div_le_dividend])

lemma of_nat_mod_word: "a < 2 ^ 64 \<Longrightarrow> b < 2 ^ 64 \<Longrightarrow> (of_nat a :: 64 word) mod of_nat b = of_nat (a mod b)"
  by (simp add: word_unat_eq_iff unat_mod unat_of_nat64 order.strict_trans1 [OF mod_less_eq_dividend])

lemma sint_diff_word:
  assumes "a < 2 ^ 63" "b < 2 ^ 63"
  shows "sint (of_nat a - of_nat b :: 64 word) = int a - int b"
proof -
  have b: "- (2 ^ 63) \<le> int a - int b" "int a - int b < 2 ^ 63" using assms by simp_all
  have "sint (of_nat a - of_nat b :: 64 word) = sint (word_of_int (int a - int b) :: 64 word)" by simp
  also have "\<dots> = signed_take_bit 63 (int a - int b)" unfolding sint_sbintrunc' by simp
  also have "\<dots> = int a - int b" using b by (rule signed_take_bit_int_eq_self)
  finally show ?thesis .
qed

lemma word_gauss_years:
  assumes "y < 2 ^ 50"
  shows "365 * of_nat y + of_nat y div 4 - of_nat y div 100 + of_nat y div 400 = (of_nat (gauss_years y) :: 64 word)"
proof -
  have d: "(of_nat y :: 64 word) div 4 = of_nat (y div 4)" "(of_nat y :: 64 word) div 100 = of_nat (y div 100)"
      "(of_nat y :: 64 word) div 400 = of_nat (y div 400)"
    using of_nat_div_word [of y 4] of_nat_div_word [of y 100] of_nat_div_word [of y 400] assms by simp_all
  have "(of_nat (gauss_years y + y div 100) :: 64 word) = of_nat (365 * y + y div 4 + y div 400)"
    by (simp only: gauss_years_add)
  then show ?thesis unfolding d by (simp add: algebra_simps)
qed

lemma word_leap_year:
  assumes "y < 2 ^ 50"
  shows "(of_nat y mod 4 = (0 :: 64 word) \<and> (of_nat y mod 100 \<noteq> (0 :: 64 word) \<or> of_nat y mod 400 = (0 :: 64 word))) \<longleftrightarrow> leap_year y"
proof -
  have z: "(of_nat k = (0 :: 64 word)) \<longleftrightarrow> k = 0" if "k < 400" for k
    using that unat_of_nat64 [of k] by (auto simp: unat_eq_0 [symmetric] simp del: unat_eq_0)
  have "(of_nat y :: 64 word) mod 4 = of_nat (y mod 4)" "(of_nat y :: 64 word) mod 100 = of_nat (y mod 100)"
      "(of_nat y :: 64 word) mod 400 = of_nat (y mod 400)"
    using of_nat_mod_word [of y 4] of_nat_mod_word [of y 100] of_nat_mod_word [of y 400] assms by simp_all
  then show ?thesis by (simp add: leap_year_def z)
qed

lemma gm_date_year:
  assumes "D < 2 ^ 50" and y: "y = (D + 2) * 400 div 146097"
  shows "(if int D - int (gauss_years y) < 0 then (365 + (if leap_year y then 1 else 0) + (int D - int (gauss_years y)), of_nat y - 1)
      else (int D - int (gauss_years y), of_nat y)) = (int (D - gauss_years (nat_year D)), of_nat (nat_year D) :: 64 word)"
proof (cases "D < gauss_years y")
  case True
  then obtain x where x: "y = Suc x" by (cases y) (auto simp: gauss_years_def)
  have n: "nat_year D = x" using True x unfolding nat_year_def y [symmetric] Let_def by simp
  have "gauss_years x \<le> D" using nat_year_bounds(1) [of D] by (simp add: n)
  then show ?thesis using True by (simp add: n x gauss_years_Suc year_days_def)
next
  case False
  then have "nat_year D = y" unfolding nat_year_def y [symmetric] Let_def by simp
  then show ?thesis using False by (simp add: of_nat_diff not_less)
qed

lemma gm_date_month:
  assumes "yday \<le> 365" and m: "m = (yday + 31) * 10 div 306"
  shows "word_of_int ((int yday + 31) * 10 sdiv 306) = (of_nat m :: 64 word)"
    and "word_of_int (int yday) - (367 * of_nat m div 12 - 30) + 1 = (of_nat (yday - (367 * m div 12 - 30) + 1) :: 64 word)"
proof -
  have "(int yday + 31) * 10 sdiv 306 = int m"
    by (simp add: signed_divide_int_def m zdiv_int)
  then show "word_of_int ((int yday + 31) * 10 sdiv 306) = (of_nat m :: 64 word)" by simp
  have ml: "m \<le> 12" "1 \<le> m" "30 \<le> 367 * m div 12" "367 * m div 12 - 30 \<le> yday"
  proof -
    have "yday < 365 + (if leap_year (Suc 3) then 1 else 0)" using assms(1) by (simp add: leap_year_def)
    note mm = march_month_days [OF this m]
    show "m \<le> 12" "1 \<le> m" "367 * m div 12 - 30 \<le> yday" using mm by simp_all
    show "30 \<le> 367 * m div 12" using mm(1) by (simp add: less_eq_div_iff_mult_less_eq)
  qed
  have "(367 * of_nat m :: 64 word) div 12 = of_nat (367 * m div 12)"
    using of_nat_div_word [of "367 * m" 12] ml(1) by simp
  then show "word_of_int (int yday) - (367 * of_nat m div 12 - 30) + 1 = (of_nat (yday - (367 * m div 12 - 30) + 1) :: 64 word)"
    using ml by (simp add: of_nat_diff)
qed

lemma gauss_years_le: "gauss_years y \<le> 366 * y"
  by (induction y) (simp_all add: gauss_years_Suc year_days_def, simp add: gauss_years_def)

lemma gm_date_nat:
  assumes "n < 2 ^ 49" "nat_date (n + 719468) = (y, m, d)"
  shows "gm_date (of_nat n) = (of_nat y, of_nat m, of_nat d)"
proof -
  define D where "D = n + 719468"
  define Y where "Y = (D + 2) * 400 div 146097"
  define yday where "yday = D - gauss_years (nat_year D)"
  define M where "M = (yday + 31) * 10 div 306"
  have D: "D < 2 ^ 50" using assms(1) by (simp add: D_def)
  have "Y \<le> D" unfolding Y_def by (rule order.trans [OF div_le_mono [of _ "D * 146097"]]) (use D_def in simp_all)
  then have Y: "Y < 2 ^ 50" using D by simp
  have yd: "yday \<le> 365"
    using nat_year_bounds [of D] gauss_years_Suc [of "nat_year D"] by (simp add: yday_def year_days_def split: if_splits)
  have "(of_nat ((D + 2) * 400) :: 64 word) div of_nat 146097 = of_nat Y"
    unfolding Y_def by (rule of_nat_div_word) (use D in simp_all)
  then have e1: "((of_nat D :: 64 word) + 2) * 400 div 146097 = of_nat Y" by (simp add: add.commute)
  have g: "gauss_years Y < 2 ^ 63" using gauss_years_le [of Y] Y by simp
  have e2: "sint (of_nat D - (365 * of_nat Y + of_nat Y div 4 - of_nat Y div 100 + of_nat Y div 400) :: 64 word)
      = int D - int (gauss_years Y)"
    unfolding word_gauss_years [OF Y] by (rule sint_diff_word) (use D g in simp_all)
  have e0: "(of_nat n :: 64 word) - (31 + 28) + 719527 = of_nat D" by (simp add: D_def)
  have nd: "nat_date D = (if 306 \<le> yday then (nat_year D + 1, M - 10, yday - (367 * M div 12 - 30) + 1)
      else (nat_year D, M + 2, yday - (367 * M div 12 - 30) + 1))"
    unfolding nat_date_def march_date_def Let_def yday_def [symmetric] M_def [symmetric] ..
  have M10: "306 \<le> yday \<Longrightarrow> 10 \<le> M" unfolding M_def by (simp add: less_eq_div_iff_mult_less_eq)
  have const: "(365 * 400 + 100 - 4 + 1 :: 64 word) = 146097" by simp
  show ?thesis
    using assms(2) unfolding D_def [symmetric] nd
    unfolding gm_date_def e0 const Let_def e1 e2 word_leap_year [OF Y] gm_date_year [OF D Y_def] prod.case
      yday_def [symmetric] gm_date_month [OF yd M_def]
    using M10 by (auto simp: of_nat_diff split: if_splits)
qed

lemma nat_date_year_small:
  assumes "nat_date D = (y, m, d)"
  shows "y \<le> (D + 2) * 400 div 146097 + 1"
proof -
  define g where "g = (D + 2) * 400 div 146097"
  have "nat_year D \<le> g" unfolding nat_year_def g_def [symmetric] Let_def by simp
  moreover have "y \<le> nat_year D + 1" using assms unfolding nat_date_def march_date_def Let_def by (simp split: if_splits)
  ultimately show ?thesis unfolding g_def by linarith
qed

lemma unat_ucast_small: "k < 2 ^ 32 \<Longrightarrow> unat (ucast (of_nat k :: 64 word) :: 32 word) = k"
  by (simp add: unsigned_ucast_eq unat_of_nat64 take_bit_nat_eq_self)

text \<open>The fields of a time, as numbers.\<close>

lemma gmtime_fields:
  assumes "n < 2 ^ 55" and date: "nat_date (n div 86400 + 719468) = (y, m, d)"
  defines "tm \<equiv> ngx_gmtime (of_nat n)"
  shows "unat (tm_sec tm) = n mod 86400 mod 3600 mod 60" "unat (tm_min tm) = n mod 86400 mod 3600 div 60"
    "unat (tm_hour tm) = n mod 86400 div 3600" "unat (tm_mday tm) = d" "unat (tm_mon tm) = m" "unat (tm_year tm) = y"
    "unat (tm_wday tm) = (4 + n div 86400) mod 7"
proof -
  have n: "n < 2 ^ 64" using assms(1) by simp
  have days: "(of_nat n :: 64 word) div 86400 = of_nat (n div 86400)" using of_nat_div_word [OF n, of 86400] by simp
  have m1: "(of_nat n :: 64 word) mod 86400 = of_nat (n mod 86400)" using of_nat_mod_word [OF n, of 86400] by simp
  have m2: "(of_nat (n mod 86400) :: 64 word) mod 3600 = of_nat (n mod 86400 mod 3600)"
    using of_nat_mod_word [of "n mod 86400" 3600] n by (simp add: order.strict_trans1 [OF mod_less_eq_dividend])
  have small: "n mod 86400 < 86400" "n mod 86400 mod 3600 < 3600" by simp_all
  have d2: "(of_nat (n mod 86400) :: 64 word) div 3600 = of_nat (n mod 86400 div 3600)"
    using of_nat_div_word [of "n mod 86400" 3600] small(1) by simp
  have d3: "(of_nat (n mod 86400 mod 3600) :: 64 word) div 60 = of_nat (n mod 86400 mod 3600 div 60)"
    using of_nat_div_word [of "n mod 86400 mod 3600" 60] small(2) by simp
  have m3: "(of_nat (n mod 86400 mod 3600) :: 64 word) mod 60 = of_nat (n mod 86400 mod 3600 mod 60)"
    using of_nat_mod_word [of "n mod 86400 mod 3600" 60] small(2) by simp
  have dd: "n div 86400 < 2 ^ 40" using assms(1) by (simp add: less_mult_imp_div_less)
  have "(of_nat (4 + n div 86400) :: 64 word) mod of_nat 7 = of_nat ((4 + n div 86400) mod 7)"
    by (rule of_nat_mod_word) (use dd in simp_all)
  then have w: "(4 + of_nat (n div 86400) :: 64 word) mod 7 = of_nat ((4 + n div 86400) mod 7)" by simp
  have "n div 86400 < 2 ^ 49" using dd by simp
  note g = gm_date_nat [OF this date]
  note v = nat_date_correct [OF _ date]
  have md: "m \<le> 12" "d \<le> 31" using v months_cases [of m] by (auto simp: valid_date_def month_days_def split: if_splits)
  have "(n div 86400 + 719468 + 2) * 400 div 146097 + 1 < 2 ^ 32" using dd by (simp add: less_mult_imp_div_less)
  then have y: "y < 2 ^ 32" using nat_date_year_small [OF date] by linarith
  have h: "n mod 86400 div 3600 < 2 ^ 32" "n mod 86400 mod 3600 div 60 < 2 ^ 32" "n mod 86400 mod 3600 mod 60 < 2 ^ 32"
      "(4 + n div 86400) mod 7 < 2 ^ 32" "d < 2 ^ 32" "m < 2 ^ 32"
    using small md by (simp_all add: less_mult_imp_div_less)
  have tm: "tm = \<lparr>tm_sec = ucast (of_nat (n mod 86400 mod 3600 mod 60) :: 64 word),
      tm_min = ucast (of_nat (n mod 86400 mod 3600 div 60) :: 64 word), tm_hour = ucast (of_nat (n mod 86400 div 3600) :: 64 word),
      tm_mday = ucast (of_nat d :: 64 word), tm_mon = ucast (of_nat m :: 64 word), tm_year = ucast (of_nat y :: 64 word),
      tm_wday = ucast (of_nat ((4 + n div 86400) mod 7) :: 64 word)\<rparr>"
    unfolding tm_def ngx_gmtime_def Let_def days m1 m2 m3 d2 d3 w g by simp
  show "unat (tm_sec tm) = n mod 86400 mod 3600 mod 60" "unat (tm_min tm) = n mod 86400 mod 3600 div 60"
    "unat (tm_hour tm) = n mod 86400 div 3600" "unat (tm_mday tm) = d" "unat (tm_mon tm) = m" "unat (tm_year tm) = y"
    "unat (tm_wday tm) = (4 + n div 86400) mod 7"
    unfolding tm using h y by (simp_all only: ngx_tm.simps unat_ucast_small)
qed

section \<open>The printed times\<close>

definition dig :: "nat \<Rightarrow> byte" where
  "dig k = of_nat k + 0x30"

definition dec2 :: "nat \<Rightarrow> bytes" where
  "dec2 k = [dig (k div 10), dig (k mod 10)]"

definition dec4 :: "nat \<Rightarrow> bytes" where
  "dec4 k = dec2 (k div 100) @ dec2 (k mod 100)"

lemma num_text_dec: "num_text v zero 0 width = replicate (width - length (dec_spec (unat v))) zero @ dec_spec (unat v)"
  by (simp add: num_text_def sprintf_digits_dec)

lemma dec_spec_small: "k < 10 \<Longrightarrow> dec_spec k = [dig k]"
  by (subst dec_spec.simps) (simp add: dig_def)

lemma dec_spec_step: "10 \<le> k \<Longrightarrow> dec_spec k = dec_spec (k div 10) @ [dig (k mod 10)]"
  by (subst dec_spec.simps) (simp add: dig_def)

lemma dec_spec_two: "10 \<le> k \<Longrightarrow> k < 100 \<Longrightarrow> dec_spec k = dec2 k"
  by (simp add: dec_spec_step dec_spec_small dec2_def less_mult_imp_div_less)

lemma num_text_dec2: "unat v < 100 \<Longrightarrow> num_text v 0x30 0 2 = dec2 (unat v)"
  by (cases "unat v < 10") (simp_all add: num_text_dec dec_spec_small dec_spec_two dec2_def numeral_2_eq_2 dig_def)

lemma num_text_dec4:
  assumes "1000 \<le> unat v" "unat v < 10000" "width \<le> 4"
  shows "num_text v zero 0 width = dec4 (unat v)"
proof -
  have "dec_spec (unat v) = dec_spec (unat v div 10 div 10) @ [dig (unat v div 10 mod 10), dig (unat v mod 10)]"
    using assms by (simp add: dec_spec_step [of "unat v"] dec_spec_step [of "unat v div 10"])
  moreover have "unat v div 10 div 10 = unat v div 100" "unat v div 10 mod 10 = unat v mod 100 div 10" "unat v mod 10 = unat v mod 100 mod 10"
    by (simp_all add: div_mult2_eq [symmetric] mod_mult2_eq [of _ 10 10, simplified] mod_mod_cancel)
  moreover have "dec_spec (unat v div 100) = dec2 (unat v div 100)" by (rule dec_spec_two) (use assms in auto)
  ultimately have "dec_spec (unat v) = dec4 (unat v)" by (simp add: dec4_def dec2_def)
  then show ?thesis using assms(3) by (simp add: num_text_dec dec4_def dec2_def)
qed

lemma va_int32_scast: "va_int32 (scast (i :: 32 word)) = scast i"
proof -
  have "(ucast (scast i :: 64 word) :: 32 word) = i" by (rule bit_word_eqI) (auto simp: bit_simps)
  then show ?thesis by (simp add: va_int32_def)
qed

lemma sint_small32:
  assumes "unat (i :: 32 word) < 2 ^ 31"
  shows "sint i = int (unat i)"
proof -
  have st: "signed_take_bit 31 (int n) = int n" if "n < 2 ^ 31" for n
    using that by (intro signed_take_bit_int_eq_self) simp_all
  show ?thesis using st [OF assms] unfolding sint_uint uint_nat by simp
qed

lemma unat_scast_small: "unat (i :: 32 word) < 2 ^ 31 \<Longrightarrow> unat (scast i :: 64 word) = unat i"
  using sint_small32 [of i] by (simp add: scast_eq unat_of_nat64)

lemma mem_text_name: "0 \<notin> set a \<Longrightarrow> mem_text (-1) (a @ [0]) = Some a"
proof -
  assume "0 \<notin> set a"
  then have "\<And>c. c \<in> set a \<Longrightarrow> c \<noteq> 0" by auto
  then show ?thesis by (simp add: mem_text_def takeWhile_append2)
qed

lemma printf_http_time:
  assumes "0 \<notin> set a" "0 \<notin> set b" "unat d < 100" "1000 \<le> unat y" "unat y < 10000" "unat h < 100" "unat mi < 100" "unat s < 100"
  shows "printf_text (s2b ''%s, %02d %s %4d %02d:%02d:%02d GMT'')
      [Va_mem (a @ [0]), va_tm d, Va_mem (b @ [0]), va_tm y, va_tm h, va_tm mi, va_tm s] =
    Some (a @ s2b '', '' @ dec2 (unat d) @ s2b '' '' @ b @ s2b '' '' @ dec4 (unat y) @ s2b '' '' @
      dec2 (unat h) @ s2b '':'' @ dec2 (unat mi) @ s2b '':'' @ dec2 (unat s) @ s2b '' GMT'')"
  using assms
  by (simp add: fmt_begin_def convert_text_def fmt_int_def mem_text_name va_tm_def int_text_def va_int32_scast sless_zero_iff
      unat_scast_small num_text_dec2 num_text_dec4)

lemma names_no_zero: "i < 7 \<Longrightarrow> 0 \<notin> set (week ! i)" "i < 12 \<Longrightarrow> 0 \<notin> set (months ! i)"
proof -
  have "list_all (\<lambda>a. 0 \<notin> set a) week" "list_all (\<lambda>a. 0 \<notin> set a) months" by code_simp+
  then show "i < 7 \<Longrightarrow> 0 \<notin> set (week ! i)" "i < 12 \<Longrightarrow> 0 \<notin> set (months ! i)"
    by (auto simp: list_all_length week_def months_def)
qed

text \<open>The number of a second: the days before it and the time of the day.\<close>

definition seconds :: "nat \<Rightarrow> nat \<Rightarrow> nat \<Rightarrow> nat \<Rightarrow> nat \<Rightarrow> nat \<Rightarrow> nat" where
  "seconds y m d h mi s = day_number y m d * 86400 + h * 3600 + mi * 60 + s"

lemma gmtime_seconds:
  assumes "unat t < 2 ^ 55"
  defines "tm \<equiv> ngx_gmtime t"
  shows "valid_date (unat (tm_year tm)) (unat (tm_mon tm)) (unat (tm_mday tm))" "1970 \<le> unat (tm_year tm)"
    "day_number (unat (tm_year tm)) (unat (tm_mon tm)) (unat (tm_mday tm)) = unat t div 86400"
    "unat (tm_hour tm) < 24" "unat (tm_min tm) < 60" "unat (tm_sec tm) < 60"
    "unat (tm_hour tm) * 3600 + unat (tm_min tm) * 60 + unat (tm_sec tm) = unat t mod 86400"
    "unat (tm_wday tm) = (4 + unat t div 86400) mod 7"
proof -
  define n where "n = unat t"
  have t: "t = of_nat n" by (simp add: n_def)
  obtain y m d where date: "nat_date (n div 86400 + 719468) = (y, m, d)" by (cases "nat_date (n div 86400 + 719468)") auto
  have "n < 2 ^ 55" using assms(1) by (simp add: n_def)
  note f = gmtime_fields [OF this date, folded t, folded tm_def]
  note v = nat_date_correct [OF _ date]
  have sm: "n mod 86400 < 86400" "n mod 86400 mod 3600 < 3600" by simp_all
  show "valid_date (unat (tm_year tm)) (unat (tm_mon tm)) (unat (tm_mday tm))" "1970 \<le> unat (tm_year tm)"
    "day_number (unat (tm_year tm)) (unat (tm_mon tm)) (unat (tm_mday tm)) = unat t div 86400"
    unfolding f n_def [symmetric] using v by simp_all
  show "unat (tm_hour tm) < 24" "unat (tm_min tm) < 60" "unat (tm_sec tm) < 60"
    unfolding f using sm by (simp_all add: less_mult_imp_div_less)
  show "unat (tm_hour tm) * 3600 + unat (tm_min tm) * 60 + unat (tm_sec tm) = unat t mod 86400"
    unfolding f n_def [symmetric] by (metis add.assoc div_mult_mod_eq)
  show "unat (tm_wday tm) = (4 + unat t div 86400) mod 7" unfolding f n_def [symmetric] ..
qed

lemma unat_pred_month: "1 \<le> unat (m :: 32 word) \<Longrightarrow> unat (m - 1) = unat m - 1"
  by (simp add: unat_sub word_le_nat_alt)

lemma month_days_le: "valid_date y m d \<Longrightarrow> d \<le> 31"
  using months_cases [of m] by (auto simp: valid_date_def month_days_def split: if_splits)

definition http_date_text :: "ngx_tm \<Rightarrow> bytes" where
  "http_date_text tm =
     week ! unat (tm_wday tm) @ s2b '', '' @ dec2 (unat (tm_mday tm)) @ s2b '' '' @ months ! (unat (tm_mon tm) - 1) @ s2b '' '' @
     dec4 (unat (tm_year tm)) @ s2b '' '' @ dec2 (unat (tm_hour tm)) @ s2b '':'' @ dec2 (unat (tm_min tm)) @ s2b '':'' @
     dec2 (unat (tm_sec tm)) @ s2b '' GMT''"

lemma http_time_text:
  assumes "unat t < 2 ^ 55" "unat (tm_year (ngx_gmtime t)) < 10000" "buf + 29 < 2 ^ 64"
  shows "ngx_http_time buf t = Some (http_date_text (ngx_gmtime t))" "length (http_date_text (ngx_gmtime t)) = 29"
proof -
  define tm where "tm = ngx_gmtime t"
  note g = gmtime_seconds [OF assms(1), folded tm_def]
  have m: "1 \<le> unat (tm_mon tm)" "unat (tm_mon tm) \<le> 12" using g(1) by (simp_all add: valid_date_def)
  have w: "unat (tm_wday tm) < 7" unfolding g(8) by simp
  have l: "length (week ! i) = 3" if "i < 7" for i
    using that by (auto simp: week_def less_Suc_eq numeral_eq_Suc)
  have lm: "length (months ! i) = 3" if "i < 12" for i
    using that by (auto simp: months_def less_Suc_eq numeral_eq_Suc)
  show len: "length (http_date_text (ngx_gmtime t)) = 29"
    using l [OF w] lm [of "unat (tm_mon tm) - 1"] m unfolding tm_def [symmetric] by (simp add: http_date_text_def dec2_def dec4_def)
  have "printf_text (s2b ''%s, %02d %s %4d %02d:%02d:%02d GMT'')
      [va_name week (tm_wday tm), va_tm (tm_mday tm), va_name months (tm_mon tm - 1), va_tm (tm_year tm),
       va_tm (tm_hour tm), va_tm (tm_min tm), va_tm (tm_sec tm)] = Some (http_date_text tm)"
    unfolding va_name_def http_date_text_def unat_pred_month [OF m(1)]
    by (rule printf_http_time) (use names_no_zero w m g assms(2) month_days_le [OF g(1)] in \<open>auto simp: tm_def\<close>)
  then show "ngx_http_time buf t = Some (http_date_text (ngx_gmtime t))"
    using sprintf_text len assms(3) unfolding ngx_http_time_def Let_def tm_def by simp
qed

section \<open>Properties\<close>

text \<open>
  C20. \<open>ngx_gmtime\<close> computes the Gregorian calendar: for every time from 1970 on for more than a thousand million years, the year,
  the month and the day are a date of the calendar, the days of all years, months and days before it, counted one by one, are the days
  since the epoch, the time of the day is split into hours, minutes and seconds, and the day of the week is the one counted from Thursday, the first of
  January 1970. So Gauss' formula, the guess of the year with its correction, and the empirical formula for the month are
  right for leap years, centuries and all ends of months.
\<close>

theorem gmtime_calendar:
  assumes "unat t < 2 ^ 55"
  shows "let tm = ngx_gmtime t; y = unat (tm_year tm); m = unat (tm_mon tm); d = unat (tm_mday tm)
    in valid_date y m d \<and> 1970 \<le> y \<and> day_number y m d = unat t div 86400
       \<and> unat (tm_hour tm) < 24 \<and> unat (tm_min tm) < 60 \<and> unat (tm_sec tm) < 60
       \<and> seconds y m d (unat (tm_hour tm)) (unat (tm_min tm)) (unat (tm_sec tm)) = unat t
       \<and> unat (tm_wday tm) = (4 + unat t div 86400) mod 7"
  using gmtime_seconds [OF assms] by (simp add: Let_def seconds_def add.assoc)

theorem gmtime_calendar_witness:
  "let tm = ngx_gmtime 951827696 in valid_date 2000 2 29
     \<and> seconds (unat (tm_year tm)) (unat (tm_mon tm)) (unat (tm_mday tm)) (unat (tm_hour tm)) (unat (tm_min tm)) (unat (tm_sec tm)) = 951827696
     \<and> unat (tm_wday tm) = 2"
proof -
  have t: "unat (951827696 :: 64 word) = 951827696" by simp
  then have "unat (951827696 :: 64 word) < 2 ^ 55" by simp
  note g = gmtime_calendar [OF this]
  have "valid_date 2000 2 29" by (simp add: valid_date_def month_days_def leap_year_def)
  moreover have "(4 + 951827696 div 86400) mod 7 = (2 :: nat)" by simp
  ultimately show ?thesis using g unfolding Let_def t by metis
qed

text \<open>The last second of a February, and a leap day, as the code computes them.\<close>

lemma gmtime_examples:
  "ngx_gmtime 951782399 = \<lparr>tm_sec = 59, tm_min = 59, tm_hour = 23, tm_mday = 28, tm_mon = 2, tm_year = 2000, tm_wday = 1\<rparr>"
  "ngx_gmtime 951782400 = \<lparr>tm_sec = 0, tm_min = 0, tm_hour = 0, tm_mday = 29, tm_mon = 2, tm_year = 2000, tm_wday = 2\<rparr>"
  by code_simp+

text \<open>
  A printed time fills the 29 bytes of the buffers that are reserved for it, as long as the year has four digits.
\<close>

lemma http_time_fits:
  assumes "unat t < 2 ^ 55" "unat (tm_year (ngx_gmtime t)) < 10000" "buf + 29 < 2 ^ 64"
  shows "\<exists>s. ngx_http_time buf t = Some s \<and> length s = length (s2b ''Mon, 28 Sep 1970 06:00:00 GMT'')"
  using http_time_text [OF assms] by simp

end
