(* ===== verification/HttpTime.thy ===== *)
theory HttpTime
  imports NgxTimes
begin

text \<open>
  The reader of HTTP dates, \<^verbatim>\<open>src/http/ngx_http_parse_time.c\<close>: \<open>ngx_http_parse_time\<close> takes the three formats of the protocol,
  of RFC 822, RFC 850 and of \<open>asctime\<close>, and computes the seconds since the epoch with Gauss' formula.

  Every byte is read through \<open>rd\<close>, in the order and as lazily as in the code. A read outside of the text is the outcome \<open>Overread\<close>,
  an early \<open>return NGX_ERROR\<close> is the outcome \<open>Failed\<close>.
\<close>

section \<open>Definitions\<close>

datatype 'a scan = Overread | Failed | Done 'a

primrec scan_bind :: "'a scan \<Rightarrow> ('a \<Rightarrow> 'b scan) \<Rightarrow> 'b scan" where
  "scan_bind Overread f = Overread"
| "scan_bind Failed f = Failed"
| "scan_bind (Done x) f = f x"

definition rd :: "bytes \<Rightarrow> ptr \<Rightarrow> byte scan" where
  "rd v p = (if p < length v then Done (v ! p) else Overread)"

text \<open>\<open>*p != c\<close>, and \<open>n\<close> digits in a row.\<close>

definition expect :: "byte \<Rightarrow> bytes \<Rightarrow> ptr \<Rightarrow> unit scan" where
  "expect c v p = scan_bind (rd v p) (\<lambda>x. if x = c then Done () else Failed)"

fun rd_digits :: "nat \<Rightarrow> ngx_uint_t \<Rightarrow> bytes \<Rightarrow> ptr \<Rightarrow> ngx_uint_t scan" where
  "rd_digits 0 n v p = Done n"
| "rd_digits (Suc k) n v p =
     scan_bind (rd v p) (\<lambda>c. if c < 0x30 \<or> c > 0x39 then Failed else rd_digits k (n * 10 + ucast c - 0x30) v (p + 1))"

datatype time_fmt = no | rfc822 | rfc850 | isoc

text \<open>
  The first two loops: up to the comma or the space, and over the spaces behind it. The pointer may end up
  one byte behind the end.
\<close>

fun time_sep :: "bytes \<Rightarrow> time_fmt \<times> ptr" where
  "time_sep [] = (no, 0)"
| "time_sep (c # cs) =
     (if c = 0x2C then (no, 0) else if c = 0x20 then (isoc, 0)
      else let (fmt, p) = time_sep cs in (fmt, p + 1))"

definition time_start :: "bytes \<Rightarrow> time_fmt \<times> ptr" where
  "time_start v =
     (let (fmt, p) = time_sep v in (fmt, p + 1 + length (takeWhile (\<lambda>c. c = 0x20) (drop (p + 1) v))))"

text \<open>\<open>end - p < n\<close>, a signed difference.\<close>

definition time_short :: "bytes \<Rightarrow> ptr \<Rightarrow> nat \<Rightarrow> bool" where
  "time_short v p n \<longleftrightarrow> length v < p + n"

text \<open>The day in front of the month, and the format that the byte behind it tells.\<close>

definition time_day :: "bytes \<Rightarrow> ptr \<Rightarrow> (time_fmt \<times> ngx_uint_t \<times> ptr) scan" where
  "time_day v p =
     scan_bind (rd_digits 2 0 v p) (\<lambda>day.
     scan_bind (rd v (p + 2)) (\<lambda>c.
       if c = 0x20 then if time_short v (p + 2) 18 then Failed else Done (rfc822, day, p + 3)
       else if c = 0x2D then Done (rfc850, day, p + 3)
       else Failed))"

definition time_month :: "bytes \<Rightarrow> ptr \<Rightarrow> int scan" where
  "time_month v p =
     scan_bind (rd v p) (\<lambda>c.
       if c = 0x4A then scan_bind (rd v (p + 1)) (\<lambda>a. if a = 0x61 then Done 0
         else scan_bind (rd v (p + 2)) (\<lambda>b. if b = 0x6E then Done 5 else Done 6))
       else if c = 0x46 then Done 1
       else if c = 0x4D then scan_bind (rd v (p + 2)) (\<lambda>b. if b = 0x72 then Done 2 else Done 4)
       else if c = 0x41 then scan_bind (rd v (p + 1)) (\<lambda>a. if a = 0x70 then Done 3 else Done 7)
       else if c = 0x53 then Done 8
       else if c = 0x4F then Done 9
       else if c = 0x4E then Done 10
       else if c = 0x44 then Done 11
       else Failed)"

text \<open>
  What follows the month: the separator, and the year of the first two formats, of four or of two digits, or the day of
  the third format, of one or two digits. The result is the year or the day, and the pointer behind it.
\<close>

definition time_year :: "time_fmt \<Rightarrow> bytes \<Rightarrow> ptr \<Rightarrow> (ngx_uint_t \<times> ptr) scan" where
  "time_year fmt v p =
     (if fmt = rfc822 then scan_bind (expect 0x20 v p) (\<lambda>_. scan_bind (rd_digits 4 0 v (p + 1)) (\<lambda>year. Done (year, p + 5)))
      else scan_bind (expect 0x2D v p) (\<lambda>_. scan_bind (rd_digits 2 0 v (p + 1)) (\<lambda>year.
        Done (year + (if year < 70 then 2000 else 1900), p + 3))))"

definition isoc_digits :: "bytes \<Rightarrow> ptr \<Rightarrow> (ngx_uint_t \<times> ptr) scan" where
  "isoc_digits v p =
     scan_bind (rd_digits 1 0 v p) (\<lambda>day.
     scan_bind (rd v (p + 1)) (\<lambda>c.
       if c = 0x20 then Done (day, p + 1) else scan_bind (rd_digits 1 day v (p + 1)) (\<lambda>day. Done (day, p + 2))))"

definition time_isoc_day :: "bytes \<Rightarrow> ptr \<Rightarrow> (ngx_uint_t \<times> ptr) scan" where
  "time_isoc_day v p =
     scan_bind (rd v p) (\<lambda>c.
     scan_bind (isoc_digits v (if c = 0x20 then p + 1 else p)) (\<lambda>(day, p).
       if time_short v p 14 then Failed else Done (day, p)))"

text \<open>The time of the day, after a space. The pointer is left in front of the seconds.\<close>

definition time_clock :: "bytes \<Rightarrow> ptr \<Rightarrow> (ngx_uint_t \<times> ngx_uint_t \<times> ngx_uint_t) scan" where
  "time_clock v p =
     scan_bind (expect 0x20 v p) (\<lambda>_.
     scan_bind (rd_digits 2 0 v (p + 1)) (\<lambda>hour.
     scan_bind (expect 0x3A v (p + 3)) (\<lambda>_.
     scan_bind (rd_digits 2 0 v (p + 4)) (\<lambda>mins.
     scan_bind (expect 0x3A v (p + 6)) (\<lambda>_.
     scan_bind (rd_digits 2 0 v (p + 7)) (\<lambda>sec. Done (hour, mins, sec)))))))"

text \<open>The checks of the fields and Gauss' formula; the month is the signed variable of the code.\<close>

definition mday :: "ngx_uint_t list" where
  "mday = [31, 28, 31, 30, 31, 30, 31, 31, 30, 31, 30, 31]"

definition time_value :: "ngx_uint_t \<Rightarrow> int \<Rightarrow> ngx_uint_t \<Rightarrow> ngx_uint_t \<Rightarrow> ngx_uint_t \<Rightarrow> ngx_uint_t \<Rightarrow> 64 word scan" where
  "time_value year month day hour mins sec =
     (if hour > 23 \<or> mins > 59 \<or> sec > 59 then Failed
      else if (if day = 29 \<and> month = 1
               then year AND 3 \<noteq> 0 \<or> (year mod 100 = 0 \<and> year mod 400 \<noteq> 0)
               else day > mday ! nat month) then Failed
      else let (month, year) = (if month - 1 \<le> 0 then (month - 1 + 12, year - 1) else (month - 1, year))
           in Done ((365 * year + year div 4 - year div 100 + year div 400 + word_of_int (367 * month sdiv 12) - 30
                + day - 1 - 719527 + 31 + 28) * 86400 + hour * 3600 + mins * 60 + sec))"

text \<open>The whole function. In the third format the year stands behind the time of the day.\<close>

definition time_scan :: "bytes \<Rightarrow> 64 word scan" where
  "time_scan v =
     (let (fmt, p) = time_start v
      in if time_short v p 18 then Failed
         else if fmt \<noteq> isoc then
           scan_bind (time_day v p) (\<lambda>(fmt, day, p).
           scan_bind (time_month v p) (\<lambda>month.
           scan_bind (time_year fmt v (p + 3)) (\<lambda>(year, p).
           scan_bind (time_clock v p) (\<lambda>(hour, mins, sec).
             time_value year month day hour mins sec))))
         else
           scan_bind (time_month v p) (\<lambda>month.
           scan_bind (time_isoc_day v (p + 4)) (\<lambda>(day, p).
           scan_bind (time_clock v p) (\<lambda>(hour, mins, sec).
           scan_bind (expect 0x20 v (p + 9)) (\<lambda>_.
           scan_bind (rd_digits 4 0 v (p + 10)) (\<lambda>year.
             time_value year month day hour mins sec))))))"

definition ngx_http_parse_time :: "bytes \<Rightarrow> 64 word option" where
  "ngx_http_parse_time v = (case time_scan v of Overread \<Rightarrow> None | Failed \<Rightarrow> Some int_error | Done t \<Rightarrow> Some t)"

section \<open>No read behind the end\<close>

named_theorems in_text \<open>the readers stay inside of the text\<close>

lemma scan_bind_over [simp]: "scan_bind m f = Overread \<longleftrightarrow> m = Overread \<or> (\<exists>x. m = Done x \<and> f x = Overread)"
  by (cases m) auto

lemma scan_bind_done [simp]: "scan_bind m f = Done y \<longleftrightarrow> (\<exists>x. m = Done x \<and> f x = Done y)"
  by (cases m) auto

lemma rd_in [in_text]: "p < length v \<Longrightarrow> rd v p \<noteq> Overread"
  by (simp add: rd_def)

lemma expect_in [in_text]: "p < length v \<Longrightarrow> expect c v p \<noteq> Overread"
  by (auto simp: expect_def rd_def)

lemma rd_digits_in [in_text]: "p + k \<le> length v \<Longrightarrow> rd_digits k n v p \<noteq> Overread"
  by (induction k n v p rule: rd_digits.induct) (auto simp: rd_def)

lemma time_month_in [in_text]: "p + 3 \<le> length v \<Longrightarrow> time_month v p \<noteq> Overread"
  by (auto simp: time_month_def rd_def)

lemma time_clock_in [in_text]: "p + 9 \<le> length v \<Longrightarrow> time_clock v p \<noteq> Overread"
  by (auto simp: time_clock_def in_text)

lemma time_year_in [in_text]: "p + (if fmt = rfc822 then 5 else 3) \<le> length v \<Longrightarrow> time_year fmt v p \<noteq> Overread"
  by (auto simp: time_year_def in_text split: if_splits)

lemma time_year_ptr: "time_year fmt v p = Done (year, q) \<Longrightarrow> q = p + (if fmt = rfc822 then 5 else 3)"
  by (auto simp: time_year_def)

lemma time_day_in [in_text]: "p + 3 \<le> length v \<Longrightarrow> time_day v p \<noteq> Overread"
  by (auto simp: time_day_def in_text)

lemma time_day_ptr:
  "time_day v p = Done (fmt, day, q) \<Longrightarrow> q = p + 3 \<and> (fmt = rfc822 \<and> p + 20 \<le> length v \<or> fmt = rfc850)"
  by (auto simp: time_day_def time_short_def split: if_splits)

lemma isoc_digits_in [in_text]: "p + 2 \<le> length v \<Longrightarrow> isoc_digits v p \<noteq> Overread"
  by (simp add: isoc_digits_def rd_in rd_digits_in)

lemma time_isoc_day_in [in_text]: "p + 3 \<le> length v \<Longrightarrow> time_isoc_day v p \<noteq> Overread"
  by (auto simp: time_isoc_day_def rd_in isoc_digits_in split: if_splits)

lemma time_isoc_day_ptr: "time_isoc_day v p = Done (day, q) \<Longrightarrow> q + 14 \<le> length v"
  by (auto simp: time_isoc_day_def time_short_def split: if_splits)

lemma time_value_in [in_text]: "time_value y m d h mi s \<noteq> Overread"
  by (simp add: time_value_def split: prod.splits)

lemma time_scan_in: "time_scan v \<noteq> Overread"
proof -
  obtain fmt p where s: "time_start v = (fmt, p)" by (cases "time_start v") auto
  show ?thesis
  proof (cases "time_short v p 18")
    case True
    then show ?thesis by (simp add: time_scan_def s)
  next
    case False
    then have p: "p + 18 \<le> length v" by (simp add: time_short_def)
    show ?thesis
    proof (cases "fmt = isoc")
      case True
      then show ?thesis using False p
        by (auto simp: time_scan_def s in_text dest: time_isoc_day_ptr)
    next
      case False
      then show ?thesis using \<open>\<not> time_short v p 18\<close> p
        by (auto simp: time_scan_def s in_text dest!: time_day_ptr time_year_ptr split: if_splits)
    qed
  qed
qed

section \<open>Gauss' formula again\<close>

lemma of_nat_eq_word: "a < 2 ^ 64 \<Longrightarrow> b < 2 ^ 64 \<Longrightarrow> (of_nat a = (of_nat b :: 64 word)) \<longleftrightarrow> a = b"
  using unat_of_nat64 by (metis)

lemma of_nat_less_word: "a < 2 ^ 64 \<Longrightarrow> b < 2 ^ 64 \<Longrightarrow> (of_nat a < (of_nat b :: 64 word)) \<longleftrightarrow> a < b"
  by (simp add: word_less_nat_alt unat_of_nat64)

lemma word_and_3: "y < 2 ^ 50 \<Longrightarrow> (of_nat y AND 3 = (0 :: 64 word)) \<longleftrightarrow> y mod 4 = 0"
proof -
  assume y: "y < 2 ^ 50"
  have "(of_nat y :: 64 word) AND mask 2 = of_nat y mod 4" by (simp add: take_bit_eq_mask [symmetric] take_bit_eq_mod)
  also have "\<dots> = of_nat (y mod 4)" using of_nat_mod_word [of y 4] y by simp
  finally show ?thesis using of_nat_eq_word [of "y mod 4" 0] by (simp add: mask_eq_exp_minus_1)
qed

lemma mday_nth: "m < 12 \<Longrightarrow> mday ! m = of_nat ([31, 28, 31, 30, 31, 30, 31, 31, 30, 31, 30, 31] ! m)"
proof -
  have "list_all (\<lambda>i. mday ! i = of_nat ([31, 28, 31, 30, 31, 30, 31, 31, 30, 31, 30, 31] ! i)) [0..<12]" by code_simp
  then show "m < 12 \<Longrightarrow> ?thesis" by (rule list_all_upt)
qed

lemma time_day_check:
  assumes "y < 2 ^ 50" "m < 12" "d < 100"
  shows "(if of_nat d = (29 :: 64 word) \<and> int m = 1
      then of_nat y AND 3 \<noteq> (0 :: 64 word) \<or> (of_nat y mod 100 = (0 :: 64 word) \<and> of_nat y mod 400 \<noteq> (0 :: 64 word))
      else of_nat d > mday ! nat (int m)) \<longleftrightarrow> \<not> d \<le> month_days y (Suc m)"
proof -
  let ?md = "[31, 28, 31, 30, 31, 30, 31, 31, 30, 31, 30, 31] ! m :: nat"
  have 29: "(of_nat d = (29 :: 64 word)) \<longleftrightarrow> d = 29" using of_nat_eq_word [of d 29] assms(3) by simp
  have l: "(of_nat y AND 3 \<noteq> (0 :: 64 word) \<or> (of_nat y mod 100 = (0 :: 64 word) \<and> of_nat y mod 400 \<noteq> (0 :: 64 word))) \<longleftrightarrow> \<not> leap_year y"
    unfolding word_leap_year [OF assms(1), symmetric] word_and_3 [OF assms(1)]
    using of_nat_mod_word [of y 4] of_nat_eq_word [of "y mod 4" 0] assms(1) by auto
  have md: "?md \<le> 31" using assms(2) by (auto simp: less_Suc_eq numeral_eq_Suc)
  have m: "of_nat d > mday ! nat (int m) \<longleftrightarrow> ?md < d"
    using of_nat_less_word [of ?md d] md assms(3) by (simp add: mday_nth [OF assms(2)])
  have eq: "month_days y (Suc m) = (if m = 1 \<and> leap_year y then 29 else ?md)"
    using assms(2) by (auto simp: month_days_def less_Suc_eq numeral_eq_Suc)
  show ?thesis unfolding 29 l m eq by auto
qed

lemma int_sdiv: "int a sdiv int b = int (a div b)"
  by (cases "a = 0"; cases "b = 0") (simp_all add: signed_divide_int_def zdiv_int)

lemma time_value_calendar:
  assumes "1970 \<le> y" "y < 10000" "m < 12" "1 \<le> d" "d < 100" "h < 100" "mi < 100" "s < 100"
  shows "time_value (of_nat y) (int m) (of_nat d) (of_nat h) (of_nat mi) (of_nat s) =
    (if valid_date y (Suc m) d \<and> h < 24 \<and> mi < 60 \<and> s < 60 then Done (of_nat (seconds y (Suc m) d h mi s)) else Failed)"
proof -
  have y: "y < 2 ^ 50" using assms(2) by simp
  have c: "(23 < (of_nat h :: 64 word) \<or> 59 < (of_nat mi :: 64 word) \<or> 59 < (of_nat s :: 64 word)) \<longleftrightarrow> \<not> (h < 24 \<and> mi < 60 \<and> s < 60)"
    using of_nat_less_word [of 23 h] of_nat_less_word [of 59 mi] of_nat_less_word [of 59 s] assms by auto
  have v: "valid_date y (Suc m) d \<longleftrightarrow> d \<le> month_days y (Suc m)" using assms by (simp add: valid_date_def)
  define Y M where "Y = march_year y (Suc m)" "M = march_month (Suc m)"
  have p: "(if int m - 1 \<le> 0 then (int m - 1 + 12, (of_nat y :: 64 word) - 1) else (int m - 1, of_nat y)) = (int M, of_nat Y)"
    using assms(1) by (simp add: Y_M_def march_year_def march_month_def of_nat_diff)
  have "Y < 2 ^ 50" using y by (auto simp: Y_M_def march_year_def)
  note g = word_gauss_years [OF this]
  have "367 * int M sdiv 12 = int (367 * M div 12)" using int_sdiv [of "367 * M" 12] by simp
  then have q: "word_of_int (367 * int M sdiv 12) = (of_nat (367 * M div 12) :: 64 word)" by (simp only: of_int_of_nat_eq)
  have n: "(of_nat (gauss_years Y) + of_nat (367 * M div 12) - 30 + of_nat d - 1 - 719527 + 31 + 28 :: 64 word)
      = of_nat (day_number y (Suc m) d)" if "valid_date y (Suc m) d"
  proof -
    have "(of_nat (day_number y (Suc m) d + 719468 + 31) :: 64 word) = of_nat (gauss_years Y + 367 * M div 12 + d)"
      unfolding gauss_day_number [OF that assms(1)] Y_M_def ..
    then show ?thesis by (simp add: algebra_simps)
  qed
  show ?thesis
    unfolding time_value_def c time_day_check [OF y assms(3,5)] p prod.case Let_def g q
    using n by (auto simp: v seconds_def)
qed

text \<open>Day zero passes the check of the days, and stands for the day before the first one of the month.\<close>

lemma time_value_day_zero:
  assumes "m < 12"
  shows "time_value year (int m) 0 hour mins sec =
    (case time_value year (int m) 1 hour mins sec of Overread \<Rightarrow> Overread | Failed \<Rightarrow> Failed | Done t \<Rightarrow> Done (t - 86400))"
proof (cases "23 < hour \<or> 59 < mins \<or> 59 < sec")
  case False
  obtain M Y where p: "(if int m - 1 \<le> 0 then (int m - 1 + 12, year - 1) else (int m - 1, year)) = (M, Y)" by fastforce
  have v: "time_value year (int m) day hour mins sec =
      Done ((365 * Y + Y div 4 - Y div 100 + Y div 400 + word_of_int (367 * M sdiv 12) - 30 + day - 1 - 719527 + 31 + 28) * 86400
        + hour * 3600 + mins * 60 + sec)" if "day \<noteq> 29" "\<not> mday ! m < day" for day
    unfolding time_value_def Let_def p prod.case nat_int using that False by (simp only: simp_thms if_False)
  have "list_all (\<lambda>i. \<not> mday ! i < 0 \<and> \<not> mday ! i < 1) [0..<12]" by code_simp
  then have md: "\<not> mday ! m < 0" "\<not> mday ! m < 1" using list_all_upt assms by blast+
  have ne: "(0 :: ngx_uint_t) \<noteq> 29" "(1 :: ngx_uint_t) \<noteq> 29" by code_simp+
  show ?thesis unfolding v [OF ne(1) md(1)] v [OF ne(2) md(2)] scan.case by (simp add: algebra_simps)
qed (simp add: time_value_def)

lemma time_value_parts_zero:
  assumes "1970 \<le> y" "y < 10000" "m < 12" "h < 100" "mi < 100" "s < 100"
  shows "time_value (of_nat y) (int m) 0 (of_nat h) (of_nat mi) (of_nat s) =
    (if h < 24 \<and> mi < 60 \<and> s < 60 then Done (of_nat (seconds y (Suc m) 1 h mi s) - 86400) else Failed)"
proof -
  have "valid_date y (Suc m) 1" using assms(3) by (auto simp: valid_date_def month_days_def less_Suc_eq numeral_eq_Suc)
  then show ?thesis using time_value_calendar [OF assms(1-3), of 1 h mi s] assms(4-6) time_value_day_zero [OF assms(3)] by simp
qed

section \<open>Reading what is printed\<close>

lemma dig_digit:
  assumes "a < 10"
  shows "\<not> dig a < 0x30" "\<not> 0x39 < dig a" "n * 10 + ucast (dig a) - 0x30 = (n * 10 + of_nat a :: 64 word)"
proof -
  have u: "unat (dig a) = a + 48" using assms by (simp add: dig_def unat_word_ariths unat_of_nat)
  show "\<not> dig a < 0x30" "\<not> 0x39 < dig a" using u assms by (simp_all add: word_less_nat_alt)
  have "(ucast (dig a) :: 64 word) = of_nat (a + 48)" by (metis u unat_ucast_byte(1) of_nat_unat_id)
  then show "n * 10 + ucast (dig a) - 0x30 = (n * 10 + of_nat a :: 64 word)" by simp
qed

lemma rd_digits_1: "p < length v \<Longrightarrow> v ! p = dig a \<Longrightarrow> a < 10 \<Longrightarrow> rd_digits (Suc k) n v p = rd_digits k (n * 10 + of_nat a) v (Suc p)"
  by (simp add: rd_def dig_digit)

lemma of_nat_div_mod: "(of_nat k :: 64 word) = of_nat (k div b) * of_nat b + of_nat (k mod b)"
  by (metis of_nat_add of_nat_mult div_mult_mod_eq)

lemma rd_digits_dec2:
  assumes "Suc p < length v" "v ! p = dig (k div 10)" "v ! Suc p = dig (k mod 10)" "k < 100"
  shows "rd_digits (Suc (Suc j)) n v p = rd_digits j (n * 100 + of_nat k) v (Suc (Suc p))"
proof -
  have k: "(of_nat k :: 64 word) = of_nat (k div 10) * 10 + of_nat (k mod 10)" using of_nat_div_mod [of k 10] by simp
  have "rd_digits (Suc (Suc j)) n v p = rd_digits j ((n * 10 + of_nat (k div 10)) * 10 + of_nat (k mod 10)) v (Suc (Suc p))"
    using assms by (simp add: rd_digits_1 less_mult_imp_div_less del: rd_digits.simps)
  then show ?thesis by (simp add: k algebra_simps del: rd_digits.simps)
qed

lemma rd_digits_dec4:
  assumes "p + 3 < length v" "v ! p = dig (k div 100 div 10)" "v ! (p + 1) = dig (k div 100 mod 10)"
    "v ! (p + 2) = dig (k mod 100 div 10)" "v ! (p + 3) = dig (k mod 100 mod 10)" "k < 10000"
  shows "rd_digits 4 0 v p = Done (of_nat k)"
proof -
  have k: "(of_nat k :: 64 word) = of_nat (k div 100) * 100 + of_nat (k mod 100)" using of_nat_div_mod [of k 100] by simp
  have 1: "rd_digits (Suc (Suc (Suc (Suc 0)))) 0 v p = rd_digits (Suc (Suc 0)) (0 * 100 + of_nat (k div 100)) v (Suc (Suc p))"
    by (rule rd_digits_dec2) (use assms in simp_all)
  have 2: "rd_digits (Suc (Suc 0)) n v (Suc (Suc p)) = rd_digits 0 (n * 100 + of_nat (k mod 100)) v (Suc (Suc (Suc (Suc p))))" for n
    by (rule rd_digits_dec2) (use assms in \<open>simp_all add: numeral_2_eq_2 numeral_3_eq_3\<close>)
  have 4: "(4 :: nat) = Suc (Suc (Suc (Suc 0)))" by simp
  show ?thesis unfolding 4 1 2 k by (simp add: mult.commute)
qed

lemma rd_digits_2:
  assumes "p + 1 < length v" "v ! p = dig (k div 10)" "v ! (p + 1) = dig (k mod 10)" "k < 100"
  shows "rd_digits 2 0 v p = Done (of_nat k)"
  using rd_digits_dec2 [of p v k 0 0] assms by (simp add: numeral_2_eq_2)

text \<open>The names of the months are told apart by the bytes that the code looks at.\<close>

lemma months_cases_nth:
  "m < 12 \<Longrightarrow> m = 0 \<or> m = 1 \<or> m = 2 \<or> m = 3 \<or> m = 4 \<or> m = 5 \<or> m = 6 \<or> m = 7 \<or> m = 8 \<or> m = 9 \<or> m = 10 \<or> m = (11::nat)"
  by presburger

lemma time_month_name:
  assumes "m < 12" "p + 2 < length v" "v ! p = months ! m ! 0" "v ! (p + 1) = months ! m ! 1" "v ! (p + 2) = months ! m ! 2"
  shows "time_month v p = Done (int m)"
  using months_cases_nth [OF assms(1)] assms(2-)
  by (elim disjE) (simp_all add: time_month_def rd_def months_def)

lemma week_bytes: "i < 7 \<Longrightarrow> \<exists>a b c. week ! i = [a, b, c] \<and> {a, b, c} \<inter> {0x2C, 0x20} = {}"
proof -
  have "list_all (\<lambda>w. length w = 3 \<and> set w \<inter> {0x2C, 0x20} = {}) week" by code_simp
  then have "length (week ! i) = 3 \<and> set (week ! i) \<inter> {0x2C, 0x20} = {}" if "i < 7"
    using that by (auto simp: list_all_length week_def)
  then show "i < 7 \<Longrightarrow> ?thesis" by (auto simp: length_Suc_conv numeral_3_eq_3)
qed

lemma months_bytes: "m < 12 \<Longrightarrow> \<exists>a b c. months ! m = [a, b, c]"
proof -
  have "list_all (\<lambda>w. length w = 3) months" by code_simp
  then have "length (months ! m) = 3" if "m < 12" using that by (auto simp: list_all_length months_def)
  then show "m < 12 \<Longrightarrow> ?thesis" by (auto simp: length_Suc_conv numeral_3_eq_3)
qed

lemma dig_not_space: "a < 10 \<Longrightarrow> dig a \<noteq> 0x20"
  using dig_digit(1) [of a] by auto

text \<open>The time of the day, wherever it stands.\<close>

lemma time_clock_text:
  assumes v: "v = pre @ s2b '' '' @ dec2 h @ s2b '':'' @ dec2 mi @ s2b '':'' @ dec2 s @ rest" and p: "p = length pre"
    and b: "h < 100" "mi < 100" "s < 100"
  shows "time_clock v p = Done (of_nat h, of_nat mi, of_nat s)"
proof -
  have n: "v ! p = 0x20" "v ! (p + 1) = dig (h div 10)" "v ! (p + 2) = dig (h mod 10)" "v ! (p + 3) = 0x3A"
      "v ! (p + 4) = dig (mi div 10)" "v ! (p + 5) = dig (mi mod 10)" "v ! (p + 6) = 0x3A"
      "v ! (p + 7) = dig (s div 10)" "v ! (p + 8) = dig (s mod 10)"
    unfolding v p by (simp_all add: nth_append dec2_def)
  have l: "p + 9 \<le> length v" unfolding v p by (simp add: dec2_def)
  have e: "expect 0x20 v p = Done ()" "expect 0x3A v (p + 3) = Done ()" "expect 0x3A v (p + 6) = Done ()"
    using n l by (simp_all add: expect_def rd_def)
  have d: "rd_digits 2 0 v (p + 1) = Done (of_nat h)" "rd_digits 2 0 v (p + 4) = Done (of_nat mi)" "rd_digits 2 0 v (p + 7) = Done (of_nat s)"
    using rd_digits_2 [of "p + 1" v h] rd_digits_2 [of "p + 4" v mi] rd_digits_2 [of "p + 7" v s] n l b
    by (simp_all add: add.commute)
  show ?thesis unfolding time_clock_def e d scan_bind.simps ..
qed

lemma month_text:
  assumes "m < 12" "v = pre @ months ! m @ rest" "p = length pre"
  shows "time_month v p = Done (int m)"
proof -
  obtain a b c where abc: "months ! m = [a, b, c]" using months_bytes [OF assms(1)] by blast
  show ?thesis by (rule time_month_name [OF assms(1)]) (simp_all add: assms(2,3) abc nth_append)
qed

lemma time_scan_rfc822:
  assumes v: "v = week ! i @ s2b '', '' @ dec2 d @ s2b '' '' @ months ! m @ s2b '' '' @ dec4 y @ s2b '' '' @
      dec2 h @ s2b '':'' @ dec2 mi @ s2b '':'' @ dec2 s @ s2b '' GMT''"
    and b: "i < 7" "d < 100" "m < 12" "y < 10000" "h < 100" "mi < 100" "s < 100"
  shows "time_scan v = time_value (of_nat y) (int m) (of_nat d) (of_nat h) (of_nat mi) (of_nat s)"
proof -
  obtain a1 a2 a3 where a: "week ! i = [a1, a2, a3]" "{a1, a2, a3} \<inter> {0x2C, 0x20} = {}" using week_bytes [OF b(1)] by blast
  obtain c1 c2 c3 where c: "months ! m = [c1, c2, c3]" using months_bytes [OF b(3)] by blast
  have l: "length v = 29" by (simp add: v a c dec2_def dec4_def)
  have "time_sep v = (no, 3)" using a(2) by (simp add: v a(1))
  moreover have "takeWhile (\<lambda>c. c = 0x20) (drop 4 v) = [0x20]"
    using b(2) by (simp add: v a(1) dec2_def dig_not_space less_mult_imp_div_less)
  ultimately have st: "time_start v = (no, 5)" by (simp add: time_start_def)
  have d: "rd_digits 2 0 v 5 = Done (of_nat d)"
    by (rule rd_digits_2) (use b in \<open>simp_all add: v a(1) dec2_def\<close>)
  have day: "time_day v 5 = Done (rfc822, of_nat d, 8)"
    unfolding time_day_def d by (simp add: rd_def time_short_def l) (simp add: v a(1) dec2_def)
  have "v = (week ! i @ s2b '', '' @ dec2 d @ s2b '' '') @ months ! m @ (s2b '' '' @ dec4 y @ s2b '' '' @
      dec2 h @ s2b '':'' @ dec2 mi @ s2b '':'' @ dec2 s @ s2b '' GMT'')" by (simp add: v)
  then have month: "time_month v 8 = Done (int m)" by (rule month_text [OF b(3)]) (simp add: a dec2_def)
  have "rd_digits 4 0 v 12 = Done (of_nat y)"
    by (rule rd_digits_dec4) (use b in \<open>simp_all add: v a(1) c dec2_def dec4_def\<close>)
  moreover have "expect 0x20 v 11 = Done ()" by (simp add: expect_def rd_def l) (simp add: v a(1) c dec2_def)
  ultimately have year: "time_year rfc822 v 11 = Done (of_nat y, 16)" by (simp add: time_year_def)
  have "v = (week ! i @ s2b '', '' @ dec2 d @ s2b '' '' @ months ! m @ s2b '' '' @ dec4 y) @ s2b '' '' @
      dec2 h @ s2b '':'' @ dec2 mi @ s2b '':'' @ dec2 s @ s2b '' GMT''" by (simp add: v)
  then have clock: "time_clock v 16 = Done (of_nat h, of_nat mi, of_nat s)"
    by (rule time_clock_text) (use b in \<open>simp_all add: a c dec2_def dec4_def\<close>)
  show ?thesis using day month year clock l by (simp add: time_scan_def st time_short_def)
qed

lemma time_scan_rfc850:
  assumes v: "v = week ! i @ s2b '', '' @ dec2 d @ s2b ''-'' @ months ! m @ s2b ''-'' @ dec2 y @ s2b '' '' @
      dec2 h @ s2b '':'' @ dec2 mi @ s2b '':'' @ dec2 s @ s2b '' GMT''"
    and b: "i < 7" "d < 100" "m < 12" "y < 100" "h < 100" "mi < 100" "s < 100"
  shows "time_scan v = time_value (of_nat (if y < 70 then y + 2000 else y + 1900)) (int m) (of_nat d) (of_nat h) (of_nat mi) (of_nat s)"
proof -
  obtain a1 a2 a3 where a: "week ! i = [a1, a2, a3]" "{a1, a2, a3} \<inter> {0x2C, 0x20} = {}" using week_bytes [OF b(1)] by blast
  obtain c1 c2 c3 where c: "months ! m = [c1, c2, c3]" using months_bytes [OF b(3)] by blast
  have l: "length v = 27" by (simp add: v a c dec2_def)
  have "time_sep v = (no, 3)" using a(2) by (simp add: v a(1))
  moreover have "takeWhile (\<lambda>c. c = 0x20) (drop 4 v) = [0x20]"
    using b(2) by (simp add: v a(1) dec2_def dig_not_space less_mult_imp_div_less)
  ultimately have st: "time_start v = (no, 5)" by (simp add: time_start_def)
  have d: "rd_digits 2 0 v 5 = Done (of_nat d)"
    by (rule rd_digits_2) (use b in \<open>simp_all add: v a(1) dec2_def\<close>)
  have day: "time_day v 5 = Done (rfc850, of_nat d, 8)"
    unfolding time_day_def d by (simp add: rd_def time_short_def l) (simp add: v a(1) dec2_def)
  have "v = (week ! i @ s2b '', '' @ dec2 d @ s2b ''-'') @ months ! m @ (s2b ''-'' @ dec2 y @ s2b '' '' @
      dec2 h @ s2b '':'' @ dec2 mi @ s2b '':'' @ dec2 s @ s2b '' GMT'')" by (simp add: v)
  then have month: "time_month v 8 = Done (int m)" by (rule month_text [OF b(3)]) (simp add: a dec2_def)
  have "rd_digits 2 0 v 12 = Done (of_nat y)"
    by (rule rd_digits_2) (use b in \<open>simp_all add: v a(1) c dec2_def\<close>)
  moreover have "expect 0x2D v 11 = Done ()" by (simp add: expect_def rd_def l) (simp add: v a(1) c dec2_def)
  moreover have "(of_nat y < (70 :: 64 word)) \<longleftrightarrow> y < 70" using of_nat_less_word [of y 70] b(4) by simp
  ultimately have year: "time_year rfc850 v 11 = Done (of_nat (if y < 70 then y + 2000 else y + 1900), 14)"
    by (simp add: time_year_def)
  have "v = (week ! i @ s2b '', '' @ dec2 d @ s2b ''-'' @ months ! m @ s2b ''-'' @ dec2 y) @ s2b '' '' @
      dec2 h @ s2b '':'' @ dec2 mi @ s2b '':'' @ dec2 s @ s2b '' GMT''" by (simp add: v)
  then have clock: "time_clock v 14 = Done (of_nat h, of_nat mi, of_nat s)"
    by (rule time_clock_text) (use b in \<open>simp_all add: a c dec2_def\<close>)
  show ?thesis using day month year clock l by (simp add: time_scan_def st time_short_def)
qed

text \<open>
  A printed date is read back: what \<open>ngx_http_time\<close> writes for a time of the years 1970 to 9999, \<open>ngx_http_parse_time\<close>
  turns into that time again.
\<close>

lemma http_time_read_back:
  assumes "unat t < 2 ^ 55" "unat (tm_year (ngx_gmtime t)) < 10000" "buf + 29 < 2 ^ 64"
  shows "\<exists>s. ngx_http_time buf t = Some s \<and> length s = 29 \<and> ngx_http_parse_time s = Some t"
proof -
  define tm where "tm = ngx_gmtime t"
  note g = gmtime_seconds [OF assms(1), folded tm_def]
  have w: "unat (tm_wday tm) < 7" unfolding g(8) by simp
  have m: "1 \<le> unat (tm_mon tm)" "unat (tm_mon tm) \<le> 12" "1 \<le> unat (tm_mday tm)" "unat (tm_mday tm) \<le> 31"
    using g(1) month_days_le [OF g(1)] by (simp_all add: valid_date_def)
  have t: "seconds (unat (tm_year tm)) (unat (tm_mon tm)) (unat (tm_mday tm)) (unat (tm_hour tm)) (unat (tm_min tm)) (unat (tm_sec tm)) = unat t"
    using g(3,7) by (simp add: seconds_def add.assoc)
  have "time_scan (http_date_text tm) = time_value (of_nat (unat (tm_year tm))) (int (unat (tm_mon tm) - 1)) (of_nat (unat (tm_mday tm)))
      (of_nat (unat (tm_hour tm))) (of_nat (unat (tm_min tm))) (of_nat (unat (tm_sec tm)))"
    by (rule time_scan_rfc822 [OF http_date_text_def w]) (use m g assms(2) in \<open>simp_all add: tm_def\<close>)
  also have "\<dots> = Done t"
    using m g assms(2) t by (subst time_value_calendar) (simp_all add: tm_def)
  finally have "ngx_http_parse_time (http_date_text tm) = Some t" by (simp add: ngx_http_parse_time_def)
  then show ?thesis using http_time_text [OF assms] by (simp add: tm_def)
qed

section \<open>Properties\<close>

text \<open>
  C40. \<open>ngx_http_parse_time\<close> reads no byte outside of its text, however short or malformed it is: the early checks of the
  length cover every later read, in all three formats.
\<close>

theorem parse_time_in_bounds: "\<exists>t. ngx_http_parse_time v = Some t"
  using time_scan_in [of v] by (cases "time_scan v") (simp_all add: ngx_http_parse_time_def)

text \<open>
  C23. The days and times that the reader accepts: whatever two digits stand for the day, the hour, the minute and the second, a text of the
  first format with a year from 1970 to 9999 gives the seconds of that moment, counted with the calendar, when there is such
  a day in that month of that year and such a time of the day. So February 29 is taken in leap years only, April 31 never. Day 00 with a time of the
  day is accepted too, and gives the time on the day before the first one of the month. All else gives \<open>NGX_ERROR\<close>.
\<close>

theorem parse_time_valid:
  assumes "i < 7" "m < 12" "1970 \<le> y" "y < 10000" "d < 100" "h < 100" "mi < 100" "s < 100"
  shows "ngx_http_parse_time (week ! i @ s2b '', '' @ dec2 d @ s2b '' '' @ months ! m @ s2b '' '' @ dec4 y @ s2b '' '' @
      dec2 h @ s2b '':'' @ dec2 mi @ s2b '':'' @ dec2 s @ s2b '' GMT'') =
    Some (if \<not> (h < 24 \<and> mi < 60 \<and> s < 60) then int_error
          else if valid_date y (Suc m) d then of_nat (seconds y (Suc m) d h mi s)
          else if d = 0 then of_nat (seconds y (Suc m) 1 h mi s) - 86400
          else int_error)"
  unfolding ngx_http_parse_time_def
  by (subst time_scan_rfc822 [OF refl, of i d m y h mi s])
    (use assms time_value_calendar [of y m d h mi s] time_value_parts_zero [of y m h mi s] in \<open>auto simp: valid_date_def\<close>)

theorem parse_time_valid_witness:
  "week ! 2 @ s2b '', '' @ dec2 29 @ s2b '' '' @ months ! 1 @ s2b '' '' @ dec4 2000 @ s2b '' '' @ dec2 12 @ s2b '':'' @ dec2 34 @ s2b '':'' @
     dec2 56 @ s2b '' GMT'' = s2b ''Tue, 29 Feb 2000 12:34:56 GMT''
   \<and> ngx_http_parse_time (s2b ''Tue, 29 Feb 2000 12:34:56 GMT'') = Some (of_nat (seconds 2000 2 29 12 34 56))
   \<and> ngx_http_parse_time (week ! 3 @ s2b '', '' @ dec2 0 @ s2b '' '' @ months ! 2 @ s2b '' '' @ dec4 2000 @ s2b '' '' @ dec2 12 @ s2b '':'' @
       dec2 34 @ s2b '':'' @ dec2 56 @ s2b '' GMT'') = Some (of_nat (seconds 2000 3 1 12 34 56) - 86400)"
proof -
  have t: "week ! 2 @ s2b '', '' @ dec2 29 @ s2b '' '' @ months ! 1 @ s2b '' '' @ dec4 2000 @ s2b '' '' @ dec2 12 @ s2b '':'' @ dec2 34 @ s2b '':'' @
     dec2 56 @ s2b '' GMT'' = s2b ''Tue, 29 Feb 2000 12:34:56 GMT''"
    by (simp add: week_def months_def dec2_def dec4_def dig_def)
  have "valid_date 2000 (Suc 1) 29" by (simp add: valid_date_def month_days_def leap_year_def)
  then have "ngx_http_parse_time (s2b ''Tue, 29 Feb 2000 12:34:56 GMT'') = Some (of_nat (seconds 2000 2 29 12 34 56))"
    using parse_time_valid [of 2 1 2000 29 12 34 56] unfolding t by (simp add: numeral_2_eq_2)
  moreover have "\<not> valid_date 2000 (Suc 2) 0" by (simp add: valid_date_def)
  ultimately show ?thesis using t parse_time_valid [of 3 2 2000 0 12 34 56] by (simp add: numeral_3_eq_3)
qed

text \<open>Day zero passes the checks: it is the last day of the month before.\<close>

lemma parse_time_day_zero:
  "ngx_http_parse_time (s2b ''Sun, 00 Nov 1994 08:49:37 GMT'') = ngx_http_parse_time (s2b ''Sun, 31 Oct 1994 08:49:37 GMT'')"
  by code_simp

text \<open>The other two formats of the protocol.\<close>

lemma parse_time_formats:
  "ngx_http_parse_time (s2b ''Sun, 06 Nov 1994 08:49:37 GMT'') = Some 784111777"
  "ngx_http_parse_time (s2b ''Sunday, 06-Nov-94 08:49:37 GMT'') = Some 784111777"
  "ngx_http_parse_time (s2b ''Sun Nov  6 08:49:37 1994'') = Some 784111777"
  by code_simp+

text \<open>
  The date of a cookie, with a year of two digits up to 2037, is read back as well: the reader takes the two digits for the years
  1970 to 2069.
\<close>

lemma printf_cookie_time:
  assumes "0 \<notin> set a" "0 \<notin> set b" "unat d < 100" "unat y < 100" "unat h < 100" "unat mi < 100" "unat s < 100"
  shows "printf_text (s2b ''%s, %02d-%s-%02d %02d:%02d:%02d GMT'')
      [Va_mem (a @ [0]), va_tm d, Va_mem (b @ [0]), va_tm y, va_tm h, va_tm mi, va_tm s] =
    Some (a @ s2b '', '' @ dec2 (unat d) @ s2b ''-'' @ b @ s2b ''-'' @ dec2 (unat y) @ s2b '' '' @
      dec2 (unat h) @ s2b '':'' @ dec2 (unat mi) @ s2b '':'' @ dec2 (unat s) @ s2b '' GMT'')"
  using assms
  by (simp add: fmt_begin_def convert_text_def fmt_int_def mem_text_name va_tm_def int_text_def va_int32_scast sless_zero_iff
      unat_scast_small num_text_dec2)

lemma two_digit_year:
  assumes "1970 \<le> y" "y \<le> 2069"
  shows "(if y mod 100 < 70 then y mod 100 + 2000 else y mod 100 + 1900) = (y :: nat)"
proof (cases "y < 2000")
  case True
  then obtain k where "y = 19 * 100 + k" "70 \<le> k" "k < 100" using assms le_Suc_ex [of 1900 y] by auto
  then show ?thesis by (simp only: mod_mult_self3) simp
next
  case False
  then obtain k where "y = 20 * 100 + k" "k < 70" using assms le_Suc_ex [of 2000 y] by auto
  then show ?thesis by (simp only: mod_mult_self3) simp
qed

lemma cookie_time_roundtrip:
  assumes "unat t < 2 ^ 55" "unat (tm_year (ngx_gmtime t)) \<le> 2037" "buf + 27 < 2 ^ 64"
  shows "\<exists>s. ngx_http_cookie_time buf t = Some s \<and> ngx_http_parse_time s = Some t"
proof -
  define tm where "tm = ngx_gmtime t"
  note g = gmtime_seconds [OF assms(1), folded tm_def]
  have w: "unat (tm_wday tm) < 7" unfolding g(8) by simp
  have m: "1 \<le> unat (tm_mon tm)" "unat (tm_mon tm) \<le> 12" "1 \<le> unat (tm_mday tm)" "unat (tm_mday tm) \<le> 31"
    using g(1) month_days_le [OF g(1)] by (simp_all add: valid_date_def)
  have y: "unat (tm_year tm) \<le> 2037" using assms(2) by (simp add: tm_def)
  have "int (unat (tm_year tm)) \<le> 2037" using y by linarith
  then have s: "\<not> 2037 <s tm_year tm" using sint_small32 [of "tm_year tm"] y by (simp add: word_sless_alt)
  have y2: "unat (tm_year tm mod 100) = unat (tm_year tm) mod 100" by (simp add: unat_mod)
  have yy: "(if unat (tm_year tm) mod 100 < 70 then unat (tm_year tm) mod 100 + 2000 else unat (tm_year tm) mod 100 + 1900) = unat (tm_year tm)"
    using two_digit_year [OF g(2)] y by simp
  define text' where "text' = week ! unat (tm_wday tm) @ s2b '', '' @ dec2 (unat (tm_mday tm)) @ s2b ''-'' @ months ! (unat (tm_mon tm) - 1) @
      s2b ''-'' @ dec2 (unat (tm_year tm) mod 100) @ s2b '' '' @ dec2 (unat (tm_hour tm)) @ s2b '':'' @ dec2 (unat (tm_min tm)) @ s2b '':'' @
      dec2 (unat (tm_sec tm)) @ s2b '' GMT''"
  obtain a1 a2 a3 where a: "week ! unat (tm_wday tm) = [a1, a2, a3]" using week_bytes [OF w] by blast
  have "unat (tm_mon tm) - 1 < 12" using m by simp
  then obtain c1 c2 c3 where c: "months ! (unat (tm_mon tm) - 1) = [c1, c2, c3]" using months_bytes by blast
  have len: "length text' = 27" using a c by (simp add: text'_def dec2_def)
  have "printf_text (s2b ''%s, %02d-%s-%02d %02d:%02d:%02d GMT'')
      [va_name week (tm_wday tm), va_tm (tm_mday tm), va_name months (tm_mon tm - 1), va_tm (tm_year tm mod 100),
       va_tm (tm_hour tm), va_tm (tm_min tm), va_tm (tm_sec tm)] = Some text'"
    unfolding va_name_def text'_def unat_pred_month [OF m(1)] y2 [symmetric]
    by (rule printf_cookie_time) (use names_no_zero w m g y2 in auto)
  then have p: "ngx_http_cookie_time buf t = Some text'"
    unfolding ngx_http_cookie_time_def Let_def tm_def [symmetric] using s sprintf_text len assms(3) by simp
  have "time_scan text' = time_value (of_nat (unat (tm_year tm))) (int (unat (tm_mon tm) - 1)) (of_nat (unat (tm_mday tm)))
      (of_nat (unat (tm_hour tm))) (of_nat (unat (tm_min tm))) (of_nat (unat (tm_sec tm)))"
    using time_scan_rfc850 [OF text'_def w] m g unfolding yy by simp
  also have "\<dots> = Done t"
    using m g y by (subst time_value_calendar) (simp_all add: seconds_def add.assoc)
  finally show ?thesis using p by (simp add: ngx_http_parse_time_def)
qed

end
