(* ===== verification/HttpNotModified.thy ===== *)
theory HttpNotModified
  imports HttpTime
begin

text \<open>
  Conditional requests, \<^verbatim>\<open>src/http/modules/ngx_http_not_modified_filter_module.c\<close>: the header filter that answers \<open>If-Modified-Since\<close> with status 304
  and \<open>If-Unmodified-Since\<close> with status 412. It compares the date that the client sends with the modification time of the
  resource, so its correctness rests on the two directions of the conversion of dates.
\<close>

section \<open>Definitions\<close>

text \<open>
  The fields of the request that the filter reads and writes. The headers of the response are the list of the \<open>hash\<close> fields of its table elements; a header
  with hash zero is not sent. The pointers to table elements are indices into the list, \<open>None\<close> being \<open>NULL\<close>.
\<close>

record nm_request =
  is_main :: bool
  out_status :: ngx_uint_t
  status_line_len :: nat
  content_type_len :: nat
  last_modified_time :: "64 word"
  content_length_n :: "64 word"
  allow_ranges :: bool
  out_headers :: "ngx_uint_t list"
  content_length :: "nat option"
  accept_ranges :: "nat option"
  content_encoding :: "nat option"
  if_unmodified_since :: "bytes option"
  if_modified_since :: "bytes option"

datatype ims_mode = IMS_OFF | IMS_EXACT | IMS_BEFORE

text \<open>What the filter does at its end: it calls the next filter, or it finalizes the request with a status.\<close>

datatype nm_call = Next_header_filter nm_request | Finalize_request nm_request ngx_uint_t

definition NGX_HTTP_OK :: ngx_uint_t where "NGX_HTTP_OK = 200"

definition NGX_HTTP_NOT_MODIFIED :: ngx_uint_t where "NGX_HTTP_NOT_MODIFIED = 304"

definition NGX_HTTP_PRECONDITION_FAILED :: ngx_uint_t where "NGX_HTTP_PRECONDITION_FAILED = 412"

definition drop_header :: "nat option \<Rightarrow> nm_request \<Rightarrow> nm_request" where
  "drop_header h r = (case h of None \<Rightarrow> r | Some i \<Rightarrow> r\<lparr>out_headers := (out_headers r)[i := 0]\<rparr>)"

definition ngx_http_clear_content_length :: "nm_request \<Rightarrow> nm_request" where
  "ngx_http_clear_content_length r =
     (drop_header (content_length r) (r\<lparr>content_length_n := -1\<rparr>))\<lparr>content_length := None\<rparr>"

definition ngx_http_clear_accept_ranges :: "nm_request \<Rightarrow> nm_request" where
  "ngx_http_clear_accept_ranges r =
     (drop_header (accept_ranges r) (r\<lparr>allow_ranges := False\<rparr>))\<lparr>accept_ranges := None\<rparr>"

definition ngx_http_test_precondition :: "nm_request \<Rightarrow> bytes \<Rightarrow> nm_call option" where
  "ngx_http_test_precondition r text' =
     (case ngx_http_parse_time text' of
        None \<Rightarrow> None
      | Some iums \<Rightarrow> Some (if last_modified_time r \<le>s iums then Next_header_filter r
                           else Finalize_request r NGX_HTTP_PRECONDITION_FAILED))"

text \<open>The part of the function that turns the response into status 304.\<close>

definition nm_not_modified :: "nm_request \<Rightarrow> nm_request" where
  "nm_not_modified r =
     (let r1 = r\<lparr>out_status := NGX_HTTP_NOT_MODIFIED, status_line_len := 0, content_type_len := 0\<rparr>;
          r2 = ngx_http_clear_accept_ranges (ngx_http_clear_content_length r1)
      in (drop_header (content_encoding r2) r2)\<lparr>content_encoding := None\<rparr>)"

definition ngx_http_test_not_modified :: "ims_mode \<Rightarrow> nm_request \<Rightarrow> bytes \<Rightarrow> nm_call option" where
  "ngx_http_test_not_modified mode r text' =
     (if mode = IMS_OFF then Some (Next_header_filter r)
      else case ngx_http_parse_time text' of
        None \<Rightarrow> None
      | Some ims \<Rightarrow>
          Some (if ims \<noteq> last_modified_time r \<and> (mode = IMS_EXACT \<or> ims <s last_modified_time r) then Next_header_filter r
                else Next_header_filter (nm_not_modified r)))"

definition ngx_http_not_modified_header_filter :: "ims_mode \<Rightarrow> nm_request \<Rightarrow> nm_call option" where
  "ngx_http_not_modified_header_filter mode r =
     (if out_status r \<noteq> NGX_HTTP_OK \<or> \<not> is_main r \<or> last_modified_time r = -1 then Some (Next_header_filter r)
      else case if_unmodified_since r of
        Some text' \<Rightarrow> ngx_http_test_precondition r text'
      | None \<Rightarrow> (case if_modified_since r of
          Some text' \<Rightarrow> ngx_http_test_not_modified mode r text'
        | None \<Rightarrow> Some (Next_header_filter r)))"

section \<open>The response without a body\<close>

lemma drop_header_out [simp]: "out_status (drop_header h r) = out_status r"
  by (simp add: drop_header_def split: option.splits)

lemma drop_header_hash:
  "out_headers (drop_header h r) = (case h of None \<Rightarrow> out_headers r | Some i \<Rightarrow> (out_headers r)[i := 0])"
  by (simp add: drop_header_def split: option.splits)

lemma drop_header_ptrs [simp]:
  "content_length (drop_header h r) = content_length r" "accept_ranges (drop_header h r) = accept_ranges r"
  "content_encoding (drop_header h r) = content_encoding r"
  by (simp_all add: drop_header_def split: option.splits)

lemma nth_list_update_less: "j < length xs \<Longrightarrow> xs[i := x] ! j = (if i = j then x else xs ! j)"
  by auto

lemma drop_header_length [simp]: "length (out_headers (drop_header h r)) = length (out_headers r)"
  by (simp add: drop_header_def split: option.splits)

text \<open>
  A response of status 304 has no headers of a body: the three headers that a pointer leads to have hash zero, and the others are
  as before.
\<close>

lemma nm_not_modified_headers:
  "out_headers (nm_not_modified r) =
     map (\<lambda>j. if Some j \<in> {content_length r, accept_ranges r, content_encoding r} then 0 else out_headers r ! j)
       [0..<length (out_headers r)]"
  by (rule nth_equalityI)
    (auto simp: nm_not_modified_def ngx_http_clear_accept_ranges_def ngx_http_clear_content_length_def Let_def
      drop_header_hash nth_list_update_less split: option.splits)

lemma nm_not_modified_response:
  "nm_not_modified r =
     r\<lparr>out_status := 304, status_line_len := 0, content_type_len := 0, content_length_n := -1, allow_ranges := False,
       out_headers := map (\<lambda>j. if Some j \<in> {content_length r, accept_ranges r, content_encoding r} then 0 else out_headers r ! j)
         [0..<length (out_headers r)],
       content_length := None, accept_ranges := None, content_encoding := None\<rparr>"
  unfolding nm_not_modified_headers [symmetric]
  by (simp add: nm_not_modified_def ngx_http_clear_accept_ranges_def ngx_http_clear_content_length_def Let_def
      drop_header_def NGX_HTTP_NOT_MODIFIED_def split: option.splits)

section \<open>Properties\<close>

lemma sless_eq_unat:
  assumes "unat (a :: 64 word) < 2 ^ 63" "unat (b :: 64 word) < 2 ^ 63"
  shows "a \<le>s b \<longleftrightarrow> unat a \<le> unat b"
  using sless_unat [OF assms(2,1)] by (simp add: not_less [symmetric] signed.not_less [symmetric])

text \<open>
  C18. Conditional requests do what the protocol says for a client that keeps the date it was sent. Let \<open>s\<close> be the text that the server
  printed for the modification time \<open>t\<close>, and let a main request have a response of status 200 with a modification time that is
  not negative. A request with \<open>If-Unmodified-Since: s\<close>, whatever \<open>If-Modified-Since\<close> it has and in every mode, goes on unchanged when the
  resource has not become newer, and is finalized with status 412 when it has. A request with \<open>If-Modified-Since: s\<close> alone goes on with status 304
  when the mode is \<open>exact\<close> and the time is \<open>t\<close>, or the mode is \<open>before\<close> and the time is not above \<open>t\<close>: then status line, content
  type, content length, ranges and encoding are cleared, the headers they stand for are not sent, and all else is as it was. In the mode \<open>off\<close> and
  in all other cases it goes on unchanged.
\<close>

theorem conditional_requests:
  assumes "unat t < 2 ^ 55" "unat (tm_year (ngx_gmtime t)) < 10000" "buf + 29 < 2 ^ 64" and s: "ngx_http_time buf t = Some s"
    and r: "out_status r = 200" "is_main r" "unat (last_modified_time r) < 2 ^ 63"
  shows "(if_unmodified_since r = Some s \<longrightarrow>
      ngx_http_not_modified_header_filter mode r =
        Some (if unat (last_modified_time r) \<le> unat t then Next_header_filter r else Finalize_request r 412))
    \<and> (if_unmodified_since r = None \<and> if_modified_since r = Some s \<longrightarrow>
      ngx_http_not_modified_header_filter mode r = Some (Next_header_filter
        (if mode = IMS_EXACT \<and> last_modified_time r = t \<or> mode = IMS_BEFORE \<and> unat (last_modified_time r) \<le> unat t
         then r\<lparr>out_status := 304, status_line_len := 0, content_type_len := 0, content_length_n := -1, allow_ranges := False,
           out_headers := map (\<lambda>j. if Some j \<in> {content_length r, accept_ranges r, content_encoding r} then 0 else out_headers r ! j)
             [0..<length (out_headers r)],
           content_length := None, accept_ranges := None, content_encoding := None\<rparr>
         else r)))"
proof -
  have ok: "out_status r = NGX_HTTP_OK" using r(1) by (simp add: NGX_HTTP_OK_def)
  have p: "ngx_http_parse_time s = Some t" using http_time_read_back [OF assms(1-3)] s by auto
  have n1: "last_modified_time r \<noteq> -1" using r(3) by (auto simp: unsigned_minus_1_eq_mask mask_eq_exp_minus_1)
  have t: "unat t < 2 ^ 63" using assms(1) by simp
  note le = sless_eq_unat [OF r(3) t] and lt = sless_unat [OF t r(3)]
  have eq: "last_modified_time r = t \<longleftrightarrow> unat (last_modified_time r) = unat t" by (simp add: word_unat_eq_iff)
  have "ngx_http_not_modified_header_filter mode r =
      Some (if unat (last_modified_time r) \<le> unat t then Next_header_filter r else Finalize_request r 412)"
    if "if_unmodified_since r = Some s"
    using that r(2) ok n1
    by (simp add: ngx_http_not_modified_header_filter_def ngx_http_test_precondition_def NGX_HTTP_PRECONDITION_FAILED_def p le)
  moreover have "ngx_http_not_modified_header_filter mode r = Some (Next_header_filter
      (if mode = IMS_EXACT \<and> last_modified_time r = t \<or> mode = IMS_BEFORE \<and> unat (last_modified_time r) \<le> unat t
       then nm_not_modified r else r))"
    if "if_unmodified_since r = None" "if_modified_since r = Some s"
    using that r(2) ok n1 lt eq
    by (cases mode) (auto simp: ngx_http_not_modified_header_filter_def ngx_http_test_not_modified_def p)
  ultimately show ?thesis unfolding nm_not_modified_response by blast
qed

text \<open>The request of the example asks for a resource of November 6, 1994.\<close>

definition nm_example :: "64 word \<Rightarrow> bytes \<Rightarrow> nm_request" where
  "nm_example lm date = \<lparr>is_main = True, out_status = NGX_HTTP_OK, status_line_len = 0, content_type_len = 9, last_modified_time = lm,
     content_length_n = 5, allow_ranges = True, out_headers = [1, 1], content_length = Some 1, accept_ranges = None,
     content_encoding = None, if_unmodified_since = None, if_modified_since = Some date\<rparr>"

theorem conditional_requests_witness:
  "\<exists>s. ngx_http_time 0 784111777 = Some s
     \<and> ngx_http_not_modified_header_filter IMS_EXACT (nm_example 784111777 s)
       = Some (Next_header_filter ((nm_example 784111777 s)\<lparr>out_status := 304, content_type_len := 0, content_length_n := -1,
           allow_ranges := False, out_headers := [1, 0], content_length := None\<rparr>))
     \<and> ngx_http_not_modified_header_filter IMS_EXACT (nm_example 784111778 s) = Some (Next_header_filter (nm_example 784111778 s))"
proof -
  have t: "unat (784111777 :: 64 word) < 2 ^ 55" "unat (tm_year (ngx_gmtime 784111777)) < 10000" "0 + 29 < (2 ^ 64 :: nat)"
    by (simp, code_simp, simp)
  obtain s where s: "ngx_http_time 0 784111777 = Some s" using http_time_read_back [OF t] by auto
  have "unat (784111778 :: 64 word) < 2 ^ 63" "unat (784111777 :: 64 word) < 2 ^ 63" by simp_all
  then show ?thesis
    using s conditional_requests [OF t s, of "nm_example 784111777 s" IMS_EXACT] conditional_requests [OF t s, of "nm_example 784111778 s" IMS_EXACT]
    by (simp add: nm_example_def NGX_HTTP_OK_def upt_rec)
qed

end
