(* ===== verification/Spec2Isabelle.thy ===== *)
theory Spec2Isabelle
  imports NgxParse NgxRbtree HttpLocations NgxCodec HttpComplexUri HttpHeaderLine HttpStatusLine HttpArgs AccessControl HttpUpstream HttpGeoText HttpNotModified
begin

text \<open>
  Verification development for the C part of Amoeba: the web server nginx 1.2.9 under
  \<^verbatim>\<open>src/nginx129/nginx-129/src\<close> with the project's own access control module. File names below
  are relative to that directory.

  \<^bold>\<open>The program.\<close> A request line and header lines are read from a connection by incremental
  parsers (\<^verbatim>\<open>http/ngx_http_parse.c\<close>); the URI is normalised and its path is looked up in a tree of
  static locations built from the configuration (\<^verbatim>\<open>http/ngx_http.c\<close>,
  \<^verbatim>\<open>http/ngx_http_core_module.c\<close>); in the preaccess phase the access control module
  (\<^verbatim>\<open>http/modules/ngx_http_access_control_module.c\<close>) checks the service id and the key of the
  request against tables read from a database and limits the rate of each key in a zone of
  shared memory. A request may be passed to a group of upstream servers, which are chosen in turn by weight
  (\<^verbatim>\<open>http/ngx_http_upstream_round_robin.c\<close>); variables may depend on the address of the client
  (\<^verbatim>\<open>http/modules/ngx_http_geo_module.c\<close>); a conditional request is answered by the dates of the resource
  (\<^verbatim>\<open>http/modules/ngx_http_not_modified_filter_module.c\<close>). All parts rest on the core library (\<^verbatim>\<open>core/ngx_string.c\<close>, \<^verbatim>\<open>core/ngx_queue.c\<close>,
  \<^verbatim>\<open>core/ngx_rbtree.c\<close>, \<^verbatim>\<open>core/ngx_radix_tree.c\<close>, \<^verbatim>\<open>core/ngx_inet.c\<close>, \<^verbatim>\<open>core/ngx_times.c\<close>, \<^verbatim>\<open>core/ngx_parse.c\<close>).

  \<^bold>\<open>Conventions.\<close> \<open>Prelude\<close> has the types: bytes are 8-bit words, \<open>ngx_int_t\<close> and \<open>ngx_uint_t\<close> are
  64-bit words with C's wrap-around (signed comparison is written \<open><s\<close>), memory is a list of bytes
  and a pointer into it an offset. A function that can read outside its memory, follow a null
  pointer or not return is of option type, and \<open>None\<close> is that failure; return codes are the
  values of \<open>ngx_rc\<close>. What the code gets from elsewhere (the slab allocator, the clock, the rows
  of the database, the reader of request bodies, the results of event functions) is an argument.

  \<^bold>\<open>Theories, from the core to the modules.\<close>
  \<^item> \<open>NgxNumber\<close>: \<open>ngx_atoi\<close> and its relatives, \<open>ngx_hextoi\<close>, the number printer of \<open>ngx_vslprintf\<close>;
    the decimal value or an error, the round trip of printing and reading, and the overflow that
    the sign test accepts.
  \<^item> \<open>NgxPrintf\<close>: \<open>ngx_vslprintf\<close> with all its conversions, and its callers; \<open>printf_text\<close> is the text of a format
    without the limit of the buffer, with the code's own reading of the conversions, and the printer writes the part of it that
    fits into the buffer, never more; what the conversions mean is shown for the common ones in \<open>printf_conversions\<close>.
  \<^item> \<open>NgxTimes\<close>: \<open>ngx_gmtime\<close> on 64 bit words and the printed dates (\<^verbatim>\<open>core/ngx_times.c\<close>); the reference is the Gregorian calendar
    counted out day by day.
  \<^item> \<open>NgxInet\<close>: addresses and networks (\<^verbatim>\<open>core/ngx_inet.c\<close>); printed addresses are read back, the reader of IPv6 addresses
    stays in its array, networks have prefix masks, and exactly which texts of IPv4 networks are refused.
  \<^item> \<open>NgxString\<close>: comparison, copying, lowering, hashing and substring search of
    \<^verbatim>\<open>core/ngx_string.c\<close>; the four searches return the first occurrence within readable memory.
  \<^item> \<open>NgxCodec\<close>: base64, URI and HTML escaping, UTF-8, hex dump; the locale \<open>codec\<close> states
    what an encoder and a decoder promise each other, with round trips, output lengths and the
    in-place bound of unescaping as its consequences.
  \<^item> \<open>NgxParse\<close>: sizes, offsets and times of directives (\<^verbatim>\<open>core/ngx_parse.c\<close>).
  \<^item> \<open>NgxSort\<close>: \<open>ngx_sort\<close> and the comparison functions; the locale \<open>comparison\<close> gives that a stable
    insertion sort with a comparison that orders by a key is \<open>sort_key\<close>.
  \<^item> \<open>NgxQueue\<close>: the intrusive ring of \<^verbatim>\<open>core/ngx_queue.h\<close> on an explicit store of links; the locale
    \<open>queue_ops\<close> is the interface the limiter uses, \<open>queue_order\<close> that of \<open>ngx_queue_sort\<close>; every
    operation refines one on lists.
  \<^item> \<open>NgxRbtree\<close>: \<^verbatim>\<open>core/ngx_rbtree.c\<close>; a node with its parent pointers is a zipper, so each rotation
    and each case of the two fixups is a step on zippers. Insertion and deletion keep the
    red-black invariant and the order; the locale \<open>tree_order\<close> is the contract of an insertion
    callback, interpreted for plain keys, timers, string nodes and the limiter's nodes.
  \<^item> \<open>NgxRadix\<close>: the radix trees of \<^verbatim>\<open>core/ngx_radix_tree.c\<close> for keys of 32 and of 128 bits, with parent pointers, free list
    and preallocation; the locale \<open>network_table\<close> is a table of networks with longest match, interpreted for both key lengths.
  \<^item> \<open>HttpScan\<close>, \<open>HttpRequestLine\<close>, \<open>HttpHeaderLine\<close>, \<open>HttpStatusLine\<close>, \<open>HttpComplexUri\<close>: the state
    machines of \<^verbatim>\<open>http/ngx_http_parse.c\<close>, one definition per state; chunked input gives the result
    of the whole input, accepted lines have ordered and bounded pointers, accepted paths are
    normalised and fit the buffer of the caller.
  \<^item> \<open>HttpArgs\<close>: unsafe URIs, \<open>ngx_http_split_args\<close>, \<open>ngx_http_arg\<close>, multi-header lines.
  \<^item> \<open>HttpLocations\<close>: sorting, joining and listing of locations, the tree and the search in it; the
    search returns what the configuration says (exact, redirect or longest inclusive location).
  \<^item> \<open>HttpTime\<close>: \<open>ngx_http_parse_time\<close>, every byte read through one function; no read leaves the text, exactly the dates of the calendar
    and day 00 are accepted, and printed dates are read back.
  \<^item> \<open>HttpNotModified\<close>: the header filter of conditional requests, composed with printing and reading of dates.
  \<^item> \<open>HttpUpstream\<close>: weighted round robin over main and backup servers, failures and retries; the choice is fair, no server is
    tried twice, \<open>NGX_BUSY\<close> means that none is live. Servers are ordered by an interpretation of \<open>comparison\<close>.
  \<^item> \<open>HttpGeo\<close>, \<open>HttpGeoRange\<close>, \<open>HttpGeoText\<close>: the \<open>geo\<close> block with networks, on the interpretations of \<open>network_table\<close>, and with
    ranges of addresses; lookups give what the directives say. \<open>HttpGeoText\<close> reads the texts of the directives with
    \<open>NgxInet\<close>, so the parameter \<open>cidr_value\<close> of \<open>HttpGeo\<close> has its definition there.
  \<^item> \<open>AccessKeys\<close>: the tables of the access control module and \<open>ngx_http_limit_init_keypool\<close>.
  \<^item> \<open>AccessLimit\<close>: zone, lookup, accounting and expiry of the limiter; \<open>zone\<close> is the invariant that
    ties the tree to the queue. Lookup always returns and keeps it; between any two times at most the configured
    number of requests and one more is admitted; a request a second after the last one is admitted.
  \<^item> \<open>AccessRequest\<close>: the checks of a request; what passes names a row of the database.
  \<^item> \<open>AccessConf\<close>: the directive, shared memory zones, creation and merging of configurations; the
    ranges of burst and rate that the limiter needs.
  \<^item> \<open>AccessControl\<close>: the handler; what it lets go on was checked by every limit, and the counts of
    the nodes balance.

  \<^bold>\<open>Bounds and fuel.\<close> No definition uses fuel: the loops are structural recursions or have a
  measure (the bytes left, the length of a path in a tree, \<open>3 - n\<close> in the expiry); the loops over address ranges, which may
  not end, are partial functions, and their theorems say when they return. The theorems on
  the limiter ask that \<open>maxtps * T\<close> and \<open>burst * maxtps\<close> stay below 2 to the 63; with the caps that
  \<open>AccessConf\<close> shows (100000 requests per second, burst 100) this holds for intervals of two years.
  The theorem on the checks asks for keys of one length and that the byte behind each compared string does not occur in the other
  string, which the code does not guarantee; \<open>access_key_memory_read\<close> shows what happens without it. The weights of upstream servers
  are 64-bit words; the choice is fair when the sum of the weights times the number of addresses is below 2 to the 63, and
  \<open>upstream_weight_overflow\<close> shows that it is not beyond. Ranges
  of the \<open>geo\<close> block have to end below 255.255.0.0; above, the loop of the code does not
  end. The calendar is shown for times below 2 to the 55, where the year fits into 31 bits; the printed dates for years of four
  digits. IPv6 addresses that end in 255.255.255.255 are excluded from the round trip, as the code refuses some of them.

  \<^bold>\<open>Not modelled.\<close> The event loop, connections, buffers and filters, the protocols spoken to upstream servers, the
  file cache, the mail proxy and all operating system layers, because they consist of I/O; the
  Oracle and MySQL clients, whose results are arguments; the pool and slab allocators; hash tables; socket
  addresses, URLs and the resolver; the cache of the current time; the configuration file reader, the binary base, the includes and the proxies of the \<open>geo\<close> block. Several workers on one zone
  are modelled as a sequence of calls, as the zone's mutex orders them. A floating point argument of the printer is
  given by the values that the code computes from it.
\<close>

end
